(* ===== verification/Prelude.thy ===== *)
theory Prelude
  imports Main "HOL-Library.Word" "HOL-Library.Monad_Syntax" "HOL-Library.Signed_Division"
    "HOL-Library.Multiset"
begin

unbundle bit_operations_syntax

text \<open>
  Vocabulary shared by every component of the simulator: the widths of the C integers, the
  error numbers, the loop combinator for "for each index" loops that may hit undefined
  behaviour, and the generic facts on lists and words the component proofs use.

  Conventions of the whole development:
  \<^item> \<open>'a option\<close> is the outcome of a piece of C code: \<open>None\<close> is undefined behaviour (a read or
    write outside an object, a shift by too many bits, a division by zero), \<open>Some\<close> is a
    defined outcome;
  \<^item> a function that returns 0 or an error number returns a \<open>retcode\<close>;
  \<^item> a function that returns a value or fails with \<open>errno\<close> set returns \<open>errno + 'a\<close>;
  \<^item> \<open>size_t\<close>, \<open>ssize_t\<close> and pointers are 64 bits wide (the code prints \<open>size_t\<close> with
    \<open>%lu\<close>) and the host is little endian.
\<close>

section \<open>Types\<close>

type_synonym u8 = "8 word"
type_synonym u16 = "16 word"
type_synonym u32 = "32 word"
type_synonym u64 = "64 word"

text \<open>The error numbers the program uses.\<close>

datatype errno =
    EINVAL | ENOTSUP | EBUSY | EADDRNOTAVAIL | EFAULT | EOVERFLOW | EAGAIN
  | ENOMEM | ENOBUFS | EDEADLK | ENOSPC

datatype retcode = OK | E errno

section \<open>Collections of facts\<close>

named_theorems handler_defs \<open>definitions of the cases of the execute switch\<close>
named_theorems wf_intros \<open>preservation of the well-formedness invariants\<close>
named_theorems mem_simps \<open>how the parts of a memory answer after a store\<close>

section \<open>Loops over an index that may hit undefined behaviour\<close>

text \<open>
  \<open>for (i = 0; i < n; ++i) body(i)\<close> is \<open>mfold body [0..<n] s\<close>.
\<close>

fun mfold :: "('i \<Rightarrow> 's \<Rightarrow> 's option) \<Rightarrow> 'i list \<Rightarrow> 's \<Rightarrow> 's option" where
  "mfold f [] s = Some s"
| "mfold f (i # is) s = Option.bind (f i s) (mfold f is)"

lemma mfold_append:
  "mfold f (is @ js) s = Option.bind (mfold f is s) (mfold f js)"
proof (induction "is" arbitrary: s)
  case (Cons i "is")
  show ?case by (cases "f i s") (simp_all add: Cons.IH)
qed simp

text \<open>An invariant kept by the body is kept by the loop.\<close>

lemma mfold_invariant:
  assumes "mfold f is s = Some s'" and "P s"
    and "\<And>i s s'. i \<in> set is \<Longrightarrow> P s \<Longrightarrow> f i s = Some s' \<Longrightarrow> P s'"
  shows "P s'"
  using assms
proof (induction "is" arbitrary: s)
  case (Cons i "is")
  from Cons.prems(1) obtain t where t: "f i s = Some t" "mfold f is t = Some s'"
    by (auto simp: Option.bind_eq_Some_conv)
  from t(1) Cons.prems(2,3) have "P t" by auto
  with t(2) Cons.prems(3) show ?case by (intro Cons.IH) auto
qed simp

text \<open>A body that is defined under its invariant makes the loop defined.\<close>

lemma mfold_defined:
  assumes "P s" and "\<And>i s. i \<in> set is \<Longrightarrow> P s \<Longrightarrow> \<exists>s'. f i s = Some s' \<and> P s'"
  shows "\<exists>s'. mfold f is s = Some s' \<and> P s'"
  using assms
proof (induction "is" arbitrary: s)
  case (Cons i "is")
  then obtain t where "f i s = Some t" "P t" by (meson list.set_intros(1))
  with Cons show ?case by auto
qed simp

section \<open>Lists\<close>

lemma add_mod_inj:
  fixes k j n m :: nat
  assumes "k < n" "j < n"
  shows "(m + k) mod n = (m + j) mod n \<longleftrightarrow> k = j"
proof -
  have *: "a = b" if "a \<le> b" "b < n" "(m + a) mod n = (m + b) mod n" for a b
  proof -
    from that have "n dvd (m + b) - (m + a)"
      by (metis add_le_cancel_left mod_eq_dvd_iff_nat)
    then have "n dvd b - a" by simp
    with that show ?thesis by (meson dvd_imp_le le_less_trans less_imp_diff_less not_less zero_less_diff le_antisym)
  qed
  then show ?thesis using assms by (metis nat_le_linear)
qed

lemma rotate_list_update:
  assumes "k < length xs"
  shows "rotate m (xs[(m + k) mod length xs := v]) = (rotate m xs)[k := v]"
proof (rule nth_equalityI)
  fix j assume "j < length (rotate m (xs[(m + k) mod length xs := v]))"
  then have j: "j < length xs" by simp
  then have "(m + j) mod length xs < length xs" by (cases "xs = []") simp_all
  then show "rotate m (xs[(m + k) mod length xs := v]) ! j = (rotate m xs)[k := v] ! j"
    using assms j add_mod_inj [OF assms j, of m]
    by (auto simp add: nth_rotate nth_list_update add.commute)
qed simp

end
