(* ===== verification/Arbiter.thy ===== *)
theory Arbiter
  imports Prelude
begin

text \<open>
  The contract of the bus arbiter of the shared-memory simulation (\<open>Mem_busacc\<close>,
  \<open>Mem_busclr\<close> in mem.c) as its clients see it: a first-come first-served queue of waiting
  processors and a flag that says whether the bus was already given away in this cycle.
  The client-level facts (one grant per cycle, no overtaking, bounded waiting) are proved here
  once, from the contract; \<open>Bus\<close> shows that the ring buffer of the code meets it.
\<close>

section \<open>What the clients do with an arbiter\<close>

text \<open>Join the end of the queue unless already waiting.\<close>

definition join_queue :: "nat \<Rightarrow> nat list \<Rightarrow> nat list" where
  "join_queue p q = (if p \<in> set q then q else q @ [p])"

text \<open>The requests of one cycle, in order: who was granted the bus, and the state after.\<close>

fun serve :: "(nat \<Rightarrow> 's \<Rightarrow> bool \<times> 's) \<Rightarrow> nat list \<Rightarrow> 's \<Rightarrow> nat list \<times> 's" where
  "serve acc [] s = ([], s)"
| "serve acc (p # ps) s =
     (let (g, t) = acc p s; (gs, u) = serve acc ps t in ((if g then p # gs else gs), u))"

text \<open>A run of cycles: each clears the bus and then serves its requests.\<close>

fun serve_cycles ::
  "(nat \<Rightarrow> 's \<Rightarrow> bool \<times> 's) \<Rightarrow> ('s \<Rightarrow> 's) \<Rightarrow> nat list list \<Rightarrow> 's \<Rightarrow> nat list list" where
  "serve_cycles acc clr [] s = []"
| "serve_cycles acc clr (ps # rs) s =
     (let (g, t) = serve acc ps (clr s) in g # serve_cycles acc clr rs t)"

text \<open>
  The requests of real processors: each asks at most once per cycle, and one that was not
  served asks again in the next cycle (a stalled memory instruction is executed again).
\<close>

fun insistent ::
  "(nat \<Rightarrow> 's \<Rightarrow> bool \<times> 's) \<Rightarrow> ('s \<Rightarrow> 's) \<Rightarrow> ('s \<Rightarrow> nat list) \<Rightarrow> nat \<Rightarrow> nat list list \<Rightarrow> 's \<Rightarrow> bool" where
  "insistent acc clr queue n [] s = True"
| "insistent acc clr queue n (ps # rs) s =
     (distinct ps \<and> (\<forall>p\<in>set ps. p < n) \<and> (\<forall>p\<in>set (queue s). p \<in> set ps) \<and>
      insistent acc clr queue n rs (snd (serve acc ps (clr s))))"

text \<open>How many processors are ahead of \<open>p\<close>.\<close>

definition ahead :: "nat \<Rightarrow> nat list \<Rightarrow> nat" where
  "ahead p q = length (takeWhile (\<lambda>x. x \<noteq> p) q)"

section \<open>Facts on queues\<close>

lemma join_queue_set [simp]: "set (join_queue p q) = insert p (set q)"
  by (auto simp: join_queue_def)

lemma join_queue_distinct [simp]: "distinct (join_queue p q) = distinct q"
  by (auto simp: join_queue_def)

lemma join_queue_Cons: "p \<noteq> h \<Longrightarrow> join_queue p (h # t) = h # join_queue p t"
  by (auto simp: join_queue_def)

lemma fold_join_set [simp]: "set (fold join_queue ps q) = set ps \<union> set q"
  by (induction ps arbitrary: q) auto

lemma fold_join_distinct [simp]: "distinct (fold join_queue ps q) = distinct q"
  by (induction ps arbitrary: q) auto

lemma fold_join_prefix: "\<exists>r. fold join_queue ps q = q @ r"
proof (induction ps arbitrary: q)
  case (Cons p ps)
  obtain r where "fold join_queue ps (join_queue p q) = join_queue p q @ r"
    using Cons by blast
  then show ?case by (auto simp: join_queue_def [of p q] split: if_splits)
qed simp

lemma ahead_append: "p \<in> set q \<Longrightarrow> ahead p (q @ r) = ahead p q"
  by (induction q) (auto simp: ahead_def)

lemma ahead_fold_join: "p \<in> set q \<Longrightarrow> ahead p (fold join_queue ps q) = ahead p q"
  using fold_join_prefix [of ps q] ahead_append by metis

lemma ahead_less_length: "p \<in> set q \<Longrightarrow> ahead p q < length q"
  by (induction q) (auto simp: ahead_def)

lemma ahead_Cons: "p \<noteq> h \<Longrightarrow> ahead p (h # t) = Suc (ahead p t)"
  by (simp add: ahead_def)

lemma distinct_length_bound:
  assumes "distinct q" "\<forall>p\<in>set q. p < n"
  shows "length q \<le> n"
proof -
  from assms have "card (set q) \<le> card {..<n}" by (intro card_mono) auto
  with assms show ?thesis by (simp add: distinct_card)
qed

section \<open>The contract\<close>

locale fifo_arbiter =
  fixes acc :: "nat \<Rightarrow> 's \<Rightarrow> bool \<times> 's"
    and clr :: "'s \<Rightarrow> 's"
    and queue :: "'s \<Rightarrow> nat list"
    and busy :: "'s \<Rightarrow> bool"
    and procs :: "'s \<Rightarrow> nat"
    and inv :: "'s \<Rightarrow> bool"
  assumes acc_grant: "inv s \<Longrightarrow> p < procs s \<Longrightarrow>
      fst (acc p s) = (\<not> busy s \<and> hd (join_queue p (queue s)) = p)"
    and acc_queue: "inv s \<Longrightarrow> p < procs s \<Longrightarrow>
      queue (snd (acc p s)) = (if fst (acc p s) then tl (join_queue p (queue s))
                               else join_queue p (queue s))"
    and acc_busy: "inv s \<Longrightarrow> p < procs s \<Longrightarrow> busy (snd (acc p s)) = (busy s \<or> fst (acc p s))"
    and acc_procs: "inv s \<Longrightarrow> p < procs s \<Longrightarrow> procs (snd (acc p s)) = procs s"
    and acc_inv: "inv s \<Longrightarrow> p < procs s \<Longrightarrow> inv (snd (acc p s))"
    and clr_queue: "queue (clr s) = queue s"
    and clr_busy: "\<not> busy (clr s)"
    and clr_procs: "procs (clr s) = procs s"
    and clr_inv: "inv s \<Longrightarrow> inv (clr s)"
    and queue_distinct: "inv s \<Longrightarrow> distinct (queue s)"
    and queue_procs: "inv s \<Longrightarrow> p \<in> set (queue s) \<Longrightarrow> p < procs s"
begin

lemmas laws = acc_grant acc_queue acc_busy acc_procs acc_inv clr_queue clr_busy clr_procs clr_inv

lemma serve_inv:
  "inv s \<Longrightarrow> \<forall>p\<in>set ps. p < procs s \<Longrightarrow>
     inv (snd (serve acc ps s)) \<and> procs (snd (serve acc ps s)) = procs s"
proof (induction ps arbitrary: s)
  case (Cons p ps)
  obtain g t where gt: "acc p s = (g, t)" by fastforce
  with Cons.prems acc_inv [of s p] acc_procs [of s p] have "inv t" "procs t = procs s" by auto
  with Cons.IH [of t] Cons.prems gt show ?case by (auto split: prod.splits)
qed simp

lemma serve_busy:
  "inv s \<Longrightarrow> \<forall>p\<in>set ps. p < procs s \<Longrightarrow> busy s \<Longrightarrow>
     fst (serve acc ps s) = [] \<and> queue (snd (serve acc ps s)) = fold join_queue ps (queue s)"
proof (induction ps arbitrary: s)
  case (Cons p ps)
  obtain g t where gt: "acc p s = (g, t)" by fastforce
  from Cons.prems have p: "p < procs s" by simp
  have "\<not> g" "busy t" "inv t" "procs t = procs s" "queue t = join_queue p (queue s)"
    using laws(1-5) [OF Cons.prems(1) p] Cons.prems(3) gt by auto
  with Cons.IH [of t] Cons.prems gt show ?case by (auto split: prod.splits)
qed simp

text \<open>The bus is given away at most once between two clears.\<close>

lemma serve_one_grant:
  "inv s \<Longrightarrow> \<forall>p\<in>set ps. p < procs s \<Longrightarrow> length (fst (serve acc ps s)) \<le> 1"
proof (induction ps arbitrary: s)
  case (Cons p ps)
  obtain g t where gt: "acc p s = (g, t)" by fastforce
  from Cons.prems have p: "p < procs s" by simp
  have t: "busy t = (busy s \<or> g)" "inv t" "procs t = procs s"
    using laws(1-5) [OF Cons.prems(1) p] gt by auto
  with Cons.IH [of t] serve_busy [of t ps] Cons.prems gt show ?case
    by (cases g) (auto split: prod.splits)
qed simp

text \<open>When somebody is waiting, the head of the queue is served, and nobody else.\<close>

lemma serve_head:
  "inv s \<Longrightarrow> \<forall>p\<in>set ps. p < procs s \<Longrightarrow> distinct ps \<Longrightarrow> \<not> busy s \<Longrightarrow>
     queue s = h # q \<Longrightarrow> h \<in> set ps \<Longrightarrow>
     fst (serve acc ps s) = [h] \<and>
     queue (snd (serve acc ps s)) = fold join_queue (remove1 h ps) q"
proof (induction ps arbitrary: s q)
  case (Cons p ps)
  obtain g t where gt: "acc p s = (g, t)" by fastforce
  from Cons.prems have p: "p < procs s" by simp
  note l = laws(1-5) [OF Cons.prems(1) p]
  show ?case
  proof (cases "p = h")
    case True
    then have "g" "busy t" "inv t" "procs t = procs s" "queue t = q"
      using l Cons.prems gt by (auto simp: join_queue_def)
    with serve_busy [of t ps] Cons.prems gt True show ?thesis
      by (auto split: prod.splits)
  next
    case False
    then have t: "\<not> g" "\<not> busy t" "inv t" "procs t = procs s" "queue t = h # join_queue p q"
      using l Cons.prems gt by (auto simp: join_queue_Cons)
    with Cons.IH [of t "join_queue p q"] Cons.prems gt False show ?thesis
      by (auto split: prod.splits)
  qed
qed simp

text \<open>When nobody is waiting, the first processor to ask is served at once.\<close>

lemma serve_empty:
  assumes "inv s" "\<forall>x\<in>set (p # ps). x < procs s" "\<not> busy s" "queue s = []"
  shows "fst (serve acc (p # ps) s) = [p] \<and>
    queue (snd (serve acc (p # ps) s)) = fold join_queue ps []"
proof -
  obtain g t where gt: "acc p s = (g, t)" by fastforce
  from assms have p: "p < procs s" by simp
  have "g" "busy t" "inv t" "procs t = procs s" "queue t = []"
    using laws(1-5) [OF assms(1) p] assms gt by (auto simp: join_queue_def)
  with serve_busy [of t ps] assms gt show ?thesis by (auto split: prod.splits)
qed

text \<open>Bounded waiting: with \<open>k\<close> processors ahead, the bus is granted in the \<open>k\<close>-th cycle.\<close>

lemma waiting_is_bounded:
  "inv s \<Longrightarrow> p \<in> set (queue s) \<Longrightarrow> insistent acc clr queue (procs s) rs s \<Longrightarrow>
     ahead p (queue s) < length rs \<Longrightarrow>
     serve_cycles acc clr rs s ! ahead p (queue s) = [p]"
proof (induction rs arbitrary: s)
  case (Cons ps rs)
  obtain h q where hq: "queue s = h # q" using Cons.prems(2) by (cases "queue s") auto
  let ?t = "snd (serve acc ps (clr s))"
  have ps: "\<forall>x\<in>set ps. x < procs (clr s)" "distinct ps" "h \<in> set ps"
    using Cons.prems(3) hq by (auto simp: clr_procs)
  have served: "fst (serve acc ps (clr s)) = [h]" "queue ?t = fold join_queue (remove1 h ps) q"
    using serve_head [OF clr_inv [OF Cons.prems(1)] ps(1,2) clr_busy, of h q] ps hq
    by (auto simp: clr_queue)
  have t: "inv ?t" "procs ?t = procs s"
    using serve_inv [OF clr_inv [OF Cons.prems(1)] ps(1)] by (auto simp: clr_procs)
  show ?case
  proof (cases "p = h")
    case True
    with served hq show ?thesis by (auto simp: ahead_def split: prod.splits)
  next
    case False
    then have p: "p \<in> set q" using Cons.prems(2) hq by simp
    then have "ahead p (queue ?t) = ahead p q" "p \<in> set (queue ?t)"
      by (auto simp: served(2) ahead_fold_join)
    with Cons.IH [OF t(1)] Cons.prems(3,4) t(2) False hq served show ?thesis
      by (auto simp: ahead_Cons split: prod.splits)
  qed
qed simp

text \<open>
  A processor that asks, waiting already or not, is granted the bus within as many cycles as
  there are processors.
\<close>

lemma access_costs_at_most_procs:
  assumes "inv s" and "p \<in> set ps"
    and ins: "insistent acc clr queue (procs s) (ps # rs) s"
    and len: "procs s \<le> length (ps # rs)"
  shows "\<exists>k<procs s. serve_cycles acc clr (ps # rs) s ! k = [p]"
proof -
  let ?t = "snd (serve acc ps (clr s))"
  have ps: "\<forall>x\<in>set ps. x < procs (clr s)" "distinct ps"
    using ins by (auto simp: clr_procs)
  have t: "inv ?t" "procs ?t = procs s"
    using serve_inv [OF clr_inv [OF assms(1)] ps(1)] by (auto simp: clr_procs)
  have pos: "0 < procs s" using assms(2) ps by (force simp: clr_procs)
  have first: "serve_cycles acc clr (ps # rs) s ! 0 = fst (serve acc ps (clr s))"
    by (auto split: prod.splits)
  have obt: "fst (serve acc ps (clr s)) = [p] \<or>
      (\<exists>h. fst (serve acc ps (clr s)) = [h] \<and> h \<notin> set (queue ?t) \<and> h < procs s \<and> p \<in> set (queue ?t))"
  proof (cases "queue s")
    case Nil
    obtain h qs where hq: "ps = h # qs" using assms(2) by (cases ps) auto
    with serve_empty [OF clr_inv [OF assms(1)], of h qs] ps assms(2) Nil
    show ?thesis by (auto simp: clr_queue clr_busy clr_procs)
  next
    case (Cons h q)
    then have "h \<in> set ps" using ins by auto
    with serve_head [OF clr_inv [OF assms(1)] ps clr_busy, of h q] Cons ps assms(2)
      queue_distinct [OF assms(1)]
    show ?thesis by (auto simp: clr_queue clr_procs)
  qed
  show ?thesis
  proof (cases "fst (serve acc ps (clr s)) = [p]")
    case True
    with first pos show ?thesis by metis
  next
    case False
    with obt obtain h where h: "h \<notin> set (queue ?t)" "h < procs s" and p: "p \<in> set (queue ?t)"
      by auto
    have "length (h # queue ?t) \<le> procs s"
      using h queue_distinct [OF t(1)] queue_procs [OF t(1)] t(2)
      by (intro distinct_length_bound) auto
    then have k: "Suc (ahead p (queue ?t)) < procs s"
      using ahead_less_length [OF p] by simp
    then have "serve_cycles acc clr rs ?t ! ahead p (queue ?t) = [p]"
      using ins len t(2) by (intro waiting_is_bounded [OF t(1) p]) auto
    then have "serve_cycles acc clr (ps # rs) s ! Suc (ahead p (queue ?t)) = [p]"
      by (auto split: prod.splits)
    with k show ?thesis by blast
  qed
qed

end

end
