(* ===== verification/Bus.thy ===== *)
theory Bus
  imports Arbiter
begin

text \<open>
  The memory controller of the shared-memory mode (the static \<open>memctl\<close> and \<open>shared\<close> of
  mem.c): its state, the three bus operations, and the proof that its ring buffer is the
  first-come first-served arbiter of \<open>Arbiter\<close>.
\<close>

section \<open>State\<close>

text \<open>
  \<open>shared\<close> is the static flag beside the structure. \<open>ssize_t\<close> values are 64-bit words, so the
  marker -1 is the word \<open>-1\<close>. The sizes and indices \<open>nshr\<close>, \<open>hd\<close>, \<open>tl\<close> are indices into
  allocated arrays, where \<open>size_t\<close> cannot wrap around. \<open>mc_lockerr\<close> is whether
  \<open>pthread_mutex_lock\<close> reports an error.
\<close>

record memctl =
  mc_shared :: bool
  mc_used :: bool
  mc_nshr :: nat
  mc_resaddr :: "u64 list"
  mc_hd :: nat
  mc_tl :: nat
  mc_arr :: "u64 list"
  mc_util :: u64
  mc_lockerr :: bool

section \<open>Operations\<close>

text \<open>
  \<open>Mem_busacc\<close>: returns 0 if the bus was acquired, -1 otherwise. The search loop runs over
  the \<open>nshr\<close> slots of the array.
\<close>

definition Mem_busacc :: "u32 \<Rightarrow> memctl \<Rightarrow> int \<times> memctl" where
  "Mem_busacc prid m =
     (if \<not> mc_shared m then (0, m)
      else if mc_lockerr m then (-1, m)
      else
        let found = (\<exists>i\<in>set [0..<mc_nshr m]. mc_arr m ! i = ucast prid);
            m1 = (if \<not> found
                  then m\<lparr>mc_arr := (mc_arr m)[mc_tl m := ucast prid],
                         mc_tl := (mc_tl m + 1) mod mc_nshr m\<rparr>
                  else m)
        in if \<not> mc_used m1 \<and> mc_arr m1 ! mc_hd m1 = ucast prid
           then (0, m1\<lparr>mc_arr := (mc_arr m1)[mc_hd m1 := -1],
                       mc_hd := (mc_hd m1 + 1) mod mc_nshr m1,
                       mc_used := True,
                       mc_util := mc_util m1 + 1\<rparr>)
           else (-1, m1))"

definition Mem_busclr :: "memctl \<Rightarrow> memctl" where
  "Mem_busclr m = m\<lparr>mc_used := False\<rparr>"

definition Mem_busutil :: "memctl \<Rightarrow> u64" where
  "Mem_busutil m = mc_util m"

section \<open>The queue held by the ring buffer\<close>

text \<open>The waiting processors, first to be served first.\<close>

definition bus_queue :: "memctl \<Rightarrow> nat list" where
  "bus_queue m = map unat (takeWhile (\<lambda>a. a \<noteq> -1) (rotate (mc_hd m) (mc_arr m)))"

text \<open>A well-formed controller shared by \<open>nshr\<close> processors.\<close>

definition bus_inv :: "memctl \<Rightarrow> bool" where
  "bus_inv m \<longleftrightarrow>
     mc_shared m \<and> \<not> mc_lockerr m \<and> 0 < mc_nshr m \<and> mc_nshr m \<le> 2 ^ 32 \<and>
     length (mc_arr m) = mc_nshr m \<and> length (mc_resaddr m) = mc_nshr m \<and>
     mc_hd m < mc_nshr m \<and>
     (let q = bus_queue m in
        distinct q \<and> (\<forall>p\<in>set q. p < mc_nshr m) \<and>
        mc_tl m = (mc_hd m + length q) mod mc_nshr m \<and>
        rotate (mc_hd m) (mc_arr m) = map of_nat q @ replicate (mc_nshr m - length q) (-1))"

text \<open>What the requests of a cycle do, with the answer 0 read as a grant.\<close>

definition bus_acc :: "nat \<Rightarrow> memctl \<Rightarrow> bool \<times> memctl" where
  "bus_acc p m = (let (r, m') = Mem_busacc (of_nat p) m in (r = 0, m'))"

section \<open>Ring buffer facts\<close>

lemma of_nat_proc_neq_minus1: "p < 2 ^ 32 \<Longrightarrow> (of_nat p :: u64) \<noteq> -1"
proof
  assume p: "p < 2 ^ 32" and "(of_nat p :: u64) = -1"
  then have "unat (of_nat p :: u64) = unat (-1 :: u64)" by simp
  with p show False by (simp add: unat_of_nat unsigned_minus_1_eq_mask mask_eq_exp_minus_1)
qed

lemma unat_of_nat_proc: "p < 2 ^ 32 \<Longrightarrow> unat (of_nat p :: u64) = p"
  by (simp add: unat_of_nat)

lemma of_nat_proc_inject:
  "p < 2 ^ 32 \<Longrightarrow> q < 2 ^ 32 \<Longrightarrow> (of_nat p :: u64) = of_nat q \<longleftrightarrow> p = q"
  by (metis unat_of_nat_proc)

lemma ucast_of_nat_proc: "p < 2 ^ 32 \<Longrightarrow> ucast (of_nat p :: u32) = (of_nat p :: u64)"
  by (simp add: unat_of_nat unsigned_of_nat take_bit_nat_eq_self)

text \<open>The queue of a ring laid out as processors followed by free slots.\<close>

lemma queue_of_layout:
  assumes "\<forall>p\<in>set q. p < 2 ^ 32"
  shows "map unat (takeWhile (\<lambda>a. a \<noteq> -1) (map of_nat q @ replicate k (-1 :: u64))) = q"
  using assms
proof (induction q)
  case Nil
  show ?case by (cases k) simp_all
next
  case (Cons p q)
  then show ?case by (simp add: of_nat_proc_neq_minus1 unat_of_nat_proc)
qed

text \<open>How to show the invariant: give the queue.\<close>

lemma bus_invI:
  assumes "mc_shared m" "\<not> mc_lockerr m" "0 < mc_nshr m" "mc_nshr m \<le> 2 ^ 32"
    "length (mc_arr m) = mc_nshr m" "length (mc_resaddr m) = mc_nshr m" "mc_hd m < mc_nshr m"
    "distinct q" "\<forall>p\<in>set q. p < mc_nshr m" "mc_tl m = (mc_hd m + length q) mod mc_nshr m"
    "rotate (mc_hd m) (mc_arr m) = map of_nat q @ replicate (mc_nshr m - length q) (-1)"
  shows "bus_inv m" and "bus_queue m = q"
proof -
  have "\<forall>p\<in>set q. p < 2 ^ 32" using assms(4,9) by fastforce
  then show "bus_queue m = q" by (simp add: bus_queue_def assms(11) queue_of_layout)
  then show "bus_inv m" using assms by (simp add: bus_inv_def)
qed

lemma bus_invD:
  assumes "bus_inv m"
  shows "mc_shared m" "\<not> mc_lockerr m" "0 < mc_nshr m" "mc_nshr m \<le> 2 ^ 32"
    "length (mc_arr m) = mc_nshr m" "length (mc_resaddr m) = mc_nshr m" "mc_hd m < mc_nshr m"
    "distinct (bus_queue m)" "\<forall>p\<in>set (bus_queue m). p < mc_nshr m"
    "mc_tl m = (mc_hd m + length (bus_queue m)) mod mc_nshr m"
    "rotate (mc_hd m) (mc_arr m) =
       map of_nat (bus_queue m) @ replicate (mc_nshr m - length (bus_queue m)) (-1)"
  using assms by (simp_all add: bus_inv_def Let_def)

lemma bus_queue_length: "bus_inv m \<Longrightarrow> length (bus_queue m) \<le> mc_nshr m"
  using bus_invD(8,9) distinct_length_bound by blast

text \<open>The search loop finds exactly the waiting processors.\<close>

lemma found_iff:
  assumes "bus_inv m" "p < mc_nshr m"
  shows "(\<exists>i\<in>set [0..<mc_nshr m]. mc_arr m ! i = of_nat p) \<longleftrightarrow> p \<in> set (bus_queue m)"
proof -
  note D = bus_invD [OF assms(1)]
  have p: "p < 2 ^ 32" using assms(2) D(4) by linarith
  have "(\<exists>i\<in>set [0..<mc_nshr m]. mc_arr m ! i = of_nat p) \<longleftrightarrow> of_nat p \<in> set (mc_arr m)"
    using D(5) by (auto simp: in_set_conv_nth)
  also have "set (mc_arr m) = set (rotate (mc_hd m) (mc_arr m))" by simp
  also have "of_nat p \<in> \<dots> \<longleftrightarrow> p \<in> set (bus_queue m)"
  proof -
    have "of_nat p = (of_nat x :: u64) \<longleftrightarrow> p = x" if "x \<in> set (bus_queue m)" for x
      using that D(4,9) of_nat_proc_inject [OF p] by (meson order_less_le_trans)
    then show ?thesis
      unfolding D(11) using of_nat_proc_neq_minus1 [OF p] by (auto simp: image_iff)
  qed
  finally show ?thesis .
qed

text \<open>The slot at the head of the ring holds the head of the queue.\<close>

lemma head_slot:
  assumes "bus_inv m"
  shows "mc_arr m ! mc_hd m = (case bus_queue m of [] \<Rightarrow> -1 | p # _ \<Rightarrow> of_nat p)"
proof -
  note D = bus_invD [OF assms]
  have "mc_arr m ! mc_hd m = rotate (mc_hd m) (mc_arr m) ! 0"
    using D(3,5,7) nth_rotate [of 0 "mc_arr m" "mc_hd m"] by simp
  also have "\<dots> = (case bus_queue m of [] \<Rightarrow> -1 | p # _ \<Rightarrow> of_nat p)"
    unfolding D(11) using D(3) by (cases "bus_queue m") auto
  finally show ?thesis .
qed

section \<open>Enqueue and dequeue on the ring\<close>

text \<open>The two halves of \<open>Mem_busacc\<close>, named so that each gets its own lemma.\<close>

definition ring_enq :: "nat \<Rightarrow> memctl \<Rightarrow> memctl" where
  "ring_enq p m = (if \<exists>i\<in>set [0..<mc_nshr m]. mc_arr m ! i = of_nat p then m
     else m\<lparr>mc_arr := (mc_arr m)[mc_tl m := of_nat p], mc_tl := (mc_tl m + 1) mod mc_nshr m\<rparr>)"

definition ring_deq :: "memctl \<Rightarrow> memctl" where
  "ring_deq m = m\<lparr>mc_arr := (mc_arr m)[mc_hd m := -1], mc_hd := (mc_hd m + 1) mod mc_nshr m,
     mc_used := True, mc_util := mc_util m + 1\<rparr>"

lemma Mem_busacc_ring:
  assumes "bus_inv m" "p < mc_nshr m"
  shows "Mem_busacc (of_nat p) m =
    (let m1 = ring_enq p m in
     if \<not> mc_used m1 \<and> mc_arr m1 ! mc_hd m1 = of_nat p then (0, ring_deq m1) else (-1, m1))"
proof -
  note D = bus_invD [OF assms(1)]
  have "p < 2 ^ 32" using assms(2) D(4) by linarith
  then show ?thesis
    using D(1,2) by (simp add: Mem_busacc_def ring_enq_def ring_deq_def Let_def ucast_of_nat_proc)
qed

lemma ring_enq_frame [simp]:
  "mc_used (ring_enq p m) = mc_used m" "mc_nshr (ring_enq p m) = mc_nshr m"
  "mc_hd (ring_enq p m) = mc_hd m" "mc_resaddr (ring_enq p m) = mc_resaddr m"
  by (simp_all add: ring_enq_def)

lemma ring_enq_queue:
  assumes "bus_inv m" "p < mc_nshr m"
  shows "bus_inv (ring_enq p m)" "bus_queue (ring_enq p m) = join_queue p (bus_queue m)"
proof -
  note D = bus_invD [OF assms(1)]
  let ?q = "bus_queue m" and ?n = "mc_nshr m"
  have "bus_inv (ring_enq p m) \<and> bus_queue (ring_enq p m) = join_queue p ?q"
  proof (cases "p \<in> set ?q")
    case True
    with assms found_iff [OF assms] show ?thesis by (simp add: ring_enq_def join_queue_def)
  next
    case False
    have "length (p # ?q) \<le> ?n" using False D(8,9) assms(2) by (intro distinct_length_bound) auto
    then have len: "length ?q < ?n" by simp
    let ?m = "m\<lparr>mc_arr := (mc_arr m)[mc_tl m := of_nat p], mc_tl := (mc_tl m + 1) mod ?n\<rparr>"
    have "rotate (mc_hd m) ((mc_arr m)[mc_tl m := of_nat p]) =
        (rotate (mc_hd m) (mc_arr m))[length ?q := of_nat p]"
      using rotate_list_update [of "length ?q" "mc_arr m"] len D(5,10) by simp
    also have "\<dots> = map of_nat (?q @ [p]) @ replicate (?n - length (?q @ [p])) (-1)"
      unfolding D(11) using len by (cases "?n - length ?q") (auto simp: list_update_append)
    finally have rot: "rotate (mc_hd ?m) (mc_arr ?m) =
        map of_nat (?q @ [p]) @ replicate (mc_nshr ?m - length (?q @ [p])) (-1)" by simp
    have eq: "ring_enq p m = ?m" using found_iff [OF assms] False by (simp add: ring_enq_def)
    have tl: "mc_tl ?m = (mc_hd ?m + length (?q @ [p])) mod mc_nshr ?m"
      using D(10) by (simp add: mod_Suc_eq)
    show ?thesis
      using bus_invI [of ?m "?q @ [p]"] D assms(2) False rot tl eq
      by (simp add: join_queue_def)
  qed
  then show "bus_inv (ring_enq p m)" "bus_queue (ring_enq p m) = join_queue p ?q" by auto
qed

lemma ring_deq_queue:
  assumes "bus_inv m" "bus_queue m = p # q"
  shows "bus_inv (ring_deq m)" "bus_queue (ring_deq m) = q"
proof -
  note D = bus_invD [OF assms(1)]
  let ?n = "mc_nshr m"
  have len: "length q < ?n" using bus_queue_length [OF assms(1)] assms(2) by simp
  have "rotate (mc_hd m) ((mc_arr m)[mc_hd m := -1]) = (rotate (mc_hd m) (mc_arr m))[0 := -1]"
    using rotate_list_update [of 0 "mc_arr m" "mc_hd m" "-1"] D(3,5,7) by simp
  also have "\<dots> = (-1) # (map of_nat q @ replicate (?n - Suc (length q)) (-1))"
    unfolding D(11) using assms(2) by simp
  moreover have "replicate (?n - Suc (length q)) (-1 :: u64) @ [-1] = replicate (?n - length q) (-1)"
    using len by (metis Suc_diff_Suc replicate_Suc replicate_append_same)
  ultimately have "rotate (Suc (mc_hd m)) ((mc_arr m)[mc_hd m := -1]) =
      map of_nat q @ replicate (?n - length q) (-1)"
    by (simp add: rotate1_hd_tl)
  then have rot: "rotate (mc_hd (ring_deq m)) (mc_arr (ring_deq m)) =
      map of_nat q @ replicate (mc_nshr (ring_deq m) - length q) (-1)"
    using rotate_conv_mod [of "Suc (mc_hd m)" "(mc_arr m)[mc_hd m := -1]"] D(5)
    by (simp add: ring_deq_def)
  have tl: "mc_tl (ring_deq m) = (mc_hd (ring_deq m) + length q) mod mc_nshr (ring_deq m)"
    using D(10) assms(2) by (simp add: ring_deq_def mod_add_left_eq)
  show "bus_inv (ring_deq m)" "bus_queue (ring_deq m) = q"
    using bus_invI [of "ring_deq m" q] D assms(2) rot tl by (simp_all add: ring_deq_def)
qed

section \<open>The controller is a first-come first-served arbiter\<close>

lemma bus_acc_spec:
  assumes "bus_inv m" "p < mc_nshr m"
  defines "j \<equiv> join_queue p (bus_queue m)"
  defines "g \<equiv> \<not> mc_used m \<and> hd j = p"
  shows "bus_acc p m = (g, if g then ring_deq (ring_enq p m) else ring_enq p m)"
    and "bus_inv (snd (bus_acc p m))"
    and "bus_queue (snd (bus_acc p m)) = (if g then tl j else j)"
    and "mc_used (snd (bus_acc p m)) = (mc_used m \<or> g)"
    and "mc_nshr (snd (bus_acc p m)) = mc_nshr m"
proof -
  note e = ring_enq_queue [OF assms(1,2), folded j_def]
  obtain h t where j: "j = h # t" by (cases j) (auto simp: j_def join_queue_def split: if_splits)
  have "\<forall>x\<in>set j. x < mc_nshr m" using bus_invD(9) [OF e(1)] e(2) by simp
  then have "h < 2 ^ 32" "p < 2 ^ 32" using j assms(2) bus_invD(4) [OF assms(1)] by auto
  then have "mc_arr (ring_enq p m) ! mc_hd (ring_enq p m) = of_nat p \<longleftrightarrow> h = p"
    using head_slot [OF e(1)] e(2) j of_nat_proc_inject by simp
  then show acc: "bus_acc p m = (g, if g then ring_deq (ring_enq p m) else ring_enq p m)"
    using Mem_busacc_ring [OF assms(1,2)] j by (simp add: bus_acc_def g_def Let_def)
  show "bus_inv (snd (bus_acc p m))"
    and "bus_queue (snd (bus_acc p m)) = (if g then tl j else j)"
    using acc e ring_deq_queue [OF e(1)] j by auto
  show "mc_used (snd (bus_acc p m)) = (mc_used m \<or> g)"
    and "mc_nshr (snd (bus_acc p m)) = mc_nshr m"
    using acc by (auto simp: ring_deq_def)
qed

lemma Mem_busclr_simps [simp]:
  "bus_queue (Mem_busclr m) = bus_queue m" "mc_used (Mem_busclr m) = False"
  "mc_nshr (Mem_busclr m) = mc_nshr m" "bus_inv (Mem_busclr m) = bus_inv m"
  "mc_resaddr (Mem_busclr m) = mc_resaddr m" "mc_shared (Mem_busclr m) = mc_shared m"
  by (simp_all add: Mem_busclr_def bus_queue_def bus_inv_def)

interpretation bus: fifo_arbiter bus_acc Mem_busclr bus_queue mc_used mc_nshr bus_inv
proof unfold_locales
  fix p :: nat and s :: memctl
  assume inv: "bus_inv s"
  assume p: "p < mc_nshr s"
  note spec = bus_acc_spec [OF inv p]
  show "fst (bus_acc p s) = (\<not> mc_used s \<and> hd (join_queue p (bus_queue s)) = p)"
    using spec(1) by simp
  show "bus_queue (snd (bus_acc p s)) = (if fst (bus_acc p s) then tl (join_queue p (bus_queue s))
      else join_queue p (bus_queue s))"
    using spec(1,3) by simp
  show "mc_used (snd (bus_acc p s)) = (mc_used s \<or> fst (bus_acc p s))"
    using spec(1,4) by simp
  show "mc_nshr (snd (bus_acc p s)) = mc_nshr s" by (rule spec(5))
  show "bus_inv (snd (bus_acc p s))" by (rule spec(2))
qed (auto simp: bus_invD)

section \<open>Properties of the bus\<close>

text \<open>The abstract arbiter: a queue of processors and the flag of the current cycle.\<close>

definition fifo_request :: "nat \<Rightarrow> nat list \<times> bool \<Rightarrow> bool \<times> nat list \<times> bool" where
  "fifo_request p s = (let (q, b) = s; j = join_queue p q; g = (\<not> b \<and> hd j = p)
     in (g, if g then tl j else j, b \<or> g))"

lemma Mem_busacc_eq_bus_acc:
  "snd (Mem_busacc prid m) = snd (bus_acc (unat prid) m)"
  "fst (Mem_busacc prid m) = 0 \<longleftrightarrow> fst (bus_acc (unat prid) m)"
  by (simp_all add: bus_acc_def split: prod.splits)

text \<open>Three processors sharing a bus, nobody waiting.\<close>

definition bus3 :: memctl where
  "bus3 = \<lparr>mc_shared = True, mc_used = False, mc_nshr = 3, mc_resaddr = [0, 0, 0],
     mc_hd = 0, mc_tl = 0, mc_arr = [-1, -1, -1], mc_util = 0, mc_lockerr = False\<rparr>"

lemma bus3_inv: "bus_inv bus3"
proof -
  have "replicate 3 (-1 :: u64) = [-1, -1, -1]" by (simp add: numeral_3_eq_3)
  then show ?thesis by (simp add: bus_inv_def bus_queue_def bus3_def)
qed

text \<open>C3: \<open>Mem_busacc\<close> on the ring buffer behaves as a request to a first-come first-served
  queue: it answers 0 exactly when the bus is still free in this cycle and the caller is at the
  head of the queue it has just joined (if it was not in it), and the ring keeps holding that
  queue.\<close>

theorem busacc_refines_fifo:
  assumes "bus_inv m" and "unat prid < mc_nshr m"
  shows "(fst (Mem_busacc prid m) = 0, bus_queue (snd (Mem_busacc prid m)),
      mc_used (snd (Mem_busacc prid m))) =
        fifo_request (unat prid) (bus_queue m, mc_used m) \<and>
    bus_inv (snd (Mem_busacc prid m)) \<and> mc_nshr (snd (Mem_busacc prid m)) = mc_nshr m"
  using bus_acc_spec [OF assms]
  by (auto simp: Mem_busacc_eq_bus_acc fifo_request_def Let_def)

theorem busacc_refines_fifo_witness:
  "(fst (Mem_busacc 1 bus3) = 0, bus_queue (snd (Mem_busacc 1 bus3)),
      mc_used (snd (Mem_busacc 1 bus3))) = fifo_request 1 ([], False) \<and>
   bus_inv (snd (Mem_busacc 1 bus3))"
  using busacc_refines_fifo [OF bus3_inv, of 1]
  by (simp add: bus3_def bus_queue_def)

text \<open>Between two clears (one simulated cycle) at most one of the processors that ask for
  the bus is granted it.\<close>

theorem bus_one_grant_per_cycle:
  assumes "bus_inv m" and "\<forall>p\<in>set ps. p < mc_nshr m"
  shows "length (fst (serve bus_acc ps (Mem_busclr m))) \<le> 1"
  using assms bus.serve_one_grant [of "Mem_busclr m" ps] by simp

theorem bus_one_grant_per_cycle_witness:
  "length (fst (serve bus_acc [2, 0, 1] (Mem_busclr bus3))) \<le> 1"
  by (rule bus_one_grant_per_cycle [OF bus3_inv]) (simp add: bus3_def)

text \<open>C29: Bounded waiting, as the README states it: a processor that asks for the bus (and asks
  again in every cycle until it is served, as a stalled instruction does, like everybody else)
  is granted it within as many cycles as there are processors.\<close>

theorem bus_access_within_nshr_cycles:
  assumes "bus_inv m" and "p \<in> set ps"
    and "insistent bus_acc Mem_busclr bus_queue (mc_nshr m) (ps # rs) m"
    and "mc_nshr m \<le> length (ps # rs)"
  shows "\<exists>k<mc_nshr m. serve_cycles bus_acc Mem_busclr (ps # rs) m ! k = [p]"
  by (rule bus.access_costs_at_most_procs [OF assms])

theorem bus_access_within_nshr_cycles_witness:
  "\<exists>k<3. serve_cycles bus_acc Mem_busclr [[0, 1, 2], [1, 2], [2]] bus3 ! k = [2]"
proof -
  have "insistent bus_acc Mem_busclr bus_queue 3 [[0, 1, 2], [1, 2], [2]] bus3"
    by code_simp
  then show ?thesis
    using bus_access_within_nshr_cycles [OF bus3_inv, of 2 "[0, 1, 2]" "[[1, 2], [2]]"]
    by (simp add: bus3_def)
qed

end
