(* ===== verification/Mem.thy ===== *)
theory Mem
  imports Bus
begin

text \<open>
  The memory module (mem.c, mem.h): memory objects, their creation, and the load and store
  operations with their error branches, the reservations of LL and SC included.

  The union of a byte pointer and a word pointer is one list of bytes; \<open>data.w[i]\<close> is the
  little-endian word in the bytes \<open>4i .. 4i+3\<close>, and an access past the end of the allocated
  bytes is undefined behaviour (\<open>None\<close>).
\<close>

section \<open>State\<close>

record Mem =
  mem_size :: u64
  mem_b :: "u8 list"

text \<open>As many bytes are allocated as the size field says.\<close>

definition wf_mem :: "Mem \<Rightarrow> bool" where
  "wf_mem m \<longleftrightarrow> length (mem_b m) = unat (mem_size m)"

section \<open>Words in bytes\<close>

definition byte_of :: "nat \<Rightarrow> u32 \<Rightarrow> u8" where
  "byte_of k w = ucast (drop_bit (8 * k) w)"

definition word_of_bytes :: "u8 \<Rightarrow> u8 \<Rightarrow> u8 \<Rightarrow> u8 \<Rightarrow> u32" where
  "word_of_bytes b0 b1 b2 b3 =
     ucast b0 OR push_bit 8 (ucast b1) OR push_bit 16 (ucast b2) OR push_bit 24 (ucast b3)"

definition get_word :: "u8 list \<Rightarrow> nat \<Rightarrow> u32 option" where
  "get_word bs i =
     (if 4 * i + 4 \<le> length bs
      then Some (word_of_bytes (bs ! (4 * i)) (bs ! (4 * i + 1)) (bs ! (4 * i + 2)) (bs ! (4 * i + 3)))
      else None)"

definition set_word :: "u8 list \<Rightarrow> nat \<Rightarrow> u32 \<Rightarrow> u8 list option" where
  "set_word bs i v =
     (if 4 * i + 4 \<le> length bs
      then Some (bs[4 * i := byte_of 0 v, 4 * i + 1 := byte_of 1 v,
                    4 * i + 2 := byte_of 2 v, 4 * i + 3 := byte_of 3 v])
      else None)"

section \<open>Creation\<close>

text \<open>
  What the allocator answers to \<open>Mem_create\<close>: the contents of the block for \<open>resaddr\<close>, which the
  code leaves as it comes, whether \<open>queue.arr\<close>, the mutex and the memory object can be had, and
  the contents of the data block. \<open>None\<close> and \<open>False\<close> are failures.
\<close>

record mem_alloc =
  al_resaddr :: "u64 list option"
  al_arr :: bool
  al_mutex :: bool
  al_mem :: bool
  al_data :: "u8 list option"

definition Mem_create :: "u64 \<Rightarrow> nat \<Rightarrow> mem_alloc \<Rightarrow> memctl \<Rightarrow> (errno + Mem) \<times> memctl" where
  "Mem_create sz nshr al m =
     (let shr = m\<lparr>mc_shared := True, mc_used := False, mc_nshr := nshr,
                   mc_resaddr := (case al_resaddr al of None \<Rightarrow> [] | Some r \<Rightarrow> r)\<rparr>;
          ready = shr\<lparr>mc_hd := 0, mc_tl := 0, mc_util := 0, mc_arr := replicate nshr (-1)\<rparr>;
          ctl = (if nshr > 1 then ready else m)
      in if nshr > 1 \<and> (al_resaddr al = None \<or> \<not> al_arr al \<or> \<not> al_mutex al)
         then (Inl ENOMEM, shr)
         else if \<not> al_mem al then (Inl ENOMEM, ctl)
         else case al_data al of
             None \<Rightarrow> (Inl ENOMEM, ctl)
           | Some d \<Rightarrow> (Inr \<lparr>mem_size = sz, mem_b = d\<rparr>, ctl))"

text \<open>The static controller before any memory is created.\<close>

definition memctl0 :: memctl where
  "memctl0 = \<lparr>mc_shared = False, mc_used = False, mc_nshr = 0, mc_resaddr = [], mc_hd = 0,
     mc_tl = 0, mc_arr = [], mc_util = 0, mc_lockerr = False\<rparr>"

text \<open>
  \<open>Mem_createarr\<close>: one block for all memories, each a slice of it; \<open>None\<close> is a failed
  allocation (\<open>ENOMEM\<close>).
\<close>

definition Mem_createarr :: "u64 \<Rightarrow> nat \<Rightarrow> bool \<Rightarrow> u8 list option \<Rightarrow> errno + Mem list" where
  "Mem_createarr sz nmem marr_ok block =
     (if \<not> marr_ok then Inl ENOMEM
      else case block of
          None \<Rightarrow> Inl ENOMEM
        | Some arr \<Rightarrow> Inr (map (\<lambda>i. \<lparr>mem_size = sz,
              mem_b = take (unat sz) (drop (i * unat sz) arr)\<rparr>) [0..<nmem]))"

section \<open>Loads and stores\<close>

definition Mem_lw :: "Mem \<Rightarrow> u64 \<Rightarrow> (errno + u32) option" where
  "Mem_lw m addr =
     (if addr \<ge> mem_size m then Some (Inl EADDRNOTAVAIL)
      else if addr AND 3 \<noteq> 0 then Some (Inl EFAULT)
      else map_option Inr (get_word (mem_b m) (unat (drop_bit 2 addr))))"

text \<open>The loop that ends every reservation of an address.\<close>

definition clear_res :: "u64 \<Rightarrow> memctl \<Rightarrow> memctl" where
  "clear_res addr c = c\<lparr>mc_resaddr := map (\<lambda>r. if r = addr then -1 else r) (mc_resaddr c)\<rparr>"

definition Mem_sw :: "Mem \<Rightarrow> memctl \<Rightarrow> u64 \<Rightarrow> u32 \<Rightarrow> (retcode \<times> Mem \<times> memctl) option" where
  "Mem_sw m c addr v =
     (let c1 = (if mc_shared c then clear_res addr c else c) in
      if addr \<ge> mem_size m then Some (E EADDRNOTAVAIL, m, c1)
      else if addr AND 3 \<noteq> 0 then Some (E EFAULT, m, c1)
      else map_option (\<lambda>bs. (OK, m\<lparr>mem_b := bs\<rparr>, c1)) (set_word (mem_b m) (unat (drop_bit 2 addr)) v))"

definition Mem_ll :: "Mem \<Rightarrow> memctl \<Rightarrow> u32 \<Rightarrow> u64 \<Rightarrow> ((errno + u32) \<times> memctl) option" where
  "Mem_ll m c prid addr =
     (if mc_shared c \<and> unat prid \<ge> mc_nshr c then Some (Inl EOVERFLOW, c)
      else
        let c1 = (if mc_shared c then c\<lparr>mc_resaddr := (mc_resaddr c)[unat prid := addr]\<rparr> else c) in
        if addr \<ge> mem_size m then Some (Inl EADDRNOTAVAIL, c1)
        else if addr AND 3 \<noteq> 0 then Some (Inl EFAULT, c1)
        else map_option (\<lambda>w. (Inr w, c1)) (get_word (mem_b m) (unat (drop_bit 2 addr))))"

definition Mem_sc ::
  "Mem \<Rightarrow> memctl \<Rightarrow> u32 \<Rightarrow> u64 \<Rightarrow> u32 \<Rightarrow> (retcode \<times> Mem \<times> memctl) option" where
  "Mem_sc m c prid addr v =
     (if mc_shared c \<and> unat prid \<ge> mc_nshr c then Some (E EOVERFLOW, m, c)
      else if mc_shared c \<and> mc_resaddr c ! unat prid \<noteq> addr then Some (E EAGAIN, m, c)
      else
        let c1 = (if mc_shared c then clear_res addr c else c) in
        if addr \<ge> mem_size m then Some (E EADDRNOTAVAIL, m, c1)
        else if addr AND 3 \<noteq> 0 then Some (E EFAULT, m, c1)
        else map_option (\<lambda>bs. (OK, m\<lparr>mem_b := bs\<rparr>, c1)) (set_word (mem_b m) (unat (drop_bit 2 addr)) v))"

definition Mem_lb :: "Mem \<Rightarrow> u64 \<Rightarrow> (errno + u8) option" where
  "Mem_lb m addr =
     (if addr \<ge> mem_size m then Some (Inl EADDRNOTAVAIL)
      else if unat addr < length (mem_b m) then Some (Inr (mem_b m ! unat addr)) else None)"

definition Mem_sb :: "Mem \<Rightarrow> u64 \<Rightarrow> u8 \<Rightarrow> (retcode \<times> Mem) option" where
  "Mem_sb m addr v =
     (if addr \<ge> mem_size m then Some (E EADDRNOTAVAIL, m)
      else if unat addr < length (mem_b m) then Some (OK, m\<lparr>mem_b := (mem_b m)[unat addr := v]\<rparr>)
      else None)"

text \<open>\<open>Mem_getptr\<close>: the index of the word pointed to, or the null pointer with its error.\<close>

definition Mem_getptr :: "Mem \<Rightarrow> u32 \<Rightarrow> errno + nat" where
  "Mem_getptr m addr =
     (if ucast addr \<ge> mem_size m then Inl EADDRNOTAVAIL else Inr (unat (drop_bit 2 addr)))"

end
