(* ===== verification/Mem_Facts.thy ===== *)
theory Mem_Facts
  imports Mem
begin

text \<open>
  What the loads and stores of \<open>Mem\<close> do on every branch: read-after-write and frame facts,
  the exact bounds of the accesses, and the contract of a word store that the other components
  rely on.
\<close>

section \<open>Words and bytes\<close>

lemma word_of_byte_of:
  "word_of_bytes (byte_of 0 w) (byte_of 1 w) (byte_of 2 w) (byte_of 3 w) = w"
proof (rule bit_word_eqI)
  fix n assume "n < LENGTH(32)"
  then have "n < 8 \<or> (8 \<le> n \<and> n < 16) \<or> (16 \<le> n \<and> n < 24) \<or> (24 \<le> n \<and> n < 32)" by auto
  then show "bit (word_of_bytes (byte_of 0 w) (byte_of 1 w) (byte_of 2 w) (byte_of 3 w)) n = bit w n"
    by (auto simp: word_of_bytes_def byte_of_def bit_simps)
qed

lemma bit_word_of_bytes:
  "bit (word_of_bytes b0 b1 b2 b3) n =
     (if n < 8 then bit b0 n else if n < 16 then bit b1 (n - 8)
      else if n < 24 then bit b2 (n - 16) else n < 32 \<and> bit b3 (n - 24))"
  by (auto simp: word_of_bytes_def bit_simps dest: bit_imp_le_length)

lemma byte_of_word_of_bytes [simp]:
  "byte_of 0 (word_of_bytes b0 b1 b2 b3) = b0"
  "byte_of (Suc 0) (word_of_bytes b0 b1 b2 b3) = b1"
  "byte_of 2 (word_of_bytes b0 b1 b2 b3) = b2"
  "byte_of 3 (word_of_bytes b0 b1 b2 b3) = b3"
  by (rule bit_word_eqI; auto simp: byte_of_def bit_simps bit_word_of_bytes)+

lemma get_word_length: "get_word bs i = Some w \<Longrightarrow> 4 * i + 4 \<le> length bs"
  by (simp add: get_word_def split: if_splits)

lemma set_word_length: "set_word bs i v = Some bs' \<Longrightarrow> length bs' = length bs"
  by (auto simp: set_word_def split: if_splits)

lemma get_word_set_word:
  assumes "set_word bs i v = Some bs'"
  shows "get_word bs' j = (if j = i then Some v else get_word bs j)"
proof (cases "j = i")
  case True
  with assms show ?thesis
    using word_of_byte_of [of v]
    by (auto simp: set_word_def get_word_def nth_list_update split: if_splits)
next
  case False
  with assms show ?thesis
    by (auto simp: set_word_def get_word_def nth_list_update split: if_splits)
qed

lemma nth_set_word:
  assumes "set_word bs i v = Some bs'" "k < length bs"
  shows "bs' ! k = (if k div 4 = i then byte_of (k mod 4) v else bs ! k)"
proof -
  define q r where "q = k div 4" and "r = k mod 4"
  have k: "k = 4 * q + r" "r = 0 \<or> r = 1 \<or> r = 2 \<or> r = 3"
    unfolding q_def r_def by (simp, arith)
  then show ?thesis using assms unfolding q_def [symmetric] r_def [symmetric]
    by (auto simp: set_word_def nth_list_update split: if_splits; presburger)
qed

section \<open>Addresses\<close>

lemma unat_drop2: "unat (drop_bit 2 (a :: 'a :: len word)) = unat a div 4"
  by (simp only: unat_drop_bit_eq) (simp add: drop_bit_eq_div)

lemma unat_and3: "unat (a AND 3 :: u64) = unat a mod 4"
proof -
  have "(3 :: u64) = mask 2" by (simp add: mask_eq_exp_minus_1)
  then have "a AND 3 = take_bit 2 a" by (simp add: take_bit_eq_mask)
  then have "unat (a AND 3) = take_bit 2 (unat a)" by (simp only: unsigned_take_bit_eq)
  then show ?thesis by (simp add: take_bit_eq_mod)
qed

lemma aligned_iff: "(a AND 3 = (0 :: u64)) = (4 dvd unat a)"
  using unat_and3 [of a] by (metis mod_0_imp_dvd dvd_imp_mod_0 unat_eq_0)

lemma aligned_drop2_inject:
  assumes "a AND 3 = (0 :: u64)" "b AND 3 = 0"
  shows "unat (drop_bit 2 a) = unat (drop_bit 2 b) \<longleftrightarrow> a = b"
  using assms [unfolded aligned_iff]
  by (simp add: unat_drop2 dvd_div_eq_iff word_unat_eq_iff)

section \<open>Total and partial accesses\<close>

text \<open>An address at which a word access is accepted.\<close>

definition word_ok :: "Mem \<Rightarrow> u64 \<Rightarrow> bool" where
  "word_ok m a \<longleftrightarrow> a < mem_size m \<and> a AND 3 = 0"

text \<open>A memory that holds whole words only.\<close>

definition whole_words :: "Mem \<Rightarrow> bool" where
  "whole_words m \<longleftrightarrow> wf_mem m \<and> 4 dvd unat (mem_size m)"

lemma word_ok_fits:
  assumes "whole_words m" "word_ok m a"
  shows "4 * unat (drop_bit 2 a) + 4 \<le> length (mem_b m)"
proof -
  have "unat a < unat (mem_size m)" using assms(2) by (simp add: word_ok_def word_less_nat_alt)
  moreover have "4 dvd unat a" using assms(2) by (simp add: word_ok_def aligned_iff)
  ultimately show ?thesis
    using assms(1) by (auto simp: whole_words_def wf_mem_def unat_drop2 elim!: dvdE)
qed

lemma Mem_lw_ok:
  "word_ok m a \<Longrightarrow> Mem_lw m a = map_option Inr (get_word (mem_b m) (unat (drop_bit 2 a)))"
  by (auto simp: Mem_lw_def word_ok_def dest: leD)

lemma Mem_lw_error:
  "\<not> word_ok m a \<Longrightarrow>
     Mem_lw m a = Some (Inl (if a \<ge> mem_size m then EADDRNOTAVAIL else EFAULT))"
  by (auto simp: Mem_lw_def word_ok_def not_le)

lemma Mem_sw_ok:
  "word_ok m a \<Longrightarrow> Mem_sw m c a v =
     map_option (\<lambda>bs. (OK, m\<lparr>mem_b := bs\<rparr>, if mc_shared c then clear_res a c else c))
       (set_word (mem_b m) (unat (drop_bit 2 a)) v)"
  by (auto simp: Mem_sw_def word_ok_def Let_def dest: leD)

lemma Mem_sw_error:
  "\<not> word_ok m a \<Longrightarrow> Mem_sw m c a v =
     Some (E (if a \<ge> mem_size m then EADDRNOTAVAIL else EFAULT), m,
           if mc_shared c then clear_res a c else c)"
  by (auto simp: Mem_sw_def word_ok_def not_le Let_def)

text \<open>How a successful store changes a memory.\<close>

lemma Mem_sw_OK:
  assumes "Mem_sw m c a v = Some (OK, m', c')"
  shows "word_ok m a" "mem_size m' = mem_size m"
    "set_word (mem_b m) (unat (drop_bit 2 a)) v = Some (mem_b m')"
    "c' = (if mc_shared c then clear_res a c else c)"
  using assms by (auto simp: Mem_sw_def word_ok_def Let_def split: if_splits)

lemma Mem_sw_not_OK:
  assumes "Mem_sw m c a v = Some (E e, m', c')"
  shows "\<not> word_ok m a" "m' = m" "e = (if a \<ge> mem_size m then EADDRNOTAVAIL else EFAULT)"
  using assms by (auto simp: Mem_sw_def word_ok_def Let_def split: if_splits)

lemma clear_res_simps [simp]:
  "mc_shared (clear_res a c) = mc_shared c" "mc_nshr (clear_res a c) = mc_nshr c"
  "mc_used (clear_res a c) = mc_used c" "bus_queue (clear_res a c) = bus_queue c"
  "bus_inv (clear_res a c) = bus_inv c"
  "length (mc_resaddr (clear_res a c)) = length (mc_resaddr c)"
  by (simp_all add: clear_res_def bus_queue_def bus_inv_def)

lemma clear_res_nth:
  "i < length (mc_resaddr c) \<Longrightarrow>
     mc_resaddr (clear_res a c) ! i = (if mc_resaddr c ! i = a then -1 else mc_resaddr c ! i)"
  by (simp add: clear_res_def)

section \<open>The contract of a word store\<close>

text \<open>
  What a client of a memory relies on: a load gives the last word stored at the same address,
  stores at other addresses do not matter, and the domain of accepted addresses is fixed.
\<close>

locale word_store =
  fixes load :: "'m \<Rightarrow> 'a \<Rightarrow> 'w option"
    and store :: "'m \<Rightarrow> 'a \<Rightarrow> 'w \<Rightarrow> 'm option"
    and dom_ok :: "'m \<Rightarrow> 'a \<Rightarrow> bool"
    and inv :: "'m \<Rightarrow> bool"
  assumes load_defined: "inv m \<Longrightarrow> dom_ok m a \<longleftrightarrow> load m a \<noteq> None"
    and store_defined: "inv m \<Longrightarrow> dom_ok m a \<longleftrightarrow> store m a v \<noteq> None"
    and load_store: "inv m \<Longrightarrow> store m a v = Some m' \<Longrightarrow>
      load m' b = (if b = a then Some v else load m b)"
    and store_inv: "inv m \<Longrightarrow> store m a v = Some m' \<Longrightarrow> inv m'"
begin

lemma store_dom: "inv m \<Longrightarrow> store m a v = Some m' \<Longrightarrow> dom_ok m' b \<longleftrightarrow> dom_ok m b"
  using load_store store_inv load_defined store_defined by (metis option.distinct(1))

text \<open>A run of stores: the last one to an address wins.\<close>

lemma load_after_stores:
  "inv m \<Longrightarrow> mfold (\<lambda>(a, v) m. store m a v) ws m = Some m' \<Longrightarrow>
     inv m' \<and> load m' b = (case map_of (rev ws) b of Some v \<Rightarrow> Some v | None \<Rightarrow> load m b)"
proof (induction ws arbitrary: m)
  case (Cons w ws)
  obtain a v where w: "w = (a, v)" by fastforce
  with Cons.prems(2) obtain t where t: "store m a v = Some t"
    "mfold (\<lambda>(a, v) m. store m a v) ws t = Some m'"
    by (auto simp: Option.bind_eq_Some_conv)
  from Cons.IH [OF store_inv [OF Cons.prems(1) t(1)] t(2)] load_store [OF Cons.prems(1) t(1), of b] w
  show ?case by (auto simp: map_add_def split: option.splits)
qed simp

text \<open>A run of stores to accepted addresses succeeds.\<close>

lemma stores_defined:
  assumes "inv m" "\<forall>(a, v)\<in>set ws. dom_ok m a"
  shows "\<exists>m'. mfold (\<lambda>(a, v) m. store m a v) ws m = Some m' \<and> inv m'"
proof -
  have "\<exists>m'. mfold (\<lambda>(a, v) m. store m a v) ws m = Some m' \<and> inv m' \<and> (\<forall>a. dom_ok m' a = dom_ok m a)"
  proof (rule mfold_defined)
    show "inv m \<and> (\<forall>a. dom_ok m a = dom_ok m a)" using assms(1) by simp
    fix w t assume w: "w \<in> set ws" and t: "inv t \<and> (\<forall>a. dom_ok t a = dom_ok m a)"
    obtain a v where av: "w = (a, v)" by fastforce
    with w assms(2) t have "dom_ok t a" by auto
    with t store_defined obtain t' where "store t a v = Some t'" by blast
    with av t store_inv store_dom
    show "\<exists>t'. (case w of (a, v) \<Rightarrow> \<lambda>m. store m a v) t = Some t' \<and> inv t' \<and>
        (\<forall>a. dom_ok t' a = dom_ok m a)"
      by fastforce
  qed
  then show ?thesis by blast
qed

end

definition load_word :: "Mem \<Rightarrow> u64 \<Rightarrow> u32 option" where
  "load_word m a = (case Mem_lw m a of Some (Inr w) \<Rightarrow> Some w | _ \<Rightarrow> None)"

definition store_word :: "Mem \<Rightarrow> u64 \<Rightarrow> u32 \<Rightarrow> Mem option" where
  "store_word m a v = (case Mem_sw m memctl0 a v of Some (OK, m', _) \<Rightarrow> Some m' | _ \<Rightarrow> None)"

lemma load_word_eq:
  "load_word m a = (if word_ok m a then get_word (mem_b m) (unat (drop_bit 2 a)) else None)"
  by (simp add: load_word_def Mem_lw_ok Mem_lw_error split: option.splits)

lemma store_word_eq:
  "store_word m a v = (if word_ok m a
     then map_option (\<lambda>bs. m\<lparr>mem_b := bs\<rparr>) (set_word (mem_b m) (unat (drop_bit 2 a)) v) else None)"
  by (simp add: store_word_def Mem_sw_ok Mem_sw_error split: option.splits)

interpretation words: word_store load_word store_word word_ok whole_words
proof unfold_locales
  fix m a v assume inv: "whole_words m"
  show "word_ok m a \<longleftrightarrow> load_word m a \<noteq> None"
    using word_ok_fits [OF inv, of a] by (auto simp: load_word_eq get_word_def)
  show "word_ok m a \<longleftrightarrow> store_word m a v \<noteq> None"
    using word_ok_fits [OF inv, of a] by (auto simp: store_word_eq set_word_def)
  fix m' b assume st: "store_word m a v = Some m'"
  then obtain bs where bs: "set_word (mem_b m) (unat (drop_bit 2 a)) v = Some bs" "word_ok m a"
    "m' = m\<lparr>mem_b := bs\<rparr>"
    by (auto simp: store_word_eq split: if_splits)
  show "load_word m' b = (if b = a then Some v else load_word m b)"
    using bs aligned_drop2_inject [of b a] get_word_set_word [OF bs(1)]
    by (auto simp: load_word_eq word_ok_def)
  show "whole_words m'"
    using bs inv set_word_length [OF bs(1)] by (simp add: whole_words_def wf_mem_def)
qed

end
