(* ===== verification/LLSC.thy ===== *)
theory LLSC
  imports Mem_Facts
begin

text \<open>
  Load linked and store conditional on a shared memory: any interleaving of the memory
  operations of all processors between an LL and the SC that goes with it.
\<close>

section \<open>Traces of memory operations\<close>

datatype memop =
    OpLW u64 | OpSW u64 u32
  | OpLL u32 u64 | OpSC u32 u64 u32
  | OpLB u64 | OpSB u64 u8

fun mem_step :: "memop \<Rightarrow> Mem \<times> memctl \<Rightarrow> (Mem \<times> memctl) option" where
  "mem_step (OpLW a) (m, c) = map_option (\<lambda>_. (m, c)) (Mem_lw m a)"
| "mem_step (OpSW a v) (m, c) = map_option snd (Mem_sw m c a v)"
| "mem_step (OpLL p a) (m, c) = map_option (\<lambda>(r, c'). (m, c')) (Mem_ll m c p a)"
| "mem_step (OpSC p a v) (m, c) = map_option snd (Mem_sc m c p a v)"
| "mem_step (OpLB a) (m, c) = map_option (\<lambda>_. (m, c)) (Mem_lb m a)"
| "mem_step (OpSB a v) (m, c) = map_option (\<lambda>(r, m'). (m', c)) (Mem_sb m a v)"

text \<open>
  The operations that may stand between the LL and the SC of processor \<open>p\<close> on address \<open>a\<close>: no
  other LL by \<open>p\<close> (it would move the reservation) and no byte store into the word at \<open>a\<close>.
\<close>

fun quiet :: "memop \<Rightarrow> u32 \<Rightarrow> u64 \<Rightarrow> bool" where
  "quiet (OpLL q b) p a = (q \<noteq> p)"
| "quiet (OpSB b v) p a = (drop_bit 2 b \<noteq> drop_bit 2 a)"
| "quiet _ p a = True"

text \<open>The operations that write the word at \<open>a\<close> as a word.\<close>

fun word_write :: "memop \<Rightarrow> u64 \<Rightarrow> bool" where
  "word_write (OpSW b v) a = (b = a)"
| "word_write (OpSC q b v) a = (b = a)"
| "word_write _ a = False"

section \<open>The contract of a memory with reservations\<close>

locale reservation_memory =
  fixes step :: "'op \<Rightarrow> 's \<Rightarrow> 's option"
    and reserved :: "'s \<Rightarrow> 'p \<Rightarrow> 'a \<Rightarrow> bool"
    and word_at :: "'s \<Rightarrow> 'a \<Rightarrow> 'w"
    and keeps :: "'op \<Rightarrow> 'p \<Rightarrow> 'a \<Rightarrow> bool"
    and writes :: "'op \<Rightarrow> 'a \<Rightarrow> bool"
    and inv :: "'s \<Rightarrow> bool"
  assumes step_inv: "inv s \<Longrightarrow> step op s = Some s' \<Longrightarrow> inv s'"
    and step_reserved: "inv s \<Longrightarrow> step op s = Some s' \<Longrightarrow> keeps op p a \<Longrightarrow> reserved s' p a \<Longrightarrow>
      reserved s p a \<and> word_at s' a = word_at s a"
    and step_no_write: "inv s \<Longrightarrow> step op s = Some s' \<Longrightarrow> keeps op p a \<Longrightarrow> \<not> writes op a \<Longrightarrow>
      reserved s p a \<Longrightarrow> reserved s' p a"
begin

lemma run_inv: "inv s \<Longrightarrow> mfold step ops s = Some s' \<Longrightarrow> inv s'"
  by (rule mfold_invariant [where P = inv]) (auto intro: step_inv)

text \<open>A reservation that is still there says that the word is still the same.\<close>

lemma run_reserved:
  "inv s \<Longrightarrow> mfold step ops s = Some s' \<Longrightarrow> \<forall>op\<in>set ops. keeps op p a \<Longrightarrow> reserved s' p a \<Longrightarrow>
     reserved s p a \<and> word_at s' a = word_at s a"
proof (induction ops arbitrary: s)
  case (Cons op ops)
  then obtain t where t: "step op s = Some t" "mfold step ops t = Some s'"
    by (auto simp: Option.bind_eq_Some_conv)
  with Cons.IH [OF step_inv [OF Cons.prems(1) t(1)] t(2)] Cons.prems(3,4)
  have "reserved t p a" "word_at s' a = word_at t a" by auto
  with step_reserved [OF Cons.prems(1) t(1)] Cons.prems(3) show ?case by auto
qed simp

text \<open>Without a write to the word the reservation stays.\<close>

lemma run_no_write:
  assumes "inv s" "mfold step ops s = Some s'" "reserved s p a"
    and "\<forall>op\<in>set ops. keeps op p a \<and> \<not> writes op a"
  shows "reserved s' p a"
proof -
  have "inv s' \<and> reserved s' p a"
    using assms(2) by (rule mfold_invariant) (use assms step_inv step_no_write in blast)+
  then show ?thesis ..
qed

end

section \<open>The memory of the program meets it\<close>

definition shr_inv :: "Mem \<times> memctl \<Rightarrow> bool" where
  "shr_inv s \<longleftrightarrow> whole_words (fst s) \<and> mc_shared (snd s) \<and>
     length (mc_resaddr (snd s)) = mc_nshr (snd s)"

definition holds_res :: "Mem \<times> memctl \<Rightarrow> u32 \<Rightarrow> u64 \<Rightarrow> bool" where
  "holds_res s p a \<longleftrightarrow> word_ok (fst s) a \<and> unat p < mc_nshr (snd s) \<and>
     mc_resaddr (snd s) ! unat p = a"

definition word_in :: "Mem \<times> memctl \<Rightarrow> u64 \<Rightarrow> u32 option" where
  "word_in s a = load_word (fst s) a"

lemma word_ok_not_minus1: "word_ok m a \<Longrightarrow> a \<noteq> -1"
  by (auto simp: word_ok_def)

lemma load_word_set_other:
  assumes "set_word (mem_b m) (unat (drop_bit 2 b)) v = Some bs" "word_ok m b" "b \<noteq> a"
  shows "load_word (m\<lparr>mem_b := bs\<rparr>) a = load_word m a"
  using assms get_word_set_word [OF assms(1)] aligned_drop2_inject [of a b]
  by (auto simp: load_word_eq word_ok_def)

lemma load_word_set_byte:
  assumes "drop_bit 2 b \<noteq> drop_bit 2 a"
  shows "load_word (m\<lparr>mem_b := (mem_b m)[unat b := v]\<rparr>) a = load_word m a"
proof -
  have "unat b div 4 \<noteq> unat a div 4"
    using assms by (simp add: word_unat_eq_iff flip: unat_drop2)
  then have "unat b \<noteq> 4 * (unat a div 4)" "unat b \<noteq> 4 * (unat a div 4) + 1"
    "unat b \<noteq> 4 * (unat a div 4) + 2" "unat b \<noteq> 4 * (unat a div 4) + 3"
    by auto
  then show ?thesis by (simp add: load_word_eq get_word_def word_ok_def unat_drop2)
qed

text \<open>
  SC is a word store behind the check of the reservation; LL is a word load that leaves a
  reservation.
\<close>

lemma Mem_sc_eq:
  "Mem_sc m c p a v =
    (if mc_shared c \<and> mc_nshr c \<le> unat p then Some (E EOVERFLOW, m, c)
     else if mc_shared c \<and> mc_resaddr c ! unat p \<noteq> a then Some (E EAGAIN, m, c)
     else Mem_sw m c a v)"
  by (simp only: Mem_sc_def Mem_sw_def Let_def)

lemma Mem_ll_eq:
  "Mem_ll m c p a =
    (if mc_shared c \<and> mc_nshr c \<le> unat p then Some (Inl EOVERFLOW, c)
     else map_option (\<lambda>r. (r, if mc_shared c
        then c\<lparr>mc_resaddr := (mc_resaddr c)[unat p := a]\<rparr> else c)) (Mem_lw m a))"
  by (simp add: Mem_ll_def Mem_lw_def Let_def option.map_comp comp_def)

lemma Mem_sw_cases:
  assumes "Mem_sw m c a v = Some (r, m', c')" "mc_shared c"
  obtains "m' = m" "c' = clear_res a c" "\<not> word_ok m a" "r \<noteq> OK"
  | bs where "set_word (mem_b m) (unat (drop_bit 2 a)) v = Some bs" "m' = m\<lparr>mem_b := bs\<rparr>"
      "c' = clear_res a c" "word_ok m a" "r = OK"
  using assms by (cases "word_ok m a") (auto simp: Mem_sw_ok Mem_sw_error)

lemma Mem_sc_cases:
  assumes "Mem_sc m c p a v = Some (r, m', c')" "mc_shared c"
  obtains "m' = m" "c' = c" "r \<noteq> OK"
  | "m' = m" "c' = clear_res a c" "\<not> word_ok m a" "r \<noteq> OK" "mc_resaddr c ! unat p = a"
  | bs where "set_word (mem_b m) (unat (drop_bit 2 a)) v = Some bs" "m' = m\<lparr>mem_b := bs\<rparr>"
      "c' = clear_res a c" "word_ok m a" "r = OK" "unat p < mc_nshr c" "mc_resaddr c ! unat p = a"
proof (cases "unat p < mc_nshr c \<and> mc_resaddr c ! unat p = a")
  case True
  with assms have "Mem_sw m c a v = Some (r, m', c')" by (simp add: Mem_sc_eq)
  then show ?thesis using assms(2) True that(2,3) by (elim Mem_sw_cases) auto
next
  case False
  with assms that(1) show ?thesis by (auto simp: Mem_sc_eq split: if_splits)
qed

lemma Mem_ll_ctl:
  assumes "Mem_ll m c p a = Some (r, c')" "mc_shared c"
  shows "c' = (if unat p < mc_nshr c then c\<lparr>mc_resaddr := (mc_resaddr c)[unat p := a]\<rparr> else c)"
  using assms by (auto simp: Mem_ll_eq split: if_splits)

lemma Mem_sb_cases:
  assumes "Mem_sb m a v = Some (r, m')"
  obtains "m' = m" | "m' = m\<lparr>mem_b := (mem_b m)[unat a := v]\<rparr>"
  using assms by (auto simp: Mem_sb_def split: if_splits)

text \<open>What a step may do to the reservation of \<open>p\<close> on \<open>a\<close> and to the word at \<open>a\<close>.\<close>

lemma word_ok_mem_b [simp]: "word_ok (m\<lparr>mem_b := bs\<rparr>) a = word_ok m a"
  by (simp add: word_ok_def)

lemma step_effect:
  assumes "shr_inv s" "mem_step op s = Some s'"
  shows "shr_inv s'"
    and "quiet op p a \<Longrightarrow> holds_res s' p a \<Longrightarrow> holds_res s p a \<and> word_in s' a = word_in s a"
    and "quiet op p a \<Longrightarrow> \<not> word_write op a \<Longrightarrow> holds_res s p a \<Longrightarrow> holds_res s' p a"
proof -
  obtain m c where s: "s = (m, c)" by fastforce
  obtain m' c' where s': "s' = (m', c')" by fastforce
  have shr: "mc_shared c" "whole_words m" "length (mc_resaddr c) = mc_nshr c"
    using assms(1) s by (auto simp: shr_inv_def)
  have len: "mc_nshr c' = mc_nshr c" "shr_inv s'"
    using assms(2) s s' shr
    by (cases op; auto simp: shr_inv_def whole_words_def wf_mem_def dest!: Mem_ll_ctl
        elim!: Mem_sw_cases Mem_sc_cases Mem_sb_cases dest: set_word_length)+
  show "shr_inv s'" by (rule len)
  show "quiet op p a \<Longrightarrow> holds_res s' p a \<Longrightarrow> holds_res s p a \<and> word_in s' a = word_in s a"
    using assms(2) s s' shr
    by (cases op; auto simp: holds_res_def word_in_def clear_res_nth load_word_set_other
        load_word_set_byte nth_list_update word_unat_eq_iff dest!: Mem_ll_ctl
        elim!: Mem_sw_cases Mem_sc_cases Mem_sb_cases dest: word_ok_not_minus1 split: if_splits)
  show "quiet op p a \<Longrightarrow> \<not> word_write op a \<Longrightarrow> holds_res s p a \<Longrightarrow> holds_res s' p a"
    using assms(2) s s' shr
    by (cases op; auto simp: holds_res_def clear_res_nth nth_list_update word_unat_eq_iff dest!: Mem_ll_ctl
        elim!: Mem_sw_cases Mem_sc_cases Mem_sb_cases split: if_splits)
qed

lemma mem_step_word_ok:
  assumes "shr_inv s" "mem_step op s = Some s'"
  shows "word_ok (fst s') a = word_ok (fst s) a"
  using assms by (cases s; cases s'; cases op)
    (auto simp: shr_inv_def elim!: Mem_sw_cases Mem_sc_cases Mem_sb_cases)

lemma mem_run_ok:
  assumes "shr_inv s" "mfold mem_step ops s = Some s'"
  shows "shr_inv s' \<and> (word_ok (fst s') a = word_ok (fst s) a)"
  using assms(2)
proof (rule mfold_invariant)
  fix op t t'
  assume "shr_inv t \<and> (word_ok (fst t) a = word_ok (fst s) a)" "mem_step op t = Some t'"
  then show "shr_inv t' \<and> (word_ok (fst t') a = word_ok (fst s) a)"
    using step_effect(1) [of t op t'] mem_step_word_ok [of t op t' a] by simp
qed (simp add: assms(1))

interpretation llsc: reservation_memory mem_step holds_res word_in quiet word_write shr_inv
  by unfold_locales (use step_effect in blast)+

section \<open>Properties of LL and SC\<close>

lemma Mem_ll_reserves:
  assumes "Mem_ll m c p a = Some (Inr w, c')" "mc_shared c" "length (mc_resaddr c) = mc_nshr c"
  shows "holds_res (m, c') p a" "word_in (m, c') a = Some w"
  using assms by (auto simp: Mem_ll_eq holds_res_def word_in_def load_word_eq Mem_lw_def word_ok_def
      not_le split: if_splits)

lemma clear_res_ends:
  assumes "length (mc_resaddr c) = mc_nshr c" "word_ok m a"
  shows "\<not> holds_res (m', clear_res a c) q a"
  using assms word_ok_not_minus1 [OF assms(2)] clear_res_nth [of "unat q" c a]
  by (auto simp: holds_res_def split: if_splits)

lemma Mem_sc_OK:
  assumes "Mem_sc m c p a v = Some (OK, m', c')" "shr_inv (m, c)"
  shows "holds_res (m, c) p a" "load_word m' a = Some v" "\<forall>q. \<not> holds_res (m', c') q a"
proof -
  have shr: "mc_shared c" "length (mc_resaddr c) = mc_nshr c" using assms(2) by (auto simp: shr_inv_def)
  from assms(1) shr(1) show "holds_res (m, c) p a" "load_word m' a = Some v"
    by (auto elim!: Mem_sc_cases simp: holds_res_def load_word_eq get_word_set_word)
  from assms(1) shr show "\<forall>q. \<not> holds_res (m', c') q a"
    by (auto elim!: Mem_sc_cases dest: clear_res_ends)
qed

text \<open>A small shared memory: eight bytes, two processors, no reservation yet.\<close>

definition mem8 :: Mem where
  "mem8 = \<lparr>mem_size = 8, mem_b = [1, 0, 0, 0, 2, 0, 0, 0]\<rparr>"

definition ctl2 :: memctl where
  "ctl2 = \<lparr>mc_shared = True, mc_used = False, mc_nshr = 2, mc_resaddr = [-1, -1], mc_hd = 0,
     mc_tl = 0, mc_arr = [-1, -1], mc_util = 0, mc_lockerr = False\<rparr>"

lemma shr_inv_mem8: "shr_inv (mem8, ctl2)"
  by (simp add: shr_inv_def whole_words_def wf_mem_def mem8_def ctl2_def)

text \<open>C2: An LL followed by a successful SC of the same processor on the same address is atomic as
  long as nobody stores single bytes into the word: whatever loads, word stores, byte stores elsewhere,
  LLs and SCs the other processors do in between, the word still had the value the LL returned when the
  SC stored its own, and no reservation on it is left. (A byte store into the word, which \<open>quiet\<close>
  excludes, keeps the reservation, and the SC overwrites the byte; see below.)\<close>

theorem ll_sc_atomic:
  assumes "shr_inv (m, c)"
    and "Mem_ll m c p a = Some (Inr w, c1)"
    and "mfold mem_step ops (m, c1) = Some (m2, c2)"
    and "\<forall>op\<in>set ops. quiet op p a"
    and "Mem_sc m2 c2 p a v = Some (OK, m3, c3)"
  shows "load_word m2 a = Some w \<and> load_word m3 a = Some v \<and> (\<forall>q. \<not> holds_res (m3, c3) q a)"
proof -
  have c: "mc_shared c" "length (mc_resaddr c) = mc_nshr c" using assms(1) by (auto simp: shr_inv_def)
  have "mem_step (OpLL p a) (m, c) = Some (m, c1)" using assms(2) by simp
  then have inv1: "shr_inv (m, c1)" using step_effect(1) [OF assms(1)] by blast
  then have inv2: "shr_inv (m2, c2)" using llsc.run_inv assms(3) by blast
  have "holds_res (m2, c2) p a" using Mem_sc_OK(1) [OF assms(5) inv2] .
  then have "word_in (m2, c2) a = word_in (m, c1) a"
    using llsc.run_reserved [OF inv1 assms(3,4)] by blast
  with Mem_ll_reserves(2) [OF assms(2) c] Mem_sc_OK(2,3) [OF assms(5) inv2] show ?thesis
    by (simp add: word_in_def)
qed

theorem ll_sc_atomic_witness:
  "\<exists>c1 m2 c2 m3 c3. Mem_ll mem8 ctl2 0 4 = Some (Inr 2, c1) \<and>
     mfold mem_step [OpSW 0 7, OpLL 1 4, OpLW 4] (mem8, c1) = Some (m2, c2) \<and>
     Mem_sc m2 c2 0 4 9 = Some (OK, m3, c3) \<and> load_word m2 4 = Some 2 \<and> load_word m3 4 = Some 9"
proof -
  let ?ops = "[OpSW 0 7, OpLL 1 4, OpLW 4]"
  let ?m = "mem8\<lparr>mem_b := [7, 0, 0, 0, 2, 0, 0, 0]\<rparr>"
  let ?m' = "mem8\<lparr>mem_b := [7, 0, 0, 0, 9, 0, 0, 0]\<rparr>"
  let ?c1 = "ctl2\<lparr>mc_resaddr := [4, -1]\<rparr>" and ?c2 = "ctl2\<lparr>mc_resaddr := [4, 4]\<rparr>"
  have 1: "Mem_ll mem8 ctl2 0 4 = Some (Inr 2, ?c1)" by code_simp
  have 2: "mfold mem_step ?ops (mem8, ?c1) = Some (?m, ?c2)" by code_simp
  have 3: "Mem_sc ?m ?c2 0 4 9 = Some (OK, ?m', ctl2)" by code_simp
  have 4: "\<forall>op\<in>set ?ops. quiet op 0 4" by code_simp
  show ?thesis using 1 2 3 ll_sc_atomic [OF shr_inv_mem8 1 2 4 3] by blast
qed

text \<open>C30: SC fails with \<open>EAGAIN\<close>, changing nothing, when any processor has completed a word store
  to the address since the LL.\<close>

theorem sc_fails_after_store:
  assumes "shr_inv (m, c)"
    and "mfold mem_step (ops1 @ OpSW a u # ops2) (m, c) = Some (m2, c2)"
    and "\<forall>op\<in>set ops2. quiet op p a"
    and "unat p < mc_nshr c2" and "word_ok m a"
  shows "Mem_sc m2 c2 p a v = Some (E EAGAIN, m2, c2)"
proof -
  obtain s t where s: "mfold mem_step ops1 (m, c) = Some s" "mem_step (OpSW a u) s = Some t"
    "mfold mem_step ops2 t = Some (m2, c2)"
    using assms(2) by (auto simp: mfold_append Option.bind_eq_Some_conv)
  have "shr_inv s" "word_ok (fst s) a" using mem_run_ok [OF assms(1) s(1)] assms(5) by simp_all
  moreover have t: "shr_inv t" using step_effect(1) [OF \<open>shr_inv s\<close> s(2)] .
  moreover have "word_ok m2 a"
    using mem_run_ok [OF t s(3)] mem_step_word_ok [OF \<open>shr_inv s\<close> s(2)] \<open>word_ok (fst s) a\<close> by simp
  moreover have m2: "shr_inv (m2, c2)" using mem_run_ok [OF t s(3)] by simp
  moreover obtain sm sc tm tc r where st: "s = (sm, sc)" "t = (tm, tc)"
    and sw: "Mem_sw sm sc a u = Some (r, tm, tc)"
    using s(2) by (cases s) auto
  ultimately have sc: "mc_shared sc" "length (mc_resaddr sc) = mc_nshr sc" "word_ok sm a"
    and wok: "word_ok m2 a"
    by (auto simp: shr_inv_def)
  have "tc = clear_res a sc" using sw sc by (auto simp: Mem_sw_ok)
  then have "\<not> holds_res t p a" using clear_res_ends [OF sc(2,3)] st(2) by simp
  then have "\<not> holds_res (m2, c2) p a"
    using llsc.run_reserved [of t ops2 "(m2, c2)" p a] t s(3) assms(3) by blast
  then show ?thesis using assms(4) m2 wok by (auto simp: Mem_sc_eq holds_res_def shr_inv_def)
qed

theorem sc_fails_after_store_witness:
  "\<exists>m2 c2. mfold mem_step ([OpLL 0 4] @ OpSW 4 2 # [OpLW 4]) (mem8, ctl2) = Some (m2, c2) \<and>
     Mem_sc m2 c2 0 4 9 = Some (E EAGAIN, m2, c2)"
proof -
  have 1: "mfold mem_step ([OpLL 0 4] @ OpSW 4 2 # [OpLW 4]) (mem8, ctl2) = Some (mem8, ctl2)"
    by code_simp
  have 2: "\<forall>op\<in>set [OpLW 4]. quiet op 0 4" by code_simp
  have 3: "unat (0 :: u32) < mc_nshr ctl2" "word_ok mem8 4" by code_simp+
  show ?thesis using 1 sc_fails_after_store [OF shr_inv_mem8 1 2 3] by blast
qed

text \<open>SC succeeds when nobody has written the word since the LL.\<close>

theorem sc_succeeds_undisturbed:
  assumes "shr_inv (m, c)"
    and "Mem_ll m c p a = Some (Inr w, c1)"
    and "mfold mem_step ops (m, c1) = Some (m2, c2)"
    and "\<forall>op\<in>set ops. quiet op p a \<and> \<not> word_write op a"
  shows "\<exists>m3 c3. Mem_sc m2 c2 p a v = Some (OK, m3, c3)"
proof -
  have c: "mc_shared c" "length (mc_resaddr c) = mc_nshr c" using assms(1) by (auto simp: shr_inv_def)
  have "mem_step (OpLL p a) (m, c) = Some (m, c1)" using assms(2) by simp
  then have inv1: "shr_inv (m, c1)" using step_effect(1) [OF assms(1)] by blast
  then have inv2: "shr_inv (m2, c2)" using llsc.run_inv assms(3) by blast
  have h: "holds_res (m2, c2) p a"
    using llsc.run_no_write [OF inv1 assms(3) Mem_ll_reserves(1) [OF assms(2) c]] assms(4) by blast
  then have "\<exists>bs. set_word (mem_b m2) (unat (drop_bit 2 a)) v = Some bs"
    using inv2 word_ok_fits [of m2 a] by (auto simp: set_word_def shr_inv_def holds_res_def)
  with h show ?thesis by (auto simp: Mem_sc_eq Mem_sw_ok holds_res_def)
qed

theorem sc_succeeds_undisturbed_witness:
  "\<exists>c1 m2 c2. Mem_ll mem8 ctl2 0 4 = Some (Inr 2, c1) \<and>
     mfold mem_step [OpSW 0 7] (mem8, c1) = Some (m2, c2) \<and>
     (\<exists>m3 c3. Mem_sc m2 c2 0 4 9 = Some (OK, m3, c3))"
proof -
  let ?m = "mem8\<lparr>mem_b := [7, 0, 0, 0, 2, 0, 0, 0]\<rparr>" and ?c1 = "ctl2\<lparr>mc_resaddr := [4, -1]\<rparr>"
  have 1: "Mem_ll mem8 ctl2 0 4 = Some (Inr 2, ?c1)" by code_simp
  have 2: "mfold mem_step [OpSW 0 7] (mem8, ?c1) = Some (?m, ?c1)" by code_simp
  have 3: "\<forall>op\<in>set [OpSW 0 7]. quiet op 0 4 \<and> \<not> word_write op 4" by code_simp
  show ?thesis using 1 2 sc_succeeds_undisturbed [OF shr_inv_mem8 1 2 3] by blast
qed

text \<open>C36: A byte store does not end reservations, so SC overwrites a byte that another processor
  has stored into the word since the LL: the pair is not atomic against byte stores.\<close>

theorem sc_loses_byte_store:
  assumes "shr_inv (m, c)"
    and "Mem_ll m c p a = Some (Inr w, c1)"
    and "Mem_sb m (a + of_nat k) b = Some (OK, m2)" and "k < 4"
  shows "\<exists>m3 c3. Mem_sc m2 c1 p a v = Some (OK, m3, c3) \<and> load_word m3 a = Some v"
proof -
  have c: "mc_shared c" "length (mc_resaddr c) = mc_nshr c" using assms(1) by (auto simp: shr_inv_def)
  have "mem_step (OpLL p a) (m, c) = Some (m, c1)" using assms(2) by simp
  then have inv1: "shr_inv (m, c1)" using step_effect(1) [OF assms(1)] by blast
  have sb: "m2 = m\<lparr>mem_b := (mem_b m)[unat (a + of_nat k) := b]\<rparr>"
    using assms(3) by (auto simp: Mem_sb_def split: if_splits)
  then have inv2: "shr_inv (m2, c1)" using inv1 by (auto simp: shr_inv_def whole_words_def wf_mem_def)
  have h: "holds_res (m2, c1) p a"
    using Mem_ll_reserves(1) [OF assms(2) c] sb by (auto simp: holds_res_def)
  then have "\<exists>bs. set_word (mem_b m2) (unat (drop_bit 2 a)) v = Some bs"
    using inv2 word_ok_fits [of m2 a] by (auto simp: set_word_def shr_inv_def holds_res_def)
  with h obtain m3 c3 where "Mem_sc m2 c1 p a v = Some (OK, m3, c3)"
    by (auto simp: Mem_sc_eq Mem_sw_ok holds_res_def)
  with Mem_sc_OK(2) [OF this inv2] show ?thesis by blast
qed

theorem sc_loses_byte_store_witness:
  "\<exists>c1 m2 m3 c3. Mem_ll mem8 ctl2 0 4 = Some (Inr 2, c1) \<and> Mem_sb mem8 5 255 = Some (OK, m2) \<and>
     Mem_sc m2 c1 0 4 9 = Some (OK, m3, c3) \<and> load_word m3 4 = Some 9"
proof -
  let ?m = "mem8\<lparr>mem_b := [1, 0, 0, 0, 2, 255, 0, 0]\<rparr>" and ?c1 = "ctl2\<lparr>mc_resaddr := [4, -1]\<rparr>"
  have 1: "Mem_ll mem8 ctl2 0 4 = Some (Inr 2, ?c1)" by code_simp
  have 2: "Mem_sb mem8 5 255 = Some (OK, ?m)" by code_simp
  then have 3: "Mem_sb mem8 (4 + of_nat 1) 255 = Some (OK, ?m)" by simp
  show ?thesis using 1 2 sc_loses_byte_store [OF shr_inv_mem8 1 3] by auto
qed

end
