(* ===== verification/Mem_Props.thy ===== *)
theory Mem_Props
  imports LLSC
begin

text \<open>
  The properties of the memory module that a client sees: read after write for words and
  bytes, the exact condition under which a word access leaves the allocated bytes, and what
  the two constructors establish.
\<close>

section \<open>Read after write\<close>

lemma Mem_lw_load_word:
  assumes "whole_words m"
  shows "Mem_lw m a = (case load_word m a of Some w \<Rightarrow> Some (Inr w)
    | None \<Rightarrow> Some (Inl (if a \<ge> mem_size m then EADDRNOTAVAIL else EFAULT)))"
proof (cases "word_ok m a")
  case True
  with words.load_defined [OF assms, of a] show ?thesis
    by (auto simp: load_word_def Mem_lw_ok split: option.splits)
next
  case False
  then show ?thesis by (simp add: Mem_lw_error load_word_eq)
qed

lemma Mem_sw_store_word:
  "Mem_sw m c a v = Some (OK, m', c') \<Longrightarrow> store_word m a v = Some m'"
  by (cases "word_ok m a") (auto simp: Mem_sw_ok Mem_sw_error store_word_eq)

definition mem16 :: Mem where
  "mem16 = \<lparr>mem_size = 16, mem_b = replicate 16 0\<rparr>"

lemma whole_words_mem16: "whole_words mem16"
  by code_simp

lemma mem16_store: "Mem_sw mem16 memctl0 8 0xDEADBEEF = Some (OK, mem16\<lparr>mem_b :=
    [0, 0, 0, 0, 0, 0, 0, 0, 0xEF, 0xBE, 0xAD, 0xDE, 0, 0, 0, 0]\<rparr>, memctl0)"
  by code_simp

text \<open>After a successful \<open>Mem_sw\<close> a \<open>Mem_lw\<close> of the same address returns the stored word, and
  a \<open>Mem_lw\<close> of any other address answers (value or error) what it answered before.\<close>

theorem lw_after_sw:
  assumes "whole_words m" and "Mem_sw m c a v = Some (OK, m', c')"
  shows "Mem_lw m' b = (if b = a then Some (Inr v) else Mem_lw m b)"
proof -
  have st: "store_word m a v = Some m'" using Mem_sw_store_word [OF assms(2)] .
  then have "whole_words m'" using words.store_inv [OF assms(1)] by blast
  then show ?thesis
    using words.load_store [OF assms(1) st, of b] Mem_sw_OK(2) [OF assms(2)]
    by (simp add: Mem_lw_load_word assms(1))
qed

theorem lw_after_sw_witness:
  "\<exists>m'. Mem_sw mem16 memctl0 8 0xDEADBEEF = Some (OK, m', memctl0) \<and>
     Mem_lw m' 8 = Some (Inr 0xDEADBEEF) \<and> Mem_lw m' 4 = Mem_lw mem16 4"
  using mem16_store lw_after_sw [OF whole_words_mem16 mem16_store] by auto

text \<open>Bytes and words are two views of the same memory, little endian: after a successful
  \<open>Mem_sw\<close> the byte at offset \<open>k\<close> of the word is bits \<open>8k .. 8k+7\<close> of the stored value, and the
  bytes of all other words are as before.\<close>

theorem lb_after_sw:
  assumes "whole_words m" and "Mem_sw m c a v = Some (OK, m', c')"
  shows "Mem_lb m' b = (if drop_bit 2 b = drop_bit 2 a
    then Some (Inr (byte_of (unat b mod 4) v)) else Mem_lb m b)"
proof -
  note D = Mem_sw_OK [OF assms(2)]
  have len: "length (mem_b m) = unat (mem_size m)" "length (mem_b m') = length (mem_b m)"
    using assms(1) set_word_length [OF D(3)] by (simp_all add: whole_words_def wf_mem_def)
  have same: "unat b div 4 = unat (drop_bit 2 a) \<longleftrightarrow> drop_bit 2 b = drop_bit 2 a"
    by (simp add: word_unat_eq_iff flip: unat_drop2)
  show ?thesis
  proof (cases "b < mem_size m")
    case True
    then have "unat b < length (mem_b m)" using len by (simp add: word_less_nat_alt)
    with True show ?thesis
      using nth_set_word [OF D(3), of "unat b"] same len D(2) by (auto simp: Mem_lb_def not_le)
  next
    case False
    have "drop_bit 2 b \<noteq> drop_bit 2 a"
    proof
      assume "drop_bit 2 b = drop_bit 2 a"
      then have "unat b div 4 = unat a div 4" by (metis unat_drop2)
      moreover have "unat a div 4 < unat (mem_size m) div 4"
        using word_ok_fits [OF assms(1) D(1)] len by (simp add: unat_drop2)
      moreover have "unat (mem_size m) \<le> unat b" using False by (simp add: word_le_nat_alt not_less)
      ultimately show False by (metis div_le_mono not_less)
    qed
    with False D(2) show ?thesis by (auto simp: Mem_lb_def)
  qed
qed

theorem lb_after_sw_witness:
  "\<exists>m'. Mem_sw mem16 memctl0 8 0xDEADBEEF = Some (OK, m', memctl0) \<and>
     Mem_lb m' 9 = Some (Inr 0xBE) \<and> Mem_lb m' 12 = Mem_lb mem16 12"
proof -
  have "byte_of 1 0xDEADBEEF = 0xBE" by code_simp
  then show ?thesis using mem16_store lb_after_sw [OF whole_words_mem16 mem16_store, of 9]
      lb_after_sw [OF whole_words_mem16 mem16_store, of 12] by auto
qed

text \<open>C35: The bounds check of the word accesses compares the first byte only, so an accepted
  \<open>Mem_lw\<close> runs past the allocated bytes exactly when fewer than four bytes are left at its
  address; it never does when the memory size is a multiple of four.\<close>

theorem lw_out_of_bounds_iff:
  assumes "wf_mem m"
  shows "(Mem_lw m a = None \<longleftrightarrow> word_ok m a \<and> unat (mem_size m) < unat a + 4) \<and>
    (4 dvd unat (mem_size m) \<longrightarrow> Mem_lw m a \<noteq> None)"
proof -
  have *: "Mem_lw m a = None \<longleftrightarrow> word_ok m a \<and> unat (mem_size m) < unat a + 4"
  proof (cases "word_ok m a")
    case True
    then have "4 * (unat a div 4) = unat a" by (simp add: word_ok_def aligned_iff)
    with True assms show ?thesis
      by (auto simp: Mem_lw_ok get_word_def unat_drop2 wf_mem_def)
  next
    case False
    then show ?thesis by (simp add: Mem_lw_error)
  qed
  moreover have "Mem_lw m a \<noteq> None" if "4 dvd unat (mem_size m)"
    using assms that by (auto simp: Mem_lw_load_word whole_words_def split: option.splits)
  ultimately show ?thesis by blast
qed

theorem lw_out_of_bounds_iff_witness:
  "Mem_lw \<lparr>mem_size = 6, mem_b = [0, 0, 0, 0, 0, 0]\<rparr> 4 = None"
  using lw_out_of_bounds_iff [of "\<lparr>mem_size = 6, mem_b = [0, 0, 0, 0, 0, 0]\<rparr>" 4]
  by (simp add: wf_mem_def word_ok_def)

section \<open>Creation\<close>

text \<open>A successful \<open>Mem_create\<close> for several processors leaves a well-formed memory and a
  controller with an empty waiting queue, whatever the allocator left in the reservation
  array; a failed allocation is \<open>ENOMEM\<close>.\<close>

theorem Mem_create_shared:
  assumes "1 < n" and "n \<le> 2 ^ 32" and "\<not> mc_lockerr c"
    and "al_resaddr al = Some r" and "length r = n"
    and "al_data al = Some d" and "length d = unat sz"
  shows "if al_arr al \<and> al_mutex al \<and> al_mem al
    then \<exists>m c'. Mem_create sz n al c = (Inr m, c') \<and> wf_mem m \<and> mem_size m = sz \<and> bus_inv c' \<and>
         mc_nshr c' = n \<and> bus_queue c' = [] \<and> mc_resaddr c' = r
    else fst (Mem_create sz n al c) = Inl ENOMEM"
proof -
  let ?c = "c\<lparr>mc_shared := True, mc_used := False, mc_nshr := n, mc_resaddr := r,
    mc_hd := 0, mc_tl := 0, mc_util := 0, mc_arr := replicate n (-1)\<rparr>"
  have "bus_inv ?c" "bus_queue ?c = []"
    using bus_invI [of ?c "[]"] assms by simp_all
  then show ?thesis using assms by (simp add: Mem_create_def Let_def wf_mem_def)
qed

theorem Mem_create_shared_witness:
  "\<exists>m c'. Mem_create 4 2 \<lparr>al_resaddr = Some [7, 8], al_arr = True, al_mutex = True, al_mem = True,
      al_data = Some [9, 9, 9, 9]\<rparr> memctl0 = (Inr m, c') \<and> wf_mem m \<and> bus_inv c' \<and>
    mc_resaddr c' = [7, 8]"
  using Mem_create_shared [of 2 memctl0 "\<lparr>al_resaddr = Some [7, 8], al_arr = True, al_mutex = True,
    al_mem = True, al_data = Some [9, 9, 9, 9]\<rparr>" "[7, 8]" "[9, 9, 9, 9]" 4]
  by (auto simp: memctl0_def)

text \<open>The memories made by \<open>Mem_createarr\<close> are well formed, all have the requested size, and
  laid end to end they are exactly the one block that was allocated, so no byte belongs to two
  of them.\<close>

theorem Mem_createarr_partitions:
  assumes "length block = unat sz * n"
  shows "\<exists>ms. Mem_createarr sz n True (Some block) = Inr ms \<and> length ms = n \<and>
    (\<forall>m\<in>set ms. wf_mem m \<and> mem_size m = sz) \<and> concat (map mem_b ms) = block"
proof -
  have cat: "concat (map (\<lambda>i. take k (drop (i * k) b)) [0..<j]) = take (j * k) b"
    for j k and b :: "u8 list"
  proof (induction j)
    case (Suc j)
    have "Suc j * k = j * k + k" by simp
    with Suc show ?case by (simp only: take_add) simp
  qed simp
  have len: "length (take (unat sz) (drop (i * unat sz) block)) = unat sz" if "i < n" for i
  proof -
    have "Suc i * unat sz \<le> n * unat sz" using that by (intro mult_le_mono1) simp
    then have "unat sz \<le> length block - i * unat sz" using assms by (simp add: mult.commute)
    then show ?thesis by simp
  qed
  have "concat (map (\<lambda>i. take (unat sz) (drop (i * unat sz) block)) [0..<n]) = block"
    using cat [where j = n and k = "unat sz" and b = block] assms by (simp add: mult.commute)
  then show ?thesis using len by (simp add: Mem_createarr_def wf_mem_def comp_def)
qed

theorem Mem_createarr_partitions_witness:
  "\<exists>ms. Mem_createarr 4 2 True (Some [1, 2, 3, 4, 5, 6, 7, 8]) = Inr ms \<and> length ms = 2 \<and>
     concat (map mem_b ms) = [1, 2, 3, 4, 5, 6, 7, 8]"
  using Mem_createarr_partitions [of "[1, 2, 3, 4, 5, 6, 7, 8]" 4 2] by auto

end
