(* ===== verification/Progld.thy ===== *)
theory Progld
  imports Mem
begin

text \<open>
  Loading a program (mem.c, \<open>Mem_progld\<close>): the loop over the program headers of an ELF image, the
  segments it copies, and the two ways it can go wrong. The layout of \<open>Elf32_Ehdr\<close> and
  \<open>Elf32_Phdr\<close> is that of elf.h: \<open>e_phoff\<close> at 28, \<open>e_phnum\<close> at 44, headers of 32 bytes.
\<close>

section \<open>Reading the image\<close>

definition elf_u16 :: "u8 list \<Rightarrow> nat \<Rightarrow> u16 option" where
  "elf_u16 bs i =
     (if i + 2 \<le> length bs then Some (ucast (bs ! i) OR push_bit 8 (ucast (bs ! (i + 1)))) else None)"

definition elf_u32 :: "u8 list \<Rightarrow> nat \<Rightarrow> u32 option" where
  "elf_u32 bs i =
     (if i + 4 \<le> length bs
      then Some (word_of_bytes (bs ! i) (bs ! (i + 1)) (bs ! (i + 2)) (bs ! (i + 3))) else None)"

text \<open>\<open>memset(p, 0, n)\<close> and \<open>memcpy\<close> of \<open>n\<close> bytes of the image at \<open>src\<close> to \<open>dst\<close>.\<close>

definition set_zero :: "nat \<Rightarrow> u8 list \<Rightarrow> u8 list option" where
  "set_zero n bs = (if n \<le> length bs then Some (replicate n 0 @ drop n bs) else None)"

definition copy_bytes :: "u8 list \<Rightarrow> nat \<Rightarrow> nat \<Rightarrow> nat \<Rightarrow> u8 list \<Rightarrow> u8 list option" where
  "copy_bytes elf src dst n bs =
     (if src + n \<le> length elf \<and> dst + n \<le> length bs
      then Some (take dst bs @ take n (drop src elf) @ drop (dst + n) bs) else None)"

section \<open>The loader\<close>

definition PT_LOAD :: u32 where "PT_LOAD = 1"
definition PF_X :: u32 where "PF_X = 1"
definition PF_W :: u32 where "PF_W = 2"
definition PF_R :: u32 where "PF_R = 4"

definition load_flags :: "u32 \<Rightarrow> bool" where
  "load_flags f \<longleftrightarrow> f = PF_R OR PF_X \<or> f = PF_R OR PF_W \<or> f = PF_R OR PF_W OR PF_X"

text \<open>The loop: \<open>ph\<close> is the offset of the header in the image, the number is \<open>phnum\<close>.\<close>

fun progld_loop :: "u8 list \<Rightarrow> nat \<Rightarrow> nat \<Rightarrow> Mem \<Rightarrow> (retcode \<times> Mem) option" where
  "progld_loop elf ph 0 m = Some (OK, m)"
| "progld_loop elf ph (Suc phnum) m = do {
     p_type \<leftarrow> elf_u32 elf ph;
     if p_type \<noteq> PT_LOAD then progld_loop elf (ph + 32) phnum m
     else do {
       p_flags \<leftarrow> elf_u32 elf (ph + 24);
       if load_flags p_flags then do {
         p_paddr \<leftarrow> elf_u32 elf (ph + 12);
         if ucast p_paddr \<ge> mem_size m then Some (E ENOSPC, m)
         else do {
           p_offset \<leftarrow> elf_u32 elf (ph + 4);
           p_filesz \<leftarrow> elf_u32 elf (ph + 16);
           bs \<leftarrow> copy_bytes elf (unat p_offset) (unat p_paddr) (unat p_filesz) (mem_b m);
           progld_loop elf (ph + 32) phnum (m\<lparr>mem_b := bs\<rparr>)
         }
       }
       else progld_loop elf (ph + 32) phnum m
     }
   }"

definition Mem_progld :: "Mem \<Rightarrow> u8 list \<Rightarrow> (retcode \<times> Mem) option" where
  "Mem_progld m elf = do {
     z \<leftarrow> set_zero (unat (mem_size m)) (mem_b m);
     e_phoff \<leftarrow> elf_u32 elf 28;
     e_phnum \<leftarrow> elf_u16 elf 44;
     progld_loop elf (unat e_phoff) (unat e_phnum) (m\<lparr>mem_b := z\<rparr>)
   }"

section \<open>Segments\<close>

record segment =
  sg_load :: bool
  sg_off :: nat
  sg_addr :: nat
  sg_len :: nat

text \<open>A program header of the image, when all of it is inside the image.\<close>

definition read_segment :: "u8 list \<Rightarrow> nat \<Rightarrow> segment option" where
  "read_segment elf ph = do {
     t \<leftarrow> elf_u32 elf ph; off \<leftarrow> elf_u32 elf (ph + 4); pa \<leftarrow> elf_u32 elf (ph + 12);
     sz \<leftarrow> elf_u32 elf (ph + 16); fl \<leftarrow> elf_u32 elf (ph + 24);
     Some \<lparr>sg_load = (t = PT_LOAD \<and> load_flags fl), sg_off = unat off, sg_addr = unat pa,
       sg_len = unat sz\<rparr>
   }"

fun read_segments :: "u8 list \<Rightarrow> nat \<Rightarrow> nat \<Rightarrow> segment list option" where
  "read_segments elf ph 0 = Some []"
| "read_segments elf ph (Suc n) = do {
     s \<leftarrow> read_segment elf ph; ss \<leftarrow> read_segments elf (ph + 32) n; Some (s # ss)
   }"

text \<open>The segments of an image that the loader copies, in the order of their headers.\<close>

definition elf_segments :: "u8 list \<Rightarrow> segment list option" where
  "elf_segments elf = do {
     off \<leftarrow> elf_u32 elf 28; n \<leftarrow> elf_u16 elf 44; ss \<leftarrow> read_segments elf (unat off) (unat n);
     Some (filter sg_load ss)
   }"

fun load_all :: "u8 list \<Rightarrow> segment list \<Rightarrow> Mem \<Rightarrow> (retcode \<times> Mem) option" where
  "load_all elf [] m = Some (OK, m)"
| "load_all elf (s # ss) m =
     (if sg_addr s \<ge> unat (mem_size m) then Some (E ENOSPC, m)
      else Option.bind (copy_bytes elf (sg_off s) (sg_addr s) (sg_len s) (mem_b m))
        (\<lambda>bs. load_all elf ss (m\<lparr>mem_b := bs\<rparr>)))"

lemma progld_loop_load_all:
  "read_segments elf ph n = Some ss \<Longrightarrow> progld_loop elf ph n m = load_all elf (filter sg_load ss) m"
proof (induction n arbitrary: ph ss m)
  case (Suc n)
  have le: "mem_size m \<le> ucast p \<longleftrightarrow> unat (mem_size m) \<le> unat p" for p :: u32
    proof -
    have "unat p < 2 ^ 32" using unsigned_less [of p] by simp
    then have "unat p < 2 ^ 64" by simp
    then show ?thesis by (simp add: word_le_nat_alt unsigned_ucast_eq take_bit_nat_eq_self)
  qed
  from Suc.prems show ?case
    by (auto simp: read_segment_def Option.bind_eq_Some_conv Suc.IH le intro!: bind_option_cong)
qed simp

lemma Mem_progld_load_all:
  assumes "elf_segments elf = Some ss" "wf_mem m"
  shows "Mem_progld m elf = load_all elf ss (m\<lparr>mem_b := replicate (unat (mem_size m)) 0\<rparr>)"
  using assms
  by (auto simp: Mem_progld_def elf_segments_def set_zero_def wf_mem_def Option.bind_eq_Some_conv
      progld_loop_load_all)

text \<open>Which segment an address comes from.\<close>

definition covers :: "nat \<Rightarrow> segment \<Rightarrow> bool" where
  "covers a s \<longleftrightarrow> sg_addr s \<le> a \<and> a < sg_addr s + sg_len s"

definition seg_fits :: "nat \<Rightarrow> segment \<Rightarrow> bool" where
  "seg_fits n s \<longleftrightarrow> sg_addr s < n \<and> sg_addr s + sg_len s \<le> n"

lemma copy_bytes_length: "copy_bytes elf src dst n bs = Some bs' \<Longrightarrow> length bs' = length bs"
  by (auto simp: copy_bytes_def split: if_splits)

lemma copy_bytes_nth:
  assumes "copy_bytes elf src dst n bs = Some bs'" "a < length bs"
  shows "bs' ! a = (if dst \<le> a \<and> a < dst + n then elf ! (src + (a - dst)) else bs ! a)"
proof -
  have "bs' = take dst bs @ take n (drop src elf) @ drop (dst + n) bs" "src + n \<le> length elf"
    "dst + n \<le> length bs"
    using assms(1) by (auto simp: copy_bytes_def split: if_splits)
  then show ?thesis using assms(2) by (auto simp: nth_append)
qed

lemma find_append: "find P (xs @ ys) = (case find P xs of None \<Rightarrow> find P ys | Some x \<Rightarrow> Some x)"
  by (induction xs) auto

lemma load_all_image:
  assumes "load_all elf ss m = Some (OK, m')"
  shows "mem_size m' = mem_size m \<and> length (mem_b m') = length (mem_b m) \<and>
    (\<forall>a<length (mem_b m). mem_b m' ! a = (case find (covers a) (rev ss) of
        None \<Rightarrow> mem_b m ! a | Some s \<Rightarrow> elf ! (sg_off s + (a - sg_addr s))))"
  using assms
proof (induction ss arbitrary: m)
  case (Cons s ss)
  then obtain bs where bs: "copy_bytes elf (sg_off s) (sg_addr s) (sg_len s) (mem_b m) = Some bs"
    "load_all elf ss (m\<lparr>mem_b := bs\<rparr>) = Some (OK, m')"
    by (auto simp: Option.bind_eq_Some_conv split: if_splits)
  from Cons.IH [OF bs(2)] copy_bytes_nth [OF bs(1)] copy_bytes_length [OF bs(1)] show ?case
    by (auto simp: find_append covers_def split: option.splits)
qed simp

lemma load_all_outcome:
  assumes "\<forall>s\<in>set ss. sg_off s + sg_len s \<le> length elf" "wf_mem m" "unat (mem_size m) = n"
  shows "case dropWhile (seg_fits n) ss of
      [] \<Rightarrow> \<exists>m'. load_all elf ss m = Some (OK, m')
    | s # _ \<Rightarrow> if sg_addr s \<ge> n then \<exists>m'. load_all elf ss m = Some (E ENOSPC, m')
        else load_all elf ss m = None"
  using assms
proof (induction ss arbitrary: m)
  case (Cons s ss)
  show ?case
  proof (cases "seg_fits n s")
    case True
    then obtain bs where bs: "copy_bytes elf (sg_off s) (sg_addr s) (sg_len s) (mem_b m) = Some bs"
      using Cons.prems by (auto simp: copy_bytes_def seg_fits_def wf_mem_def)
    then have eq: "load_all elf (s # ss) m = load_all elf ss (m\<lparr>mem_b := bs\<rparr>)"
      using True Cons.prems(3) by (simp add: seg_fits_def)
    have "wf_mem (m\<lparr>mem_b := bs\<rparr>)"
      using Cons.prems copy_bytes_length [OF bs] by (auto simp: wf_mem_def)
    with Cons.IH [of "m\<lparr>mem_b := bs\<rparr>"] Cons.prems True show ?thesis
      unfolding eq by simp
  next
    case False
    with Cons.prems show ?thesis
      by (auto simp: seg_fits_def copy_bytes_def wf_mem_def)
  qed
qed simp

section \<open>Properties of the loader\<close>

text \<open>
  A small image: an ELF header and two program headers, both for segments of the bytes of the
  header itself (the words at 28 and 32 of the file), the second one on top of the first.
\<close>

definition elf_word :: "u32 \<Rightarrow> u8 list" where
  "elf_word w = [byte_of 0 w, byte_of 1 w, byte_of 2 w, byte_of 3 w]"

definition elf_two :: "u32 \<Rightarrow> u32 \<Rightarrow> u8 list" where
  "elf_two pa sz = replicate 28 0xFF @ elf_word 48 @ replicate 12 7 @ [2, 0, 0, 0] @
     concat (map elf_word [1, 28, 0, 4, 8, 8, 5, 0, 1, 28, 0, pa, sz, sz, 6, 0])"

definition mem16z :: Mem where
  "mem16z = \<lparr>mem_size = 16, mem_b = replicate 16 9\<rparr>"

text \<open>C33: When the loader returns 0 the memory is exactly the image: each byte is the byte of
  the last loadable segment that covers its address, and 0 where no segment does.\<close>

theorem progld_image:
  assumes "wf_mem m" and "elf_segments elf = Some ss" and "Mem_progld m elf = Some (OK, m')"
  shows "mem_size m' = mem_size m \<and> wf_mem m' \<and>
    (\<forall>a<unat (mem_size m). mem_b m' ! a = (case find (covers a) (rev ss) of
        None \<Rightarrow> 0 | Some s \<Rightarrow> elf ! (sg_off s + (a - sg_addr s))))"
  using load_all_image [of elf ss "m\<lparr>mem_b := replicate (unat (mem_size m)) 0\<rparr>" m'] assms(1,3)
  by (auto simp: Mem_progld_load_all [OF assms(2,1)] wf_mem_def split: option.splits)

theorem progld_image_witness:
  "\<exists>m'. Mem_progld mem16z (elf_two 8 2) = Some (OK, m') \<and> mem_size m' = 16 \<and>
     mem_b m' ! 4 = 48 \<and> mem_b m' ! 8 = 48 \<and> mem_b m' ! 10 = 7 \<and> mem_b m' ! 3 = 0"
proof -
  let ?m = "\<lparr>mem_size = 16, mem_b = [0, 0, 0, 0, 48, 0, 0, 0, 48, 0, 7, 7, 0, 0, 0, 0]\<rparr>"
  let ?ss = "[\<lparr>sg_load = True, sg_off = 28, sg_addr = 4, sg_len = 8\<rparr>,
    \<lparr>sg_load = True, sg_off = 28, sg_addr = 8, sg_len = 2\<rparr>]"
  have 1: "wf_mem mem16z" by code_simp
  have 2: "elf_segments (elf_two 8 2) = Some ?ss" by code_simp
  have 3: "Mem_progld mem16z (elf_two 8 2) = Some (OK, ?m)" by code_simp
  have "mem_size ?m = 16" using progld_image [OF 1 2 3] by (simp add: mem16z_def)
  with 3 show ?thesis by auto
qed

text \<open>C34: What the loader answers, when every segment lies in the file, depends on the first
  loadable segment that does not fit in the memory: there is none and it returns 0; it begins
  past the end and \<open>ENOSPC\<close> is returned; or it begins inside the memory and ends past it, and
  the copy writes outside the memory: the check compares only the first address.\<close>

theorem progld_outcome:
  assumes "wf_mem m" and "elf_segments elf = Some ss"
    and "\<forall>s\<in>set ss. sg_off s + sg_len s \<le> length elf"
  shows "case dropWhile (seg_fits (unat (mem_size m))) ss of
      [] \<Rightarrow> \<exists>m'. Mem_progld m elf = Some (OK, m')
    | s # _ \<Rightarrow> if sg_addr s \<ge> unat (mem_size m) then \<exists>m'. Mem_progld m elf = Some (E ENOSPC, m')
        else Mem_progld m elf = None"
  unfolding Mem_progld_load_all [OF assms(2,1)]
  by (rule load_all_outcome) (use assms in \<open>simp_all add: wf_mem_def\<close>)

theorem progld_outcome_witness:
  "Mem_progld mem16z (elf_two 12 8) = None"
proof -
  let ?ss = "[\<lparr>sg_load = True, sg_off = 28, sg_addr = 4, sg_len = 8\<rparr>,
    \<lparr>sg_load = True, sg_off = 28, sg_addr = 12, sg_len = 8\<rparr>]"
  have 1: "wf_mem mem16z" by code_simp
  have 2: "elf_segments (elf_two 12 8) = Some ?ss" by code_simp
  have 3: "\<forall>s\<in>set ?ss. sg_off s + sg_len s \<le> length (elf_two 12 8)" by code_simp
  show ?thesis using progld_outcome [OF 1 2 3] by (simp add: seg_fits_def mem16z_def)
qed

end
