(* ===== verification/Instr.thy ===== *)
theory Instr
  imports Prelude
begin

text \<open>
  The instruction codes (instr.h): one datatype per enumeration with the value of each of its
  enumerators, and the macros that cut the fields out of an instruction word. The placeholder
  enumerators (\<open>OPC_IGN0\<close> and the like), which only keep the numbering, are left out except the
  two the decoder compares with; \<open>AND\<close>, \<open>OR\<close> and \<open>XOR\<close> are \<open>AND_F\<close>, \<open>OR_F\<close> and \<open>XOR_F\<close>.
\<close>

section \<open>Enumerations\<close>

datatype (plugins only: code) opcodes =
    SPECIAL | REGIMM | J | JAL | BEQ | BNE | BLEZ | BGTZ | ADDI | ADDIU | SLTI | SLTIU | ANDI
    | ORI | XORI | LUI | COP0 | COP1 | COP2 | COP1X | BEQL | BNEL | BLEZL | BGTZL | SPECIAL2
    | JALX | SPECIAL3 | LB | LH | LWL | LW | LBU | LHU | LWR | SB | SH | SWL | SW | SWR | CACHE
    | LL | LWC1 | LWC2 | PREF | LDC1 | LDC2 | SC | SWC1 | SWC2 | SDC1 | SDC2

primrec opc :: "opcodes \<Rightarrow> u32" where
  "opc SPECIAL = 0" | "opc REGIMM = 1" | "opc J = 2" | "opc JAL = 3" | "opc BEQ = 4"
   | "opc BNE = 5" | "opc BLEZ = 6" | "opc BGTZ = 7" | "opc ADDI = 8" | "opc ADDIU = 9"
   | "opc SLTI = 10" | "opc SLTIU = 11" | "opc ANDI = 12" | "opc ORI = 13" | "opc XORI = 14"
   | "opc LUI = 15" | "opc COP0 = 16" | "opc COP1 = 17" | "opc COP2 = 18" | "opc COP1X = 19"
   | "opc BEQL = 20" | "opc BNEL = 21" | "opc BLEZL = 22" | "opc BGTZL = 23"
   | "opc SPECIAL2 = 28" | "opc JALX = 29" | "opc SPECIAL3 = 31" | "opc LB = 32"
   | "opc LH = 33" | "opc LWL = 34" | "opc LW = 35" | "opc LBU = 36" | "opc LHU = 37"
   | "opc LWR = 38" | "opc SB = 40" | "opc SH = 41" | "opc SWL = 42" | "opc SW = 43"
   | "opc SWR = 46" | "opc CACHE = 47" | "opc LL = 48" | "opc LWC1 = 49" | "opc LWC2 = 50"
   | "opc PREF = 51" | "opc LDC1 = 53" | "opc LDC2 = 54" | "opc SC = 56" | "opc SWC1 = 57"
   | "opc SWC2 = 58" | "opc SDC1 = 61" | "opc SDC2 = 62"

datatype (plugins only: code) special_func =
    SLL | MOVCI | SRL_FIELD | SRA | SLLV | SRLV_FIELD | SRAV | JR | JALR | MOVZ | MOVN
    | SYSCALL | BREAK | SYNC | MFHI | MTHI | MFLO | MTLO | MULT | MULTU | DIV | DIVU | ADD
    | ADDU | SUB | SUBU | AND_F | OR_F | XOR_F | NOR | SLT | SLTU | TGE | TGEU | TLT | TLTU
    | TEQ | TNE

primrec funct :: "special_func \<Rightarrow> u32" where
  "funct SLL = 0" | "funct MOVCI = 1" | "funct SRL_FIELD = 2" | "funct SRA = 3"
   | "funct SLLV = 4" | "funct SRLV_FIELD = 6" | "funct SRAV = 7" | "funct JR = 8"
   | "funct JALR = 9" | "funct MOVZ = 10" | "funct MOVN = 11" | "funct SYSCALL = 12"
   | "funct BREAK = 13" | "funct SYNC = 15" | "funct MFHI = 16" | "funct MTHI = 17"
   | "funct MFLO = 18" | "funct MTLO = 19" | "funct MULT = 24" | "funct MULTU = 25"
   | "funct DIV = 26" | "funct DIVU = 27" | "funct ADD = 32" | "funct ADDU = 33"
   | "funct SUB = 34" | "funct SUBU = 35" | "funct AND_F = 36" | "funct OR_F = 37"
   | "funct XOR_F = 38" | "funct NOR = 39" | "funct SLT = 42" | "funct SLTU = 43"
   | "funct TGE = 48" | "funct TGEU = 49" | "funct TLT = 50" | "funct TLTU = 51"
   | "funct TEQ = 52" | "funct TNE = 54"

datatype (plugins only: code) regimm_rt =
    BLTZ | BGEZ | BLTZL | BGEZL | TGEI | TGEIU | TLTI | TLTIU | TEQI | TNEI | BLTZAL | BGEZAL
    | BLTZALL | BGEZALL | SYNCI

primrec regimm :: "regimm_rt \<Rightarrow> u32" where
  "regimm BLTZ = 0" | "regimm BGEZ = 1" | "regimm BLTZL = 2" | "regimm BGEZL = 3"
   | "regimm TGEI = 8" | "regimm TGEIU = 9" | "regimm TLTI = 10" | "regimm TLTIU = 11"
   | "regimm TEQI = 12" | "regimm TNEI = 14" | "regimm BLTZAL = 16" | "regimm BGEZAL = 17"
   | "regimm BLTZALL = 18" | "regimm BGEZALL = 19" | "regimm SYNCI = 31"

datatype (plugins only: code) special2_func =
    MADD | MADDU | MUL | MSUB | MSUBU | CLZ | CLO | SDBBP

primrec funct2 :: "special2_func \<Rightarrow> u32" where
  "funct2 MADD = 0" | "funct2 MADDU = 1" | "funct2 MUL = 2" | "funct2 MSUB = 4"
   | "funct2 MSUBU = 5" | "funct2 CLZ = 32" | "funct2 CLO = 33" | "funct2 SDBBP = 63"

datatype (plugins only: code) special3_func =
    EXT | INS | BSHFL | RDHWR

primrec funct3 :: "special3_func \<Rightarrow> u32" where
  "funct3 EXT = 0" | "funct3 INS = 4" | "funct3 BSHFL = 32" | "funct3 RDHWR = 59"

datatype (plugins only: code) movci =
    MOVF | MOVT

primrec movci_val :: "movci \<Rightarrow> u32" where
  "movci_val MOVF = 0" | "movci_val MOVT = 1"

datatype (plugins only: code) srl =
    SRL | ROTR

primrec srl_val :: "srl \<Rightarrow> u32" where
  "srl_val SRL = 0" | "srl_val ROTR = 1"

datatype (plugins only: code) srlv =
    SRLV | ROTRV

primrec srlv_val :: "srlv \<Rightarrow> u32" where
  "srlv_val SRLV = 0" | "srlv_val ROTRV = 1"

datatype (plugins only: code) bshfl =
    WSBH | SEB | SEH

primrec bshfl_val :: "bshfl \<Rightarrow> u32" where
  "bshfl_val WSBH = 2" | "bshfl_val SEB = 16" | "bshfl_val SEH = 24"

datatype (plugins only: code) cop0_rs =
    MFC0 | MTC0 | RDPGPR | MFMC0 | WRPGPR | COP0RS_IGN10

primrec cop0rs :: "cop0_rs \<Rightarrow> u32" where
  "cop0rs MFC0 = 0" | "cop0rs MTC0 = 4" | "cop0rs RDPGPR = 10" | "cop0rs MFMC0 = 11"
   | "cop0rs WRPGPR = 14" | "cop0rs COP0RS_IGN10 = 15"

datatype (plugins only: code) cop0_co =
    TLBR | TLBWI | TLBWR | TLBP | ERET | DERET | WAIT

primrec cop0co :: "cop0_co \<Rightarrow> u32" where
  "cop0co TLBR = 1" | "cop0co TLBWI = 2" | "cop0co TLBWR = 6" | "cop0co TLBP = 8"
   | "cop0co ERET = 24" | "cop0co DERET = 31" | "cop0co WAIT = 32"

datatype (plugins only: code) cop2_rs =
    MFC2 | CFC2 | MFHC2 | MTC2 | CTC2 | MTHC2 | BC2 | COP2RS_IGN8

primrec cop2rs :: "cop2_rs \<Rightarrow> u32" where
  "cop2rs MFC2 = 0" | "cop2rs CFC2 = 2" | "cop2rs MFHC2 = 3" | "cop2rs MTC2 = 4"
   | "cop2rs CTC2 = 6" | "cop2rs MTHC2 = 7" | "cop2rs BC2 = 8" | "cop2rs COP2RS_IGN8 = 15"

datatype (plugins only: code) cofun2 =
    MEMSZ | CT0 | INPUT | OUTPUT | ALT

primrec cofun2_val :: "cofun2 \<Rightarrow> u32" where
  "cofun2_val MEMSZ = 0" | "cofun2_val CT0 = 1" | "cofun2_val INPUT = 2"
   | "cofun2_val OUTPUT = 3" | "cofun2_val ALT = 4"

section \<open>Field macros\<close>

definition OPC :: "u32 \<Rightarrow> u32" where "OPC i = i AND 0xFC000000"
definition FUNC :: "u32 \<Rightarrow> u32" where "FUNC i = i AND 0x3F"
definition TF :: "u32 \<Rightarrow> u32" where "TF i = i AND 0x100"
definition SHROT :: "u32 \<Rightarrow> u32" where "SHROT i = i AND 0x200000"
definition SHROTV :: "u32 \<Rightarrow> u32" where "SHROTV i = i AND 0x40"
definition SA :: "u32 \<Rightarrow> u32" where "SA i = i AND 0x7C0"
definition IMM :: "u32 \<Rightarrow> u16" where "IMM i = ucast (i AND 0xFFFF)"
definition INSTR_IDX :: "u32 \<Rightarrow> u32" where "INSTR_IDX i = i AND 0x3FFFFFF"
definition RD :: "u32 \<Rightarrow> u32" where "RD i = i AND 0xF800"
definition RT :: "u32 \<Rightarrow> u32" where "RT i = i AND 0x1F0000"
definition RS :: "u32 \<Rightarrow> u32" where "RS i = i AND 0x3E00000"
definition CO :: "u32 \<Rightarrow> u32" where "CO i = i AND 0x02000000"
definition COFUN :: "u32 \<Rightarrow> u32" where "COFUN i = i AND 0x01FFFFFF"
definition SEL :: "u32 \<Rightarrow> u32" where "SEL i = FUNC i"
definition LSB :: "u32 \<Rightarrow> u32" where "LSB i = drop_bit 6 i AND 0x3F"
definition MSBD :: "u32 \<Rightarrow> u32" where "MSBD i = drop_bit 11 i AND 0x3F"

section \<open>Fields as bit ranges\<close>

lemma field_masks:
  "(0xFC000000 :: u32) = push_bit 26 (mask 6)" "(0x3F :: u32) = mask 6"
  "(0x7C0 :: u32) = push_bit 6 (mask 5)" "(0xFFFF :: u32) = mask 16"
  "(0x3FFFFFF :: u32) = mask 26" "(0xF800 :: u32) = push_bit 11 (mask 5)"
  "(0x1F0000 :: u32) = push_bit 16 (mask 5)" "(0x3E00000 :: u32) = push_bit 21 (mask 5)"
  "(0x01FFFFFF :: u32) = mask 25"
  by (simp_all add: mask_eq_exp_minus_1)

lemma bit_and_power: "bit (i AND 2 ^ k) n \<longleftrightarrow> n = k \<and> bit i n" for i :: u32
  by (auto simp: bit_simps dest: bit_imp_le_length)

lemma bit_flags:
  "bit (CO i) n \<longleftrightarrow> n = 25 \<and> bit i n"
  "bit (TF i) n \<longleftrightarrow> n = 8 \<and> bit i n"
  "bit (SHROT i) n \<longleftrightarrow> n = 21 \<and> bit i n"
  "bit (SHROTV i) n \<longleftrightarrow> n = 6 \<and> bit i n"
  using bit_and_power [of i 25] bit_and_power [of i 8] bit_and_power [of i 21] bit_and_power [of i 6]
  by (simp_all add: CO_def TF_def SHROT_def SHROTV_def)

lemma bit_fields:
  "bit (OPC i) n \<longleftrightarrow> 26 \<le> n \<and> bit i n"
  "bit (FUNC i) n \<longleftrightarrow> n < 6 \<and> bit i n"
  "bit (SA i) n \<longleftrightarrow> 6 \<le> n \<and> n < 11 \<and> bit i n"
  "bit (RD i) n \<longleftrightarrow> 11 \<le> n \<and> n < 16 \<and> bit i n"
  "bit (RT i) n \<longleftrightarrow> 16 \<le> n \<and> n < 21 \<and> bit i n"
  "bit (RS i) n \<longleftrightarrow> 21 \<le> n \<and> n < 26 \<and> bit i n"
  "bit (COFUN i) n \<longleftrightarrow> n < 25 \<and> bit i n"
  "bit (INSTR_IDX i) n \<longleftrightarrow> n < 26 \<and> bit i n"
  "bit (IMM i) n \<longleftrightarrow> n < 16 \<and> bit i n"
  "bit (LSB i) n \<longleftrightarrow> n < 6 \<and> bit i (n + 6)"
  "bit (MSBD i) n \<longleftrightarrow> n < 6 \<and> bit i (n + 11)"
  unfolding OPC_def FUNC_def SA_def RD_def RT_def RS_def COFUN_def INSTR_IDX_def IMM_def LSB_def MSBD_def field_masks
  by (auto simp: bit_simps add.commute dest: bit_imp_le_length)

end
