(* ===== verification/Cpu.thy ===== *)
theory Cpu
  imports Prelude
begin

text \<open>
  The processor (cpu.c, cpu.h): registers, decoder, coprocessor 2 (the end of the communication
  link) and performance counters; creation and the moves from and to coprocessor 2.
\<close>

section \<open>Register numbers and selectors\<close>

datatype (plugins only: code) CPURegNo =
    ZERO | AT | V0 | V1 | A0 | A1 | A2 | A3 | T0 | T1 | T2 | T3 | T4 | T5 | T6 | T7
  | S0 | S1 | S2 | S3 | S4 | S5 | S6 | S7 | T8 | T9 | K0 | K1 | GP | SP | FP | RA

primrec regno :: "CPURegNo \<Rightarrow> nat" where
  "regno ZERO = 0" | "regno AT = 1" | "regno V0 = 2" | "regno V1 = 3" | "regno A0 = 4"
| "regno A1 = 5" | "regno A2 = 6" | "regno A3 = 7" | "regno T0 = 8" | "regno T1 = 9"
| "regno T2 = 10" | "regno T3 = 11" | "regno T4 = 12" | "regno T5 = 13" | "regno T6 = 14"
| "regno T7 = 15" | "regno S0 = 16" | "regno S1 = 17" | "regno S2 = 18" | "regno S3 = 19"
| "regno S4 = 20" | "regno S5 = 21" | "regno S6 = 22" | "regno S7 = 23" | "regno T8 = 24"
| "regno T9 = 25" | "regno K0 = 26" | "regno K1 = 27" | "regno GP = 28" | "regno SP = 29"
| "regno FP = 30" | "regno RA = 31"

definition N_GPR :: nat where "N_GPR = 32"
definition COP2_NREG :: nat where "COP2_NREG = 1"
definition COP2_NSEL :: nat where "COP2_NSEL = 6"
definition NCOUNTERS :: nat where "NCOUNTERS = 1"

datatype cop2_reg = COP2_MSG

primrec cop2_reg_val :: "cop2_reg \<Rightarrow> u32" where
  "cop2_reg_val COP2_MSG = 0"

datatype cop2_link_sel =
    COP2_MSG_CORR | COP2_MSG_DATA | COP2_MSG_ST | COP2_MSG_NMSG | COP2_MSG_HOPS | COP2_MSG_NCL

primrec sel_val :: "cop2_link_sel \<Rightarrow> u32" where
  "sel_val COP2_MSG_CORR = 0" | "sel_val COP2_MSG_DATA = 1" | "sel_val COP2_MSG_ST = 2"
| "sel_val COP2_MSG_NMSG = 3" | "sel_val COP2_MSG_HOPS = 4" | "sel_val COP2_MSG_NCL = 5"

datatype cop2_link_op =
    COP2_MSG_OP_NONE | COP2_MSG_OP_IN | COP2_MSG_OP_OUT | COP2_MSG_OP_ALT

primrec op_val :: "cop2_link_op \<Rightarrow> u32" where
  "op_val COP2_MSG_OP_NONE = 0" | "op_val COP2_MSG_OP_IN = 1"
| "op_val COP2_MSG_OP_OUT = 2" | "op_val COP2_MSG_OP_ALT = 3"

definition COP2_MSG_ST_OP :: "u32 \<Rightarrow> u32" where
  "COP2_MSG_ST_OP x = x AND 3"

definition COP2_MSG_ST_SENT :: "u32 \<Rightarrow> u32" where
  "COP2_MSG_ST_SENT x = x AND 4"

section \<open>State\<close>

record Decoder =
  dec_raw :: u32
  dec_sign :: u32
  dec_imm :: u16
  dec_ismem :: bool
  dec_isjump :: bool
  dec_sa :: u8
  dec_rd :: u8
  dec_rs :: u8
  dec_rt :: u8
  dec_idx :: u32
  dec_npc :: u32
  dec_stall :: bool
  dec_rmwfail :: bool
  dec_sel :: u32

record perfct =
  pf_cycle :: u64
  pf_ld :: u64
  pf_lddefer :: u64
  pf_st :: u64
  pf_stdefer :: u64
  pf_ll :: u64
  pf_lldefer :: u64
  pf_sc :: u64
  pf_scdefer :: u64
  pf_rmwfail :: u64
  pf_nin :: u64
  pf_nout :: u64
  pf_nalt :: u64
  pf_waitin :: u64
  pf_waitout :: u64
  pf_waitalt :: u64
  pf_ct :: "(bool \<times> u64) list"

text \<open>
  \<open>hilo\<close> is the union read as 64 bits; LO is its lower and HI its upper half (little endian).
  \<open>pf_ct\<close> holds for each counter whether it is enabled and what it counted.
\<close>

record CPU =
  cpu_running :: bool
  cpu_pc :: u64
  cpu_gpr :: "u32 list"
  cpu_hilo :: u64
  cpu_dec :: Decoder
  cpu_cop2 :: "u32 list list"
  cpu_perfct :: perfct

text \<open>A CPU after \<open>memset(cpu, 0, \<dots>)\<close>.\<close>

definition dec0 :: Decoder where
  "dec0 = \<lparr>dec_raw = 0, dec_sign = 0, dec_imm = 0, dec_ismem = False, dec_isjump = False,
     dec_sa = 0, dec_rd = 0, dec_rs = 0, dec_rt = 0, dec_idx = 0, dec_npc = 0,
     dec_stall = False, dec_rmwfail = False, dec_sel = 0\<rparr>"

definition perfct0 :: perfct where
  "perfct0 = \<lparr>pf_cycle = 0, pf_ld = 0, pf_lddefer = 0, pf_st = 0, pf_stdefer = 0, pf_ll = 0,
     pf_lldefer = 0, pf_sc = 0, pf_scdefer = 0, pf_rmwfail = 0, pf_nin = 0, pf_nout = 0,
     pf_nalt = 0, pf_waitin = 0, pf_waitout = 0, pf_waitalt = 0,
     pf_ct = replicate NCOUNTERS (False, 0)\<rparr>"

definition cpu_zero :: CPU where
  "cpu_zero = \<lparr>cpu_running = False, cpu_pc = 0, cpu_gpr = replicate N_GPR 0, cpu_hilo = 0,
     cpu_dec = dec0, cpu_cop2 = replicate COP2_NREG (replicate COP2_NSEL 0),
     cpu_perfct = perfct0\<rparr>"

section \<open>Operations\<close>

text \<open>\<open>CPU_create\<close>; \<open>ok\<close> says whether the allocation succeeds.\<close>

definition CPU_create :: "u32 \<Rightarrow> u32 \<Rightarrow> bool \<Rightarrow> errno + CPU list" where
  "CPU_create ncpu pc ok =
     (if \<not> ok then Inl ENOMEM
      else Inr (map (\<lambda>i. cpu_zero\<lparr>cpu_pc := ucast pc, cpu_running := True,
        cpu_gpr := (cpu_gpr cpu_zero)[regno K0 := of_nat i]\<rparr>) [0..<unat ncpu]))"

definition CPU_mfc2 :: "CPU \<Rightarrow> u32 \<Rightarrow> u32 \<Rightarrow> errno + u32" where
  "CPU_mfc2 cpu src sel =
     (if unat src \<ge> COP2_NREG \<or> unat sel \<ge> COP2_NSEL then Inl EINVAL
      else Inr (cpu_cop2 cpu ! unat src ! unat sel))"

definition CPU_mtc2 :: "CPU \<Rightarrow> u32 \<Rightarrow> u32 \<Rightarrow> u32 \<Rightarrow> retcode \<times> CPU" where
  "CPU_mtc2 cpu dest sel val =
     (if unat dest \<ge> COP2_NREG \<or> unat sel \<ge> COP2_NSEL then (E EINVAL, cpu)
      else (OK, cpu\<lparr>cpu_cop2 := (cpu_cop2 cpu)[unat dest :=
        (cpu_cop2 cpu ! unat dest)[unat sel := val]]\<rparr>))"

section \<open>Well-formed processors\<close>

definition wf_cpu :: "CPU \<Rightarrow> bool" where
  "wf_cpu c \<longleftrightarrow> length (cpu_gpr c) = N_GPR \<and> length (cpu_cop2 c) = COP2_NREG \<and>
     (\<forall>r\<in>set (cpu_cop2 c). length r = COP2_NSEL) \<and> length (pf_ct (cpu_perfct c)) = NCOUNTERS"

lemma wf_cpuD:
  assumes "wf_cpu c"
  shows "length (cpu_gpr c) = 32" "length (cpu_cop2 c) = 1" "length (cpu_cop2 c ! 0) = 6"
    "length (pf_ct (cpu_perfct c)) = 1"
  using assms by (auto simp: wf_cpu_def N_GPR_def COP2_NREG_def COP2_NSEL_def NCOUNTERS_def)

lemma regno_less: "regno r < N_GPR"
  by (cases r) (simp_all add: N_GPR_def)

lemma wf_cpu_zero: "wf_cpu cpu_zero"
  by (simp add: wf_cpu_def cpu_zero_def perfct0_def)

lemma CPU_mtc2_wf [wf_intros]:
  "wf_cpu c \<Longrightarrow> wf_cpu (snd (CPU_mtc2 c d s v))"
  by (auto simp: CPU_mtc2_def wf_cpu_def nth_list_update
      dest!: subsetD [OF set_update_subset_insert] intro: nth_mem)

text \<open>The fields that the coprocessor does not touch.\<close>

lemma CPU_mtc2_frame [simp]:
  "cpu_running (snd (CPU_mtc2 c d s v)) = cpu_running c"
  "cpu_pc (snd (CPU_mtc2 c d s v)) = cpu_pc c"
  "cpu_gpr (snd (CPU_mtc2 c d s v)) = cpu_gpr c"
  "cpu_hilo (snd (CPU_mtc2 c d s v)) = cpu_hilo c"
  "cpu_dec (snd (CPU_mtc2 c d s v)) = cpu_dec c"
  "cpu_perfct (snd (CPU_mtc2 c d s v)) = cpu_perfct c"
  by (simp_all add: CPU_mtc2_def)

text \<open>The fields of the link, by name.\<close>

abbreviation link_reg :: "CPU \<Rightarrow> cop2_link_sel \<Rightarrow> u32" where
  "link_reg c s \<equiv> cpu_cop2 c ! 0 ! unat (sel_val s)"

lemma sel_val_less: "unat (sel_val s) < COP2_NSEL"
  by (cases s) (simp_all add: COP2_NSEL_def)

lemma sel_val_inject: "unat (sel_val s) = unat (sel_val t) \<longleftrightarrow> s = t"
  by (cases s; cases t) simp_all

lemma CPU_mfc2_link: "CPU_mfc2 c (cop2_reg_val COP2_MSG) (sel_val s) = Inr (link_reg c s)"
  using sel_val_less [of s] by (simp add: CPU_mfc2_def COP2_NREG_def)

section \<open>Properties\<close>

text \<open>A move to coprocessor 2 with a register and a selector that exist is read back by the
  move from coprocessor 2, leaves every other selector as it was, and with any other register or
  selector both moves fail with \<open>EINVAL\<close> and nothing changes.\<close>

theorem mtc2_mfc2_roundtrip:
  assumes "wf_cpu c"
  shows "if unat r < COP2_NREG \<and> unat s < COP2_NSEL
    then fst (CPU_mtc2 c r s v) = OK \<and> wf_cpu (snd (CPU_mtc2 c r s v)) \<and>
      CPU_mfc2 (snd (CPU_mtc2 c r s v)) r s = Inr v \<and>
      (\<forall>s'. s' \<noteq> s \<longrightarrow> CPU_mfc2 (snd (CPU_mtc2 c r s v)) r s' = CPU_mfc2 c r s')
    else CPU_mtc2 c r s v = (E EINVAL, c) \<and> CPU_mfc2 c r s = Inl EINVAL"
  using CPU_mtc2_wf [OF assms, of r s v] wf_cpuD(2,3) [OF assms]
  by (auto simp: CPU_mtc2_def CPU_mfc2_def COP2_NREG_def COP2_NSEL_def word_unat_eq_iff nth_list_update)

theorem mtc2_mfc2_roundtrip_witness:
  "CPU_mfc2 (snd (CPU_mtc2 cpu_zero 0 1 42)) 0 1 = Inr 42 \<and> CPU_mtc2 cpu_zero 0 6 42 = (E EINVAL, cpu_zero)"
  using mtc2_mfc2_roundtrip [OF wf_cpu_zero, of 0 1 42] mtc2_mfc2_roundtrip [OF wf_cpu_zero, of 0 6 42]
  by (simp add: COP2_NREG_def COP2_NSEL_def)

text \<open>Every processor made by \<open>CPU_create\<close> is well formed, runs, starts at the entry point
  with no communication under way, and holds its own number in \<open>K0\<close> and 0 in the other
  registers.\<close>

theorem CPU_create_ids:
  assumes "CPU_create n pc True = Inr cs" and "i < unat n"
  shows "length cs = unat n \<and> wf_cpu (cs ! i) \<and> cpu_running (cs ! i) \<and> cpu_pc (cs ! i) = ucast pc \<and>
    link_reg (cs ! i) COP2_MSG_ST = op_val COP2_MSG_OP_NONE \<and>
    (\<forall>r<N_GPR. cpu_gpr (cs ! i) ! r = (if r = regno K0 then of_nat i else 0))"
  using assms wf_cpu_zero
  by (auto simp: CPU_create_def wf_cpu_def cpu_zero_def nth_list_update COP2_NREG_def COP2_NSEL_def N_GPR_def)

theorem CPU_create_ids_witness:
  "\<exists>cs. CPU_create 3 0x400 True = Inr cs \<and> cpu_gpr (cs ! 2) ! regno K0 = 2"
proof -
  obtain cs where cs: "CPU_create 3 0x400 True = Inr cs" by (simp add: CPU_create_def)
  have "regno K0 < N_GPR" by (rule regno_less)
  with CPU_create_ids [OF cs, of 2] cs show ?thesis by simp
qed

end
