(* ===== verification/Decode.thy ===== *)
theory Decode
  imports Instr Cpu
begin

text \<open>
  The decoder (datapath.c, \<open>decode\<close>): the fields of the raw instruction, the signature that the
  execute switch dispatches on, and the flags for jumps and memory accesses.
\<close>

section \<open>Decoding\<close>

definition decode_fields :: "Decoder \<Rightarrow> Decoder" where
  "decode_fields d = (let raw = dec_raw d in
     d\<lparr>dec_rd := ucast (drop_bit 11 (RD raw)), dec_rs := ucast (drop_bit 21 (RS raw)),
       dec_rt := ucast (drop_bit 16 (RT raw)), dec_sa := ucast (drop_bit 6 (SA raw)),
       dec_stall := False, dec_imm := IMM raw, dec_isjump := False,
       dec_idx := push_bit 2 (INSTR_IDX raw), dec_sel := SEL raw, dec_sign := OPC raw\<rparr>)"

text \<open>\<open>dec->sign |= x\<close> and \<open>dec->isjump = 1\<close>.\<close>

definition sign_or :: "u32 \<Rightarrow> Decoder \<Rightarrow> Decoder" where
  "sign_or x d = d\<lparr>dec_sign := dec_sign d OR x\<rparr>"

definition set_jump :: "Decoder \<Rightarrow> Decoder" where
  "set_jump d = d\<lparr>dec_isjump := True\<rparr>"

definition decode_special :: "Decoder \<Rightarrow> Decoder" where
  "decode_special d = (let raw = dec_raw d; f = FUNC raw; d = sign_or f d in
     if f = funct MOVCI then sign_or (TF raw) d
     else if f = funct SRL_FIELD then sign_or (SHROT raw) d
     else if f = funct SRLV_FIELD then sign_or (SHROTV raw) d
     else if f = funct JR \<or> f = funct JALR then set_jump d
     else d)"

definition decode_regimm :: "Decoder \<Rightarrow> Decoder" where
  "decode_regimm d = (let d = sign_or (RT (dec_raw d)) d in
     if ucast (dec_rt d) \<in> set (map regimm [BLTZ, BGEZ, BLTZL, BGEZL, TGEI, TGEIU, TLTI, TLTIU,
          TEQI, TNEI, BLTZAL, BGEZAL, BLTZALL, BGEZALL])
     then set_jump d else d)"

definition decode_cop0 :: "Decoder \<Rightarrow> Decoder" where
  "decode_cop0 d =
     (if ucast (dec_rs d) > cop0rs COP0RS_IGN10 then sign_or (FUNC (dec_raw d)) d
      else sign_or (RS (dec_raw d)) d)"

definition decode_cop2 :: "Decoder \<Rightarrow> Decoder" where
  "decode_cop2 d =
     (if ucast (dec_rs d) > cop2rs COP2RS_IGN8 then sign_or (CO (dec_raw d)) d
      else sign_or (RS (dec_raw d)) d)"

definition decode_special3 :: "Decoder \<Rightarrow> Decoder" where
  "decode_special3 d = (let raw = dec_raw d; d = sign_or (FUNC raw) d in
     if FUNC raw = funct3 BSHFL then sign_or (SA raw) d else d)"

definition decode :: "Decoder \<Rightarrow> int \<times> Decoder" where
  "decode d0 = (let d = decode_fields d0; op = drop_bit 26 (OPC (dec_raw d)) in
     if op = opc SPECIAL then (0, decode_special d)
     else if op = opc REGIMM then (0, decode_regimm d)
     else if op \<in> set (map opc [J, JAL, BEQ, BNE, BLEZ, BGTZ]) then (0, set_jump d)
     else if op \<in> set (map opc [ADDI, ADDIU, SLTI, SLTIU, ANDI, ORI, XORI, LUI]) then (0, d)
     else if op = opc COP0 then (0, decode_cop0 d)
     else if op = opc COP1 then (0, d)
     else if op = opc COP2 then (0, decode_cop2 d)
     else if op = opc COP1X then (0, d)
     else if op \<in> set (map opc [BEQL, BNEL, BLEZL, BGTZL]) then (0, set_jump d)
     else if op = opc SPECIAL2 then (0, sign_or (FUNC (dec_raw d)) d)
     else if op = opc JALX then (0, set_jump d)
     else if op = opc SPECIAL3 then (0, decode_special3 d)
     else if op \<in> set (map opc [LB, LH, LWL, LW, LBU, LHU, LWR, SB, SH, SWL, SW, SWR, CACHE, LL,
          LWC1, LWC2, PREF, LDC1, LDC2, SC, SWC1, SWC2, SDC1, SDC2])
     then (0, d\<lparr>dec_ismem := True\<rparr>)
     else (-1, d))"

section \<open>What decoding leaves in the fields\<close>

lemma decode_parts [simp]:
  "dec_raw (sign_or x d) = dec_raw d" "dec_rd (sign_or x d) = dec_rd d"
  "dec_rs (sign_or x d) = dec_rs d" "dec_rt (sign_or x d) = dec_rt d"
  "dec_sa (sign_or x d) = dec_sa d" "dec_imm (sign_or x d) = dec_imm d"
  "dec_stall (sign_or x d) = dec_stall d" "dec_rmwfail (sign_or x d) = dec_rmwfail d"
  "dec_idx (sign_or x d) = dec_idx d" "dec_sel (sign_or x d) = dec_sel d"
  "dec_npc (sign_or x d) = dec_npc d" "dec_isjump (sign_or x d) = dec_isjump d"
  "dec_sign (sign_or x d) = dec_sign d OR x"
  "dec_raw (set_jump d) = dec_raw d" "dec_rd (set_jump d) = dec_rd d"
  "dec_rs (set_jump d) = dec_rs d" "dec_rt (set_jump d) = dec_rt d"
  "dec_sa (set_jump d) = dec_sa d" "dec_imm (set_jump d) = dec_imm d"
  "dec_stall (set_jump d) = dec_stall d" "dec_rmwfail (set_jump d) = dec_rmwfail d"
  "dec_idx (set_jump d) = dec_idx d" "dec_sel (set_jump d) = dec_sel d"
  "dec_npc (set_jump d) = dec_npc d" "dec_sign (set_jump d) = dec_sign d" "dec_isjump (set_jump d)"
  by (simp_all add: sign_or_def set_jump_def)

text \<open>All that the switch on the opcode changes is the signature and the two flags.\<close>

definition flagged :: "Decoder \<Rightarrow> Decoder \<Rightarrow> bool" where
  "flagged d d' \<longleftrightarrow> dec_raw d' = dec_raw d \<and> dec_rd d' = dec_rd d \<and> dec_rs d' = dec_rs d \<and>
     dec_rt d' = dec_rt d \<and> dec_sa d' = dec_sa d \<and> dec_imm d' = dec_imm d \<and>
     dec_stall d' = dec_stall d \<and> dec_rmwfail d' = dec_rmwfail d \<and> dec_idx d' = dec_idx d \<and>
     dec_sel d' = dec_sel d \<and> dec_npc d' = dec_npc d"

lemma flagged_refl: "flagged d d"
  by (simp add: flagged_def)

lemma flagged_sign_or: "flagged d d' \<Longrightarrow> flagged d (sign_or x d')"
  by (simp add: flagged_def)

lemma flagged_set_jump: "flagged d d' \<Longrightarrow> flagged d (set_jump d')"
  by (simp add: flagged_def)

lemma flagged_ismem: "flagged d (d\<lparr>dec_ismem := True\<rparr>)"
  by (simp add: flagged_def)

lemma flagged_if: "flagged d x \<Longrightarrow> flagged d y \<Longrightarrow> flagged d (if b then x else y)"
  by simp

lemmas flagged_intros = flagged_if flagged_refl flagged_sign_or flagged_set_jump flagged_ismem

lemma flagged_branches:
  "flagged d (decode_special d)" "flagged d (decode_regimm d)" "flagged d (decode_cop0 d)"
  "flagged d (decode_cop2 d)" "flagged d (decode_special3 d)"
  unfolding decode_special_def decode_regimm_def decode_cop0_def decode_cop2_def
    decode_special3_def Let_def
  by (rule flagged_intros | assumption)+

lemma snd_if: "snd (if b then x else y) = (if b then snd x else snd y)"
  by simp

lemma decode_flagged: "flagged (decode_fields d) (snd (decode d))"
  unfolding decode_def Let_def snd_if snd_conv
  by (rule flagged_branches flagged_intros)+

lemma decode_keeps:
  "dec_raw (snd (decode d)) = dec_raw d" "dec_rd (snd (decode d)) = dec_rd (decode_fields d)"
  "dec_rs (snd (decode d)) = dec_rs (decode_fields d)" "dec_rt (snd (decode d)) = dec_rt (decode_fields d)"
  "dec_sa (snd (decode d)) = dec_sa (decode_fields d)" "dec_imm (snd (decode d)) = IMM (dec_raw d)"
  "dec_idx (snd (decode d)) = push_bit 2 (INSTR_IDX (dec_raw d))"
  "dec_sel (snd (decode d)) = SEL (dec_raw d)"
  "\<not> dec_stall (snd (decode d))" "dec_rmwfail (snd (decode d)) = dec_rmwfail d"
  "dec_npc (snd (decode d)) = dec_npc d"
  using decode_flagged [of d] by (auto simp: flagged_def decode_fields_def Let_def)

lemma unat_field5: "(\<And>n. bit x n \<Longrightarrow> k \<le> n \<and> n < k + 5) \<Longrightarrow> unat (ucast (drop_bit k x) :: u8) < 32" for x :: u32
proof -
  assume x: "\<And>n. bit x n \<Longrightarrow> k \<le> n \<and> n < k + 5"
  have "take_bit 5 (ucast (drop_bit k x) :: u8) = ucast (drop_bit k x)"
    using x by (intro bit_word_eqI) (fastforce simp: bit_simps)
  then have "unat (ucast (drop_bit k x) :: u8) = take_bit 5 (unat (ucast (drop_bit k x) :: u8))"
    by (metis unsigned_take_bit_eq)
  also have "\<dots> < 2 ^ 5" by (rule take_bit_nat_less_exp)
  finally show ?thesis by simp
qed

text \<open>The register numbers and the shift amount have five bits: no access to the register file
  is out of range, whatever the instruction.\<close>

lemma decode_in_range:
  "unat (dec_rd (snd (decode d))) < 32" "unat (dec_rs (snd (decode d))) < 32"
  "unat (dec_rt (snd (decode d))) < 32" "unat (dec_sa (snd (decode d))) < 32"
  unfolding decode_keeps
  by (simp_all add: decode_fields_def Let_def; rule unat_field5; simp add: bit_fields)+

end
