(* ===== verification/Execute.thy ===== *)
theory Execute
  imports Decode Mem
begin

text \<open>
  The execute switch (datapath.c, \<open>execute\<close>): the machine a processor runs on, one definition per
  case of the switch, and the switch itself as a table from case labels to these definitions.

  A handler gives the value \<open>execute\<close> returns and the machine it leaves, or \<open>None\<close> where C leaves
  the behaviour undefined. C is read as gcc, the compiler of config.mk, defines it: it takes left
  shifts of negative numbers (the immediate of LUI, the offset of a branch), which C99 leaves
  undefined, and conversions to a signed type, which C99 leaves to the implementation, to be two's
  complement. The messages of the VERBOSE and INSTRDUMP builds are left out.
\<close>

section \<open>The machine\<close>

text \<open>The standard streams: bytes not yet read, and bytes written.\<close>

record io =
  io_in :: "u8 list"
  io_out :: "u8 list"

record machine =
  m_cpu :: CPU
  m_mem :: Mem
  m_ctl :: memctl
  m_io :: io

type_synonym handler = "machine \<Rightarrow> (retcode \<times> machine) option"

definition IO_ADDR :: u32 where "IO_ADDR = 0xFFFC"

abbreviation upd_cpu :: "(CPU \<Rightarrow> CPU) \<Rightarrow> machine \<Rightarrow> machine" where
  "upd_cpu f m \<equiv> m\<lparr>m_cpu := f (m_cpu m)\<rparr>"

abbreviation m_dec :: "machine \<Rightarrow> Decoder" where
  "m_dec m \<equiv> cpu_dec (m_cpu m)"

definition gpr :: "CPU \<Rightarrow> nat \<Rightarrow> u32" where
  "gpr c r = cpu_gpr c ! r"

definition gpr_rs :: "machine \<Rightarrow> u32" where
  "gpr_rs m = gpr (m_cpu m) (unat (dec_rs (m_dec m)))"

definition gpr_rt :: "machine \<Rightarrow> u32" where
  "gpr_rt m = gpr (m_cpu m) (unat (dec_rt (m_dec m)))"

definition set_gpr :: "nat \<Rightarrow> u32 \<Rightarrow> machine \<Rightarrow> machine" where
  "set_gpr r v m = upd_cpu (\<lambda>c. c\<lparr>cpu_gpr := (cpu_gpr c)[r := v]\<rparr>) m"

definition set_rd :: "u32 \<Rightarrow> machine \<Rightarrow> machine" where
  "set_rd v m = set_gpr (unat (dec_rd (m_dec m))) v m"

definition set_rt :: "u32 \<Rightarrow> machine \<Rightarrow> machine" where
  "set_rt v m = set_gpr (unat (dec_rt (m_dec m))) v m"

definition set_npc :: "u32 \<Rightarrow> machine \<Rightarrow> machine" where
  "set_npc a m = upd_cpu (\<lambda>c. c\<lparr>cpu_dec := (cpu_dec c)\<lparr>dec_npc := a\<rparr>\<rparr>) m"

text \<open>\<open>++cpu->perfct.f\<close> is \<open>perf_inc pf_f_update\<close>.\<close>

definition perf_inc :: "((u64 \<Rightarrow> u64) \<Rightarrow> perfct \<Rightarrow> perfct) \<Rightarrow> machine \<Rightarrow> machine" where
  "perf_inc f m = upd_cpu (\<lambda>c. c\<lparr>cpu_perfct := f (\<lambda>n. n + 1) (cpu_perfct c)\<rparr>) m"

definition set_hilo :: "u64 \<Rightarrow> machine \<Rightarrow> machine" where
  "set_hilo v m = upd_cpu (\<lambda>c. c\<lparr>cpu_hilo := v\<rparr>) m"

definition hilo_of :: "u32 \<Rightarrow> u32 \<Rightarrow> u64" where
  "hilo_of hi lo = push_bit 32 (ucast hi) OR ucast lo"

text \<open>The immediate as the C expressions use it: sign-extended to 32 bits.\<close>

definition simm :: "machine \<Rightarrow> u32" where
  "simm m = scast (dec_imm (m_dec m))"

text \<open>\<open>addr\<close>, computed before the switch.\<close>

definition eff_addr :: "machine \<Rightarrow> u32" where
  "eff_addr m = gpr_rs m + simm m"

section \<open>Shifts, moves and arithmetic\<close>

definition exec_SLL :: handler where [handler_defs]:
  "exec_SLL m = Some (OK, set_rd (push_bit (unat (dec_sa (m_dec m))) (gpr_rt m)) m)"

definition exec_SRA :: handler where [handler_defs]:
  "exec_SRA m = Some (OK, set_rd (drop_bit (unat (dec_sa (m_dec m))) (gpr_rt m)) m)"

definition exec_SLLV :: handler where [handler_defs]:
  "exec_SLLV m = Some (OK, set_rd (push_bit (unat (0x1F AND gpr_rs m)) (gpr_rt m)) m)"

definition exec_JR :: handler where [handler_defs]:
  "exec_JR m = Some (OK, set_npc (gpr_rs m) m)"

definition exec_MOVZ :: handler where [handler_defs]:
  "exec_MOVZ m = Some (OK, if gpr_rt m = 0 then set_rd (gpr_rs m) m else m)"

definition exec_MOVN :: handler where [handler_defs]:
  "exec_MOVN m = Some (OK, if gpr_rt m \<noteq> 0 then set_rd (gpr_rs m) m else m)"

definition exec_MFHI :: handler where [handler_defs]:
  "exec_MFHI m = Some (OK, set_rd (ucast (drop_bit 32 (cpu_hilo (m_cpu m)))) m)"

definition exec_MFLO :: handler where [handler_defs]:
  "exec_MFLO m = Some (OK, set_rd (ucast (cpu_hilo (m_cpu m))) m)"

text \<open>The product is one of \<open>int\<close>s: undefined where it does not fit.\<close>

definition exec_MULT :: handler where [handler_defs]:
  "exec_MULT m = (let p = sint (gpr_rs m) * sint (gpr_rt m) in
     if - (2 ^ 31) \<le> p \<and> p < 2 ^ 31 then Some (OK, set_hilo (word_of_int p) m) else None)"

definition exec_DIV :: handler where [handler_defs]:
  "exec_DIV m = (let a = sint (gpr_rs m); b = sint (gpr_rt m) in
     if b = 0 \<or> a = - (2 ^ 31) \<and> b = -1 then None
     else Some (OK, set_hilo (hilo_of (word_of_int (a smod b)) (word_of_int (a sdiv b))) m))"

definition exec_ADDU :: handler where [handler_defs]:
  "exec_ADDU m = Some (OK, set_rd (gpr_rs m + gpr_rt m) m)"

definition exec_SUBU :: handler where [handler_defs]:
  "exec_SUBU m = Some (OK, set_rd (gpr_rs m - gpr_rt m) m)"

definition exec_AND :: handler where [handler_defs]:
  "exec_AND m = Some (OK, set_rd (gpr_rs m AND gpr_rt m) m)"

definition exec_OR :: handler where [handler_defs]:
  "exec_OR m = Some (OK, set_rd (gpr_rs m OR gpr_rt m) m)"

definition exec_XOR :: handler where [handler_defs]:
  "exec_XOR m = Some (OK, set_rd (gpr_rs m XOR gpr_rt m) m)"

definition exec_SLT :: handler where [handler_defs]:
  "exec_SLT m = Some (OK, set_rd (of_bool (sint (gpr_rs m) < sint (gpr_rt m))) m)"

definition exec_MUL :: handler where [handler_defs]:
  "exec_MUL m = Some (OK, set_rd (gpr_rs m * gpr_rt m) m)"

text \<open>\<open>MSBD\<close> and \<open>LSB\<close> have six bits: the shifts may be by 32 or more.\<close>

definition exec_EXT :: handler where [handler_defs]:
  "exec_EXT m = (let lsb = unat (LSB (dec_raw (m_dec m))); s = unat (31 - MSBD (dec_raw (m_dec m))) in
     if lsb < 32 \<and> s < 32
     then Some (OK, set_rt (drop_bit lsb (gpr_rs m) AND drop_bit s 0xFFFFFFFF) m) else None)"

section \<open>Branches and jumps\<close>

definition branch_if :: "bool \<Rightarrow> machine \<Rightarrow> machine" where
  "branch_if b m =
     (if b then set_npc (ucast (cpu_pc (m_cpu m) + 4 + ucast (push_bit 2 (simm m)))) m
      else upd_cpu (\<lambda>c. c\<lparr>cpu_dec := (cpu_dec c)\<lparr>dec_isjump := False\<rparr>\<rparr>) m)"

definition exec_BLTZ :: handler where [handler_defs]:
  "exec_BLTZ m = Some (OK, branch_if (sint (gpr_rs m) < 0) m)"

definition exec_BGEZ :: handler where [handler_defs]:
  "exec_BGEZ m = Some (OK, branch_if (sint (gpr_rs m) \<ge> 0) m)"

definition exec_BEQ :: handler where [handler_defs]:
  "exec_BEQ m = Some (OK, branch_if (gpr_rs m = gpr_rt m) m)"

definition exec_BNE :: handler where [handler_defs]:
  "exec_BNE m = Some (OK, branch_if (gpr_rs m \<noteq> gpr_rt m) m)"

definition exec_BLEZ :: handler where [handler_defs]:
  "exec_BLEZ m = Some (OK, branch_if (sint (gpr_rs m) \<le> 0) m)"

definition exec_BGTZ :: handler where [handler_defs]:
  "exec_BGTZ m = Some (OK, branch_if (sint (gpr_rs m) > 0) m)"

definition jump_target :: "machine \<Rightarrow> u32" where
  "jump_target m = ucast ((cpu_pc (m_cpu m) AND 0xF0000000) OR ucast (dec_idx (m_dec m)))"

definition exec_J :: handler where [handler_defs]:
  "exec_J m = Some (OK, set_npc (jump_target m) m)"

definition exec_JAL :: handler where [handler_defs]:
  "exec_JAL m = Some (OK, let m1 = set_gpr 31 (ucast (cpu_pc (m_cpu m) + 8)) m
     in set_npc (jump_target m1) m1)"

section \<open>Immediates\<close>

definition exec_ADDIU :: handler where [handler_defs]:
  "exec_ADDIU m = Some (OK, set_rt (gpr_rs m + simm m) m)"

definition exec_SLTI :: handler where [handler_defs]:
  "exec_SLTI m = Some (OK, set_rt (of_bool (sint (gpr_rs m) < sint (dec_imm (m_dec m)))) m)"

definition exec_SLTIU :: handler where [handler_defs]:
  "exec_SLTIU m = Some (OK, set_rt (of_bool (gpr_rs m < simm m)) m)"

definition exec_ANDI :: handler where [handler_defs]:
  "exec_ANDI m = Some (OK, set_rt (gpr_rs m AND simm m) m)"

definition exec_ORI :: handler where [handler_defs]:
  "exec_ORI m = Some (OK, set_rt (gpr_rs m OR ucast (dec_imm (m_dec m))) m)"

definition exec_XORI :: handler where [handler_defs]:
  "exec_XORI m = Some (OK, set_rt (gpr_rs m XOR ucast (dec_imm (m_dec m))) m)"

definition exec_LUI :: handler where [handler_defs]:
  "exec_LUI m = Some (OK, set_rt (push_bit 16 (simm m)) m)"

section \<open>Coprocessors\<close>

definition exec_WAIT :: handler where [handler_defs]:
  "exec_WAIT m = Some (OK, upd_cpu (\<lambda>c. c\<lparr>cpu_running := False\<rparr>) m)"

definition exec_MFC2 :: handler where [handler_defs]:
  "exec_MFC2 m = (case CPU_mfc2 (m_cpu m) (ucast (dec_rd (m_dec m))) (dec_sel (m_dec m)) of
       Inl e \<Rightarrow> Some (E e, m)
     | Inr v \<Rightarrow> Some (OK, set_rt v m))"

definition exec_MTC2 :: handler where [handler_defs]:
  "exec_MTC2 m =
     (let (r, c) = CPU_mtc2 (m_cpu m) (ucast (dec_rd (m_dec m))) (dec_sel (m_dec m)) (gpr_rt m)
      in Some (r, m\<lparr>m_cpu := c\<rparr>))"

text \<open>\<open>CPU_mtc2(cpu, COP2_MSG, COP2_MSG_ST, op)\<close>: the processor waits for the network.\<close>

definition set_link_op :: "cop2_link_op \<Rightarrow> machine \<Rightarrow> machine" where
  "set_link_op opn m = upd_cpu
     (\<lambda>c. snd (CPU_mtc2 c (cop2_reg_val COP2_MSG) (sel_val COP2_MSG_ST) (op_val opn))) m"

definition exec_COP2 :: handler where [handler_defs]:
  "exec_COP2 m = (let f = COFUN (dec_raw (m_dec m)) in
     if f = cofun2_val MEMSZ then Some (OK, set_gpr (regno K1) (ucast (mem_size (m_mem m))) m)
     else if f = cofun2_val CT0 then
       Some (OK, upd_cpu (\<lambda>c. c\<lparr>cpu_perfct := (cpu_perfct c)\<lparr>pf_ct :=
         (pf_ct (cpu_perfct c))[0 := (\<not> fst (pf_ct (cpu_perfct c) ! 0), snd (pf_ct (cpu_perfct c) ! 0))]\<rparr>\<rparr>) m)
     else if f = cofun2_val INPUT then
       Some (OK, perf_inc pf_waitin_update (perf_inc pf_nin_update (set_link_op COP2_MSG_OP_IN m)))
     else if f = cofun2_val OUTPUT then
       Some (OK, perf_inc pf_waitout_update (perf_inc pf_nout_update (set_link_op COP2_MSG_OP_OUT m)))
     else if f = cofun2_val ALT then
       Some (OK, perf_inc pf_waitalt_update (perf_inc pf_nalt_update (set_link_op COP2_MSG_OP_ALT m)))
     else Some (E ENOTSUP, m))"

section \<open>Memory accesses\<close>

text \<open>\<open>putchar\<close>, \<open>printf("%08x\n", \<dots>)\<close> and \<open>getchar\<close> on the streams.\<close>

definition hex_digit :: "u32 \<Rightarrow> u8" where
  "hex_digit n = (if n < 10 then 48 + ucast n else 87 + ucast n)"

definition hex8 :: "u32 \<Rightarrow> u8 list" where
  "hex8 v = map (\<lambda>k. hex_digit (drop_bit (4 * k) v AND 15)) [7, 6, 5, 4, 3, 2, 1, 0]"

definition out_bytes :: "u8 list \<Rightarrow> machine \<Rightarrow> machine" where
  "out_bytes bs m = m\<lparr>m_io := (m_io m)\<lparr>io_out := io_out (m_io m) @ bs\<rparr>\<rparr>"

definition get_char :: "machine \<Rightarrow> u32 \<times> machine" where
  "get_char m = (case io_in (m_io m) of
       [] \<Rightarrow> (-1, m)
     | b # bs \<Rightarrow> (ucast b, m\<lparr>m_io := (m_io m)\<lparr>io_in := bs\<rparr>\<rparr>))"

text \<open>
  The access to the bus before a memory operation: when it is not granted, the instruction
  stalls, the deferral is counted and \<open>EBUSY\<close> returned; otherwise \<open>body\<close> goes on.
\<close>

definition with_bus :: "((u64 \<Rightarrow> u64) \<Rightarrow> perfct \<Rightarrow> perfct) \<Rightarrow> handler \<Rightarrow> handler" where
  "with_bus deferred body m =
     (let (r, ctl) = Mem_busacc (gpr (m_cpu m) (regno K0)) (m_ctl m); m1 = m\<lparr>m_ctl := ctl\<rparr>
      in if r \<noteq> 0
         then Some (E EBUSY, perf_inc deferred
           (upd_cpu (\<lambda>c. c\<lparr>cpu_dec := (cpu_dec c)\<lparr>dec_stall := True\<rparr>\<rparr>) m1))
         else body m1)"

definition exec_LB :: handler where [handler_defs]:
  "exec_LB m0 = (let m = perf_inc pf_ld_update m0; addr = eff_addr m0 in
     if addr = IO_ADDR then let (v, m1) = get_char m in Some (OK, set_rt v m1)
     else with_bus pf_lddefer_update (\<lambda>m. case Mem_lb (m_mem m) (ucast addr) of
         None \<Rightarrow> None
       | Some (Inl e) \<Rightarrow> Some (E e, m)
       | Some (Inr b) \<Rightarrow> Some (OK, set_rt (scast b) m)) m)"

definition exec_LW :: handler where [handler_defs]:
  "exec_LW m0 = (let m = perf_inc pf_ld_update m0; addr = eff_addr m0 in
     with_bus pf_lddefer_update (\<lambda>m. case Mem_lw (m_mem m) (ucast addr) of
         None \<Rightarrow> None
       | Some (Inl e) \<Rightarrow> Some (E e, m)
       | Some (Inr w) \<Rightarrow> Some (OK, set_rt w m)) m)"

definition exec_SB :: handler where [handler_defs]:
  "exec_SB m0 = (let m = perf_inc pf_st_update m0; addr = eff_addr m0 in
     if addr = IO_ADDR then Some (OK, out_bytes [ucast (gpr_rt m)] m)
     else with_bus pf_stdefer_update (\<lambda>m. case Mem_sb (m_mem m) (ucast addr) (ucast (gpr_rt m)) of
         None \<Rightarrow> None
       | Some (r, mem) \<Rightarrow> Some (r, m\<lparr>m_mem := mem\<rparr>)) m)"

definition exec_SW :: handler where [handler_defs]:
  "exec_SW m0 = (let m = perf_inc pf_st_update m0; addr = eff_addr m0 in
     if addr = IO_ADDR then Some (OK, out_bytes (hex8 (gpr_rt m) @ [10]) m)
     else with_bus pf_stdefer_update (\<lambda>m. case Mem_sw (m_mem m) (m_ctl m) (ucast addr) (gpr_rt m) of
         None \<Rightarrow> None
       | Some (r, mem, ctl) \<Rightarrow> Some (r, m\<lparr>m_mem := mem, m_ctl := ctl\<rparr>)) m)"

definition exec_LL :: handler where [handler_defs]:
  "exec_LL m0 = (let m = perf_inc pf_ll_update m0; addr = eff_addr m0 in
     with_bus pf_lldefer_update (\<lambda>m.
       case Mem_ll (m_mem m) (m_ctl m) (gpr (m_cpu m) (regno K0)) (ucast addr) of
         None \<Rightarrow> None
       | Some (Inl e, ctl) \<Rightarrow> Some (E e, m\<lparr>m_ctl := ctl\<rparr>)
       | Some (Inr w, ctl) \<Rightarrow> Some (OK, set_rt w (m\<lparr>m_ctl := ctl\<rparr>))) m)"

definition exec_SC :: handler where [handler_defs]:
  "exec_SC m0 = (let m = perf_inc pf_sc_update m0; addr = eff_addr m0 in
     with_bus pf_scdefer_update (\<lambda>m.
       case Mem_sc (m_mem m) (m_ctl m) (gpr (m_cpu m) (regno K0)) (ucast addr) (gpr_rt m) of
         None \<Rightarrow> None
       | Some (r, mem, ctl) \<Rightarrow> let m1 = m\<lparr>m_mem := mem, m_ctl := ctl\<rparr> in
           if r = OK then Some (OK, set_rt 1 m1)
           else if r = E EAGAIN then
             Some (OK, set_rt 0 (perf_inc pf_rmwfail_update
               (upd_cpu (\<lambda>c. c\<lparr>cpu_dec := (cpu_dec c)\<lparr>dec_rmwfail := True\<rparr>\<rparr>) m1)))
           else Some (r, m1)) m)"

section \<open>The switch\<close>

text \<open>The case labels.\<close>

abbreviation lab_special :: "special_func \<Rightarrow> u32" where
  "lab_special f \<equiv> push_bit 26 (opc SPECIAL) OR funct f"

abbreviation lab_op :: "opcodes \<Rightarrow> u32" where
  "lab_op p \<equiv> push_bit 26 (opc p)"

definition switch_table :: "(u32 \<times> handler) list" where
  "switch_table =
    [(lab_special SLL, exec_SLL), (lab_special SRA, exec_SRA), (lab_special SLLV, exec_SLLV),
     (lab_special JR, exec_JR), (lab_special MOVZ, exec_MOVZ), (lab_special MOVN, exec_MOVN),
     (lab_special MFHI, exec_MFHI), (lab_special MFLO, exec_MFLO),
     (lab_special MULT, exec_MULT), (lab_special DIV, exec_DIV),
     (lab_special ADDU, exec_ADDU), (lab_special SUBU, exec_SUBU),
     (lab_special AND_F, exec_AND), (lab_special OR_F, exec_OR), (lab_special XOR_F, exec_XOR),
     (lab_special SLT, exec_SLT),
     (push_bit 26 (opc REGIMM) OR push_bit 16 (regimm BLTZ), exec_BLTZ),
     (push_bit 26 (opc REGIMM) OR push_bit 16 (regimm BGEZ), exec_BGEZ),
     (lab_op J, exec_J), (lab_op JAL, exec_JAL), (lab_op BEQ, exec_BEQ), (lab_op BNE, exec_BNE),
     (lab_op BLEZ, exec_BLEZ), (lab_op BGTZ, exec_BGTZ), (lab_op ADDIU, exec_ADDIU),
     (lab_op SLTI, exec_SLTI), (lab_op SLTIU, exec_SLTIU), (lab_op ANDI, exec_ANDI),
     (lab_op ORI, exec_ORI), (lab_op XORI, exec_XORI), (lab_op LUI, exec_LUI),
     (push_bit 26 (opc COP0) OR cop0co WAIT, exec_WAIT),
     (push_bit 26 (opc COP2) OR push_bit 21 (cop2rs MFC2), exec_MFC2),
     (push_bit 26 (opc COP2) OR push_bit 21 (cop2rs MTC2), exec_MTC2),
     (push_bit 26 (opc COP2) OR push_bit 25 1, exec_COP2),
     (push_bit 26 (opc SPECIAL2) OR funct2 MUL, exec_MUL),
     (push_bit 26 (opc SPECIAL3) OR funct3 EXT, exec_EXT),
     (lab_op LB, exec_LB), (lab_op LW, exec_LW), (lab_op SB, exec_SB), (lab_op SW, exec_SW),
     (lab_op LL, exec_LL), (lab_op SC, exec_SC)]"

definition execute :: handler where
  "execute m = (case map_of switch_table (dec_sign (m_dec m)) of
       None \<Rightarrow> Some (E ENOTSUP, m)
     | Some h \<Rightarrow> h m)"

text \<open>No two cases of the switch have the same label.\<close>

lemma switch_table_distinct: "distinct (map fst switch_table)"
  by code_simp

text \<open>What holds of every handler and of the default case holds of the switch.\<close>

lemma execute_cases:
  assumes "execute m = r"
  obtains h where "(dec_sign (m_dec m), h) \<in> set switch_table" "r = h m"
  | "map_of switch_table (dec_sign (m_dec m)) = None" "r = Some (E ENOTSUP, m)"
  using assms by (auto simp: execute_def split: option.splits dest: map_of_SomeD)

end
