(* ===== verification/Datapath.thy ===== *)
theory Datapath
  imports Execute Mem_Facts
begin

text \<open>
  One cycle of a processor (datapath.c, \<open>fetch\<close> and \<open>Datapath_execute\<close>), the invariant of a
  machine, and what every case of the execute switch keeps.
\<close>

section \<open>A cycle\<close>

definition fetch :: "CPU \<Rightarrow> Mem \<Rightarrow> (errno + u32) option" where
  "fetch c mem = Mem_lw mem (cpu_pc c)"

text \<open>What \<open>Datapath_execute\<close> does before it looks at the state of the link.\<close>

definition start_cycle :: "machine \<Rightarrow> machine" where
  "start_cycle m = upd_cpu (\<lambda>c. c\<lparr>cpu_gpr := (cpu_gpr c)[0 := 0],
     cpu_dec := (cpu_dec c)\<lparr>dec_stall := False, dec_rmwfail := False\<rparr>\<rparr>) m"

text \<open>The next program counter, after the instruction.\<close>

definition advance :: "machine \<Rightarrow> machine" where
  "advance m =
     (if dec_isjump (m_dec m) then upd_cpu (\<lambda>c. c\<lparr>cpu_pc := ucast (dec_npc (cpu_dec c))\<rparr>) m
      else if \<not> dec_stall (m_dec m) then upd_cpu (\<lambda>c. c\<lparr>cpu_pc := cpu_pc c + 4\<rparr>) m
      else m)"

text \<open>The code at the label \<open>INC_CYCLE\<close>.\<close>

definition inc_cycle :: "machine \<Rightarrow> machine" where
  "inc_cycle m = upd_cpu (\<lambda>c. c\<lparr>cpu_perfct := (cpu_perfct c)\<lparr>
     pf_cycle := pf_cycle (cpu_perfct c) + 1,
     pf_ct := map (\<lambda>(en, n). (en, if en then n + 1 else n)) (pf_ct (cpu_perfct c))\<rparr>\<rparr>) m"

definition Datapath_execute :: "machine \<Rightarrow> (int \<times> machine) option" where
  "Datapath_execute m0 =
     (if \<not> cpu_running (m_cpu m0) then Some (-1, m0)
      else let m = start_cycle m0;
             st = (case CPU_mfc2 (m_cpu m) (cop2_reg_val COP2_MSG) (sel_val COP2_MSG_ST) of
                     Inl e \<Rightarrow> COP2_MSG_ST_OP (-1) | Inr v \<Rightarrow> COP2_MSG_ST_OP v) in
        if st = op_val COP2_MSG_OP_IN then Some (0, inc_cycle (perf_inc pf_waitin_update m))
        else if st = op_val COP2_MSG_OP_OUT then Some (0, inc_cycle (perf_inc pf_waitout_update m))
        else if st = op_val COP2_MSG_OP_ALT then Some (0, inc_cycle (perf_inc pf_waitalt_update m))
        else case fetch (m_cpu m) (m_mem m) of
            None \<Rightarrow> None
          | Some (Inl e) \<Rightarrow> Some (-1, inc_cycle m)
          | Some (Inr instr) \<Rightarrow>
              let (r, d) = decode ((m_dec m)\<lparr>dec_raw := instr\<rparr>);
                  m1 = upd_cpu (\<lambda>c. c\<lparr>cpu_dec := d\<rparr>) m in
              if r \<noteq> 0 then Some (-1, inc_cycle m1)
              else case execute m1 of
                  None \<Rightarrow> None
                | Some (e, m2) \<Rightarrow>
                    if e \<noteq> OK \<and> \<not> dec_rmwfail (m_dec m2) \<and> \<not> dec_stall (m_dec m2)
                    then Some (-1, inc_cycle m2)
                    else Some (0, inc_cycle (advance m2)))"

section \<open>Well-formed machines\<close>

text \<open>
  The ring of the bus stays inside its array whatever number a program puts in \<open>K0\<close>, from which
  the processor takes its identity.
\<close>

definition ctl_ok :: "memctl \<Rightarrow> bool" where
  "ctl_ok c \<longleftrightarrow> (mc_shared c \<longrightarrow> 0 < mc_nshr c \<and> length (mc_resaddr c) = mc_nshr c \<and>
     length (mc_arr c) = mc_nshr c \<and> mc_hd c < mc_nshr c \<and> mc_tl c < mc_nshr c)"

text \<open>
  \<open>sized_machine\<close>: every array has the size that the code allocates for it. \<open>wf_machine\<close> asks also
  for a memory of whole words: no check in the source guarantees it, the size is what the user asks for.
\<close>

definition sized_machine :: "machine \<Rightarrow> bool" where
  "sized_machine m \<longleftrightarrow> wf_cpu (m_cpu m) \<and> wf_mem (m_mem m) \<and> ctl_ok (m_ctl m)"

definition wf_machine :: "machine \<Rightarrow> bool" where
  "wf_machine m \<longleftrightarrow> wf_cpu (m_cpu m) \<and> whole_words (m_mem m) \<and> ctl_ok (m_ctl m)"

lemma wf_machine_sized: "wf_machine m \<longleftrightarrow> sized_machine m \<and> 4 dvd unat (mem_size (m_mem m))"
  by (auto simp: wf_machine_def sized_machine_def whole_words_def)

lemma ctl_ok_busacc [wf_intros]: "ctl_ok c \<Longrightarrow> ctl_ok (snd (Mem_busacc p c))"
  by (auto simp: ctl_ok_def Mem_busacc_def Let_def)

lemma ctl_ok_clear [simp]: "ctl_ok (clear_res a c) = ctl_ok c"
  by (simp add: ctl_ok_def clear_res_def)

lemma ctl_ok_resaddr [simp]: "ctl_ok (c\<lparr>mc_resaddr := (mc_resaddr c)[i := a]\<rparr>) = ctl_ok c"
  by (simp add: ctl_ok_def)

lemma Mem_busacc_frame [simp]:
  "mc_shared (snd (Mem_busacc p c)) = mc_shared c" "mc_nshr (snd (Mem_busacc p c)) = mc_nshr c"
  "mc_resaddr (snd (Mem_busacc p c)) = mc_resaddr c"
  by (simp_all add: Mem_busacc_def Let_def)

lemma wf_mem_eq:
  "mem_size m' = mem_size m \<Longrightarrow> length (mem_b m') = length (mem_b m) \<Longrightarrow> wf_mem m' = wf_mem m"
  by (simp add: wf_mem_def)

lemma Mem_sb_keeps:
  "Mem_sb m a v = Some (r, m') \<Longrightarrow> mem_size m' = mem_size m \<and> length (mem_b m') = length (mem_b m)"
  by (auto simp: Mem_sb_def split: if_splits)

lemma Mem_sw_keeps:
  "Mem_sw m c a v = Some (r, m', c') \<Longrightarrow> mem_size m' = mem_size m \<and>
     length (mem_b m') = length (mem_b m) \<and> ctl_ok c' = ctl_ok c"
  by (auto simp: Mem_sw_def Let_def dest: set_word_length split: if_splits)

lemma Mem_sc_keeps:
  "Mem_sc m c p a v = Some (r, m', c') \<Longrightarrow> mem_size m' = mem_size m \<and>
     length (mem_b m') = length (mem_b m) \<and> ctl_ok c' = ctl_ok c"
  by (auto simp: Mem_sc_def Let_def dest: set_word_length split: if_splits)

lemma Mem_ll_keeps: "Mem_ll m c p a = Some (r, c') \<Longrightarrow> ctl_ok c' = ctl_ok c"
  by (auto simp: Mem_ll_def Let_def split: if_splits)

text \<open>An accepted word access runs past the block when its word is the last, partial one.\<close>

definition past_end :: "Mem \<Rightarrow> u64 \<Rightarrow> bool" where
  "past_end m a \<longleftrightarrow> word_ok m a \<and> unat (mem_size m) < unat a + 4"

lemma word_slot_None:
  assumes "wf_mem m" "word_ok m a"
  shows "get_word (mem_b m) (unat (drop_bit 2 a)) = None \<longleftrightarrow> past_end m a"
    "set_word (mem_b m) (unat (drop_bit 2 a)) v = None \<longleftrightarrow> past_end m a"
proof -
  have "4 * (unat a div 4) = unat a" using assms(2) by (simp add: word_ok_def aligned_iff)
  then show "get_word (mem_b m) (unat (drop_bit 2 a)) = None \<longleftrightarrow> past_end m a"
    "set_word (mem_b m) (unat (drop_bit 2 a)) v = None \<longleftrightarrow> past_end m a"
    using assms by (auto simp: past_end_def get_word_def set_word_def wf_mem_def unat_drop2)
qed

definition res_number_ok :: "memctl \<Rightarrow> u32 \<Rightarrow> bool" where
  "res_number_ok c p \<longleftrightarrow> (mc_shared c \<longrightarrow> unat p < mc_nshr c)"

lemma mem_ops_undefined:
  assumes "wf_mem m"
  shows "Mem_lw m a = None \<longleftrightarrow> past_end m a" "Mem_sw m c a v = None \<longleftrightarrow> past_end m a"
    "Mem_ll m c p a = None \<longleftrightarrow> res_number_ok c p \<and> past_end m a"
    "Mem_sc m c p a v = None \<longleftrightarrow> res_number_ok c p \<and> (mc_shared c \<longrightarrow> mc_resaddr c ! unat p = a) \<and> past_end m a"
    "Mem_lb m a \<noteq> None" "Mem_sb m a b \<noteq> None"
proof -
  note [simp] = Mem_lw_def Mem_sw_def Mem_ll_def Mem_sc_def Let_def res_number_ok_def
  have "(Mem_lw m a = None \<longleftrightarrow> past_end m a) \<and> (Mem_sw m c a v = None \<longleftrightarrow> past_end m a) \<and>
    (Mem_ll m c p a = None \<longleftrightarrow> res_number_ok c p \<and> past_end m a) \<and>
    (Mem_sc m c p a v = None \<longleftrightarrow> res_number_ok c p \<and> (mc_shared c \<longrightarrow> mc_resaddr c ! unat p = a) \<and> past_end m a)"
  proof (cases "word_ok m a")
    case True
    then have "\<not> mem_size m \<le> a" "a AND 3 = 0" by (simp_all add: word_ok_def not_le)
    then show ?thesis using word_slot_None [OF assms True] by (auto simp: not_le)
  next
    case False
    then have "mem_size m \<le> a \<or> a AND 3 \<noteq> 0" "\<not> past_end m a" by (auto simp: word_ok_def past_end_def not_le)
    then show ?thesis by auto
  qed
  then show "Mem_lw m a = None \<longleftrightarrow> past_end m a" "Mem_sw m c a v = None \<longleftrightarrow> past_end m a"
    "Mem_ll m c p a = None \<longleftrightarrow> res_number_ok c p \<and> past_end m a"
    "Mem_sc m c p a v = None \<longleftrightarrow> res_number_ok c p \<and> (mc_shared c \<longrightarrow> mc_resaddr c ! unat p = a) \<and> past_end m a"
    by - (elim conjE, assumption)+
  show "Mem_lb m a \<noteq> None" "Mem_sb m a b \<noteq> None"
    using assms by (auto simp: Mem_lb_def Mem_sb_def wf_mem_def word_le_nat_alt)
qed

lemma no_past_end: "whole_words m \<Longrightarrow> \<not> past_end m a"
  using word_ok_fits [of m a] by (auto simp: past_end_def whole_words_def wf_mem_def word_ok_def aligned_iff unat_drop2)

section \<open>What every case of the switch keeps\<close>

text \<open>
  \<open>same_visible\<close>: the two machines differ at most in the bus controller, the decoder and the
  counters; \<open>step_ok m r m'\<close>: what holds when a case turns \<open>m\<close> into \<open>m'\<close> and returns \<open>r\<close>.
\<close>

definition same_visible :: "machine \<Rightarrow> machine \<Rightarrow> bool" where
  "same_visible m m' \<longleftrightarrow> cpu_gpr (m_cpu m') = cpu_gpr (m_cpu m) \<and> cpu_hilo (m_cpu m') = cpu_hilo (m_cpu m) \<and>
     cpu_cop2 (m_cpu m') = cpu_cop2 (m_cpu m) \<and> cpu_running (m_cpu m') = cpu_running (m_cpu m) \<and>
     m_mem m' = m_mem m \<and> m_io m' = m_io m"

definition step_ok :: "machine \<Rightarrow> retcode \<Rightarrow> machine \<Rightarrow> bool" where
  "step_ok m r m' \<longleftrightarrow> sized_machine m' \<and> cpu_pc (m_cpu m') = cpu_pc (m_cpu m) \<and>
     mem_size (m_mem m') = mem_size (m_mem m) \<and>
     pf_cycle (cpu_perfct (m_cpu m')) = pf_cycle (cpu_perfct (m_cpu m)) \<and>
     (dec_stall (m_dec m') \<longleftrightarrow> r = E EBUSY) \<and>
     (dec_rmwfail (m_dec m') \<longrightarrow> r = OK) \<and>
     (r \<noteq> OK \<longrightarrow> same_visible m m' \<and> dec_isjump (m_dec m') = dec_isjump (m_dec m))"

definition handler_ok :: "handler \<Rightarrow> bool" where
  "handler_ok h \<longleftrightarrow> (\<forall>m r m'. sized_machine m \<longrightarrow> \<not> dec_stall (m_dec m) \<longrightarrow> \<not> dec_rmwfail (m_dec m) \<longrightarrow>
     h m = Some (r, m') \<longrightarrow> step_ok m r m')"

lemma set_parts [simp]:
  "m_mem (set_gpr k v m) = m_mem m" "m_ctl (set_gpr k v m) = m_ctl m" "m_io (set_gpr k v m) = m_io m"
  "m_cpu (set_gpr k v m) = (m_cpu m)\<lparr>cpu_gpr := (cpu_gpr (m_cpu m))[k := v]\<rparr>"
  "m_mem (set_npc a m) = m_mem m" "m_ctl (set_npc a m) = m_ctl m" "m_io (set_npc a m) = m_io m"
  "m_cpu (set_npc a m) = (m_cpu m)\<lparr>cpu_dec := (m_dec m)\<lparr>dec_npc := a\<rparr>\<rparr>"
  "m_mem (set_hilo w m) = m_mem m" "m_ctl (set_hilo w m) = m_ctl m" "m_io (set_hilo w m) = m_io m"
  "m_cpu (set_hilo w m) = (m_cpu m)\<lparr>cpu_hilo := w\<rparr>"
  "m_mem (perf_inc f m) = m_mem m" "m_ctl (perf_inc f m) = m_ctl m" "m_io (perf_inc f m) = m_io m"
  "m_cpu (perf_inc f m) = (m_cpu m)\<lparr>cpu_perfct := f (\<lambda>n. n + 1) (cpu_perfct (m_cpu m))\<rparr>"
  "m_mem (out_bytes bs m) = m_mem m" "m_ctl (out_bytes bs m) = m_ctl m" "m_cpu (out_bytes bs m) = m_cpu m"
  by (simp_all add: set_gpr_def set_npc_def set_hilo_def perf_inc_def out_bytes_def)

lemma set_link_op_parts [simp]:
  "m_mem (set_link_op k m) = m_mem m" "m_ctl (set_link_op k m) = m_ctl m"
  "m_io (set_link_op k m) = m_io m"
  "m_cpu (set_link_op k m) =
     snd (CPU_mtc2 (m_cpu m) (cop2_reg_val COP2_MSG) (sel_val COP2_MSG_ST) (op_val k))"
  by (simp_all add: set_link_op_def)

lemma wf_cpu_upd [simp]:
  "wf_cpu (c\<lparr>cpu_gpr := (cpu_gpr c)[k := v]\<rparr>) = wf_cpu c"
  "wf_cpu (c\<lparr>cpu_dec := d\<rparr>) = wf_cpu c" "wf_cpu (c\<lparr>cpu_pc := a\<rparr>) = wf_cpu c"
  "wf_cpu (c\<lparr>cpu_hilo := w\<rparr>) = wf_cpu c" "wf_cpu (c\<lparr>cpu_running := b\<rparr>) = wf_cpu c"
  by (simp_all add: wf_cpu_def)

lemma wf_cpu_perfct: "length (pf_ct p) = length (pf_ct (cpu_perfct c)) \<Longrightarrow> wf_cpu (c\<lparr>cpu_perfct := p\<rparr>) = wf_cpu c"
  by (simp add: wf_cpu_def)

lemma wf_cpu_link:
  "wf_cpu c \<Longrightarrow> k < COP2_NREG \<Longrightarrow> wf_cpu (c\<lparr>cpu_cop2 := (cpu_cop2 c)[k := (cpu_cop2 c ! k)[j := v]]\<rparr>)"
  by (auto simp: wf_cpu_def dest!: subsetD [OF set_update_subset_insert] intro: nth_mem)

lemmas step_ok_simps = step_ok_def sized_machine_def same_visible_def set_rd_def set_rt_def

lemma alu_ok:
  "handler_ok exec_SLL" "handler_ok exec_SRA" "handler_ok exec_SLLV" "handler_ok exec_JR"
  "handler_ok exec_MOVZ" "handler_ok exec_MOVN" "handler_ok exec_MFHI" "handler_ok exec_MFLO"
  "handler_ok exec_MULT" "handler_ok exec_DIV" "handler_ok exec_ADDU" "handler_ok exec_SUBU"
  "handler_ok exec_AND" "handler_ok exec_OR" "handler_ok exec_XOR" "handler_ok exec_SLT"
  "handler_ok exec_MUL" "handler_ok exec_EXT"
  by (auto simp: handler_ok_def handler_defs Let_def step_ok_simps split: if_splits)

lemma branch_ok:
  "handler_ok exec_BLTZ" "handler_ok exec_BGEZ" "handler_ok exec_BEQ" "handler_ok exec_BNE"
  "handler_ok exec_BLEZ" "handler_ok exec_BGTZ" "handler_ok exec_J" "handler_ok exec_JAL"
  by (auto simp: handler_ok_def handler_defs Let_def step_ok_simps branch_if_def)

lemma imm_ok:
  "handler_ok exec_ADDIU" "handler_ok exec_SLTI" "handler_ok exec_SLTIU" "handler_ok exec_ANDI"
  "handler_ok exec_ORI" "handler_ok exec_XORI" "handler_ok exec_LUI"
  by (auto simp: handler_ok_def handler_defs Let_def step_ok_simps)

lemma cop_ok:
  "handler_ok exec_WAIT" "handler_ok exec_MFC2" "handler_ok exec_MTC2" "handler_ok exec_COP2"
  by (auto simp: handler_ok_def handler_defs Let_def step_ok_simps wf_cpu_perfct wf_cpu_link
      CPU_mfc2_def CPU_mtc2_def split: sum.splits if_splits)

text \<open>The memory accesses: what the granted access keeps, and what a deferral leaves.\<close>

lemma with_bus_ok:
  assumes "with_bus f body m1 = Some (r, m')" and "m1 = m\<lparr>m_cpu := c\<rparr>"
    and "sized_machine m" "wf_cpu c" "\<not> dec_stall (m_dec m)" "\<not> dec_rmwfail (m_dec m)"
    and "cpu_dec c = m_dec m" "cpu_pc c = cpu_pc (m_cpu m)" "cpu_gpr c = cpu_gpr (m_cpu m)"
    and "cpu_hilo c = cpu_hilo (m_cpu m)" "cpu_cop2 c = cpu_cop2 (m_cpu m)"
    and "cpu_running c = cpu_running (m_cpu m)"
    and "pf_cycle (cpu_perfct c) = pf_cycle (cpu_perfct (m_cpu m))"
    and "\<And>g p. pf_ct (f g p) = pf_ct p" "\<And>g p. pf_cycle (f g p) = pf_cycle p"
    and body: "\<And>ctl. ctl_ok ctl \<Longrightarrow> body (m1\<lparr>m_ctl := ctl\<rparr>) = Some (r, m') \<Longrightarrow> step_ok m r m'"
  shows "step_ok m r m'"
proof -
  let ?b = "Mem_busacc (gpr (m_cpu m1) (regno K0)) (m_ctl m1)"
  have ctl: "ctl_ok (snd ?b)" using assms(2,3) by (auto simp: sized_machine_def intro: ctl_ok_busacc)
  show ?thesis
  proof (cases "fst ?b = 0")
    case True
    then show ?thesis using assms(1) body [OF ctl] by (simp add: with_bus_def split: prod.splits)
  next
    case False
    then show ?thesis using assms(1-15) ctl
      by (auto simp: with_bus_def step_ok_simps wf_cpu_perfct split: prod.splits)
  qed
qed

text \<open>A memory instruction counts itself and asks for the bus.\<close>

lemma memory_handler_ok:
  assumes "\<And>g p. pf_ct (f g p) = pf_ct p" "\<And>g p. pf_cycle (f g p) = pf_cycle p"
    and "\<And>g p. pf_ct (fd g p) = pf_ct p" "\<And>g p. pf_cycle (fd g p) = pf_cycle p"
    and eq: "\<And>m. \<not> io m \<Longrightarrow> h m = with_bus fd (body m) (perf_inc f m)"
    and io: "\<And>m r m'. io m \<Longrightarrow> sized_machine m \<Longrightarrow> \<not> dec_stall (m_dec m) \<Longrightarrow> \<not> dec_rmwfail (m_dec m) \<Longrightarrow>
      h m = Some (r, m') \<Longrightarrow> step_ok m r m'"
    and body: "\<And>m ctl r m'. sized_machine m \<Longrightarrow> ctl_ok ctl \<Longrightarrow> \<not> dec_stall (m_dec m) \<Longrightarrow> \<not> dec_rmwfail (m_dec m) \<Longrightarrow>
      body m ((perf_inc f m)\<lparr>m_ctl := ctl\<rparr>) = Some (r, m') \<Longrightarrow> step_ok m r m'"
  shows "handler_ok h"
  unfolding handler_ok_def
proof (intro allI impI)
  fix m r m'
  assume m: "sized_machine m" "\<not> dec_stall (m_dec m)" "\<not> dec_rmwfail (m_dec m)" "h m = Some (r, m')"
  show "step_ok m r m'"
  proof (cases "io m")
    case True
    then show ?thesis using m by (rule io)
  next
    case False
    with eq m(4) have "with_bus fd (body m) (perf_inc f m) = Some (r, m')" by simp
    then show ?thesis
      by (rule with_bus_ok [where m = m and c = "m_cpu (perf_inc f m)"])
        (use m body assms(1-4) in \<open>auto simp: wf_cpu_perfct sized_machine_def perf_inc_def\<close>)
  qed
qed

text \<open>The operands of a memory instruction do not depend on the counters and the bus.\<close>

lemma operands [simp]:
  "eff_addr (perf_inc f m) = eff_addr m" "eff_addr (m\<lparr>m_ctl := c\<rparr>) = eff_addr m"
  "gpr_rt (perf_inc f m) = gpr_rt m" "gpr_rt (m\<lparr>m_ctl := c\<rparr>) = gpr_rt m"
  "gpr (m_cpu (perf_inc f m)) k = gpr (m_cpu m) k"
  by (simp_all add: eff_addr_def gpr_rs_def gpr_rt_def simm_def gpr_def)

lemma mem_ops_errno:
  "Mem_lw m a = Some (Inl e) \<Longrightarrow> e \<noteq> EBUSY"
  "Mem_lb m a = Some (Inl e) \<Longrightarrow> e \<noteq> EBUSY"
  "Mem_ll m c p a = Some (Inl e, c') \<Longrightarrow> e \<noteq> EBUSY"
  "Mem_sb m a b = Some (E e, m') \<Longrightarrow> e \<noteq> EBUSY"
  "Mem_sw m c a v = Some (E e, m', c') \<Longrightarrow> e \<noteq> EBUSY"
  "Mem_sc m c p a v = Some (E e, m', c') \<Longrightarrow> e \<noteq> EBUSY"
  by (auto simp: Mem_lw_def Mem_lb_def Mem_ll_def Mem_sb_def Mem_sw_def Mem_sc_def Let_def split: if_splits)

lemma stores_wf:
  "Mem_sb m a b = Some (r, m') \<Longrightarrow> wf_mem m \<Longrightarrow> wf_mem m' \<and> mem_size m' = mem_size m"
  "Mem_sw m c a v = Some (r, m', c') \<Longrightarrow> wf_mem m \<Longrightarrow> ctl_ok c \<Longrightarrow>
     wf_mem m' \<and> mem_size m' = mem_size m \<and> ctl_ok c'"
  "Mem_sc m c p a v = Some (r, m', c') \<Longrightarrow> wf_mem m \<Longrightarrow> ctl_ok c \<Longrightarrow>
     wf_mem m' \<and> mem_size m' = mem_size m \<and> ctl_ok c'"
  "Mem_ll m c p a = Some (x, c') \<Longrightarrow> ctl_ok c \<Longrightarrow> ctl_ok c'"
  using Mem_sb_keeps Mem_sw_keeps Mem_sc_keeps Mem_ll_keeps wf_mem_eq by metis+

lemma store_error_same:
  "Mem_sb m a b = Some (r, m') \<Longrightarrow> r \<noteq> OK \<Longrightarrow> m' = m"
  "Mem_sw m c a v = Some (r, m', c') \<Longrightarrow> r \<noteq> OK \<Longrightarrow> m' = m"
  "Mem_sc m c p a v = Some (r, m', c') \<Longrightarrow> r \<noteq> OK \<Longrightarrow> m' = m"
  by (auto simp: Mem_sb_def Mem_sw_def Mem_sc_def Let_def split: if_splits)

lemma Mem_sb_post:
  "Mem_sb m a b = Some (r, m') \<Longrightarrow> wf_mem m \<Longrightarrow>
     wf_mem m' \<and> mem_size m' = mem_size m \<and> r \<noteq> E EBUSY \<and> (r \<noteq> OK \<longrightarrow> m' = m)"
  using stores_wf(1) mem_ops_errno(4) store_error_same(1) by blast

lemma Mem_sw_post:
  "Mem_sw m c a v = Some (r, m', c') \<Longrightarrow> wf_mem m \<Longrightarrow> ctl_ok c \<Longrightarrow>
     wf_mem m' \<and> mem_size m' = mem_size m \<and> ctl_ok c' \<and> r \<noteq> E EBUSY \<and> (r \<noteq> OK \<longrightarrow> m' = m)"
  using stores_wf(2) [of m c a v r m' c'] store_error_same(2) [of m c a v r m' c']
    mem_ops_errno(5) [of m c a v EBUSY m' c'] by auto

lemma Mem_sc_post:
  "Mem_sc m c p a v = Some (r, m', c') \<Longrightarrow> wf_mem m \<Longrightarrow> ctl_ok c \<Longrightarrow>
     wf_mem m' \<and> mem_size m' = mem_size m \<and> ctl_ok c' \<and> r \<noteq> E EBUSY \<and> (r \<noteq> OK \<longrightarrow> m' = m)"
  using stores_wf(3) [of m c p a v r m' c'] store_error_same(3) [of m c p a v r m' c']
    mem_ops_errno(6) [of m c p a v EBUSY m' c'] by auto

lemmas memory_ok_simps = step_ok_simps wf_cpu_def

lemma LW_ok: "handler_ok exec_LW"
proof (rule memory_handler_ok [where f = pf_ld_update and fd = pf_lddefer_update and io = "\<lambda>_. False"])
  show "exec_LW m = with_bus pf_lddefer_update (\<lambda>m1. case Mem_lw (m_mem m1) (ucast (eff_addr m)) of
      None \<Rightarrow> None | Some (Inl e) \<Rightarrow> Some (E e, m1) | Some (Inr w) \<Rightarrow> Some (OK, set_rt w m1))
      (perf_inc pf_ld_update m)" for m
    by (simp add: exec_LW_def)
qed (auto simp: memory_ok_simps dest: mem_ops_errno split: option.splits sum.splits)

lemma LB_ok: "handler_ok exec_LB"
proof (rule memory_handler_ok [where f = pf_ld_update and fd = pf_lddefer_update and
      io = "\<lambda>m. eff_addr m = IO_ADDR"])
  show "exec_LB m = with_bus pf_lddefer_update (\<lambda>m1. case Mem_lb (m_mem m1) (ucast (eff_addr m)) of
      None \<Rightarrow> None | Some (Inl e) \<Rightarrow> Some (E e, m1) | Some (Inr b) \<Rightarrow> Some (OK, set_rt (scast b) m1))
      (perf_inc pf_ld_update m)" if "eff_addr m \<noteq> IO_ADDR" for m
    using that by (simp add: exec_LB_def)
qed (auto simp: memory_ok_simps exec_LB_def get_char_def Let_def dest: mem_ops_errno
    split: option.splits sum.splits list.splits)

lemma SB_ok: "handler_ok exec_SB"
proof (rule memory_handler_ok [where f = pf_st_update and fd = pf_stdefer_update and
      io = "\<lambda>m. eff_addr m = IO_ADDR"])
  show "exec_SB m = with_bus pf_stdefer_update (\<lambda>m1. case Mem_sb (m_mem m1) (ucast (eff_addr m)) (ucast (gpr_rt m1)) of
      None \<Rightarrow> None | Some (r, mem) \<Rightarrow> Some (r, m1\<lparr>m_mem := mem\<rparr>)) (perf_inc pf_st_update m)"
    if "eff_addr m \<noteq> IO_ADDR" for m
    using that by (simp add: exec_SB_def)
qed (auto simp: memory_ok_simps exec_SB_def Let_def dest!: Mem_sb_post split: option.splits)

lemma SW_ok: "handler_ok exec_SW"
proof (rule memory_handler_ok [where f = pf_st_update and fd = pf_stdefer_update and
      io = "\<lambda>m. eff_addr m = IO_ADDR"])
  show "exec_SW m = with_bus pf_stdefer_update (\<lambda>m1.
      case Mem_sw (m_mem m1) (m_ctl m1) (ucast (eff_addr m)) (gpr_rt m1) of
        None \<Rightarrow> None | Some (r, mem, ctl) \<Rightarrow> Some (r, m1\<lparr>m_mem := mem, m_ctl := ctl\<rparr>))
      (perf_inc pf_st_update m)" if "eff_addr m \<noteq> IO_ADDR" for m
    using that by (simp add: exec_SW_def)
qed (auto simp: memory_ok_simps exec_SW_def Let_def dest!: Mem_sw_post split: option.splits)

lemma LL_ok: "handler_ok exec_LL"
proof (rule memory_handler_ok [where f = pf_ll_update and fd = pf_lldefer_update and io = "\<lambda>_. False"])
  show "exec_LL m = with_bus pf_lldefer_update (\<lambda>m1.
      case Mem_ll (m_mem m1) (m_ctl m1) (gpr (m_cpu m1) (regno K0)) (ucast (eff_addr m)) of
        None \<Rightarrow> None | Some (Inl e, ctl) \<Rightarrow> Some (E e, m1\<lparr>m_ctl := ctl\<rparr>)
      | Some (Inr w, ctl) \<Rightarrow> Some (OK, set_rt w (m1\<lparr>m_ctl := ctl\<rparr>))) (perf_inc pf_ll_update m)" for m
    by (simp add: exec_LL_def)
qed (auto simp: memory_ok_simps dest: mem_ops_errno stores_wf split: option.splits sum.splits)

lemma SC_ok: "handler_ok exec_SC"
proof (rule memory_handler_ok [where f = pf_sc_update and fd = pf_scdefer_update and io = "\<lambda>_. False"])
  show "exec_SC m = with_bus pf_scdefer_update (\<lambda>m1.
      case Mem_sc (m_mem m1) (m_ctl m1) (gpr (m_cpu m1) (regno K0)) (ucast (eff_addr m)) (gpr_rt m1) of
        None \<Rightarrow> None
      | Some (r, mem, ctl) \<Rightarrow> let m2 = m1\<lparr>m_mem := mem, m_ctl := ctl\<rparr> in
          if r = OK then Some (OK, set_rt 1 m2)
          else if r = E EAGAIN then Some (OK, set_rt 0 (perf_inc pf_rmwfail_update
            (upd_cpu (\<lambda>c. c\<lparr>cpu_dec := (cpu_dec c)\<lparr>dec_rmwfail := True\<rparr>\<rparr>) m2)))
          else Some (r, m2)) (perf_inc pf_sc_update m)" for m
    by (simp add: exec_SC_def)
qed (auto simp: memory_ok_simps Let_def dest!: Mem_sc_post split: option.splits if_splits)

theorem switch_ok: "\<forall>(l, h)\<in>set switch_table. handler_ok h"
  using alu_ok branch_ok imm_ok cop_ok LB_ok LW_ok SB_ok SW_ok LL_ok SC_ok
  by (simp add: switch_table_def)

lemma execute_ok: "handler_ok execute"
  unfolding handler_ok_def
proof (intro allI impI)
  fix m r m'
  assume m: "sized_machine m" "\<not> dec_stall (m_dec m)" "\<not> dec_rmwfail (m_dec m)" "execute m = Some (r, m')"
  from m(4) show "step_ok m r m'"
  proof (cases rule: execute_cases)
    case (1 h)
    with switch_ok have "handler_ok h" by auto
    with 1(2) m show ?thesis by (simp add: handler_ok_def)
  next
    case 2
    with m show ?thesis by (auto simp: step_ok_simps)
  qed
qed

end
