(* ===== verification/Cycle.thy ===== *)
theory Cycle
  imports Datapath
begin

text \<open>
  Properties of one cycle of a processor: which machines it reaches, when C defines it, where the
  program counter goes, and that a stalled instruction is retried.
\<close>

section \<open>When the switch is undefined\<close>

definition mult_overflows :: "u32 \<Rightarrow> u32 \<Rightarrow> bool" where
  "mult_overflows a b \<longleftrightarrow> \<not> (- (2 ^ 31) \<le> sint a * sint b \<and> sint a * sint b < 2 ^ 31)"

definition div_undefined :: "u32 \<Rightarrow> u32 \<Rightarrow> bool" where
  "div_undefined a b \<longleftrightarrow> b = 0 \<or> sint a = - (2 ^ 31) \<and> sint b = -1"

definition ext_undefined :: "u32 \<Rightarrow> bool" where
  "ext_undefined raw \<longleftrightarrow> \<not> (unat (LSB raw) < 32 \<and> unat (31 - MSBD raw) < 32)"

definition arith_undefined :: "machine \<Rightarrow> bool" where
  "arith_undefined m \<longleftrightarrow>
     dec_sign (m_dec m) = lab_special MULT \<and> mult_overflows (gpr_rs m) (gpr_rt m) \<or>
     dec_sign (m_dec m) = lab_special DIV \<and> div_undefined (gpr_rs m) (gpr_rt m) \<or>
     dec_sign (m_dec m) = push_bit 26 (opc SPECIAL3) OR funct3 EXT \<and> ext_undefined (dec_raw (m_dec m))"

lemma alu_defined:
  "exec_SLL m \<noteq> None" "exec_SRA m \<noteq> None" "exec_SLLV m \<noteq> None" "exec_JR m \<noteq> None"
  "exec_MOVZ m \<noteq> None" "exec_MOVN m \<noteq> None" "exec_MFHI m \<noteq> None" "exec_MFLO m \<noteq> None"
  "exec_ADDU m \<noteq> None" "exec_SUBU m \<noteq> None" "exec_AND m \<noteq> None" "exec_OR m \<noteq> None"
  "exec_XOR m \<noteq> None" "exec_SLT m \<noteq> None" "exec_MUL m \<noteq> None"
  "exec_BLTZ m \<noteq> None" "exec_BGEZ m \<noteq> None" "exec_BEQ m \<noteq> None" "exec_BNE m \<noteq> None"
  "exec_BLEZ m \<noteq> None" "exec_BGTZ m \<noteq> None" "exec_J m \<noteq> None" "exec_JAL m \<noteq> None"
  "exec_ADDIU m \<noteq> None" "exec_SLTI m \<noteq> None" "exec_SLTIU m \<noteq> None" "exec_ANDI m \<noteq> None"
  "exec_ORI m \<noteq> None" "exec_XORI m \<noteq> None" "exec_LUI m \<noteq> None" "exec_WAIT m \<noteq> None"
  "exec_MFC2 m \<noteq> None" "exec_MTC2 m \<noteq> None" "exec_COP2 m \<noteq> None"
  by (simp_all add: handler_defs Let_def split: sum.split prod.split)

text \<open>A memory instruction is undefined when it gets the bus and its access runs past the block.\<close>

definition bus_granted :: "machine \<Rightarrow> bool" where
  "bus_granted m \<longleftrightarrow> fst (Mem_busacc (gpr (m_cpu m) (regno K0)) (m_ctl m)) = 0"

definition mem_overrun :: "machine \<Rightarrow> bool" where
  "mem_overrun m \<longleftrightarrow> bus_granted m \<and> past_end (m_mem m) (ucast (eff_addr m)) \<and>
     (dec_sign (m_dec m) = lab_op LW \<or>
      dec_sign (m_dec m) = lab_op SW \<and> eff_addr m \<noteq> IO_ADDR \<or>
      dec_sign (m_dec m) = lab_op LL \<and> res_number_ok (m_ctl m) (gpr (m_cpu m) (regno K0)) \<or>
      dec_sign (m_dec m) = lab_op SC \<and> res_number_ok (m_ctl m) (gpr (m_cpu m) (regno K0)) \<and>
        (mc_shared (m_ctl m) \<longrightarrow> mc_resaddr (m_ctl m) ! unat (gpr (m_cpu m) (regno K0)) = ucast (eff_addr m)))"

lemma with_bus_None:
  "with_bus f body m = None \<longleftrightarrow> bus_granted m \<and>
     body (m\<lparr>m_ctl := snd (Mem_busacc (gpr (m_cpu m) (regno K0)) (m_ctl m))\<rparr>) = None"
  by (auto simp: with_bus_def bus_granted_def Let_def split: prod.splits)

lemma bus_granted_count [simp]: "bus_granted (perf_inc f m) = bus_granted m"
  by (simp add: bus_granted_def gpr_def)

lemma res_number_ok_bus [simp]: "res_number_ok (snd (Mem_busacc p c)) = res_number_ok c"
  by (simp add: res_number_ok_def fun_eq_iff)

lemma memory_undefined:
  assumes "wf_mem (m_mem m)"
  defines "over \<equiv> bus_granted m \<and> past_end (m_mem m) (ucast (eff_addr m))"
    and "k \<equiv> gpr (m_cpu m) (regno K0)"
  shows "exec_LB m \<noteq> None" "exec_SB m \<noteq> None"
    "exec_LW m = None \<longleftrightarrow> over" "exec_SW m = None \<longleftrightarrow> over \<and> eff_addr m \<noteq> IO_ADDR"
    "exec_LL m = None \<longleftrightarrow> over \<and> res_number_ok (m_ctl m) k"
    "exec_SC m = None \<longleftrightarrow> over \<and> res_number_ok (m_ctl m) k \<and>
       (mc_shared (m_ctl m) \<longrightarrow> mc_resaddr (m_ctl m) ! unat k = ucast (eff_addr m))"
proof -
  note ops = mem_ops_undefined [OF assms(1)]
  note [simp] = Let_def with_bus_None option.case_eq_if sum.case_eq_if case_prod_unfold
  show "exec_LB m \<noteq> None" "exec_SB m \<noteq> None"
    using ops(5) [of "ucast (eff_addr m)"] ops(6) [of "ucast (eff_addr m)"]
    by (auto simp: exec_LB_def exec_SB_def get_char_def simp del: not_None_eq split: list.splits)
  show "exec_LW m = None \<longleftrightarrow> over" "exec_SW m = None \<longleftrightarrow> over \<and> eff_addr m \<noteq> IO_ADDR"
    by (auto simp: exec_LW_def exec_SW_def over_def ops)
  show "exec_LL m = None \<longleftrightarrow> over \<and> res_number_ok (m_ctl m) k"
    by (auto simp: exec_LL_def over_def ops k_def gpr_def)
  show "exec_SC m = None \<longleftrightarrow> over \<and> res_number_ok (m_ctl m) k \<and>
       (mc_shared (m_ctl m) \<longrightarrow> mc_resaddr (m_ctl m) ! unat k = ucast (eff_addr m))"
    by (auto simp: exec_SC_def over_def ops k_def gpr_def)
qed

lemma sint_eq_0: "sint w = 0 \<longleftrightarrow> w = 0" for w :: "'a :: len word"
  by (metis signed_0 signed_word_eqI)

lemma arith_defined:
  "exec_MULT m = None \<longleftrightarrow> mult_overflows (gpr_rs m) (gpr_rt m)"
  "exec_DIV m = None \<longleftrightarrow> div_undefined (gpr_rs m) (gpr_rt m)"
  "exec_EXT m = None \<longleftrightarrow> ext_undefined (dec_raw (m_dec m))"
  by (auto simp: exec_MULT_def exec_DIV_def exec_EXT_def mult_overflows_def div_undefined_def
      ext_undefined_def Let_def sint_eq_0)

lemma switch_labels:
  "map_of switch_table (lab_special MULT) = Some exec_MULT"
  "map_of switch_table (lab_special DIV) = Some exec_DIV"
  "map_of switch_table (push_bit 26 (opc SPECIAL3) OR funct3 EXT) = Some exec_EXT"
  "map_of switch_table (lab_op LW) = Some exec_LW" "map_of switch_table (lab_op SW) = Some exec_SW"
  "map_of switch_table (lab_op LL) = Some exec_LL" "map_of switch_table (lab_op SC) = Some exec_SC"
  by (simp_all add: switch_table_def)

lemma switch_defined:
  assumes "wf_mem (m_mem m)"
  shows "\<forall>(l, h)\<in>set switch_table. h m = None \<longrightarrow>
    (l, h) \<in> set [(lab_special MULT, exec_MULT), (lab_special DIV, exec_DIV),
      (push_bit 26 (opc SPECIAL3) OR funct3 EXT, exec_EXT), (lab_op LW, exec_LW), (lab_op SW, exec_SW),
      (lab_op LL, exec_LL), (lab_op SC, exec_SC)]"
  using alu_defined [of m] memory_undefined(1,2) [OF assms] by (simp add: switch_table_def)

lemma execute_undefined_iff:
  assumes "wf_mem (m_mem m)"
  shows "execute m = None \<longleftrightarrow> arith_undefined m \<or> mem_overrun m"
proof
  assume "execute m = None"
  then show "arith_undefined m \<or> mem_overrun m"
  proof (cases rule: execute_cases)
    case (1 h)
    with switch_defined [OF assms] have
      "(dec_sign (m_dec m), h) \<in> set [(lab_special MULT, exec_MULT), (lab_special DIV, exec_DIV),
        (push_bit 26 (opc SPECIAL3) OR funct3 EXT, exec_EXT), (lab_op LW, exec_LW), (lab_op SW, exec_SW),
        (lab_op LL, exec_LL), (lab_op SC, exec_SC)]" by fastforce
    then show ?thesis
      unfolding arith_undefined_def mem_overrun_def list.set insert_iff empty_iff prod.inject
      using 1(2) [symmetric] by (elim disjE conjE) (simp_all add: arith_defined memory_undefined [OF assms])
  qed simp
next
  assume "arith_undefined m \<or> mem_overrun m"
  then show "execute m = None"
    unfolding arith_undefined_def mem_overrun_def execute_def
    by (elim disjE conjE) (simp_all only: switch_labels option.case arith_defined memory_undefined [OF assms] simp_thms)
qed

section \<open>The outcomes of a cycle\<close>

text \<open>The operation the link is at, and the machine with an instruction decoded.\<close>

definition link_op :: "machine \<Rightarrow> u32" where
  "link_op m = COP2_MSG_ST_OP (link_reg (m_cpu m) COP2_MSG_ST)"

definition loaded :: "machine \<Rightarrow> u32 \<Rightarrow> machine" where
  "loaded m i = upd_cpu (\<lambda>c. c\<lparr>cpu_dec := snd (decode ((cpu_dec c)\<lparr>dec_raw := i\<rparr>))\<rparr>) m"

definition decodable :: "machine \<Rightarrow> u32 \<Rightarrow> bool" where
  "decodable m i \<longleftrightarrow> fst (decode ((m_dec m)\<lparr>dec_raw := i\<rparr>)) = 0"

lemma link_op_start [simp]: "link_op (start_cycle m) = link_op m"
  by (simp add: link_op_def start_cycle_def)

lemma link_op_cases: "link_op m \<noteq> 1 \<Longrightarrow> link_op m \<noteq> 2 \<Longrightarrow> link_op m \<noteq> 3 \<Longrightarrow> link_op m = 0"
proof -
  have "unat (x AND 3) < 4" for x :: u32
  proof -
    have "unat (x AND mask 2) = take_bit 2 (unat x)" by (simp only: take_bit_eq_mask [symmetric] unsigned_take_bit_eq)
    then show ?thesis by (simp add: mask_eq_exp_minus_1 take_bit_eq_mod)
  qed
  then have "unat (link_op m) < 4" by (simp add: link_op_def COP2_MSG_ST_OP_def)
  then show "link_op m \<noteq> 1 \<Longrightarrow> link_op m \<noteq> 2 \<Longrightarrow> link_op m \<noteq> 3 \<Longrightarrow> link_op m = 0"
    by (simp add: word_unat_eq_iff)
qed

lemma Datapath_execute_eq:
  "Datapath_execute m0 =
     (let m = start_cycle m0 in
      if \<not> cpu_running (m_cpu m0) then Some (-1, m0)
      else if link_op m0 = 1 then Some (0, inc_cycle (perf_inc pf_waitin_update m))
      else if link_op m0 = 2 then Some (0, inc_cycle (perf_inc pf_waitout_update m))
      else if link_op m0 = 3 then Some (0, inc_cycle (perf_inc pf_waitalt_update m))
      else case fetch (m_cpu m) (m_mem m) of
          None \<Rightarrow> None
        | Some (Inl e) \<Rightarrow> Some (-1, inc_cycle m)
        | Some (Inr i) \<Rightarrow>
            if \<not> decodable m i then Some (-1, inc_cycle (loaded m i))
            else case execute (loaded m i) of
                None \<Rightarrow> None
              | Some (e, m2) \<Rightarrow>
                  if e \<noteq> OK \<and> \<not> dec_rmwfail (m_dec m2) \<and> \<not> dec_stall (m_dec m2)
                  then Some (-1, inc_cycle m2)
                  else Some (0, inc_cycle (advance m2)))"
proof -
  have "COP2_MSG_ST_OP (link_reg (m_cpu (start_cycle m0)) COP2_MSG_ST) = link_op m0"
    using link_op_start [of m0] by (simp add: link_op_def)
  then show ?thesis
    unfolding Datapath_execute_def Let_def CPU_mfc2_link sum.case loaded_def decodable_def op_val.simps
    by (simp add: case_prod_unfold cong: option.case_cong sum.case_cong if_cong)
qed

lemma Datapath_execute_cases [consumes 1, case_names stopped waiting fetch_none fetch_error decode_error undefined failed executed]:
  assumes "Datapath_execute m0 = r"
  obtains "\<not> cpu_running (m_cpu m0)" "r = Some (-1, m0)"
  | f where "cpu_running (m_cpu m0)" "link_op m0 \<noteq> 0"
      "f \<in> {pf_waitin_update, pf_waitout_update, pf_waitalt_update}"
      "r = Some (0, inc_cycle (perf_inc f (start_cycle m0)))"
  | "cpu_running (m_cpu m0)" "link_op m0 = 0"
      "fetch (m_cpu m0) (m_mem m0) = None" "r = None"
  | e where "cpu_running (m_cpu m0)" "link_op m0 = 0"
      "fetch (m_cpu m0) (m_mem m0) = Some (Inl e)" "r = Some (-1, inc_cycle (start_cycle m0))"
  | i where "cpu_running (m_cpu m0)" "link_op m0 = 0"
      "fetch (m_cpu m0) (m_mem m0) = Some (Inr i)" "\<not> decodable (start_cycle m0) i"
      "r = Some (-1, inc_cycle (loaded (start_cycle m0) i))"
  | i where "cpu_running (m_cpu m0)" "link_op m0 = 0"
      "fetch (m_cpu m0) (m_mem m0) = Some (Inr i)" "decodable (start_cycle m0) i"
      "execute (loaded (start_cycle m0) i) = None" "r = None"
  | i e m2 where "cpu_running (m_cpu m0)" "link_op m0 = 0"
      "fetch (m_cpu m0) (m_mem m0) = Some (Inr i)" "decodable (start_cycle m0) i"
      "execute (loaded (start_cycle m0) i) = Some (e, m2)"
      "e \<noteq> OK" "\<not> dec_rmwfail (m_dec m2)" "\<not> dec_stall (m_dec m2)" "r = Some (-1, inc_cycle m2)"
  | i e m2 where "cpu_running (m_cpu m0)" "link_op m0 = 0"
      "fetch (m_cpu m0) (m_mem m0) = Some (Inr i)" "decodable (start_cycle m0) i"
      "execute (loaded (start_cycle m0) i) = Some (e, m2)"
      "e = OK \<or> dec_rmwfail (m_dec m2) \<or> dec_stall (m_dec m2)" "r = Some (0, inc_cycle (advance m2))"
proof -
  have *: "fetch (m_cpu (start_cycle m0)) (m_mem (start_cycle m0)) = fetch (m_cpu m0) (m_mem m0)"
    by (simp add: fetch_def start_cycle_def)
  note eq = assms [unfolded Datapath_execute_eq Let_def *]
  consider "\<not> cpu_running (m_cpu m0)" | "cpu_running (m_cpu m0)" "link_op m0 \<noteq> 0"
    | "cpu_running (m_cpu m0)" "link_op m0 = 0" by blast
  then show ?thesis
  proof cases
    case 1
    then show ?thesis using eq that(1) by auto
  next
    case 2
    then show ?thesis using eq that(2) link_op_cases [of m0] by (auto split: if_splits)
  next
    case 3
    then show ?thesis using eq that(3-8)
      by (auto split: option.splits sum.splits if_splits prod.splits)
  qed
qed

section \<open>Signatures and opcodes\<close>

definition sign_of :: "u32 \<Rightarrow> u32" where
  "sign_of i = dec_sign (snd (decode (dec0\<lparr>dec_raw := i\<rparr>)))"

definition isjump_of :: "u32 \<Rightarrow> bool" where
  "isjump_of i = dec_isjump (snd (decode (dec0\<lparr>dec_raw := i\<rparr>)))"

text \<open>The signature and the jump flag depend on the instruction only.\<close>

definition same_decoded :: "Decoder \<Rightarrow> Decoder \<Rightarrow> bool" where
  "same_decoded d d' \<longleftrightarrow> dec_raw d = dec_raw d' \<and> dec_sign d = dec_sign d' \<and>
     dec_isjump d = dec_isjump d' \<and> dec_rt d = dec_rt d' \<and> dec_rs d = dec_rs d'"

lemma same_decoded_intros:
  "same_decoded d d' \<Longrightarrow> same_decoded (sign_or x d) (sign_or x d')"
  "same_decoded d d' \<Longrightarrow> same_decoded (set_jump d) (set_jump d')"
  "same_decoded d d' \<Longrightarrow> same_decoded (d\<lparr>dec_ismem := True\<rparr>) (d'\<lparr>dec_ismem := True\<rparr>)"
  "same_decoded d1 d1' \<Longrightarrow> same_decoded d2 d2' \<Longrightarrow> same_decoded (if b then d1 else d2) (if b then d1' else d2')"
  by (simp_all add: same_decoded_def)

lemma same_decoded_branches:
  assumes "same_decoded d d'"
  shows "same_decoded (decode_special d) (decode_special d')"
    "same_decoded (decode_regimm d) (decode_regimm d')"
    "same_decoded (decode_cop0 d) (decode_cop0 d')" "same_decoded (decode_cop2 d) (decode_cop2 d')"
    "same_decoded (decode_special3 d) (decode_special3 d')"
proof -
  have eq: "dec_raw d = dec_raw d'" "dec_rt d = dec_rt d'" "dec_rs d = dec_rs d'"
    using assms by (simp_all add: same_decoded_def)
  show "same_decoded (decode_special d) (decode_special d')"
    "same_decoded (decode_regimm d) (decode_regimm d')"
    "same_decoded (decode_cop0 d) (decode_cop0 d')" "same_decoded (decode_cop2 d) (decode_cop2 d')"
    "same_decoded (decode_special3 d) (decode_special3 d')"
    unfolding decode_special_def decode_regimm_def decode_cop0_def decode_cop2_def
      decode_special3_def Let_def eq decode_parts
    by (rule same_decoded_intros assms)+
qed

lemma decode_same:
  assumes "dec_raw d = dec_raw d'"
  shows "same_decoded (snd (decode d)) (snd (decode d'))" "fst (decode d) = fst (decode d')"
proof -
  have *: "same_decoded (decode_fields d) (decode_fields d')"
    "dec_raw (decode_fields d) = dec_raw d'" "dec_raw (decode_fields d') = dec_raw d'"
    using assms by (simp_all add: same_decoded_def decode_fields_def Let_def)
  show "same_decoded (snd (decode d)) (snd (decode d'))"
    unfolding decode_def Let_def snd_if snd_conv *(2,3)
    by (rule same_decoded_intros same_decoded_branches * )+
  show "fst (decode d) = fst (decode d')"
    unfolding decode_def Let_def *(2,3) by (simp only: if_distrib [of fst] fst_conv)
qed

lemma loaded_sign: "dec_sign (m_dec (loaded m i)) = sign_of i"
  and loaded_isjump: "dec_isjump (m_dec (loaded m i)) = isjump_of i"
  and decodable_eq: "decodable m i \<longleftrightarrow> fst (decode (dec0\<lparr>dec_raw := i\<rparr>)) = 0"
  using decode_same [of "(m_dec m)\<lparr>dec_raw := i\<rparr>" "dec0\<lparr>dec_raw := i\<rparr>"]
  by (simp_all add: loaded_def sign_of_def isjump_of_def decodable_def same_decoded_def)

lemma OPC_or: "OPC (x OR y) = OPC x OR OPC y"
  by (rule bit_word_eqI) (auto simp: bit_fields bit_simps)

lemma OPC_fields [simp]:
  "OPC (OPC i) = OPC i" "OPC (FUNC i) = 0" "OPC (SA i) = 0" "OPC (RT i) = 0" "OPC (RS i) = 0"
  "OPC (TF i) = 0" "OPC (SHROT i) = 0" "OPC (SHROTV i) = 0" "OPC (CO i) = 0"
  by (rule bit_word_eqI; auto simp: bit_fields bit_flags)+

text \<open>The operation code can be read off the signature.\<close>

definition opc_kept :: "u32 \<Rightarrow> Decoder \<Rightarrow> bool" where
  "opc_kept i d \<longleftrightarrow> OPC (dec_sign d) = OPC i"

lemma opc_kept_intros:
  "opc_kept i d \<Longrightarrow> OPC x = 0 \<Longrightarrow> opc_kept i (sign_or x d)"
  "opc_kept i d \<Longrightarrow> opc_kept i (set_jump d)"
  "opc_kept i d \<Longrightarrow> opc_kept i (d\<lparr>dec_ismem := True\<rparr>)"
  "opc_kept i d1 \<Longrightarrow> opc_kept i d2 \<Longrightarrow> opc_kept i (if b then d1 else d2)"
  by (simp_all add: opc_kept_def OPC_or)

lemma OPC_sign_of: "OPC (sign_of i) = OPC i"
proof -
  have *: "opc_kept i (decode_fields (dec0\<lparr>dec_raw := i\<rparr>))"
    by (simp add: opc_kept_def decode_fields_def Let_def)
  have "opc_kept i (snd (decode (dec0\<lparr>dec_raw := i\<rparr>)))"
    unfolding decode_def decode_special_def decode_regimm_def decode_cop0_def decode_cop2_def
      decode_special3_def Let_def snd_if snd_conv
    by (rule opc_kept_intros OPC_fields * )+
  then show ?thesis by (simp add: opc_kept_def sign_of_def)
qed

definition memory_labels :: "u32 list" where
  "memory_labels = map lab_op [LB, LW, SB, SW, LL, SC]"

lemma memory_not_jump:
  assumes "sign_of i \<in> set memory_labels"
  shows "\<not> isjump_of i"
proof -
  have "drop_bit 26 (OPC (sign_of i)) \<in> set (map opc [LB, LW, SB, SW, LL, SC])"
    using assms by (auto simp: memory_labels_def OPC_def)
  then have "drop_bit 26 (OPC i) \<in> set (map opc [LB, LW, SB, SW, LL, SC])" by (simp add: OPC_sign_of)
  then show ?thesis
    unfolding isjump_of_def decode_def Let_def
    by (auto simp: decode_fields_def Let_def)
qed

text \<open>Only memory instructions stall.\<close>

lemma not_busy:
  "exec_SLL m \<noteq> Some (E EBUSY, m')" "exec_SRA m \<noteq> Some (E EBUSY, m')" "exec_SLLV m \<noteq> Some (E EBUSY, m')"
  "exec_JR m \<noteq> Some (E EBUSY, m')" "exec_MOVZ m \<noteq> Some (E EBUSY, m')" "exec_MOVN m \<noteq> Some (E EBUSY, m')"
  "exec_MFHI m \<noteq> Some (E EBUSY, m')" "exec_MFLO m \<noteq> Some (E EBUSY, m')" "exec_MULT m \<noteq> Some (E EBUSY, m')"
  "exec_DIV m \<noteq> Some (E EBUSY, m')" "exec_ADDU m \<noteq> Some (E EBUSY, m')" "exec_SUBU m \<noteq> Some (E EBUSY, m')"
  "exec_AND m \<noteq> Some (E EBUSY, m')" "exec_OR m \<noteq> Some (E EBUSY, m')" "exec_XOR m \<noteq> Some (E EBUSY, m')"
  "exec_SLT m \<noteq> Some (E EBUSY, m')" "exec_BLTZ m \<noteq> Some (E EBUSY, m')" "exec_BGEZ m \<noteq> Some (E EBUSY, m')"
  "exec_J m \<noteq> Some (E EBUSY, m')" "exec_JAL m \<noteq> Some (E EBUSY, m')" "exec_BEQ m \<noteq> Some (E EBUSY, m')"
  "exec_BNE m \<noteq> Some (E EBUSY, m')" "exec_BLEZ m \<noteq> Some (E EBUSY, m')" "exec_BGTZ m \<noteq> Some (E EBUSY, m')"
  "exec_ADDIU m \<noteq> Some (E EBUSY, m')" "exec_SLTI m \<noteq> Some (E EBUSY, m')" "exec_SLTIU m \<noteq> Some (E EBUSY, m')"
  "exec_ANDI m \<noteq> Some (E EBUSY, m')" "exec_ORI m \<noteq> Some (E EBUSY, m')" "exec_XORI m \<noteq> Some (E EBUSY, m')"
  "exec_LUI m \<noteq> Some (E EBUSY, m')" "exec_WAIT m \<noteq> Some (E EBUSY, m')" "exec_MFC2 m \<noteq> Some (E EBUSY, m')"
  "exec_MTC2 m \<noteq> Some (E EBUSY, m')" "exec_COP2 m \<noteq> Some (E EBUSY, m')" "exec_MUL m \<noteq> Some (E EBUSY, m')"
  "exec_EXT m \<noteq> Some (E EBUSY, m')"
  by (auto simp: handler_defs CPU_mfc2_def CPU_mtc2_def Let_def split: if_splits)

lemma busy_is_memory:
  assumes "execute m = Some (E EBUSY, m')"
  shows "dec_sign (m_dec m) \<in> set memory_labels"
proof -
  have "\<forall>(l, h)\<in>set switch_table. h m = Some (E EBUSY, m') \<longrightarrow> l \<in> set memory_labels"
    unfolding switch_table_def memory_labels_def
    by (simp only: list.set ball_simps prod.case not_busy) simp
  with assms show ?thesis by (elim execute_cases) (auto split: prod.splits)
qed

section \<open>Properties of a cycle\<close>

lemma sized_start [simp]: "sized_machine (start_cycle m) = sized_machine m"
  by (simp add: sized_machine_def start_cycle_def wf_cpu_def)

lemma sized_loaded [simp]: "sized_machine (loaded m i) = sized_machine m"
  by (simp add: sized_machine_def loaded_def)

lemma inc_cycle_parts [simp]:
  "m_mem (inc_cycle m) = m_mem m" "m_ctl (inc_cycle m) = m_ctl m" "m_io (inc_cycle m) = m_io m"
  "cpu_pc (m_cpu (inc_cycle m)) = cpu_pc (m_cpu m)" "cpu_gpr (m_cpu (inc_cycle m)) = cpu_gpr (m_cpu m)"
  "cpu_hilo (m_cpu (inc_cycle m)) = cpu_hilo (m_cpu m)" "m_dec (inc_cycle m) = m_dec m"
  "cpu_cop2 (m_cpu (inc_cycle m)) = cpu_cop2 (m_cpu m)"
  "cpu_running (m_cpu (inc_cycle m)) = cpu_running (m_cpu m)"
  "pf_cycle (cpu_perfct (m_cpu (inc_cycle m))) = pf_cycle (cpu_perfct (m_cpu m)) + 1"
  by (simp_all add: inc_cycle_def)

lemma start_cycle_parts [simp]:
  "m_mem (start_cycle m) = m_mem m" "m_ctl (start_cycle m) = m_ctl m" "m_io (start_cycle m) = m_io m"
  "cpu_pc (m_cpu (start_cycle m)) = cpu_pc (m_cpu m)"
  "cpu_gpr (m_cpu (start_cycle m)) = (cpu_gpr (m_cpu m))[0 := 0]"
  "cpu_hilo (m_cpu (start_cycle m)) = cpu_hilo (m_cpu m)"
  "cpu_cop2 (m_cpu (start_cycle m)) = cpu_cop2 (m_cpu m)"
  "cpu_running (m_cpu (start_cycle m)) = cpu_running (m_cpu m)"
  "cpu_perfct (m_cpu (start_cycle m)) = cpu_perfct (m_cpu m)"
  "\<not> dec_stall (m_dec (start_cycle m))" "\<not> dec_rmwfail (m_dec (start_cycle m))"
  by (simp_all add: start_cycle_def)

lemma loaded_parts [simp]:
  "m_mem (loaded m i) = m_mem m" "m_ctl (loaded m i) = m_ctl m" "m_io (loaded m i) = m_io m"
  "cpu_pc (m_cpu (loaded m i)) = cpu_pc (m_cpu m)" "cpu_gpr (m_cpu (loaded m i)) = cpu_gpr (m_cpu m)"
  "cpu_hilo (m_cpu (loaded m i)) = cpu_hilo (m_cpu m)" "cpu_cop2 (m_cpu (loaded m i)) = cpu_cop2 (m_cpu m)"
  "cpu_running (m_cpu (loaded m i)) = cpu_running (m_cpu m)"
  "cpu_perfct (m_cpu (loaded m i)) = cpu_perfct (m_cpu m)"
  "\<not> dec_stall (m_dec (loaded m i))" "dec_rmwfail (m_dec (loaded m i)) = dec_rmwfail (m_dec m)"
  "dec_raw (m_dec (loaded m i)) = i"
  by (simp_all add: loaded_def decode_keeps)

lemma advance_parts [simp]:
  "m_mem (advance m) = m_mem m" "m_ctl (advance m) = m_ctl m" "m_io (advance m) = m_io m"
  "cpu_gpr (m_cpu (advance m)) = cpu_gpr (m_cpu m)" "cpu_hilo (m_cpu (advance m)) = cpu_hilo (m_cpu m)"
  "m_dec (advance m) = m_dec m" "cpu_cop2 (m_cpu (advance m)) = cpu_cop2 (m_cpu m)"
  "cpu_running (m_cpu (advance m)) = cpu_running (m_cpu m)"
  "cpu_perfct (m_cpu (advance m)) = cpu_perfct (m_cpu m)"
  by (simp_all add: advance_def)

lemma sized_inc_cycle [simp]: "sized_machine (inc_cycle m) = sized_machine m"
  by (simp add: sized_machine_def inc_cycle_def wf_cpu_def)

lemma sized_advance [simp]: "sized_machine (advance m) = sized_machine m"
  by (simp add: sized_machine_def advance_def)

lemma sized_wait_count:
  "f \<in> {pf_waitin_update, pf_waitout_update, pf_waitalt_update} \<Longrightarrow>
     sized_machine (perf_inc f m) = sized_machine m \<and>
     pf_cycle (cpu_perfct (m_cpu (perf_inc f m))) = pf_cycle (cpu_perfct (m_cpu m))"
  by (auto simp: sized_machine_def wf_cpu_perfct)

text \<open>A memory of whole words stays one.\<close>

lemma wf_kept [simp]:
  "wf_machine (start_cycle m) = wf_machine m" "wf_machine (loaded m i) = wf_machine m"
  "wf_machine (inc_cycle m) = wf_machine m" "wf_machine (advance m) = wf_machine m"
  by (simp_all add: wf_machine_sized)

lemma wf_sized: "wf_machine m \<Longrightarrow> sized_machine m"
  by (simp add: wf_machine_sized)

text \<open>The outcome of the switch on a decoded instruction.\<close>

lemma execute_loaded:
  assumes "sized_machine m0" "execute (loaded (start_cycle m0) i) = Some (e, m2)"
  shows "step_ok (loaded (start_cycle m0) i) e m2"
  using execute_ok assms by (simp add: handler_ok_def)

lemma stalled_not_jump:
  assumes "sized_machine m0" "execute (loaded (start_cycle m0) i) = Some (e, m2)" "dec_stall (m_dec m2)"
  shows "\<not> dec_isjump (m_dec m2)"
proof -
  note ok = execute_loaded [OF assms(1,2)]
  have e: "e = E EBUSY" using assms(3) ok by (simp add: step_ok_def)
  with assms(2) have "sign_of i \<in> set memory_labels"
    using busy_is_memory loaded_sign by metis
  then show ?thesis using e ok memory_not_jump by (simp add: step_ok_def loaded_isjump)
qed

text \<open>A processor at address 0 of a private memory that holds the given words.\<close>

definition boot :: "u32 list \<Rightarrow> machine" where
  "boot ws = \<lparr>m_cpu = cpu_zero\<lparr>cpu_running := True\<rparr>,
     m_mem = \<lparr>mem_size = of_nat (4 * length ws),
       mem_b = concat (map (\<lambda>w. [byte_of 0 w, byte_of 1 w, byte_of 2 w, byte_of 3 w]) ws)\<rparr>,
     m_ctl = memctl0, m_io = \<lparr>io_in = [], io_out = []\<rparr>\<rparr>"

lemma length_concat4: "(\<And>x. length (f x) = 4) \<Longrightarrow> length (concat (map f xs)) = 4 * length xs"
  by (induction xs) simp_all

lemma wf_boot: "4 * length ws < 2 ^ 64 \<Longrightarrow> wf_machine (boot ws)"
  using wf_cpu_zero
  by (simp add: boot_def wf_machine_def wf_cpu_def whole_words_def wf_mem_def ctl_ok_def memctl0_def
      length_concat4 unsigned_of_nat take_bit_nat_eq_self del: of_nat_mult)

lemma Datapath_sized:
  assumes "sized_machine m0" and "Datapath_execute m0 = Some (r, m)"
  shows "sized_machine m" "mem_size (m_mem m) = mem_size (m_mem m0)"
proof -
  have "sized_machine m \<and> mem_size (m_mem m) = mem_size (m_mem m0)"
    using assms(2)
  proof (cases rule: Datapath_execute_cases)
    case (waiting f)
    then show ?thesis using assms(1) sized_wait_count [of f "start_cycle m0"] by auto
  next
    case (failed i e m2)
    then show ?thesis using execute_loaded [OF assms(1) failed(5)] by (auto simp: step_ok_def)
  next
    case (executed i e m2)
    then show ?thesis using execute_loaded [OF assms(1) executed(5)] by (auto simp: step_ok_def)
  qed (use assms(1) in auto)
  then show "sized_machine m" "mem_size (m_mem m) = mem_size (m_mem m0)" by auto
qed

lemma Datapath_wf:
  assumes "wf_machine m0" and "Datapath_execute m0 = Some (r, m)"
  shows "wf_machine m" "mem_size (m_mem m) = mem_size (m_mem m0)"
  using Datapath_sized [OF wf_sized [OF assms(1)] assms(2)] assms(1) by (simp_all add: wf_machine_sized)

text \<open>
  The arrays a cycle indexes, and by what: the register file by the fields of the instruction, the
  link by the operands of MFC2 and MTC2 when these report success, and by the selectors of the code;
  the counter, the ring of the bus, and the reservations by the number in \<open>K0\<close> unless LL and SC refuse
  it.
\<close>

definition in_link :: "CPU \<Rightarrow> u32 \<Rightarrow> u32 \<Rightarrow> bool" where
  "in_link c r s \<longleftrightarrow> unat r < length (cpu_cop2 c) \<and> unat s < length (cpu_cop2 c ! unat r)"

definition link_indices_ok :: "CPU \<Rightarrow> u32 \<Rightarrow> u32 \<Rightarrow> bool" where
  "link_indices_ok c r s \<longleftrightarrow> (\<forall>v. fst (CPU_mtc2 c r s v) = OK \<longrightarrow> in_link c r s) \<and>
     (\<forall>v. CPU_mfc2 c r s = Inr v \<longrightarrow> in_link c r s) \<and> (\<forall>sel. in_link c (cop2_reg_val COP2_MSG) (sel_val sel))"

definition bus_indices_ok :: "memctl \<Rightarrow> bool" where
  "bus_indices_ok c \<longleftrightarrow> (mc_shared c \<longrightarrow> mc_nshr c \<le> length (mc_arr c) \<and>
     mc_hd c < length (mc_arr c) \<and> mc_tl c < length (mc_arr c))"

definition res_indices_ok :: "Mem \<Rightarrow> memctl \<Rightarrow> u32 \<Rightarrow> bool" where
  "res_indices_ok m c k \<longleftrightarrow> (mc_shared c \<longrightarrow>
     (\<forall>a x c'. Mem_ll m c k a = Some (x, c') \<longrightarrow> x = Inl EOVERFLOW \<or> unat k < length (mc_resaddr c)) \<and>
     (\<forall>a v x. Mem_sc m c k a v = Some x \<longrightarrow> fst x = E EOVERFLOW \<or> unat k < length (mc_resaddr c)))"

definition indices_ok :: "machine \<Rightarrow> bool" where
  "indices_ok m \<longleftrightarrow> (let c = m_cpu m; d = m_dec m in
     unat (dec_rs d) < length (cpu_gpr c) \<and> unat (dec_rt d) < length (cpu_gpr c) \<and>
     unat (dec_rd d) < length (cpu_gpr c) \<and> (\<forall>r. regno r < length (cpu_gpr c)) \<and>
     link_indices_ok c (ucast (dec_rd d)) (dec_sel d) \<and> 0 < length (pf_ct (cpu_perfct c)) \<and>
     bus_indices_ok (m_ctl m) \<and> res_indices_ok (m_mem m) (m_ctl m) (gpr c (regno K0)))"

lemma link_indices: "wf_cpu c \<Longrightarrow> link_indices_ok c r s"
proof -
  assume c: "wf_cpu c"
  have "in_link c r s \<longleftrightarrow> unat r < COP2_NREG \<and> unat s < COP2_NSEL" for r s
    using wf_cpuD(2,3) [OF c] by (auto simp: in_link_def COP2_NREG_def COP2_NSEL_def)
  then show ?thesis
    using sel_val_less by (auto simp: link_indices_ok_def CPU_mtc2_def CPU_mfc2_def COP2_NREG_def)
qed

lemma loaded_indices:
  assumes "sized_machine m"
  shows "indices_ok (loaded (start_cycle m) i)"
proof -
  let ?m = "loaded (start_cycle m) i"
  have "sized_machine ?m" using assms by simp
  then have wf: "wf_cpu (m_cpu ?m)" "ctl_ok (m_ctl ?m)" unfolding sized_machine_def by blast+
  have "unat (dec_rs (m_dec ?m)) < 32" "unat (dec_rt (m_dec ?m)) < 32" "unat (dec_rd (m_dec ?m)) < 32"
    using decode_in_range by (simp_all add: loaded_def)
  moreover have "bus_indices_ok (m_ctl ?m)" "res_indices_ok (m_mem ?m) (m_ctl ?m) k" for k
    using wf(2) by (auto simp: bus_indices_ok_def res_indices_ok_def ctl_ok_def Mem_ll_def Mem_sc_def Let_def not_le
        split: if_splits)
  ultimately show ?thesis
    using link_indices [OF wf(1)] wf_cpuD(1,4) [OF wf(1)] regno_less
    unfolding indices_ok_def Let_def N_GPR_def by simp
qed

text \<open>A stopped processor does nothing; a failing cycle does not stop a processor.\<close>

lemma Datapath_stopped: "\<not> cpu_running (m_cpu m0) \<Longrightarrow> Datapath_execute m0 = Some (-1, m0)"
  by (simp add: Datapath_execute_def)

lemma Datapath_failed_running:
  assumes "wf_machine m0" and "Datapath_execute m0 = Some (r, m)" and "r \<noteq> 0"
  shows "cpu_running (m_cpu m) = cpu_running (m_cpu m0)"
  using assms(2)
proof (cases rule: Datapath_execute_cases)
  case (failed i e m2)
  then show ?thesis
    using execute_loaded [OF wf_sized [OF assms(1)] failed(5)] by (auto simp: step_ok_def same_visible_def)
qed (use assms(3) in auto)

text \<open>C25: The sizes of all arrays are an invariant of the processor under any program: whatever
  instruction it executes, the registers, the link and the counters keep their sizes, the memory
  its block and the ring of the bus its indices; whatever 32 bits the instruction is, its cycle
  indexes the registers, the link, the counter, the ring and the reservations within their bounds;
  and every cycle of a running processor is counted exactly once.\<close>

theorem datapath_invariant:
  assumes "sized_machine m0" and "Datapath_execute m0 = Some (r, m)"
  shows "sized_machine m \<and> mem_size (m_mem m) = mem_size (m_mem m0) \<and> r \<in> {0, -1} \<and>
    (\<forall>i. indices_ok (loaded (start_cycle m0) i)) \<and>
    pf_cycle (cpu_perfct (m_cpu m)) =
      pf_cycle (cpu_perfct (m_cpu m0)) + of_bool (cpu_running (m_cpu m0))"
proof -
  have "r \<in> {0, -1} \<and> pf_cycle (cpu_perfct (m_cpu m)) =
      pf_cycle (cpu_perfct (m_cpu m0)) + of_bool (cpu_running (m_cpu m0))"
    using assms(2)
  proof (cases rule: Datapath_execute_cases)
    case (waiting f)
    then show ?thesis using sized_wait_count [of f "start_cycle m0"] by auto
  next
    case (failed i e m2)
    then show ?thesis using execute_loaded [OF assms(1) failed(5)] by (auto simp: step_ok_def)
  next
    case (executed i e m2)
    then show ?thesis using execute_loaded [OF assms(1) executed(5)] by (auto simp: step_ok_def)
  qed auto
  then show ?thesis using Datapath_sized [OF assms] loaded_indices [OF assms(1)] by blast
qed

theorem datapath_invariant_witness:
  "\<exists>m. Datapath_execute (boot [0x24020005]) = Some (0, m) \<and> sized_machine m"
proof -
  have wf: "sized_machine (boot [0x24020005])" by (rule wf_sized, rule wf_boot) simp
  have "map_option fst (Datapath_execute (boot [0x24020005])) = Some 0" by code_simp
  then obtain m where "Datapath_execute (boot [0x24020005]) = Some (0, m)" by auto
  with datapath_invariant [OF wf this] show ?thesis by blast
qed

text \<open>C31: When a cycle has undefined behaviour, in C as gcc, the compiler of config.mk, defines it
  (it defines left shifts of negative numbers, which C99 does not): exactly when the fetch, or a word
  access that gets the bus, is accepted in the last, partial word of a memory whose size is no
  multiple of four, or the instruction is a MULT whose product does not fit in an \<open>int\<close>, a DIV by
  zero or of the least number by -1, or an EXT whose field macros, which take six bits where the
  instruction has five, shift by too much. (No other array is indexed out of its bounds: lemma
  \<open>loaded_indices\<close>.)\<close>

theorem datapath_undefined_iff:
  assumes "sized_machine m0"
  shows "Datapath_execute m0 = None \<longleftrightarrow>
    cpu_running (m_cpu m0) \<and> link_op m0 = 0 \<and>
    (past_end (m_mem m0) (cpu_pc (m_cpu m0)) \<or>
     (\<exists>i. fetch (m_cpu m0) (m_mem m0) = Some (Inr i) \<and> decodable (start_cycle m0) i \<and>
       (arith_undefined (loaded (start_cycle m0) i) \<or> mem_overrun (loaded (start_cycle m0) i))))"
proof -
  have fetch: "fetch (m_cpu m0) (m_mem m0) = None \<longleftrightarrow> past_end (m_mem m0) (cpu_pc (m_cpu m0))"
    using assms mem_ops_undefined(1) by (simp add: fetch_def sized_machine_def)
  have exec: "execute (loaded (start_cycle m0) i) = None \<longleftrightarrow>
      arith_undefined (loaded (start_cycle m0) i) \<or> mem_overrun (loaded (start_cycle m0) i)" for i
    using assms by (intro execute_undefined_iff) (simp add: sized_machine_def)
  show ?thesis
    by (cases rule: Datapath_execute_cases [OF refl, of m0])
      (simp_all flip: fetch exec)
qed

theorem datapath_undefined_iff_witness:
  "Datapath_execute (boot [0x7C420800]) = None \<and>
   Datapath_execute ((boot [0x8C020004])\<lparr>m_mem := \<lparr>mem_size = 6, mem_b = [4, 0, 2, 0x8C, 0, 0]\<rparr>\<rparr>) = None"
proof
  let ?w = "0x7C420800" and ?m = "boot [0x7C420800]"
  have wf: "sized_machine ?m" by (rule wf_sized, rule wf_boot) simp
  have "cpu_running (m_cpu ?m)" "link_op ?m = 0" "fetch (m_cpu ?m) (m_mem ?m) = Some (Inr ?w)"
    "decodable (start_cycle ?m) ?w" "arith_undefined (loaded (start_cycle ?m) ?w)"
    by code_simp+
  then show "Datapath_execute ?m = None" unfolding datapath_undefined_iff [OF wf] by blast
next
  let ?w = "0x8C020004" and ?m = "(boot [0x8C020004])\<lparr>m_mem := \<lparr>mem_size = 6, mem_b = [4, 0, 2, 0x8C, 0, 0]\<rparr>\<rparr>"
  have wf: "sized_machine ?m" by code_simp
  have "cpu_running (m_cpu ?m)" "link_op ?m = 0" "fetch (m_cpu ?m) (m_mem ?m) = Some (Inr ?w)"
    "decodable (start_cycle ?m) ?w" "mem_overrun (loaded (start_cycle ?m) ?w)"
    by code_simp+
  then show "Datapath_execute ?m = None" unfolding datapath_undefined_iff [OF wf] by blast
qed

text \<open>Where the program counter goes: it stays when the cycle fails, when the processor waits
  for the network and when the instruction stalls; otherwise it takes the target of a jump or
  branch that is taken, and moves to the next word else.\<close>

theorem datapath_next_pc:
  assumes "wf_machine m0" and "Datapath_execute m0 = Some (r, m)"
  shows "cpu_pc (m_cpu m) =
    (if r \<noteq> 0 \<or> link_op m0 \<noteq> 0 \<or> dec_stall (m_dec m) then cpu_pc (m_cpu m0)
     else if dec_isjump (m_dec m) then ucast (dec_npc (m_dec m)) else cpu_pc (m_cpu m0) + 4)"
  using assms(2)
proof (cases rule: Datapath_execute_cases)
  case (failed i e m2)
  then show ?thesis using execute_loaded [OF wf_sized [OF assms(1)] failed(5)] by (auto simp: step_ok_def)
next
  case (executed i e m2)
  then show ?thesis
    using execute_loaded [OF wf_sized [OF assms(1)] executed(5)] stalled_not_jump [OF wf_sized [OF assms(1)] executed(5)]
    by (auto simp: step_ok_def advance_def)
qed auto

theorem datapath_next_pc_witness:
  "\<exists>m. Datapath_execute (boot [0x08000004]) = Some (0, m) \<and> cpu_pc (m_cpu m) = 16"
proof -
  let ?m = "boot [0x08000004]"
  have wf: "wf_machine ?m" by (rule wf_boot) simp
  have "map_option (\<lambda>(r, m). (r, dec_stall (m_dec m), dec_isjump (m_dec m), dec_npc (m_dec m)))
      (Datapath_execute ?m) = Some (0, False, True, 16)" "link_op ?m = 0"
    by code_simp+
  then obtain m where "Datapath_execute ?m = Some (0, m)" "\<not> dec_stall (m_dec m)"
    "dec_isjump (m_dec m)" "dec_npc (m_dec m) = 16" by auto
  with datapath_next_pc [OF wf this(1)] \<open>link_op ?m = 0\<close> show ?thesis by simp
qed

text \<open>An instruction that is not granted the bus, or that fails, is retried: the cycle leaves
  the program counter, the registers (but for \<open>r0\<close>, which is cleared in every cycle), the memory
  and the streams as they were, and the processor running, so that the next cycle fetches the same
  instruction with the same operands.\<close>

theorem datapath_retry:
  assumes "wf_machine m0" and "cpu_running (m_cpu m0)" and "Datapath_execute m0 = Some (r, m)"
    and "r \<noteq> 0 \<or> dec_stall (m_dec m)"
  shows "same_visible (start_cycle m0) m \<and> cpu_pc (m_cpu m) = cpu_pc (m_cpu m0) \<and>
    fetch (m_cpu m) (m_mem m) = fetch (m_cpu m0) (m_mem m0)"
proof -
  have "same_visible (start_cycle m0) m \<and> cpu_pc (m_cpu m) = cpu_pc (m_cpu m0)"
    using assms(3)
  proof (cases rule: Datapath_execute_cases)
    case (failed i e m2)
    then show ?thesis using execute_loaded [OF wf_sized [OF assms(1)] failed(5)]
      by (auto simp: step_ok_def same_visible_def)
  next
    case (executed i e m2)
    then have "dec_stall (m_dec m2)" using assms(4) by simp
    moreover have "advance m2 = m2"
      using stalled_not_jump [OF wf_sized [OF assms(1)] executed(5)] \<open>dec_stall (m_dec m2)\<close> by (simp add: advance_def)
    ultimately show ?thesis using execute_loaded [OF wf_sized [OF assms(1)] executed(5)] executed
      by (auto simp: step_ok_def same_visible_def)
  qed (use assms in \<open>auto simp: same_visible_def\<close>)
  then show ?thesis by (simp add: same_visible_def fetch_def)
qed

theorem datapath_retry_witness:
  "\<exists>m. Datapath_execute (boot [0x8C020010]) = Some (-1, m) \<and> cpu_pc (m_cpu m) = 0"
proof -
  let ?m = "boot [0x8C020010]"
  have wf: "wf_machine ?m" by (rule wf_boot) simp
  have "map_option fst (Datapath_execute ?m) = Some (-1)" by code_simp
  then obtain m where m: "Datapath_execute ?m = Some (-1, m)" by auto
  have "cpu_running (m_cpu ?m)" "cpu_pc (m_cpu ?m) = 0" by code_simp+
  with datapath_retry [OF wf _ m] m show ?thesis by simp
qed

end
