(* ===== verification/Isa.thy ===== *)
theory Isa
  imports Cycle
begin

text \<open>
  The instructions the simulator executes as an assembly language, their encoding, and the
  dispatch of encoded instructions to the cases of the switch.
\<close>

section \<open>Assembly\<close>

type_synonym reg = "5 word"

datatype (plugins only: code) asm =
    iSLL reg reg "5 word" | iSRA reg reg "5 word" | iSLLV reg reg reg
  | iJR reg | iMOVZ reg reg reg | iMOVN reg reg reg | iMFHI reg | iMFLO reg
  | iMULT reg reg | iDIV reg reg
  | iADDU reg reg reg | iSUBU reg reg reg | iAND reg reg reg | iOR reg reg reg
  | iXOR reg reg reg | iSLT reg reg reg
  | iBLTZ reg u16 | iBGEZ reg u16 | iJ "26 word" | iJAL "26 word"
  | iBEQ reg reg u16 | iBNE reg reg u16 | iBLEZ reg u16 | iBGTZ reg u16
  | iADDIU reg reg u16 | iSLTI reg reg u16 | iSLTIU reg reg u16
  | iANDI reg reg u16 | iORI reg reg u16 | iXORI reg reg u16 | iLUI reg u16
  | iWAIT | iMFC2 reg reg "3 word" | iMTC2 reg reg "3 word" | iCOP2 cofun2
  | iMUL reg reg reg | iEXT reg reg "5 word" "5 word"
  | iLB reg reg u16 | iLW reg reg u16 | iSB reg reg u16 | iSW reg reg u16
  | iLL reg reg u16 | iSC reg reg u16

definition encR :: "u32 \<Rightarrow> reg \<Rightarrow> reg \<Rightarrow> reg \<Rightarrow> 5 word \<Rightarrow> u32 \<Rightarrow> u32" where
  "encR p rs rt rd sa fn = push_bit 26 p OR push_bit 21 (ucast rs) OR push_bit 16 (ucast rt) OR
     push_bit 11 (ucast rd) OR push_bit 6 (ucast sa) OR fn"

definition encI :: "u32 \<Rightarrow> reg \<Rightarrow> reg \<Rightarrow> u16 \<Rightarrow> u32" where
  "encI p rs rt imm = push_bit 26 p OR push_bit 21 (ucast rs) OR push_bit 16 (ucast rt) OR ucast imm"

definition encJ :: "u32 \<Rightarrow> 26 word \<Rightarrow> u32" where
  "encJ p idx = push_bit 26 p OR ucast idx"

fun encode :: "asm \<Rightarrow> u32" where
  "encode (iSLL rd rt sa) = encR (opc SPECIAL) 0 rt rd sa (funct SLL)"
| "encode (iSRA rd rt sa) = encR (opc SPECIAL) 0 rt rd sa (funct SRA)"
| "encode (iSLLV rd rt rs) = encR (opc SPECIAL) rs rt rd 0 (funct SLLV)"
| "encode (iJR rs) = encR (opc SPECIAL) rs 0 0 0 (funct JR)"
| "encode (iMOVZ rd rs rt) = encR (opc SPECIAL) rs rt rd 0 (funct MOVZ)"
| "encode (iMOVN rd rs rt) = encR (opc SPECIAL) rs rt rd 0 (funct MOVN)"
| "encode (iMFHI rd) = encR (opc SPECIAL) 0 0 rd 0 (funct MFHI)"
| "encode (iMFLO rd) = encR (opc SPECIAL) 0 0 rd 0 (funct MFLO)"
| "encode (iMULT rs rt) = encR (opc SPECIAL) rs rt 0 0 (funct MULT)"
| "encode (iDIV rs rt) = encR (opc SPECIAL) rs rt 0 0 (funct DIV)"
| "encode (iADDU rd rs rt) = encR (opc SPECIAL) rs rt rd 0 (funct ADDU)"
| "encode (iSUBU rd rs rt) = encR (opc SPECIAL) rs rt rd 0 (funct SUBU)"
| "encode (iAND rd rs rt) = encR (opc SPECIAL) rs rt rd 0 (funct AND_F)"
| "encode (iOR rd rs rt) = encR (opc SPECIAL) rs rt rd 0 (funct OR_F)"
| "encode (iXOR rd rs rt) = encR (opc SPECIAL) rs rt rd 0 (funct XOR_F)"
| "encode (iSLT rd rs rt) = encR (opc SPECIAL) rs rt rd 0 (funct SLT)"
| "encode (iBLTZ rs off) = encI (opc REGIMM) rs (ucast (regimm BLTZ)) off"
| "encode (iBGEZ rs off) = encI (opc REGIMM) rs (ucast (regimm BGEZ)) off"
| "encode (iJ idx) = encJ (opc J) idx"
| "encode (iJAL idx) = encJ (opc JAL) idx"
| "encode (iBEQ rs rt off) = encI (opc BEQ) rs rt off"
| "encode (iBNE rs rt off) = encI (opc BNE) rs rt off"
| "encode (iBLEZ rs off) = encI (opc BLEZ) rs 0 off"
| "encode (iBGTZ rs off) = encI (opc BGTZ) rs 0 off"
| "encode (iADDIU rt rs imm) = encI (opc ADDIU) rs rt imm"
| "encode (iSLTI rt rs imm) = encI (opc SLTI) rs rt imm"
| "encode (iSLTIU rt rs imm) = encI (opc SLTIU) rs rt imm"
| "encode (iANDI rt rs imm) = encI (opc ANDI) rs rt imm"
| "encode (iORI rt rs imm) = encI (opc ORI) rs rt imm"
| "encode (iXORI rt rs imm) = encI (opc XORI) rs rt imm"
| "encode (iLUI rt imm) = encI (opc LUI) 0 rt imm"
| "encode iWAIT = encJ (opc COP0) (push_bit 25 1 OR ucast (cop0co WAIT))"
| "encode (iMFC2 rt rd sel) = encR (opc COP2) (ucast (cop2rs MFC2)) rt rd 0 (ucast sel)"
| "encode (iMTC2 rt rd sel) = encR (opc COP2) (ucast (cop2rs MTC2)) rt rd 0 (ucast sel)"
| "encode (iCOP2 f) = encJ (opc COP2) (push_bit 25 1 OR ucast (cofun2_val f))"
| "encode (iMUL rd rs rt) = encR (opc SPECIAL2) rs rt rd 0 (funct2 MUL)"
| "encode (iEXT rt rs lsb msbd) = encR (opc SPECIAL3) rs rt msbd lsb (funct3 EXT)"
| "encode (iLB rt base off) = encI (opc LB) base rt off"
| "encode (iLW rt base off) = encI (opc LW) base rt off"
| "encode (iSB rt base off) = encI (opc SB) base rt off"
| "encode (iSW rt base off) = encI (opc SW) base rt off"
| "encode (iLL rt base off) = encI (opc LL) base rt off"
| "encode (iSC rt base off) = encI (opc SC) base rt off"

section \<open>The fields of an encoded instruction\<close>

lemma bit_word_le: "bit (w :: 'a :: len word) n \<Longrightarrow> n < LENGTH('a)"
  by (rule bit_imp_le_length)

lemma small_bits: "take_bit k x = x \<Longrightarrow> bit x n \<Longrightarrow> n < k" for x :: "'a :: len word"
  by (metis bit_take_bit_iff)

lemma encR_fields:
  assumes "take_bit 6 p = p" "take_bit 6 fn = fn"
  shows "OPC (encR p rs rt rd sa fn) = push_bit 26 p"
    "FUNC (encR p rs rt rd sa fn) = fn"
    "RS (encR p rs rt rd sa fn) = push_bit 21 (ucast rs)"
    "RT (encR p rs rt rd sa fn) = push_bit 16 (ucast rt)"
    "RD (encR p rs rt rd sa fn) = push_bit 11 (ucast rd)"
    "SA (encR p rs rt rd sa fn) = push_bit 6 (ucast sa)"
  using small_bits [OF assms(1)] small_bits [OF assms(2)]
  by (rule_tac bit_word_eqI; force simp: encR_def bit_fields bit_simps dest: bit_word_le)+

lemma encI_fields:
  assumes "take_bit 6 p = p"
  shows "OPC (encI p rs rt imm) = push_bit 26 p"
    "RS (encI p rs rt imm) = push_bit 21 (ucast rs)"
    "RT (encI p rs rt imm) = push_bit 16 (ucast rt)"
    "IMM (encI p rs rt imm) = imm"
  using small_bits [OF assms]
  by (rule_tac bit_word_eqI; force simp: encI_def bit_fields bit_simps dest: bit_word_le)+

lemma encJ_fields:
  assumes "take_bit 6 p = p"
  shows "OPC (encJ p idx) = push_bit 26 p"
    "INSTR_IDX (encJ p idx) = ucast idx"
    "RS (encJ p idx) = RS (ucast idx)"
    "FUNC (encJ p idx) = FUNC (ucast idx)"
    "CO (encJ p idx) = CO (ucast idx)"
    "COFUN (encJ p idx) = COFUN (ucast idx)"
  using small_bits [OF assms]
  by (rule_tac bit_word_eqI; force simp: encJ_def bit_fields bit_flags bit_simps dest: bit_word_le)+

text \<open>The register numbers in the decoder.\<close>

lemma unat_reg:
  "unat (ucast (drop_bit 21 (push_bit 21 (ucast r) :: u32)) :: u8) = unat r"
  "unat (ucast (drop_bit 16 (push_bit 16 (ucast r) :: u32)) :: u8) = unat r"
  "unat (ucast (drop_bit 11 (push_bit 11 (ucast r) :: u32)) :: u8) = unat r"
  "unat (ucast (drop_bit 6 (push_bit 6 (ucast r) :: u32)) :: u8) = unat r" for r :: reg
proof -
  have u: "unat (ucast r :: u8) = unat r" by (simp add: unsigned_ucast_eq take_bit_nat_eq_self less_le_trans [OF unsigned_less])
  have "ucast (drop_bit k (push_bit k (ucast r) :: u32)) = (ucast r :: u8)" if "k \<le> 21" for k
    using that by (intro bit_word_eqI) (auto simp: bit_simps dest: bit_word_le)
  with u show "unat (ucast (drop_bit 21 (push_bit 21 (ucast r) :: u32)) :: u8) = unat r"
    "unat (ucast (drop_bit 16 (push_bit 16 (ucast r) :: u32)) :: u8) = unat r"
    "unat (ucast (drop_bit 11 (push_bit 11 (ucast r) :: u32)) :: u8) = unat r"
    "unat (ucast (drop_bit 6 (push_bit 6 (ucast r) :: u32)) :: u8) = unat r"
    by simp_all
qed

abbreviation lrs :: "machine \<Rightarrow> u32 \<Rightarrow> nat" where "lrs m i \<equiv> unat (dec_rs (m_dec (loaded m i)))"
abbreviation lrt :: "machine \<Rightarrow> u32 \<Rightarrow> nat" where "lrt m i \<equiv> unat (dec_rt (m_dec (loaded m i)))"
abbreviation lrd :: "machine \<Rightarrow> u32 \<Rightarrow> nat" where "lrd m i \<equiv> unat (dec_rd (m_dec (loaded m i)))"
abbreviation lsa :: "machine \<Rightarrow> u32 \<Rightarrow> nat" where "lsa m i \<equiv> unat (dec_sa (m_dec (loaded m i)))"

lemma loaded_fields:
  "lrs m i = unat (ucast (drop_bit 21 (RS i)) :: u8)" "lrt m i = unat (ucast (drop_bit 16 (RT i)) :: u8)"
  "lrd m i = unat (ucast (drop_bit 11 (RD i)) :: u8)" "lsa m i = unat (ucast (drop_bit 6 (SA i)) :: u8)"
  "dec_imm (m_dec (loaded m i)) = IMM i" "dec_idx (m_dec (loaded m i)) = push_bit 2 (INSTR_IDX i)"
  "dec_sel (m_dec (loaded m i)) = SEL i"
  by (simp_all add: loaded_def decode_keeps; simp add: decode_fields_def Let_def)+

lemma encR_operands [simp]:
  assumes "take_bit 6 p = p" "take_bit 6 fn = fn"
  shows "lrs m (encR p rs rt rd sa fn) = unat rs" "lrt m (encR p rs rt rd sa fn) = unat rt"
    "lrd m (encR p rs rt rd sa fn) = unat rd" "lsa m (encR p rs rt rd sa fn) = unat sa"
    "dec_sel (m_dec (loaded m (encR p rs rt rd sa fn))) = fn"
  unfolding loaded_fields SEL_def encR_fields [OF assms] by (rule unat_reg refl)+

lemma encI_operands [simp]:
  assumes "take_bit 6 p = p"
  shows "lrs m (encI p rs rt imm) = unat rs" "lrt m (encI p rs rt imm) = unat rt"
    "dec_imm (m_dec (loaded m (encI p rs rt imm))) = imm"
  unfolding loaded_fields encI_fields [OF assms] by (rule unat_reg refl)+

lemma encJ_operands [simp]:
  assumes "take_bit 6 p = p"
  shows "dec_idx (m_dec (loaded m (encJ p idx))) = push_bit 2 (ucast idx)"
  unfolding loaded_fields encJ_fields [OF assms] by (rule refl)

section \<open>Dispatch\<close>

text \<open>The signature and the jump flag of each format.\<close>

lemma decode_fields_raw [simp]: "dec_raw (decode_fields d) = dec_raw d"
  by (simp add: decode_fields_def Let_def)

lemma drop_push_26: "take_bit 6 p = p \<Longrightarrow> drop_bit 26 (push_bit 26 p) = p" for p :: u32
  using small_bits [of 6 p] by (intro bit_word_eqI) (auto simp: bit_simps)

lemma decode_special_op:
  assumes "OPC i = push_bit 26 (opc SPECIAL)" "FUNC i = f" "f \<notin> {funct MOVCI, funct SRL_FIELD, funct SRLV_FIELD}"
  shows "decodable m i" "sign_of i = push_bit 26 (opc SPECIAL) OR f"
    "isjump_of i = (f = funct JR \<or> f = funct JALR)"
proof -
  have op: "drop_bit 26 (OPC i) = opc SPECIAL" using assms(1) by simp
  have d: "decode (dec0\<lparr>dec_raw := i\<rparr>) = (0, decode_special (decode_fields (dec0\<lparr>dec_raw := i\<rparr>)))"
    unfolding decode_def Let_def by (simp add: op)
  show "decodable m i" unfolding decodable_eq d by simp
  show "sign_of i = push_bit 26 (opc SPECIAL) OR f" "isjump_of i = (f = funct JR \<or> f = funct JALR)"
    unfolding sign_of_def isjump_of_def d decode_special_def Let_def
    using assms by (simp_all add: decode_fields_def Let_def)
qed

definition jump_ops :: "opcodes list" where "jump_ops = [J, JAL, BEQ, BNE, BLEZ, BGTZ]"
definition imm_ops :: "opcodes list" where "imm_ops = [ADDIU, SLTI, SLTIU, ANDI, ORI, XORI, LUI]"
definition mem_ops :: "opcodes list" where "mem_ops = [LB, LW, SB, SW, LL, SC]"

lemma decode_op_cases:
  assumes "drop_bit 26 (OPC (dec_raw d)) = opc p"
  shows "p \<in> set jump_ops \<Longrightarrow> decode d = (0, set_jump (decode_fields d))"
    "p \<in> set imm_ops \<Longrightarrow> decode d = (0, decode_fields d)"
    "p \<in> set mem_ops \<Longrightarrow> decode d = (0, (decode_fields d)\<lparr>dec_ismem := True\<rparr>)"
  unfolding decode_def Let_def decode_fields_raw assms jump_ops_def imm_ops_def mem_ops_def
  by (simp only: list.set insert_iff empty_iff; elim disjE FalseE; simp)+

lemma opc_small: "take_bit 6 (opc p) = opc p"
  by (cases p) simp_all

lemma decode_other_op:
  assumes "OPC i = push_bit 26 (opc p)" and "p \<in> set jump_ops \<union> set imm_ops \<union> set mem_ops"
  shows "decodable m i" "sign_of i = push_bit 26 (opc p)" "isjump_of i = (p \<in> set jump_ops)"
proof -
  let ?d = "dec0\<lparr>dec_raw := i\<rparr>"
  have op: "drop_bit 26 (OPC (dec_raw ?d)) = opc p"
    using assms(1) by (simp add: drop_push_26 opc_small)
  have disj: "set jump_ops \<inter> (set imm_ops \<union> set mem_ops) = {}"
    by (simp add: jump_ops_def imm_ops_def mem_ops_def)
  have f: "dec_sign (decode_fields ?d) = push_bit 26 (opc p)" "\<not> dec_isjump (decode_fields ?d)"
    using assms(1) by (simp_all add: decode_fields_def Let_def)
  from assms(2) consider "p \<in> set jump_ops" | "p \<in> set imm_ops" | "p \<in> set mem_ops" by auto
  then show "decodable m i" "sign_of i = push_bit 26 (opc p)" "isjump_of i = (p \<in> set jump_ops)"
    unfolding sign_of_def isjump_of_def decodable_eq
    by (cases; use decode_op_cases [OF op] f disj in auto)+
qed

lemma decode_regimm_op:
  assumes "OPC i = push_bit 26 (opc REGIMM)" "RT i = push_bit 16 (ucast (ucast (regimm f) :: reg))"
    and "f = BLTZ \<or> f = BGEZ"
  shows "decodable m i" "sign_of i = push_bit 26 (opc REGIMM) OR push_bit 16 (regimm f)" "isjump_of i"
proof -
  let ?d = "dec0\<lparr>dec_raw := i\<rparr>"
  have op: "drop_bit 26 (OPC (dec_raw ?d)) = opc REGIMM" using assms(1) by simp
  have d: "decode ?d = (0, decode_regimm (decode_fields ?d))"
    unfolding decode_def Let_def decode_fields_raw op by simp
  show "decodable m i" unfolding decodable_eq d by simp
  have rt: "RT i = push_bit 16 (regimm f)" using assms(2,3) by auto
  then have "ucast (dec_rt (decode_fields ?d)) = regimm f"
    using assms(3) by (auto simp: decode_fields_def Let_def)
  then show "sign_of i = push_bit 26 (opc REGIMM) OR push_bit 16 (regimm f)" "isjump_of i"
    unfolding sign_of_def isjump_of_def d decode_regimm_def Let_def
    using assms(1,3) rt by (auto simp: decode_fields_def Let_def)
qed

lemma decode_special23_op:
  assumes "OPC i = push_bit 26 (opc p)" "FUNC i = f" "p = SPECIAL2 \<or> p = SPECIAL3 \<and> f \<noteq> funct3 BSHFL"
  shows "decodable m i" "sign_of i = push_bit 26 (opc p) OR f" "\<not> isjump_of i"
proof -
  let ?d = "dec0\<lparr>dec_raw := i\<rparr>"
  have op: "drop_bit 26 (OPC (dec_raw ?d)) = opc p" using assms(1) by (simp add: drop_push_26 opc_small)
  have d: "decode ?d = (0, sign_or f (decode_fields ?d))"
    using assms(2,3) unfolding decode_def Let_def decode_fields_raw op by (auto simp: decode_special3_def)
  show "decodable m i" "sign_of i = push_bit 26 (opc p) OR f" "\<not> isjump_of i"
    unfolding decodable_eq sign_of_def isjump_of_def d
    using assms(1) by (simp_all add: decode_fields_def Let_def)
qed

lemma decode_cop_op:
  assumes "OPC i = push_bit 26 (opc p)" "p = COP0 \<or> p = COP2"
  shows "decodable m i" "\<not> isjump_of i"
    "p = COP0 \<Longrightarrow> sign_of i = push_bit 26 (opc COP0) OR (if drop_bit 21 (RS i) > 15 then FUNC i else RS i)"
    "p = COP2 \<Longrightarrow> sign_of i = push_bit 26 (opc COP2) OR (if drop_bit 21 (RS i) > 15 then CO i else RS i)"
proof -
  let ?d = "dec0\<lparr>dec_raw := i\<rparr>"
  have op: "drop_bit 26 (OPC (dec_raw ?d)) = opc p" using assms(1) by (simp add: drop_push_26 opc_small)
  have d: "decode ?d = (0, if p = COP0 then decode_cop0 (decode_fields ?d) else decode_cop2 (decode_fields ?d))"
    using assms(2) unfolding decode_def Let_def decode_fields_raw op by auto
  have rs: "ucast (ucast (drop_bit 21 (RS i)) :: u8) = drop_bit 21 (RS i)"
    by (rule bit_word_eqI) (auto simp: bit_simps bit_fields)
  show "decodable m i" "\<not> isjump_of i"
    "p = COP0 \<Longrightarrow> sign_of i = push_bit 26 (opc COP0) OR (if drop_bit 21 (RS i) > 15 then FUNC i else RS i)"
    "p = COP2 \<Longrightarrow> sign_of i = push_bit 26 (opc COP2) OR (if drop_bit 21 (RS i) > 15 then CO i else RS i)"
    unfolding decodable_eq sign_of_def isjump_of_def d decode_cop0_def decode_cop2_def
    using assms(1) by (auto simp: decode_fields_def Let_def rs)
qed

fun handler_of :: "asm \<Rightarrow> handler" where
  "handler_of (iSLL rd rt sa) = exec_SLL" | "handler_of (iSRA rd rt sa) = exec_SRA"
| "handler_of (iSLLV rd rt rs) = exec_SLLV" | "handler_of (iJR rs) = exec_JR"
| "handler_of (iMOVZ rd rs rt) = exec_MOVZ" | "handler_of (iMOVN rd rs rt) = exec_MOVN"
| "handler_of (iMFHI rd) = exec_MFHI" | "handler_of (iMFLO rd) = exec_MFLO"
| "handler_of (iMULT rs rt) = exec_MULT" | "handler_of (iDIV rs rt) = exec_DIV"
| "handler_of (iADDU rd rs rt) = exec_ADDU" | "handler_of (iSUBU rd rs rt) = exec_SUBU"
| "handler_of (iAND rd rs rt) = exec_AND" | "handler_of (iOR rd rs rt) = exec_OR"
| "handler_of (iXOR rd rs rt) = exec_XOR" | "handler_of (iSLT rd rs rt) = exec_SLT"
| "handler_of (iBLTZ rs off) = exec_BLTZ" | "handler_of (iBGEZ rs off) = exec_BGEZ"
| "handler_of (iJ idx) = exec_J" | "handler_of (iJAL idx) = exec_JAL"
| "handler_of (iBEQ rs rt off) = exec_BEQ" | "handler_of (iBNE rs rt off) = exec_BNE"
| "handler_of (iBLEZ rs off) = exec_BLEZ" | "handler_of (iBGTZ rs off) = exec_BGTZ"
| "handler_of (iADDIU rt rs imm) = exec_ADDIU" | "handler_of (iSLTI rt rs imm) = exec_SLTI"
| "handler_of (iSLTIU rt rs imm) = exec_SLTIU" | "handler_of (iANDI rt rs imm) = exec_ANDI"
| "handler_of (iORI rt rs imm) = exec_ORI" | "handler_of (iXORI rt rs imm) = exec_XORI"
| "handler_of (iLUI rt imm) = exec_LUI" | "handler_of iWAIT = exec_WAIT"
| "handler_of (iMFC2 rt rd sel) = exec_MFC2" | "handler_of (iMTC2 rt rd sel) = exec_MTC2"
| "handler_of (iCOP2 f) = exec_COP2" | "handler_of (iMUL rd rs rt) = exec_MUL"
| "handler_of (iEXT rt rs lsb msbd) = exec_EXT" | "handler_of (iLB rt base off) = exec_LB"
| "handler_of (iLW rt base off) = exec_LW" | "handler_of (iSB rt base off) = exec_SB"
| "handler_of (iSW rt base off) = exec_SW" | "handler_of (iLL rt base off) = exec_LL"
| "handler_of (iSC rt base off) = exec_SC"

fun is_jump :: "asm \<Rightarrow> bool" where
  "is_jump (iJR rs) = True" | "is_jump (iBLTZ rs off) = True" | "is_jump (iBGEZ rs off) = True"
| "is_jump (iJ idx) = True" | "is_jump (iJAL idx) = True" | "is_jump (iBEQ rs rt off) = True"
| "is_jump (iBNE rs rt off) = True" | "is_jump (iBLEZ rs off) = True" | "is_jump (iBGTZ rs off) = True"
| "is_jump _ = False"

definition dispatched :: "u32 \<Rightarrow> handler \<Rightarrow> bool \<Rightarrow> bool" where
  "dispatched i h j \<longleftrightarrow> fst (decode (dec0\<lparr>dec_raw := i\<rparr>)) = 0 \<and>
     map_of switch_table (sign_of i) = Some h \<and> isjump_of i = j"

lemma map_of_switch:
  "(l, h) \<in> set switch_table \<Longrightarrow> map_of switch_table l = Some h"
  using switch_table_distinct by (rule map_of_is_SomeI)

lemma dispatched_special:
  assumes "(push_bit 26 (opc SPECIAL) OR funct f, h) \<in> set switch_table"
    "funct f \<notin> {funct MOVCI, funct SRL_FIELD, funct SRLV_FIELD}"
    "j = (funct f = funct JR \<or> funct f = funct JALR)" "take_bit 6 (funct f) = funct f"
  shows "dispatched (encR (opc SPECIAL) rs rt rd sa (funct f)) h j"
  using decode_special_op [OF encR_fields(1,2) [OF opc_small assms(4)] assms(2)] map_of_switch [OF assms(1)] assms(3)
  by (auto simp: dispatched_def decodable_eq)

lemma dispatched_imm:
  assumes "(push_bit 26 (opc p), h) \<in> set switch_table" "p \<in> set jump_ops \<union> set imm_ops \<union> set mem_ops"
    "j = (p \<in> set jump_ops)"
  shows "dispatched (encI (opc p) rs rt imm) h j" "dispatched (encJ (opc p) idx) h j"
  using decode_other_op [OF encI_fields(1) [OF opc_small] assms(2)]
    decode_other_op [OF encJ_fields(1) [OF opc_small] assms(2)] map_of_switch [OF assms(1)] assms(3)
  by (auto simp: dispatched_def decodable_eq)

lemma dispatched_regimm:
  assumes "f = BLTZ \<and> h = exec_BLTZ \<or> f = BGEZ \<and> h = exec_BGEZ"
  shows "dispatched (encI (opc REGIMM) rs (ucast (regimm f)) off) h True"
proof -
  have "f = BLTZ \<or> f = BGEZ" using assms by auto
  note d = decode_regimm_op [OF encI_fields(1) [OF opc_small] encI_fields(3) [OF opc_small] this]
  have "(push_bit 26 (opc REGIMM) OR push_bit 16 (regimm f), h) \<in> set switch_table"
    using assms by (elim disjE conjE; simp add: switch_table_def)
  then show ?thesis
    unfolding dispatched_def d(2) using d(1,3) map_of_switch by (simp only: decodable_eq simp_thms)
qed

lemma dispatched_cop:
  "dispatched (encode iWAIT) exec_WAIT False" "dispatched (encode (iMFC2 rt rd sel)) exec_MFC2 False"
  "dispatched (encode (iMTC2 rt rd sel)) exec_MTC2 False" "dispatched (encode (iCOP2 f)) exec_COP2 False"
proof -
  have t: "(push_bit 26 (opc COP0) OR cop0co WAIT, exec_WAIT) \<in> set switch_table"
    "(push_bit 26 (opc COP2) OR push_bit 21 (cop2rs MFC2), exec_MFC2) \<in> set switch_table"
    "(push_bit 26 (opc COP2) OR push_bit 21 (cop2rs MTC2), exec_MTC2) \<in> set switch_table"
    "(push_bit 26 (opc COP2) OR push_bit 25 1, exec_COP2) \<in> set switch_table"
    by (simp_all add: switch_table_def)
  have sel: "take_bit 6 (ucast sel :: u32) = ucast sel"
    by (rule bit_word_eqI) (auto simp: bit_simps dest: bit_word_le)
  show "dispatched (encode iWAIT) exec_WAIT False"
  proof -
    have "fst (decode (dec0\<lparr>dec_raw := encode iWAIT\<rparr>)) = 0" "\<not> isjump_of (encode iWAIT)"
      "sign_of (encode iWAIT) = push_bit 26 (opc COP0) OR cop0co WAIT"
      by code_simp+
    then show ?thesis using map_of_switch [OF t(1)] by (simp only: dispatched_def simp_thms)
  qed
  show "dispatched (encode (iMFC2 rt rd sel)) exec_MFC2 False" "dispatched (encode (iMTC2 rt rd sel)) exec_MTC2 False"
    using decode_cop_op [OF encR_fields(1) [OF opc_small sel, of COP2]] map_of_switch [OF t(2)] map_of_switch [OF t(3)]
    by (simp_all add: dispatched_def decodable_eq encR_fields sel)
  show "dispatched (encode (iCOP2 f)) exec_COP2 False"
  proof -
    have "fst (decode (dec0\<lparr>dec_raw := encode (iCOP2 f)\<rparr>)) = 0" "\<not> isjump_of (encode (iCOP2 f))"
      "sign_of (encode (iCOP2 f)) = push_bit 26 (opc COP2) OR push_bit 25 1"
      by (cases f; hypsubst; code_simp)+
    then show ?thesis using map_of_switch [OF t(4)] by (simp only: dispatched_def simp_thms)
  qed
qed

lemma dispatched_special23:
  "dispatched (encode (iMUL rd rs rt)) exec_MUL False"
  "dispatched (encode (iEXT rt rs lsb msbd)) exec_EXT False"
proof -
  have t: "(push_bit 26 (opc SPECIAL2) OR funct2 MUL, exec_MUL) \<in> set switch_table"
    "(push_bit 26 (opc SPECIAL3) OR funct3 EXT, exec_EXT) \<in> set switch_table"
    by (simp_all add: switch_table_def)
  have m: "take_bit 6 (funct2 MUL) = funct2 MUL" "take_bit 6 (funct3 EXT) = funct3 EXT" by simp_all
  show "dispatched (encode (iMUL rd rs rt)) exec_MUL False"
    using decode_special23_op [OF encR_fields(1,2) [OF opc_small m(1), of SPECIAL2]] map_of_switch [OF t(1)]
    by (simp add: dispatched_def decodable_eq)
  show "dispatched (encode (iEXT rt rs lsb msbd)) exec_EXT False"
    using decode_special23_op [OF encR_fields(1,2) [OF opc_small m(2), of SPECIAL3]] map_of_switch [OF t(2)]
    by (simp add: dispatched_def decodable_eq)
qed

lemma dispatched_encode: "dispatched (encode a) (handler_of a) (is_jump a)"
  by (cases a; (simp only: encode.simps handler_of.simps is_jump.simps)?;
    (rule dispatched_cop [simplified encode.simps] dispatched_special23 [simplified encode.simps]
      dispatched_regimm dispatched_imm dispatched_special)?;
    simp add: switch_table_def jump_ops_def imm_ops_def mem_ops_def)

end
