(* ===== verification/Isa_Refine.thy ===== *)
theory Isa_Refine
  imports Isa
begin

text \<open>
  The architecture as the MIPS32 manual describes it, for the instructions that compute and
  branch (without its delay slots), and the refinement: a cycle of the simulator is a step of the
  architecture for the operands that satisfy \<open>conforms\<close>, and for these only.
\<close>

section \<open>The architecture\<close>

text \<open>The registers a program sees; \<open>r0\<close> is always 0.\<close>

definition regs :: "CPU \<Rightarrow> reg \<Rightarrow> u32" where
  "regs c r = (if r = 0 then 0 else cpu_gpr c ! unat r)"

text \<open>
  The register an instruction writes and the value, from the registers, HI and LO as one 64-bit
  number, and the address of the instruction. The link register gets the address after the delay
  slot.
\<close>

fun isa_reg :: "asm \<Rightarrow> (reg \<Rightarrow> u32) \<Rightarrow> u64 \<Rightarrow> u32 \<Rightarrow> (reg \<times> u32) option" where
  "isa_reg (iSLL rd rt sa) R hl pc = Some (rd, push_bit (unat sa) (R rt))"
| "isa_reg (iSRA rd rt sa) R hl pc = Some (rd, signed_drop_bit (unat sa) (R rt))"
| "isa_reg (iSLLV rd rt rs) R hl pc = Some (rd, push_bit (unat (R rs) mod 32) (R rt))"
| "isa_reg (iMOVZ rd rs rt) R hl pc = (if R rt = 0 then Some (rd, R rs) else None)"
| "isa_reg (iMOVN rd rs rt) R hl pc = (if R rt \<noteq> 0 then Some (rd, R rs) else None)"
| "isa_reg (iMFHI rd) R hl pc = Some (rd, ucast (drop_bit 32 hl))"
| "isa_reg (iMFLO rd) R hl pc = Some (rd, ucast hl)"
| "isa_reg (iADDU rd rs rt) R hl pc = Some (rd, R rs + R rt)"
| "isa_reg (iSUBU rd rs rt) R hl pc = Some (rd, R rs - R rt)"
| "isa_reg (iAND rd rs rt) R hl pc = Some (rd, R rs AND R rt)"
| "isa_reg (iOR rd rs rt) R hl pc = Some (rd, R rs OR R rt)"
| "isa_reg (iXOR rd rs rt) R hl pc = Some (rd, R rs XOR R rt)"
| "isa_reg (iSLT rd rs rt) R hl pc = Some (rd, if sint (R rs) < sint (R rt) then 1 else 0)"
| "isa_reg (iJAL idx) R hl pc = Some (31, pc + 8)"
| "isa_reg (iADDIU rt rs imm) R hl pc = Some (rt, R rs + scast imm)"
| "isa_reg (iSLTI rt rs imm) R hl pc = Some (rt, if sint (R rs) < sint imm then 1 else 0)"
| "isa_reg (iSLTIU rt rs imm) R hl pc = Some (rt, if R rs < scast imm then 1 else 0)"
| "isa_reg (iANDI rt rs imm) R hl pc = Some (rt, R rs AND ucast imm)"
| "isa_reg (iORI rt rs imm) R hl pc = Some (rt, R rs OR ucast imm)"
| "isa_reg (iXORI rt rs imm) R hl pc = Some (rt, R rs XOR ucast imm)"
| "isa_reg (iLUI rt imm) R hl pc = Some (rt, push_bit 16 (ucast imm))"
| "isa_reg (iMUL rd rs rt) R hl pc = Some (rd, R rs * R rt)"
| "isa_reg (iEXT rt rs lsb msbd) R hl pc =
     Some (rt, take_bit (unat msbd + 1) (drop_bit (unat lsb) (R rs)))"
| "isa_reg _ R hl pc = None"

fun isa_hilo :: "asm \<Rightarrow> (reg \<Rightarrow> u32) \<Rightarrow> u64 \<Rightarrow> u64" where
  "isa_hilo (iMULT rs rt) R hl = scast (R rs) * scast (R rt)"
| "isa_hilo (iDIV rs rt) R hl = hilo_of (word_of_int (sint (R rs) smod sint (R rt)))
     (word_of_int (sint (R rs) sdiv sint (R rt)))"
| "isa_hilo _ R hl = hl"

text \<open>The target of a jump, or of a branch that is taken.\<close>

definition branch_to :: "bool \<Rightarrow> u32 \<Rightarrow> u16 \<Rightarrow> u32 option" where
  "branch_to b pc off = (if b then Some (pc + 4 + push_bit 2 (scast off)) else None)"

fun isa_target :: "asm \<Rightarrow> (reg \<Rightarrow> u32) \<Rightarrow> u32 \<Rightarrow> u32 option" where
  "isa_target (iJR rs) R pc = Some (R rs)"
| "isa_target (iBLTZ rs off) R pc = branch_to (sint (R rs) < 0) pc off"
| "isa_target (iBGEZ rs off) R pc = branch_to (sint (R rs) \<ge> 0) pc off"
| "isa_target (iBLEZ rs off) R pc = branch_to (sint (R rs) \<le> 0) pc off"
| "isa_target (iBGTZ rs off) R pc = branch_to (sint (R rs) > 0) pc off"
| "isa_target (iBEQ rs rt off) R pc = branch_to (R rs = R rt) pc off"
| "isa_target (iBNE rs rt off) R pc = branch_to (R rs \<noteq> R rt) pc off"
| "isa_target (iJ idx) R pc = Some ((pc + 4) AND 0xF0000000 OR push_bit 2 (ucast idx))"
| "isa_target (iJAL idx) R pc = Some ((pc + 4) AND 0xF0000000 OR push_bit 2 (ucast idx))"
| "isa_target _ R pc = None"

text \<open>The instructions that neither access the memory nor a coprocessor.\<close>

fun computes :: "asm \<Rightarrow> bool" where
  "computes iWAIT = False" | "computes (iMFC2 _ _ _) = False" | "computes (iMTC2 _ _ _) = False"
| "computes (iCOP2 _) = False" | "computes (iLB _ _ _) = False" | "computes (iLW _ _ _) = False"
| "computes (iSB _ _ _) = False" | "computes (iSW _ _ _) = False" | "computes (iLL _ _ _) = False"
| "computes (iSC _ _ _) = False" | "computes _ = True"

text \<open>
  The operands on which the simulator does what the manual says: SRA is a logical shift, ANDI
  extends the sign, MULT has 32 bits of product, DIV must be defined, EXT takes a bit too many
  for its fields, and a jump takes its region from its own address, not from the next one.
\<close>

fun conforms :: "asm \<Rightarrow> (reg \<Rightarrow> u32) \<Rightarrow> u32 \<Rightarrow> bool" where
  "conforms (iSRA rd rt sa) R pc = (sa = 0 \<or> 0 \<le> sint (R rt))"
| "conforms (iANDI rt rs imm) R pc = (0 \<le> sint imm \<or> drop_bit 16 (R rs) = 0)"
| "conforms (iMULT rs rt) R pc = (\<not> mult_overflows (R rs) (R rt))"
| "conforms (iDIV rs rt) R pc = (\<not> div_undefined (R rs) (R rt))"
| "conforms (iEXT rt rs lsb msbd) R pc = (even msbd \<and> even rt)"
| "conforms (iJ idx) R pc = (pc AND 0xF0000000 = (pc + 4) AND 0xF0000000)"
| "conforms (iJAL idx) R pc = (pc AND 0xF0000000 = (pc + 4) AND 0xF0000000)"
| "conforms _ R pc = True"

section \<open>Words\<close>

lemma bit_scast16: "bit (scast imm :: u32) k \<longleftrightarrow> k < 32 \<and> bit imm (if k < 16 then k else 15)" for imm :: u16
proof -
  have "bit (scast imm :: u32) k \<longleftrightarrow> k < 32 \<and> bit imm (min k 15)" by (auto simp: bit_simps min_def)
  moreover have "min k 15 = (if k < 16 then k else 15)" by simp
  ultimately show ?thesis by simp
qed

lemma signed_drop_bit_nonneg: "0 \<le> sint w \<Longrightarrow> signed_drop_bit n w = drop_bit n w" for w :: u32
proof (rule bit_word_eqI)
  fix k assume "0 \<le> sint w" "k < LENGTH(32)"
  then have "\<not> bit w 31" using bit_last_iff [of w] by simp
  then show "bit (signed_drop_bit n w) k = bit (drop_bit n w) k"
    using bit_word_le [of w "n + k"] by (auto simp: bit_simps le_diff_conv min_def not_le)
qed

lemma andi_zero_extended:
  fixes w :: u32 and imm :: u16
  assumes "0 \<le> sint imm \<or> drop_bit 16 w = 0"
  shows "w AND scast imm = w AND ucast imm"
proof (rule bit_word_eqI)
  fix k assume k: "k < LENGTH(32)"
  show "bit (w AND scast imm) k = bit (w AND ucast imm) k"
  proof (cases "k < 16")
    case True
    then show ?thesis using k by (auto simp: bit_scast16 bit_and_iff bit_unsigned_iff)
  next
    case False
    from assms have "\<not> bit imm 15 \<or> \<not> bit w k"
    proof
      assume "0 \<le> sint imm"
      then show ?thesis using bit_last_iff [of imm] by simp
    next
      assume "drop_bit 16 w = 0"
      then have "\<not> bit (drop_bit 16 w) (k - 16)" by simp
      with False show ?thesis by (simp add: bit_simps)
    qed
    then show ?thesis using False bit_word_le [of imm k] by (auto simp: bit_scast16 bit_and_iff bit_unsigned_iff)
  qed
qed

lemma lui_extended: "push_bit 16 (scast imm) = push_bit 16 (ucast imm :: u32)" for imm :: u16
  by (rule bit_word_eqI) (auto simp: bit_scast16 bit_push_bit_iff bit_unsigned_iff)

lemma sllv_amount: "unat (0x1F AND w) = unat w mod 32" for w :: u32
proof -
  have "0x1F AND w = take_bit 5 w" by (simp add: take_bit_eq_mask mask_eq_exp_minus_1 and.commute)
  then show ?thesis by (simp only: unsigned_take_bit_eq) (simp add: take_bit_eq_mod)
qed

lemma mult_product:
  assumes "\<not> mult_overflows a b"
  shows "word_of_int (sint a * sint b) = scast a * (scast b :: u64)"
  by (simp only: scast_eq of_int_mult)

lemma bit_maxword: "bit (0xFFFFFFFF :: u32) k \<longleftrightarrow> k < 32"
proof -
  have "(0xFFFFFFFF :: u32) = - 1" by simp
  then show ?thesis by (simp only: bit_minus_1_iff) simp
qed

lemma bit_ucast5: "bit (ucast w :: u32) n \<longleftrightarrow> bit w n" for w :: "5 word"
  using bit_word_le [of w n] by (auto simp: bit_unsigned_iff)

text \<open>A bit of an encoded instruction is a bit of one of its fields.\<close>

lemma bit_encR:
  assumes "take_bit 6 p = p" "take_bit 6 fn = fn"
  shows "bit (encR p rs rt rd sa fn) k \<longleftrightarrow> k < 32 \<and>
    (if k < 6 then bit fn k else if k < 11 then bit sa (k - 6) else if k < 16 then bit rd (k - 11)
     else if k < 21 then bit rt (k - 16) else if k < 26 then bit rs (k - 21) else bit p (k - 26))"
proof -
  have none: "\<not> bit w n" if "5 \<le> n" for w :: "5 word" and n using bit_word_le [of w n] that by auto
  have fn: "\<not> bit fn k" if "6 \<le> k" using small_bits [OF assms(2), of k] that by auto
  have p: "\<not> bit p (k - 26)" if "32 \<le> k" using small_bits [OF assms(1), of "k - 26"] that by auto
  consider "k < 6" | "6 \<le> k" "k < 11" | "11 \<le> k" "k < 16" | "16 \<le> k" "k < 21" | "21 \<le> k" "k < 26"
    | "26 \<le> k" "k < 32" | "32 \<le> k" by linarith
  then show ?thesis
    by cases (simp_all add: encR_def bit_or_iff bit_push_bit_iff bit_ucast5 none fn p)
qed

lemma even_not_bit0: "even w \<Longrightarrow> \<not> bit w 0"
  by (simp add: bit_0)

lemma ext_macros:
  fixes lsb msbd rt rs :: "5 word"
  assumes "even msbd" "even rt"
  shows "LSB (encR (opc SPECIAL3) rs rt msbd lsb (funct3 EXT)) = ucast lsb"
    "MSBD (encR (opc SPECIAL3) rs rt msbd lsb (funct3 EXT)) = ucast msbd"
proof -
  have m: "take_bit 6 (funct3 EXT) = funct3 EXT" by simp
  note b = bit_encR [OF opc_small m, of SPECIAL3 rs rt msbd lsb, simplified]
  have e: "\<not> bit msbd 0" "\<not> bit rt 0" using assms by (simp_all add: even_not_bit0)
  show "LSB (encR (opc SPECIAL3) rs rt msbd lsb (funct3 EXT)) = ucast lsb"
  proof (rule bit_word_eqI)
    fix n :: nat
    consider "n < 5" | "n = 5" | "5 < n" by linarith
    then show "bit (LSB (encR (opc SPECIAL3) rs rt msbd lsb (funct3 EXT))) n = bit (ucast lsb :: u32) n"
      by cases (use e bit_word_le [of lsb n] in \<open>auto simp: bit_fields b bit_ucast5\<close>)
  qed
  show "MSBD (encR (opc SPECIAL3) rs rt msbd lsb (funct3 EXT)) = ucast msbd"
  proof (rule bit_word_eqI)
    fix n :: nat
    consider "n < 5" | "n = 5" | "5 < n" by linarith
    then show "bit (MSBD (encR (opc SPECIAL3) rs rt msbd lsb (funct3 EXT))) n = bit (ucast msbd :: u32) n"
      by cases (use e bit_word_le [of msbd n] in \<open>auto simp: bit_fields b bit_ucast5\<close>)
  qed
qed

text \<open>The field of EXT, where both macros see an even number below 32.\<close>

lemma ext_field:
  fixes lsb msbd rt rs :: "5 word" and w :: u32
  assumes "even msbd" "even rt"
  defines "i \<equiv> encR (opc SPECIAL3) rs rt msbd lsb (funct3 EXT)"
  shows "unat (LSB i) = unat lsb" "unat (MSBD i) = unat msbd" "\<not> ext_undefined i"
    "drop_bit (unat lsb) w AND drop_bit (unat (31 - MSBD i)) 0xFFFFFFFF =
       take_bit (unat msbd + 1) (drop_bit (unat lsb) w)"
proof -
  have "LSB i = ucast lsb" "MSBD i = ucast msbd"
    using ext_macros [OF assms(1,2)] unfolding i_def by simp_all
  moreover have "unat (ucast (x :: 5 word) :: u32) = unat x" for x
    by (simp add: unsigned_ucast_eq take_bit_nat_eq_self less_le_trans [OF unsigned_less])
  ultimately show lm: "unat (LSB i) = unat lsb" "unat (MSBD i) = unat msbd" by simp_all
  have lt: "unat lsb < 32" "unat msbd < 32" using unsigned_less [of lsb] unsigned_less [of msbd] by simp_all
  then have sub: "unat (31 - MSBD i) = 31 - unat msbd"
    using lm(2) by (simp add: unat_sub word_le_nat_alt)
  then show "\<not> ext_undefined i" using lm(1) lt by (simp add: ext_undefined_def)
  show "drop_bit (unat lsb) w AND drop_bit (unat (31 - MSBD i)) 0xFFFFFFFF =
       take_bit (unat msbd + 1) (drop_bit (unat lsb) w)"
  proof (rule bit_word_eqI)
    fix n assume n: "n < LENGTH(32)"
    show "bit (drop_bit (unat lsb) w AND drop_bit (unat (31 - MSBD i)) 0xFFFFFFFF) n =
        bit (take_bit (unat msbd + 1) (drop_bit (unat lsb) w)) n"
      unfolding sub bit_and_iff bit_take_bit_iff bit_drop_bit_eq comp_apply bit_maxword
      using lt by auto
  qed
qed

section \<open>Every handler computes its instruction\<close>

lemma ucast_add32: "(ucast (x + y) :: u32) = ucast x + ucast y" for x y :: u64
proof -
  have "(4294967296 :: nat) dvd 18446744073709551616" by simp
  then have "unat (ucast (x + y) :: u32) = unat (ucast x + ucast y :: u32)"
    by (simp add: unat_word_ariths unsigned_ucast_eq take_bit_eq_mod mod_mod_cancel mod_add_eq)
  then show ?thesis by (rule unsigned_word_eqI)
qed

lemma ucast_or32: "(ucast (x OR y) :: u32) = ucast x OR ucast y" for x y :: u64
  by (rule bit_word_eqI) (auto simp: bit_simps)

lemma ucast_and32: "(ucast (x AND y) :: u32) = ucast x AND ucast y" for x y :: u64
  by (rule bit_word_eqI) (auto simp: bit_simps)

lemma ucast_up32: "(ucast (ucast (w :: u32) :: u64) :: u32) = w"
  by (rule bit_word_eqI) (auto simp: bit_simps)

text \<open>The operands of a loaded instruction are the registers of the program.\<close>

lemma gpr_start:
  "wf_machine m0 \<Longrightarrow> gpr (m_cpu (start_cycle m0)) (unat r) = regs (m_cpu m0) r"
  using wf_cpuD(1) [of "m_cpu m0"] by (auto simp: gpr_def regs_def wf_machine_def nth_list_update unat_eq_0)

lemma gpr_loaded: "gpr (m_cpu (loaded m i)) k = gpr (m_cpu m) k"
  by (simp add: gpr_def)

lemma operands_encR:
  assumes "wf_machine m0" "take_bit 6 p = p" "take_bit 6 fn = fn"
  shows "gpr_rs (loaded (start_cycle m0) (encR p rs rt rd sa fn)) = regs (m_cpu m0) rs"
    "gpr_rt (loaded (start_cycle m0) (encR p rs rt rd sa fn)) = regs (m_cpu m0) rt"
  by (simp_all only: gpr_rs_def gpr_rt_def gpr_loaded encR_operands [OF assms(2,3)] gpr_start [OF assms(1)])

lemma operands_encI:
  assumes "wf_machine m0" "take_bit 6 p = p"
  shows "gpr_rs (loaded (start_cycle m0) (encI p rs rt imm)) = regs (m_cpu m0) rs"
    "gpr_rt (loaded (start_cycle m0) (encI p rs rt imm)) = regs (m_cpu m0) rt"
    "simm (loaded (start_cycle m0) (encI p rs rt imm)) = scast imm"
  by (simp_all only: gpr_rs_def gpr_rt_def gpr_loaded encI_operands [OF assms(2)] gpr_start [OF assms(1)] simm_def)

definition isa_effect :: "asm \<Rightarrow> (reg \<Rightarrow> u32) \<Rightarrow> machine \<Rightarrow> machine \<Rightarrow> bool" where
  "isa_effect a R M M' \<longleftrightarrow>
     cpu_gpr (m_cpu M') = (case isa_reg a R (cpu_hilo (m_cpu M)) (ucast (cpu_pc (m_cpu M))) of
        None \<Rightarrow> cpu_gpr (m_cpu M) | Some (r, v) \<Rightarrow> (cpu_gpr (m_cpu M))[unat r := v]) \<and>
     cpu_hilo (m_cpu M') = isa_hilo a R (cpu_hilo (m_cpu M)) \<and>
     (if dec_isjump (m_dec M') then Some (dec_npc (m_dec M')) else None) =
       isa_target a R (ucast (cpu_pc (m_cpu M))) \<and>
     m_mem M' = m_mem M \<and> m_ctl M' = m_ctl M \<and> m_io M' = m_io M \<and>
     cpu_running (m_cpu M') = cpu_running (m_cpu M) \<and> cpu_cop2 (m_cpu M') = cpu_cop2 (m_cpu M) \<and>
     cpu_pc (m_cpu M') = cpu_pc (m_cpu M) \<and> \<not> dec_stall (m_dec M')"

lemma isjump_loaded: "dec_isjump (m_dec (loaded m (encode a))) = is_jump a"
  using dispatched_encode [of a] by (simp add: loaded_isjump dispatched_def)

lemma of_bool_if: "of_bool b = (if b then 1 else 0)"
  by simp

lemmas effect_simps = isa_effect_def set_rd_def set_rt_def branch_if_def branch_to_def jump_target_def
  operands_encR operands_encI opc_small Let_def of_bool_if ucast_add32 ucast_or32 ucast_and32 ucast_up32

text \<open>The instructions whose operands are restricted, one by one.\<close>

lemma sra_value: "sa = 0 \<or> 0 \<le> sint w \<Longrightarrow> signed_drop_bit (unat sa) w = drop_bit (unat sa) w"
  for w :: u32 and sa :: "5 word"
  using signed_drop_bit_nonneg [of w "unat sa"] by auto

lemma effect_ext:
  assumes "even msbd" "even rt" "wf_machine m0"
  shows "\<exists>M'. exec_EXT (loaded (start_cycle m0) (encode (iEXT rt rs lsb msbd))) = Some (OK, M') \<and>
     isa_effect (iEXT rt rs lsb msbd) (regs (m_cpu m0))
       (loaded (start_cycle m0) (encode (iEXT rt rs lsb msbd))) M'"
  using ext_field [OF assms(1,2), where rs = rs and lsb = lsb] isjump_loaded [of "start_cycle m0" "iEXT rt rs lsb msbd"] assms(3)
  by (simp add: effect_simps exec_EXT_def ext_undefined_def)

lemma effect_encode:
  assumes "wf_machine m0" "computes a" "conforms a (regs (m_cpu m0)) (ucast (cpu_pc (m_cpu m0)))"
  shows "\<exists>M'. handler_of a (loaded (start_cycle m0) (encode a)) = Some (OK, M') \<and>
     isa_effect a (regs (m_cpu m0)) (loaded (start_cycle m0) (encode a)) M'"
proof (cases "\<exists>rt rs lsb msbd. a = iEXT rt rs lsb msbd")
  case True
  with assms effect_ext show ?thesis by auto
next
  case False
  then show ?thesis
    using assms isjump_loaded [of "start_cycle m0" a]
    by (cases a; simp add: effect_simps handler_defs sra_value sllv_amount lui_extended andi_zero_extended
        mult_overflows_def div_undefined_def sint_eq_0 mult_product)
qed

section \<open>The refinement\<close>

definition at_instr :: "machine \<Rightarrow> asm \<Rightarrow> bool" where
  "at_instr m a \<longleftrightarrow> wf_machine m \<and> cpu_running (m_cpu m) \<and> link_op m = 0 \<and>
     fetch (m_cpu m) (m_mem m) = Some (Inr (encode a))"

lemma fetch_start [simp]: "fetch (m_cpu (start_cycle m)) mem = fetch (m_cpu m) mem"
  by (simp add: fetch_def)

text \<open>A cycle at an encoded instruction runs its handler.\<close>

lemma cycle_at:
  assumes "at_instr m0 a"
  shows "Datapath_execute m0 = (case handler_of a (loaded (start_cycle m0) (encode a)) of
      None \<Rightarrow> None
    | Some (e, m2) \<Rightarrow> if e \<noteq> OK \<and> \<not> dec_rmwfail (m_dec m2) \<and> \<not> dec_stall (m_dec m2)
        then Some (-1, inc_cycle m2) else Some (0, inc_cycle (advance m2)))"
proof -
  note d = dispatched_encode [of a, unfolded dispatched_def]
  have "execute (loaded (start_cycle m0) (encode a)) = handler_of a (loaded (start_cycle m0) (encode a))"
    using d by (simp only: execute_def loaded_sign option.case)
  moreover have "decodable (start_cycle m0) (encode a)" using d by (simp add: decodable_eq)
  ultimately show ?thesis using assms by (simp add: at_instr_def Datapath_execute_eq Let_def)
qed

lemma unat_reg_less: "unat (r :: reg) < 32"
  using unsigned_less [of r] by simp

text \<open>The registers a program sees after some register was written.\<close>

lemma regs_write:
  "length (cpu_gpr c0) = 32 \<Longrightarrow> cpu_gpr c = (cpu_gpr c0)[0 := 0, unat r := v] \<Longrightarrow>
     regs c = (if r = 0 then regs c0 else (regs c0)(r := v))"
  by (auto simp: regs_def fun_eq_iff nth_list_update word_unat_eq_iff unat_reg_less)

lemma regs_clear0: "length (cpu_gpr c0) = 32 \<Longrightarrow> cpu_gpr c = (cpu_gpr c0)[0 := 0] \<Longrightarrow> regs c = regs c0"
  by (auto simp: regs_def fun_eq_iff nth_list_update unat_eq_0)

text \<open>The registers after an instruction of the architecture.\<close>

definition isa_regs :: "asm \<Rightarrow> (reg \<Rightarrow> u32) \<Rightarrow> u64 \<Rightarrow> u32 \<Rightarrow> reg \<Rightarrow> u32" where
  "isa_regs a R hl pc = (case isa_reg a R hl pc of
     None \<Rightarrow> R | Some (r, v) \<Rightarrow> if r = 0 then R else R(r := v))"

text \<open>The machine after a cycle that did what the architecture says of the instruction.\<close>

definition isa_cycle :: "machine \<Rightarrow> asm \<Rightarrow> machine \<Rightarrow> bool" where
  "isa_cycle m0 a m \<longleftrightarrow>
    regs (m_cpu m) = isa_regs a (regs (m_cpu m0)) (cpu_hilo (m_cpu m0)) (ucast (cpu_pc (m_cpu m0))) \<and>
    cpu_hilo (m_cpu m) = isa_hilo a (regs (m_cpu m0)) (cpu_hilo (m_cpu m0)) \<and>
    cpu_pc (m_cpu m) = (case isa_target a (regs (m_cpu m0)) (ucast (cpu_pc (m_cpu m0))) of
      None \<Rightarrow> cpu_pc (m_cpu m0) + 4 | Some t \<Rightarrow> ucast t) \<and>
    m_mem m = m_mem m0 \<and> m_ctl m = m_ctl m0 \<and> m_io m = m_io m0 \<and>
    cpu_running (m_cpu m) \<and> cpu_cop2 (m_cpu m) = cpu_cop2 (m_cpu m0)"

lemma conforming_cycle:
  assumes "at_instr m0 a" and "computes a"
    and "conforms a (regs (m_cpu m0)) (ucast (cpu_pc (m_cpu m0)))"
  shows "\<exists>m. Datapath_execute m0 = Some (0, m) \<and> isa_cycle m0 a m"
proof -
  let ?M = "loaded (start_cycle m0) (encode a)"
  have wf: "wf_machine m0" and run: "cpu_running (m_cpu m0)" using assms(1) by (auto simp: at_instr_def)
  then have len: "length (cpu_gpr (m_cpu m0)) = 32" using wf_cpuD(1) by (simp add: wf_machine_def)
  obtain M' where M': "handler_of a ?M = Some (OK, M')" "isa_effect a (regs (m_cpu m0)) ?M M'"
    using effect_encode [OF wf assms(2,3)] by blast
  let ?m = "inc_cycle (advance M')"
  have "Datapath_execute m0 = Some (0, ?m)" using cycle_at [OF assms(1)] M'(1) by simp
  moreover have "regs (m_cpu ?m) = isa_regs a (regs (m_cpu m0)) (cpu_hilo (m_cpu m0)) (ucast (cpu_pc (m_cpu m0)))"
    using M'(2) regs_write [OF len, of "m_cpu ?m"] regs_clear0 [OF len, of "m_cpu ?m"]
    by (auto simp: isa_effect_def isa_regs_def split: option.splits)
  moreover have "cpu_pc (m_cpu ?m) = (case isa_target a (regs (m_cpu m0)) (ucast (cpu_pc (m_cpu m0))) of
      None \<Rightarrow> cpu_pc (m_cpu m0) + 4 | Some t \<Rightarrow> ucast t)"
    using M'(2) by (auto simp: isa_effect_def advance_def split: option.splits if_splits)
  ultimately show ?thesis using M'(2) run by (auto simp: isa_effect_def isa_cycle_def)
qed

text \<open>The other operands: the cycle is undefined, or leaves another register or program counter, unless
  the register that differs is \<open>r0\<close>.\<close>

lemma bit_ge_32: "bit (x :: u32) 5 \<Longrightarrow> 32 \<le> unat x"
proof -
  assume b: "bit x 5"
  have "bit (unat x) 5" using b by (simp add: bit_unsigned_iff)
  then have "odd (unat x div 32)" by (simp add: bit_iff_odd)
  then show ?thesis by (metis div_less even_zero not_le)
qed

lemma ext_odd:
  assumes "odd msbd \<or> odd rt"
  shows "ext_undefined (encR (opc SPECIAL3) rs rt msbd lsb (funct3 EXT))"
proof -
  let ?i = "encR (opc SPECIAL3) rs rt msbd lsb (funct3 EXT)"
  have m: "take_bit 6 (funct3 EXT) = funct3 EXT" by simp
  note b = bit_encR [OF opc_small m, of SPECIAL3 rs rt msbd lsb, simplified]
  have "bit (LSB ?i) 5 \<or> bit (MSBD ?i) 5" using assms by (auto simp: bit_fields b bit_0)
  then have "32 \<le> unat (LSB ?i) \<or> 32 \<le> unat (MSBD ?i)" using bit_ge_32 by blast
  moreover have "32 \<le> unat (31 - MSBD ?i)" if "32 \<le> unat (MSBD ?i)"
  proof -
    have "MSBD ?i = take_bit 6 (drop_bit 11 ?i)" by (rule bit_word_eqI) (auto simp: bit_fields bit_simps add.commute)
    then have "unat (MSBD ?i) < 64"
      using take_bit_nat_less_exp [of 6 "unat (drop_bit 11 ?i)"] by (simp add: unsigned_take_bit_eq)
    with that show ?thesis by (simp add: unat_sub_if')
  qed
  ultimately show ?thesis by (auto simp: ext_undefined_def)
qed

lemma andi_sign_extended:
  fixes w :: u32 and imm :: u16
  assumes "w AND scast imm = w AND ucast imm"
  shows "0 \<le> sint imm \<or> drop_bit 16 w = 0"
proof (rule ccontr)
  assume n: "\<not> (0 \<le> sint imm \<or> drop_bit 16 w = 0)"
  then obtain k where k: "bit (drop_bit 16 w) k" by (auto simp: bit_eq_iff)
  have "bit imm 15" using n bit_last_iff [of imm] by simp
  then have "bit (w AND scast imm) (16 + k)" using k bit_word_le [of w "16 + k"] by (simp add: bit_simps bit_scast16)
  moreover have "\<not> bit (w AND ucast imm) (16 + k)" using bit_word_le [of imm "16 + k"] by (auto simp: bit_simps)
  ultimately show False using assms by simp
qed

lemma sra_differs:
  fixes w :: u32 and sa :: "5 word"
  assumes "signed_drop_bit (unat sa) w = drop_bit (unat sa) w"
  shows "sa = 0 \<or> 0 \<le> sint w"
proof (rule ccontr)
  assume n: "\<not> (sa = 0 \<or> 0 \<le> sint w)"
  then have "bit w 31" "0 < unat sa" using bit_last_iff [of w] by (simp_all add: unat_gt_0)
  then have "bit (signed_drop_bit (unat sa) w) 31" "\<not> bit (drop_bit (unat sa) w) 31"
    using bit_word_le [of w "unat sa + 31"] by (auto simp: bit_signed_drop_bit_iff bit_drop_bit_eq)
  with assms show False by simp
qed

lemma region_differs:
  fixes x y :: u32 and idx :: "26 word"
  assumes "x AND 0xF0000000 OR push_bit 2 (ucast idx) = y AND 0xF0000000 OR push_bit 2 (ucast idx)"
  shows "x AND 0xF0000000 = y AND 0xF0000000"
proof -
  let ?t = "push_bit 2 (ucast idx) :: u32" and ?f = "0xF0000000 :: u32"
  have "bit (push_bit 28 (0xF :: u32)) n \<Longrightarrow> 28 \<le> n" for n by (simp only: bit_push_bit_iff)
  then have "bit ?f n \<Longrightarrow> 28 \<le> n" for n by simp
  then have "?t AND ?f = 0"
    by (intro bit_word_eqI) (fastforce simp: bit_and_iff bit_push_bit_iff bit_unsigned_iff dest: bit_word_le)
  moreover have "(x AND ?f OR ?t) AND ?f = (y AND ?f OR ?t) AND ?f" using assms by simp
  ultimately show ?thesis by (simp only: bit.conj_disj_distrib2 and.assoc and.idem or.right_neutral)
qed

lemma ucast_inject: "(ucast x :: u64) = ucast y \<longleftrightarrow> x = y" for x y :: u32
  by (metis ucast_up32)

lemma jump_value:
  assumes "at_instr m0 a" "a \<in> {iJ idx, iJAL idx}" "Datapath_execute m0 = Some (0, m)"
  shows "cpu_pc (m_cpu m) = ucast (ucast (cpu_pc (m_cpu m0)) AND 0xF0000000 OR push_bit 2 (ucast idx) :: u32)"
  using cycle_at [OF assms(1)] isjump_loaded [of "start_cycle m0" a] assms(2,3)
  by (auto simp: exec_J_def exec_JAL_def jump_target_def advance_def Let_def ucast_or32 ucast_and32 ucast_up32 opc_small)

lemma undefined_cycle:
  assumes "at_instr m0 a" "handler_of a (loaded (start_cycle m0) (encode a)) = None"
  shows "Datapath_execute m0 = None"
  using cycle_at [OF assms(1)] assms(2) by simp

lemma departing_cycle:
  assumes "at_instr m0 a" and "\<not> conforms a (regs (m_cpu m0)) (ucast (cpu_pc (m_cpu m0)))"
    and "Datapath_execute m0 = Some (0, m)" and "isa_cycle m0 a m"
  shows "\<exists>v. isa_reg a (regs (m_cpu m0)) (cpu_hilo (m_cpu m0)) (ucast (cpu_pc (m_cpu m0))) = Some (0, v)"
proof -
  let ?R = "regs (m_cpu m0)" and ?M = "loaded (start_cycle m0) (encode a)"
  have wf: "wf_machine m0" using assms(1) by (simp add: at_instr_def)
  then have len: "length (cpu_gpr (m_cpu m0)) = 32" using wf_cpuD(1) by (simp add: wf_machine_def)
  have def: "handler_of a ?M \<noteq> None" using undefined_cycle [OF assms(1)] assms(3) by (auto simp del: not_None_eq)
  have written: "v = w" if "handler_of a ?M = Some (OK, set_gpr (unat r) v ?M)" "isa_reg a ?R (cpu_hilo (m_cpu m0)) (ucast (cpu_pc (m_cpu m0))) = Some (r, w)" "r \<noteq> 0" for r v w
  proof -
    have "m = inc_cycle (advance (set_gpr (unat r) v ?M))" using cycle_at [OF assms(1)] assms(3) that(1) by simp
    then have "regs (m_cpu m) = ?R(r := v)" using regs_write [OF len, of "m_cpu m" r v] that(3) by simp
    moreover have "regs (m_cpu m) = ?R(r := w)" using assms(4) that(2,3) by (simp add: isa_cycle_def isa_regs_def)
    ultimately show ?thesis by (metis fun_upd_same)
  qed
  show ?thesis
  proof (cases a)
    case (iSRA rd rt sa)
    show ?thesis
    proof (rule ccontr)
      assume "\<not> ?thesis"
      then have "drop_bit (unat sa) (?R rt) = signed_drop_bit (unat sa) (?R rt)"
        using written [of rd "drop_bit (unat sa) (?R rt)"] iSRA wf by (simp add: exec_SRA_def set_rd_def operands_encR)
      then show False using sra_differs [of sa "?R rt"] assms(2) iSRA by simp
    qed
  next
    case (iANDI rt rs imm)
    show ?thesis
    proof (rule ccontr)
      assume "\<not> ?thesis"
      then have "?R rs AND scast imm = ?R rs AND ucast imm"
        using written [of rt "?R rs AND scast imm"] iANDI wf by (simp add: exec_ANDI_def set_rt_def operands_encI)
      then show False using andi_sign_extended assms(2) iANDI by simp
    qed
  next
    case (iMULT rs rt)
    then show ?thesis using assms(2) def wf by (simp add: arith_defined operands_encR)
  next
    case (iDIV rs rt)
    then show ?thesis using assms(2) def wf by (simp add: arith_defined operands_encR)
  next
    case (iEXT rt rs lsb msbd)
    then show ?thesis using assms(2) def ext_odd by (simp add: arith_defined)
  next
    case (iJ idx)
    with jump_value [OF assms(1) _ assms(3), of idx] assms(4) show ?thesis
      using region_differs [of "ucast (cpu_pc (m_cpu m0))" idx "ucast (cpu_pc (m_cpu m0)) + 4"] assms(2)
      by (auto simp: isa_cycle_def ucast_inject)
  next
    case (iJAL idx)
    with jump_value [OF assms(1) _ assms(3), of idx] assms(4) show ?thesis
      using region_differs [of "ucast (cpu_pc (m_cpu m0))" idx "ucast (cpu_pc (m_cpu m0)) + 4"] assms(2)
      by (auto simp: isa_cycle_def ucast_inject)
  qed (use assms(2) in simp_all)
qed

text \<open>C1: Where the simulator follows the MIPS32 manual, but for the delay slots, which it does not
  have: at any instruction that computes or branches, a cycle succeeds and leaves the registers,
  HI/LO and the memory as the manual says, and the program counter at the next instruction or at
  once at the target of the manual, if the operands satisfy \<open>conforms\<close>; if they do not (SRA of a
  negative number, ANDI of a high half with a negative immediate, MULT that overflows, undefined
  DIV, EXT with an odd size field or target, J and JAL in the last word of a region) it does not,
  unless the register it writes wrongly is \<open>r0\<close>.\<close>

theorem datapath_implements_isa:
  assumes "at_instr m0 a" and "computes a"
  shows "(conforms a (regs (m_cpu m0)) (ucast (cpu_pc (m_cpu m0))) \<longrightarrow>
      (\<exists>m. Datapath_execute m0 = Some (0, m) \<and> isa_cycle m0 a m)) \<and>
    (\<not> conforms a (regs (m_cpu m0)) (ucast (cpu_pc (m_cpu m0))) \<longrightarrow>
      (\<exists>v. isa_reg a (regs (m_cpu m0)) (cpu_hilo (m_cpu m0)) (ucast (cpu_pc (m_cpu m0))) = Some (0, v)) \<or>
      \<not> (\<exists>m. Datapath_execute m0 = Some (0, m) \<and> isa_cycle m0 a m))"
  using conforming_cycle [OF assms] departing_cycle [OF assms(1)] by blast

theorem datapath_implements_isa_witness:
  "(\<exists>m. Datapath_execute (boot [encode (iADDIU 2 0 5)]) = Some (0, m) \<and>
     regs (m_cpu m) 2 = 5 \<and> cpu_pc (m_cpu m) = 4) \<and>
   \<not> (\<exists>m. Datapath_execute (boot [encode (iDIV 2 0)]) = Some (0, m) \<and> isa_cycle (boot [encode (iDIV 2 0)]) (iDIV 2 0) m)"
proof
  let ?m = "boot [encode (iADDIU 2 0 5)]"
  have "wf_machine ?m" by (rule wf_boot) simp
  moreover have "fetch (m_cpu ?m) (m_mem ?m) = Some (Inr (encode (iADDIU 2 0 5)))" by code_simp
  ultimately have at: "at_instr ?m (iADDIU 2 0 5)" by (simp add: at_instr_def) code_simp
  have "regs (m_cpu ?m) 0 = 0" by (simp add: regs_def)
  moreover have "cpu_pc (m_cpu ?m) = 0" by code_simp
  ultimately show "\<exists>m. Datapath_execute ?m = Some (0, m) \<and> regs (m_cpu m) 2 = 5 \<and> cpu_pc (m_cpu m) = 4"
    using datapath_implements_isa [OF at] by (auto simp: isa_cycle_def isa_regs_def)
next
  let ?m = "boot [encode (iDIV 2 0)]"
  have "wf_machine ?m" by (rule wf_boot) simp
  moreover have "fetch (m_cpu ?m) (m_mem ?m) = Some (Inr (encode (iDIV 2 0)))" by code_simp
  ultimately have at: "at_instr ?m (iDIV 2 0)" by (simp add: at_instr_def) code_simp
  have "regs (m_cpu ?m) 0 = 0" by (simp add: regs_def)
  then show "\<not> (\<exists>m. Datapath_execute ?m = Some (0, m) \<and> isa_cycle ?m (iDIV 2 0) m)"
    using datapath_implements_isa [OF at] by (simp add: div_undefined_def)
qed

text \<open>SRA is not the arithmetic shift it is named after: the register gets the logical shift,
  so that it has the value of the architecture only when the operand is not negative or not
  shifted at all.\<close>

theorem sra_shifts_logically:
  assumes "at_instr m0 (iSRA rd rt sa)" and "rd \<noteq> 0"
  shows "\<exists>m. Datapath_execute m0 = Some (0, m) \<and>
    regs (m_cpu m) rd = drop_bit (unat sa) (regs (m_cpu m0) rt) \<and>
    (regs (m_cpu m) rd = signed_drop_bit (unat sa) (regs (m_cpu m0) rt) \<longleftrightarrow>
      sa = 0 \<or> 0 \<le> sint (regs (m_cpu m0) rt))"
proof -
  have wf: "wf_machine m0" using assms(1) by (simp add: at_instr_def)
  then have len: "length (cpu_gpr (m_cpu m0)) = 32" using wf_cpuD(1) by (simp add: wf_machine_def)
  let ?M = "loaded (start_cycle m0) (encode (iSRA rd rt sa))" and ?w = "regs (m_cpu m0) rt"
  let ?m = "inc_cycle (advance (set_gpr (unat rd) (drop_bit (unat sa) ?w) ?M))"
  have "Datapath_execute m0 = Some (0, ?m)"
    using cycle_at [OF assms(1)] wf by (simp add: exec_SRA_def set_rd_def operands_encR)
  moreover have "regs (m_cpu ?m) rd = drop_bit (unat sa) ?w"
    using regs_write [OF len, of "m_cpu ?m" rd "drop_bit (unat sa) ?w"] assms(2) by simp
  ultimately show ?thesis using sra_value [of sa ?w] sra_differs [of sa ?w] by fastforce
qed

theorem sra_shifts_logically_witness:
  "\<exists>m. Datapath_execute ((boot [encode (iSRA 2 3 4)])\<lparr>m_cpu := cpu_zero\<lparr>cpu_running := True,
      cpu_gpr := (replicate 32 0)[3 := 0x80000000]\<rparr>\<rparr>) = Some (0, m) \<and>
     regs (m_cpu m) 2 = 0x08000000"
proof -
  let ?c = "cpu_zero\<lparr>cpu_running := True, cpu_gpr := (replicate 32 0)[3 := 0x80000000]\<rparr>"
  let ?m = "(boot [encode (iSRA 2 3 4)])\<lparr>m_cpu := ?c\<rparr>"
  have "wf_machine (boot [encode (iSRA 2 3 4)])" by (rule wf_boot) simp
  moreover have "wf_cpu ?c" using wf_cpu_zero by (simp add: wf_cpu_def N_GPR_def)
  ultimately have "wf_machine ?m" by (simp add: wf_machine_def)
  moreover have "cpu_running (m_cpu ?m)" "link_op ?m = 0"
    "fetch (m_cpu ?m) (m_mem ?m) = Some (Inr (encode (iSRA 2 3 4)))" by code_simp+
  ultimately have at: "at_instr ?m (iSRA 2 3 4)" by (simp only: at_instr_def simp_thms)
  have "regs (m_cpu ?m) 3 = 0x80000000" by code_simp
  then show ?thesis using sra_shifts_logically [OF at] by auto
qed

end
