(* ===== verification/Isa_Mem.thy ===== *)
theory Isa_Mem
  imports Isa_Refine Mem_Props
begin

text \<open>
  The instructions that access the memory, seen from the program: what a cycle at a load, a
  store and the two instructions of an atomic update leaves in the registers and in the memory,
  with the bus granted or not.
\<close>

section \<open>Operands of a memory instruction\<close>

definition ea :: "machine \<Rightarrow> reg \<Rightarrow> u16 \<Rightarrow> u32" where
  "ea m base off = regs (m_cpu m) base + scast off"

text \<open>The request for the bus: the processor gives the number in \<open>K0\<close>.\<close>

definition ask_bus :: "machine \<Rightarrow> int \<times> memctl" where
  "ask_bus m = Mem_busacc (regs (m_cpu m) 26) (m_ctl m)"

lemma mem_operands:
  assumes "wf_machine m0" "take_bit 6 p = p"
  shows "eff_addr (loaded (start_cycle m0) (encI p base rt off)) = ea m0 base off"
    "gpr_rt (loaded (start_cycle m0) (encI p base rt off)) = regs (m_cpu m0) rt"
  by (simp_all only: eff_addr_def operands_encI [OF assms] ea_def)

lemma gpr_K0:
  "wf_machine m0 \<Longrightarrow> gpr (m_cpu (loaded (start_cycle m0) i)) (regno K0) = regs (m_cpu m0) 26"
  using gpr_start [of m0 26] by (simp add: gpr_loaded)

lemma gpr_perfct [simp]: "gpr (c\<lparr>cpu_perfct := p\<rparr>) k = gpr c k"
  by (simp add: gpr_def)

lemma with_bus_loaded:
  assumes "wf_machine m0"
  shows "with_bus fd body (perf_inc f (loaded (start_cycle m0) i)) =
    (let m1 = (perf_inc f (loaded (start_cycle m0) i))\<lparr>m_ctl := snd (ask_bus m0)\<rparr> in
     if fst (ask_bus m0) \<noteq> 0
     then Some (E EBUSY, perf_inc fd (upd_cpu (\<lambda>c. c\<lparr>cpu_dec := (cpu_dec c)\<lparr>dec_stall := True\<rparr>\<rparr>) m1))
     else body m1)"
  using gpr_K0 [OF assms] by (simp add: with_bus_def ask_bus_def case_prod_unfold Let_def)

text \<open>What a cycle at a memory instruction can do to the program: nothing (it is retried), or
  write a register and go on.\<close>

definition retried :: "machine \<Rightarrow> machine \<Rightarrow> bool" where
  "retried m0 m \<longleftrightarrow> regs (m_cpu m) = regs (m_cpu m0) \<and> cpu_pc (m_cpu m) = cpu_pc (m_cpu m0) \<and>
     m_mem m = m_mem m0 \<and> m_io m = m_io m0"

definition next_with :: "machine \<Rightarrow> (reg \<Rightarrow> u32) \<Rightarrow> machine \<Rightarrow> bool" where
  "next_with m0 R m \<longleftrightarrow> regs (m_cpu m) = R \<and> cpu_pc (m_cpu m) = cpu_pc (m_cpu m0) + 4"

definition write_reg :: "reg \<Rightarrow> u32 \<Rightarrow> (reg \<Rightarrow> u32) \<Rightarrow> reg \<Rightarrow> u32" where
  "write_reg r v R = (if r = 0 then R else R(r := v))"

lemma regs_after:
  assumes "wf_machine m0"
  shows "cpu_gpr c = (cpu_gpr (m_cpu m0))[0 := 0] \<Longrightarrow> regs c = regs (m_cpu m0)"
    "cpu_gpr c = (cpu_gpr (m_cpu m0))[0 := 0, unat r := v] \<Longrightarrow> regs c = write_reg r v (regs (m_cpu m0))"
proof -
  have len: "length (cpu_gpr (m_cpu m0)) = 32" using assms wf_cpuD(1) by (simp add: wf_machine_def)
  show "cpu_gpr c = (cpu_gpr (m_cpu m0))[0 := 0] \<Longrightarrow> regs c = regs (m_cpu m0)"
    by (rule regs_clear0 [OF len])
  show "cpu_gpr c = (cpu_gpr (m_cpu m0))[0 := 0, unat r := v] \<Longrightarrow> regs c = write_reg r v (regs (m_cpu m0))"
    unfolding write_reg_def by (rule regs_write [OF len])
qed

lemmas cycle_simps = Let_def set_rt_def advance_def retried_def next_with_def regs_after

section \<open>Properties\<close>

text \<open>LW: the processor asks for the bus; without it the instruction is retried; with it
  the register gets the word at the effective address, and the cycle fails, changing nothing the
  program sees, exactly when the address is not that of a word of the memory.\<close>

theorem lw_cycle:
  assumes "at_instr m0 (iLW rt base off)"
  shows "\<exists>r m. Datapath_execute m0 = Some (r, m) \<and> m_ctl m = snd (ask_bus m0) \<and> m_mem m = m_mem m0 \<and>
    (if fst (ask_bus m0) \<noteq> 0 then r = 0 \<and> dec_stall (m_dec m) \<and> retried m0 m
     else case load_word (m_mem m0) (ucast (ea m0 base off)) of
         None \<Rightarrow> r = -1 \<and> retried m0 m
       | Some w \<Rightarrow> r = 0 \<and> next_with m0 (write_reg rt w (regs (m_cpu m0))) m)"
proof -
  have wf: "wf_machine m0" using assms by (simp add: at_instr_def)
  then have ww: "whole_words (m_mem m0)" by (simp add: wf_machine_def)
  show ?thesis
    using cycle_at [OF assms] isjump_loaded [of "start_cycle m0" "iLW rt base off"]
      Mem_lw_load_word [OF ww, of "ucast (ea m0 base off)"] wf
    by (auto simp: exec_LW_def with_bus_loaded mem_operands cycle_simps split: option.splits)
qed

lemma at_boot:
  assumes "wf_machine (boot [encode a])"
    and "cpu_running (m_cpu (boot [encode a]))" "link_op (boot [encode a]) = 0"
    and "fetch (m_cpu (boot [encode a])) (m_mem (boot [encode a])) = Some (Inr (encode a))"
  shows "at_instr (boot [encode a]) a"
  using assms by (simp add: at_instr_def)

lemma wf_boot1: "wf_machine (boot [w])"
  by (rule wf_boot) simp

theorem lw_cycle_witness:
  "\<exists>r m. Datapath_execute (boot [encode (iLW 2 0 0)]) = Some (r, m) \<and> r = 0 \<and>
     regs (m_cpu m) 2 = 0x8C020000"
proof -
  let ?m = "boot [encode (iLW 2 0 0)]"
  have at: "at_instr ?m (iLW 2 0 0)" by (rule at_boot [OF wf_boot1]) code_simp+
  have "fst (ask_bus ?m) = 0" "load_word (m_mem ?m) (ucast (ea ?m 0 0)) = Some 0x8C020000"
    by code_simp+
  then show ?thesis using lw_cycle [OF at] by (auto simp: next_with_def write_reg_def)
qed

text \<open>SW at an address other than that of the output device: without the bus it is retried;
  with it the word is in the memory, and in a shared memory every reservation of the address has
  ended; a failing store changes nothing the program sees.\<close>

theorem sw_cycle:
  assumes "at_instr m0 (iSW rt base off)" and "ea m0 base off \<noteq> IO_ADDR"
  shows "\<exists>r m. Datapath_execute m0 = Some (r, m) \<and> m_io m = m_io m0 \<and>
    (if fst (ask_bus m0) \<noteq> 0 then r = 0 \<and> dec_stall (m_dec m) \<and> retried m0 m
     else case store_word (m_mem m0) (ucast (ea m0 base off)) (regs (m_cpu m0) rt) of
         None \<Rightarrow> r = -1 \<and> retried m0 m
       | Some mem \<Rightarrow> r = 0 \<and> next_with m0 (regs (m_cpu m0)) m \<and> m_mem m = mem \<and>
           m_ctl m = (if mc_shared (m_ctl m0) then clear_res (ucast (ea m0 base off)) (snd (ask_bus m0))
             else snd (ask_bus m0)))"
proof -
  have wf: "wf_machine m0" using assms by (simp add: at_instr_def)
  then have ww: "whole_words (m_mem m0)" by (simp add: wf_machine_def)
  have sh: "mc_shared (snd (ask_bus m0)) = mc_shared (m_ctl m0)" by (simp add: ask_bus_def)
  let ?a = "ucast (ea m0 base off) :: u64" and ?v = "regs (m_cpu m0) rt"
  have sw: "Mem_sw (m_mem m0) (snd (ask_bus m0)) ?a ?v =
      (let c = (if mc_shared (m_ctl m0) then clear_res ?a (snd (ask_bus m0)) else snd (ask_bus m0)) in
       case store_word (m_mem m0) ?a ?v of
         None \<Rightarrow> Some (E (if ?a \<ge> mem_size (m_mem m0) then EADDRNOTAVAIL else EFAULT), m_mem m0, c)
       | Some mem \<Rightarrow> Some (OK, mem, c))"
    using words.store_defined [OF ww, of ?a ?v] sh
    by (cases "word_ok (m_mem m0) ?a") (auto simp: Mem_sw_ok Mem_sw_error store_word_eq Let_def)
  show ?thesis
    using cycle_at [OF assms(1)] isjump_loaded [of "start_cycle m0" "iSW rt base off"] wf assms(2)
    by (auto simp: exec_SW_def with_bus_loaded mem_operands cycle_simps sw split: option.splits)
qed

theorem sw_cycle_witness:
  "\<exists>r m. Datapath_execute (boot [encode (iSW 0 0 0)]) = Some (r, m) \<and> r = 0 \<and>
     mem_b (m_mem m) = [0, 0, 0, 0]"
proof -
  let ?m = "boot [encode (iSW 0 0 0)]"
  have at: "at_instr ?m (iSW 0 0 0)" by (rule at_boot [OF wf_boot1]) code_simp+
  have "fst (ask_bus ?m) = 0" "ea ?m 0 0 \<noteq> IO_ADDR"
    "store_word (m_mem ?m) (ucast (ea ?m 0 0)) (regs (m_cpu ?m) 0) = Some \<lparr>mem_size = 4, mem_b = [0, 0, 0, 0]\<rparr>"
    by code_simp+
  then show ?thesis using sw_cycle [OF at] by (auto simp: next_with_def)
qed

text \<open>LL: with the bus the register gets the word, and in a shared memory the processor
  holds the reservation of the address, whatever else the cycle did.\<close>

theorem ll_cycle:
  assumes "at_instr m0 (iLL rt base off)" and "fst (ask_bus m0) = 0"
    and "unat (regs (m_cpu m0) 26) < mc_nshr (m_ctl m0)"
  shows "\<exists>r m. Datapath_execute m0 = Some (r, m) \<and> m_mem m = m_mem m0 \<and>
    (mc_shared (m_ctl m0) \<longrightarrow>
       mc_resaddr (m_ctl m) ! unat (regs (m_cpu m0) 26) = ucast (ea m0 base off)) \<and>
    (case load_word (m_mem m0) (ucast (ea m0 base off)) of
       None \<Rightarrow> r = -1 \<and> retried m0 m
     | Some w \<Rightarrow> r = 0 \<and> next_with m0 (write_reg rt w (regs (m_cpu m0))) m)"
proof -
  have wf: "wf_machine m0" using assms by (simp add: at_instr_def)
  then have ww: "whole_words (m_mem m0)" and ctl: "ctl_ok (m_ctl m0)" by (simp_all add: wf_machine_def)
  have bus: "mc_shared (snd (ask_bus m0)) = mc_shared (m_ctl m0)" "mc_nshr (snd (ask_bus m0)) = mc_nshr (m_ctl m0)"
    "mc_resaddr (snd (ask_bus m0)) = mc_resaddr (m_ctl m0)"
    by (simp_all add: ask_bus_def)
  have len: "mc_shared (m_ctl m0) \<Longrightarrow> length (mc_resaddr (m_ctl m0)) = mc_nshr (m_ctl m0)"
    using ctl by (simp add: ctl_ok_def)
  show ?thesis
    using cycle_at [OF assms(1)] isjump_loaded [of "start_cycle m0" "iLL rt base off"] wf assms(2,3) len
      Mem_lw_load_word [OF ww, of "ucast (ea m0 base off)"] gpr_K0 [OF wf, of "encode (iLL rt base off)"]
    by (auto simp: exec_LL_def with_bus_loaded mem_operands cycle_simps Mem_ll_eq bus split: option.splits)
qed

theorem ll_cycle_witness:
  "\<exists>r m. Datapath_execute ((boot [encode (iLL 2 0 0)])\<lparr>m_ctl := bus3\<rparr>) = Some (r, m) \<and>
     mc_resaddr (m_ctl m) ! 0 = 0 \<and> regs (m_cpu m) 2 = 0xC0020000"
proof -
  let ?m = "(boot [encode (iLL 2 0 0)])\<lparr>m_ctl := bus3\<rparr>"
  have "wf_machine ?m" using wf_boot1 [of "encode (iLL 2 0 0)"] by (simp add: wf_machine_def ctl_ok_def bus3_def)
  moreover have "cpu_running (m_cpu ?m)" "link_op ?m = 0"
    "fetch (m_cpu ?m) (m_mem ?m) = Some (Inr (encode (iLL 2 0 0)))" by code_simp+
  ultimately have at: "at_instr ?m (iLL 2 0 0)" by (simp only: at_instr_def simp_thms)
  have e: "fst (ask_bus ?m) = 0" "unat (regs (m_cpu ?m) 26) < mc_nshr (m_ctl ?m)" "mc_shared (m_ctl ?m)"
    "load_word (m_mem ?m) (ucast (ea ?m 0 0)) = Some 0xC0020000" "ea ?m 0 0 = 0" "regs (m_cpu ?m) 26 = 0"
    by code_simp+
  show ?thesis using ll_cycle [OF at e(1,2)] e(3-6) by (auto simp: next_with_def write_reg_def)
qed

text \<open>C26: SC: without the bus the processor stalls and the instruction is retried, the deferral
  counted. With it the cycle does what the memory answers: after a store the register is 1 and the
  next instruction follows; when the reservation was lost it is 0, the memory as it was, and the
  failed read-modify-write counted, and the next instruction follows as well, at once; any other
  error fails the cycle and changes nothing the program sees.\<close>

theorem sc_cycle:
  assumes "at_instr m0 (iSC rt base off)"
  shows "if fst (ask_bus m0) \<noteq> 0
    then \<exists>m. Datapath_execute m0 = Some (0, m) \<and> dec_stall (m_dec m) \<and> retried m0 m \<and> m_ctl m = snd (ask_bus m0) \<and>
      pf_scdefer (cpu_perfct (m_cpu m)) = pf_scdefer (cpu_perfct (m_cpu m0)) + 1
    else case Mem_sc (m_mem m0) (snd (ask_bus m0)) (regs (m_cpu m0) 26) (ucast (ea m0 base off)) (regs (m_cpu m0) rt) of
        None \<Rightarrow> False
      | Some (e, mem, ctl) \<Rightarrow> \<exists>r m. Datapath_execute m0 = Some (r, m) \<and> m_mem m = mem \<and> m_ctl m = ctl \<and>
          (if e = OK then r = 0 \<and> next_with m0 (write_reg rt 1 (regs (m_cpu m0))) m
           else if e = E EAGAIN then r = 0 \<and> mem = m_mem m0 \<and>
             next_with m0 (write_reg rt 0 (regs (m_cpu m0))) m \<and>
             pf_rmwfail (cpu_perfct (m_cpu m)) = pf_rmwfail (cpu_perfct (m_cpu m0)) + 1
           else r = -1 \<and> retried m0 m)"
proof -
  have wf: "wf_machine m0" using assms by (simp add: at_instr_def)
  let ?sc = "Mem_sc (m_mem m0) (snd (ask_bus m0)) (regs (m_cpu m0) 26) (ucast (ea m0 base off)) (regs (m_cpu m0) rt)"
  have same: "?sc = Some (e, mem, ctl) \<Longrightarrow> e \<noteq> OK \<Longrightarrow> mem = m_mem m0" for e mem ctl by (rule store_error_same(3))
  note cycle = cycle_at [OF assms] isjump_loaded [of "start_cycle m0" "iSC rt base off"]
    gpr_K0 [OF wf, of "encode (iSC rt base off)"]
  show ?thesis
  proof (cases "fst (ask_bus m0) = 0")
    case True
    show ?thesis
    proof (cases ?sc)
      case None
      then show ?thesis using no_past_end wf by (simp add: mem_ops_undefined wf_machine_def whole_words_def)
    next
      case (Some q)
      obtain e mem ctl where q: "q = (e, mem, ctl)" by (cases q) auto
      show ?thesis unfolding Some q using cycle wf True Some q same [of e mem ctl]
        by (auto simp: exec_SC_def with_bus_loaded mem_operands cycle_simps inc_cycle_def)
    qed
  next
    case False
    then show ?thesis using cycle wf
      by (auto simp: exec_SC_def with_bus_loaded mem_operands cycle_simps inc_cycle_def)
  qed
qed

theorem sc_cycle_witness:
  "\<exists>r m. Datapath_execute ((boot [encode (iSC 2 0 0)])\<lparr>m_ctl := bus3\<lparr>mc_resaddr := [-1, -1, -1]\<rparr>\<rparr>) =
     Some (r, m) \<and> r = 0 \<and> pf_rmwfail (cpu_perfct (m_cpu m)) = 1"
proof -
  let ?c = "bus3\<lparr>mc_resaddr := [-1, -1, -1]\<rparr>"
  let ?m = "(boot [encode (iSC 2 0 0)])\<lparr>m_ctl := ?c\<rparr>"
  have "wf_machine ?m" using wf_boot1 [of "encode (iSC 2 0 0)"] by (simp add: wf_machine_def ctl_ok_def bus3_def)
  moreover have "cpu_running (m_cpu ?m)" "link_op ?m = 0"
    "fetch (m_cpu ?m) (m_mem ?m) = Some (Inr (encode (iSC 2 0 0)))" by code_simp+
  ultimately have at: "at_instr ?m (iSC 2 0 0)" by (simp only: at_instr_def simp_thms)
  have e: "fst (ask_bus ?m) = 0"
    "Mem_sc (m_mem ?m) (snd (ask_bus ?m)) (regs (m_cpu ?m) 26) (ucast (ea ?m 0 0)) (regs (m_cpu ?m) 2) =
      Some (E EAGAIN, m_mem ?m, snd (ask_bus ?m))" "pf_rmwfail (cpu_perfct (m_cpu ?m)) = 0"
    by code_simp+
  show ?thesis using sc_cycle [OF at] e by auto
qed

end
