(* ===== verification/Bank.thy ===== *)
theory Bank
  imports Prelude "HOL-Library.While_Combinator"
begin

text \<open>
  The loop that both systems (shrmem.c and dstbmem.c, \<open>sim\<close>) run: in every round each processor
  executes one cycle, and \<open>nrun\<close>, the number of processors that still run, is decremented when
  one stops; the loop ends when it is 0. The facts about it are proved once, in a locale that
  states what the loop needs of a processor.
\<close>

section \<open>A while loop whose body may be undefined\<close>

text \<open>
  \<open>loop_opt cond body s\<close> is \<open>None\<close> when the loop does not end, \<open>Some None\<close> when it runs into
  undefined behaviour, and \<open>Some (Some t)\<close> when it ends in state \<open>t\<close>.
\<close>

definition loop_opt :: "('s \<Rightarrow> bool) \<Rightarrow> ('s \<Rightarrow> 's option) \<Rightarrow> 's \<Rightarrow> 's option option" where
  "loop_opt cond body s =
     while_option (\<lambda>x. case x of None \<Rightarrow> False | Some t \<Rightarrow> cond t) (\<lambda>x. Option.bind x body) (Some s)"

lemma loop_opt_unfold:
  "loop_opt cond body s =
     (if cond s then (case body s of None \<Rightarrow> Some None | Some t \<Rightarrow> loop_opt cond body t) else Some (Some s))"
proof (cases "cond s")
  case True
  then have "loop_opt cond body s =
      while_option (\<lambda>x. case x of None \<Rightarrow> False | Some t \<Rightarrow> cond t) (\<lambda>x. Option.bind x body) (body s)"
    unfolding loop_opt_def by (subst while_option_unfold) simp
  then show ?thesis
    using True by (cases "body s") (simp_all add: loop_opt_def while_option_unfold)
qed (simp add: loop_opt_def while_option_unfold)

text \<open>A loop that ends leaves its condition false and its invariant true.\<close>

lemma loop_opt_ends:
  assumes "loop_opt cond body s = Some (Some t)" and "P s"
    and "\<And>u v. P u \<Longrightarrow> cond u \<Longrightarrow> body u = Some v \<Longrightarrow> P v"
  shows "\<not> cond t \<and> P t"
proof -
  let ?Q = "\<lambda>x. case x of None \<Rightarrow> True | Some u \<Rightarrow> P u"
  note w = assms(1) [unfolded loop_opt_def]
  have "\<not> cond t" using while_option_stop [OF w] by simp
  moreover have "?Q (Some t)"
    by (rule while_option_rule [OF _ w]) (use assms(2,3) in \<open>auto split: option.splits simp: Option.bind_eq_Some_conv\<close>)
  ultimately show ?thesis by simp
qed

text \<open>A loop with an invariant under which the condition is true does not end.\<close>

lemma loop_opt_never_ends:
  assumes "P s" and "\<And>u. P u \<Longrightarrow> cond u" and "\<And>u v. P u \<Longrightarrow> body u = Some v \<Longrightarrow> P v"
  shows "loop_opt cond body s \<noteq> Some (Some t)"
  using loop_opt_ends [of cond body s t P] assms by blast

text \<open>If moreover the body is always defined, the loop runs for ever.\<close>

lemma loop_opt_diverges:
  assumes "P s" and "\<And>u. P u \<Longrightarrow> cond u" and "\<And>u. P u \<Longrightarrow> \<exists>v. body u = Some v \<and> P v"
  shows "loop_opt cond body s = None"
proof (rule ccontr)
  assume "loop_opt cond body s \<noteq> None"
  then obtain x where w: "while_option (\<lambda>x. case x of None \<Rightarrow> False | Some t \<Rightarrow> cond t)
      (\<lambda>x. Option.bind x body) (Some s) = Some x"
    by (auto simp: loop_opt_def)
  have "\<exists>u. x = Some u \<and> P u"
    by (rule while_option_rule [OF _ w]) (use assms(1,3) in fastforce)+
  with while_option_stop [OF w] assms(2) show False by auto
qed

section \<open>A round of a bank of processors\<close>

text \<open>
  One iteration of the \<open>for\<close> loop: processor \<open>i\<close> executes a cycle; if that succeeds and the
  processor does not run any more, it is not counted any more.
\<close>

definition count_turn ::
  "(nat \<Rightarrow> 's \<Rightarrow> (int \<times> 's) option) \<Rightarrow> (nat \<Rightarrow> 's \<Rightarrow> bool) \<Rightarrow> nat \<Rightarrow> 's \<times> u64 \<Rightarrow> ('s \<times> u64) option"
where
  "count_turn step running i x = (case step i (fst x) of
       None \<Rightarrow> None
     | Some (r, s) \<Rightarrow> Some (s, if r \<noteq> 0 then snd x else if \<not> running i s then snd x - 1 else snd x))"

definition run_round ::
  "(nat \<Rightarrow> 's \<Rightarrow> (int \<times> 's) option) \<Rightarrow> (nat \<Rightarrow> 's \<Rightarrow> bool) \<Rightarrow> nat \<Rightarrow> 's \<times> u64 \<Rightarrow> ('s \<times> u64) option"
where
  "run_round step running n x = mfold (count_turn step running) [0..<n] x"

text \<open>
  What the loop needs of a processor: a stopped processor fails without doing anything, a cycle
  that fails does not stop the processor, and no processor starts or stops another one.
\<close>

locale processor_bank =
  fixes step :: "nat \<Rightarrow> 's \<Rightarrow> (int \<times> 's) option"
    and running :: "nat \<Rightarrow> 's \<Rightarrow> bool"
    and cpus :: "'s \<Rightarrow> nat"
    and inv :: "'s \<Rightarrow> bool"
  assumes step_inv: "inv s \<Longrightarrow> i < cpus s \<Longrightarrow> step i s = Some (r, s') \<Longrightarrow> inv s' \<and> cpus s' = cpus s"
    and stopped: "inv s \<Longrightarrow> i < cpus s \<Longrightarrow> \<not> running i s \<Longrightarrow> \<exists>r. r \<noteq> 0 \<and> step i s = Some (r, s)"
    and failed: "inv s \<Longrightarrow> i < cpus s \<Longrightarrow> step i s = Some (r, s') \<Longrightarrow> r \<noteq> 0 \<Longrightarrow> running i s' = running i s"
    and others: "inv s \<Longrightarrow> i < cpus s \<Longrightarrow> step i s = Some (r, s') \<Longrightarrow> j \<noteq> i \<Longrightarrow> running j s' = running j s"
begin

definition live :: "'s \<Rightarrow> nat set" where
  "live s = {i. i < cpus s \<and> running i s}"

definition counted :: "'s \<times> u64 \<Rightarrow> bool" where
  "counted x \<longleftrightarrow> inv (fst x) \<and> unat (snd x) = card (live (fst x))"

lemma live_finite [simp]: "finite (live s)"
  by (simp add: live_def)

lemma turn_counted:
  assumes "counted x" and "i < cpus (fst x)" and "count_turn step running i x = Some y"
  shows "counted y \<and> cpus (fst y) = cpus (fst x) \<and> live (fst y) \<subseteq> live (fst x)"
proof -
  obtain s n where x: "x = (s, n)" by fastforce
  obtain r s' where st: "step i s = Some (r, s')"
    and y: "y = (s', if r \<noteq> 0 then n else if \<not> running i s' then n - 1 else n)"
    using assms(3) x by (auto simp: count_turn_def split: option.splits)
  have i: "i < cpus s" and inv: "inv s" and n: "unat n = card (live s)"
    using assms x by (auto simp: counted_def)
  note s' = step_inv [OF inv i st]
  have oth: "j \<noteq> i \<Longrightarrow> running j s' = running j s" for j using others [OF inv i st] by blast
  show ?thesis
  proof (cases "r = 0 \<and> \<not> running i s'")
    case True
    with stopped [OF inv i] st have run: "running i s" by auto
    then have mem: "i \<in> live s" using i by (simp add: live_def)
    have "running j s' \<longleftrightarrow> running j s \<and> j \<noteq> i" for j using True oth by (cases "j = i") auto
    then have "live s' = live s - {i}" using s' by (auto simp: live_def)
    moreover have "unat (n - 1) = card (live s) - 1"
    proof -
      have "0 < card (live s)" using mem live_finite by (auto simp: card_gt_0_iff)
      then have "n \<noteq> 0" using n by auto
      then show ?thesis using n by (simp add: unat_minus_one)
    qed
    ultimately show ?thesis using True y s' mem x by (auto simp: counted_def)
  next
    case False
    then have "running i s' = running i s"
      using failed [OF inv i st] stopped [OF inv i] st by (cases "r = 0") auto
    then have "running j s' = running j s" for j using oth by (cases "j = i") auto
    then have "live s' = live s" using s' by (simp add: live_def)
    with False y s' n x show ?thesis by (auto simp: counted_def)
  qed
qed

text \<open>The count is right after every round, and processors only stop.\<close>

lemma round_counted:
  assumes "counted x" and "run_round step running (cpus (fst x)) x = Some y"
  shows "counted y \<and> cpus (fst y) = cpus (fst x) \<and> live (fst y) \<subseteq> live (fst x)"
proof -
  let ?P = "\<lambda>z. counted z \<and> cpus (fst z) = cpus (fst x) \<and> live (fst z) \<subseteq> live (fst x)"
  show ?thesis
    using assms(2)[unfolded run_round_def]
  proof (rule mfold_invariant)
    fix i z z'
    assume "i \<in> set [0..<cpus (fst x)]" and z: "?P z" and t: "count_turn step running i z = Some z'"
    then have "i < cpus (fst z)" by simp
    with turn_counted [OF _ this t] z show "?P z'" by auto
  qed (simp add: assms(1))
qed

text \<open>What every processor keeps, every round keeps.\<close>

lemma round_keeps:
  assumes "run_round step running (cpus (fst x)) x = Some y" and "inv (fst x)" and "Q (fst x)"
    and "\<And>i s r s'. i < cpus s \<Longrightarrow> inv s \<Longrightarrow> Q s \<Longrightarrow> step i s = Some (r, s') \<Longrightarrow> Q s'"
  shows "Q (fst y)"
proof -
  have "inv (fst y) \<and> Q (fst y) \<and> cpus (fst y) = cpus (fst x)"
    using assms(1)[unfolded run_round_def]
  proof (rule mfold_invariant)
    fix i z z'
    assume z: "i \<in> set [0..<cpus (fst x)]" "inv (fst z) \<and> Q (fst z) \<and> cpus (fst z) = cpus (fst x)"
      "count_turn step running i z = Some z'"
    then obtain r where "step i (fst z) = Some (r, fst z')"
      by (auto simp: count_turn_def split: option.splits)
    moreover have "i < cpus (fst z)" using z by simp
    ultimately show "inv (fst z') \<and> Q (fst z') \<and> cpus (fst z') = cpus (fst x)"
      using z(2) step_inv assms(4) by metis
  qed (use assms(2,3) in simp)
  then show ?thesis by simp
qed

lemma none_live: "counted x \<Longrightarrow> snd x = 0 \<Longrightarrow> i < cpus (fst x) \<Longrightarrow> \<not> running i (fst x)"
  by (auto simp: counted_def live_def)

lemma live_nrun: "counted x \<Longrightarrow> i < cpus (fst x) \<Longrightarrow> running i (fst x) \<Longrightarrow> snd x > 0"
  by (auto simp: counted_def live_def word_gt_0)

end

end
