(* ===== verification/ShrMem.thy ===== *)
theory ShrMem
  imports Cycle Bank Progld
begin

text \<open>
  The shared-memory system (shrmem.c): processors with one memory behind one bus, the simulation
  loop and \<open>ShrMem_run\<close>. The text of the counters printed at the end (\<open>perfct\<close>) is in theory
  \<open>Report\<close>; the unmapping of the program is left out.
\<close>

section \<open>The system\<close>

record shr =
  sh_cpu :: "CPU list"
  sh_mem :: Mem
  sh_ctl :: memctl
  sh_io :: io

text \<open>The machine that \<open>Datapath_execute(&cpu[i], mem)\<close> works on.\<close>

definition shr_machine :: "shr \<Rightarrow> nat \<Rightarrow> machine" where
  "shr_machine s i = \<lparr>m_cpu = sh_cpu s ! i, m_mem = sh_mem s, m_ctl = sh_ctl s, m_io = sh_io s\<rparr>"

definition put_machine :: "nat \<Rightarrow> machine \<Rightarrow> shr \<Rightarrow> shr" where
  "put_machine i m s = s\<lparr>sh_cpu := (sh_cpu s)[i := m_cpu m], sh_mem := m_mem m, sh_ctl := m_ctl m,
     sh_io := m_io m\<rparr>"

definition shr_step :: "nat \<Rightarrow> shr \<Rightarrow> (int \<times> shr) option" where
  "shr_step i s = (case Datapath_execute (shr_machine s i) of
     None \<Rightarrow> None | Some (r, m) \<Rightarrow> Some (r, put_machine i m s))"

definition shr_running :: "nat \<Rightarrow> shr \<Rightarrow> bool" where
  "shr_running i s = cpu_running (sh_cpu s ! i)"

text \<open>The body of the \<open>while\<close> loop: the state and \<open>nrun\<close>.\<close>

definition shr_round :: "shr \<times> u64 \<Rightarrow> (shr \<times> u64) option" where
  "shr_round x = (let s = (fst x)\<lparr>sh_ctl := Mem_busclr (sh_ctl (fst x))\<rparr> in
     run_round shr_step shr_running (length (sh_cpu s)) (s, snd x))"

definition sim :: "shr \<Rightarrow> (shr \<times> u64) option option" where
  "sim s = loop_opt (\<lambda>x. snd x > 0) shr_round (s, of_nat (length (sh_cpu s)))"

text \<open>
  \<open>ShrMem_run\<close>: -1 when a part cannot be made or the program not loaded, the value of \<open>sim\<close>, 0,
  and the final state otherwise. \<open>cpu_ok\<close> and \<open>al\<close> are the answers of the allocator.
\<close>

definition ShrMem_run ::
  "u64 \<Rightarrow> u64 \<Rightarrow> u64 \<Rightarrow> u8 list \<Rightarrow> bool \<Rightarrow> mem_alloc \<Rightarrow> io \<Rightarrow> (int \<times> shr option) option option"
where
  "ShrMem_run ncpu memsz entry elf cpu_ok al io =
     (case CPU_create (ucast ncpu) (ucast entry) cpu_ok of
        Inl e \<Rightarrow> Some (Some (-1, None))
      | Inr cpu \<Rightarrow>
       (case Mem_create memsz (unat ncpu) al memctl0 of
          (Inl e, ctl) \<Rightarrow> Some (Some (-1, None))
        | (Inr mem, ctl) \<Rightarrow>
         (case Mem_progld mem elf of
            None \<Rightarrow> Some None
          | Some (E e, mem) \<Rightarrow> Some (Some (-1, None))
          | Some (OK, mem) \<Rightarrow>
              map_option (map_option (\<lambda>x. (0, Some (fst x))))
                (sim \<lparr>sh_cpu = cpu, sh_mem = mem, sh_ctl = ctl, sh_io = io\<rparr>))))"

section \<open>The loop as a bank of processors\<close>

definition shr_wf :: "shr \<Rightarrow> bool" where
  "shr_wf s \<longleftrightarrow> (\<forall>c\<in>set (sh_cpu s). wf_cpu c) \<and> whole_words (sh_mem s) \<and> ctl_ok (sh_ctl s)"

lemma shr_wf_machine: "shr_wf s \<Longrightarrow> i < length (sh_cpu s) \<Longrightarrow> wf_machine (shr_machine s i)"
  by (simp add: shr_wf_def wf_machine_def shr_machine_def)

lemma shr_wf_busclr [simp]:
  "shr_wf (s\<lparr>sh_ctl := Mem_busclr (sh_ctl s)\<rparr>) = shr_wf s"
  by (simp add: shr_wf_def ctl_ok_def Mem_busclr_def)

lemma put_machine_parts [simp]:
  "length (sh_cpu (put_machine i m s)) = length (sh_cpu s)" "sh_mem (put_machine i m s) = m_mem m"
  "sh_ctl (put_machine i m s) = m_ctl m"
  "i < length (sh_cpu s) \<Longrightarrow> sh_cpu (put_machine i m s) ! i = m_cpu m"
  "j \<noteq> i \<Longrightarrow> sh_cpu (put_machine i m s) ! j = sh_cpu s ! j"
  by (simp_all add: put_machine_def)

lemma shr_step_Some:
  assumes "shr_step i s = Some (r, s')"
  obtains m where "Datapath_execute (shr_machine s i) = Some (r, m)" "s' = put_machine i m s"
  using assms by (auto simp: shr_step_def split: option.splits)

lemma shr_put_wf:
  assumes "shr_wf s" "wf_machine m"
  shows "shr_wf (put_machine i m s)"
  using assms by (auto simp: shr_wf_def wf_machine_def put_machine_def dest!: subsetD [OF set_update_subset_insert])

interpretation shr: processor_bank shr_step shr_running "\<lambda>s. length (sh_cpu s)" shr_wf
proof unfold_locales
  fix s i r s' assume s: "shr_wf s" "i < length (sh_cpu s)"
  note wf = shr_wf_machine [OF s]
  { assume "\<not> shr_running i s"
    then have "Datapath_execute (shr_machine s i) = Some (-1, shr_machine s i)"
      by (intro Datapath_stopped) (simp add: shr_running_def shr_machine_def)
    then show "\<exists>r. r \<noteq> 0 \<and> shr_step i s = Some (r, s)"
      by (simp add: shr_step_def put_machine_def shr_machine_def) }
  assume "shr_step i s = Some (r, s')"
  then obtain m where m: "Datapath_execute (shr_machine s i) = Some (r, m)" "s' = put_machine i m s"
    by (rule shr_step_Some)
  show "shr_wf s' \<and> length (sh_cpu s') = length (sh_cpu s)"
    using shr_put_wf [OF s(1) Datapath_wf(1) [OF wf m(1)]] m(2) by simp
  show "r \<noteq> 0 \<Longrightarrow> shr_running i s' = shr_running i s"
    using Datapath_failed_running [OF wf m(1)] m(2) s(2) by (simp add: shr_running_def shr_machine_def)
  show "j \<noteq> i \<Longrightarrow> shr_running j s' = shr_running j s" for j
    using m(2) by (simp add: shr_running_def)
qed

lemma shr_round_counted:
  assumes "shr.counted x" and "shr_round x = Some y"
  shows "shr.counted y \<and> length (sh_cpu (fst y)) = length (sh_cpu (fst x))"
proof -
  let ?x = "((fst x)\<lparr>sh_ctl := Mem_busclr (sh_ctl (fst x))\<rparr>, snd x)"
  have "shr.counted ?x" using assms(1) by (simp add: shr.counted_def shr.live_def shr_running_def)
  moreover have "run_round shr_step shr_running (length (sh_cpu (fst ?x))) ?x = Some y"
    using assms(2) by (simp add: shr_round_def Let_def)
  ultimately show ?thesis using shr.round_counted [of ?x y] by simp
qed

lemma shr_start_counted:
  assumes "shr_wf s" and "\<forall>c\<in>set (sh_cpu s). cpu_running c" and "length (sh_cpu s) < 2 ^ 64"
  shows "shr.counted (s, of_nat (length (sh_cpu s)))"
proof -
  have "shr.live s = {0..<length (sh_cpu s)}"
    using assms(2) by (auto simp: shr.live_def shr_running_def)
  then show ?thesis using assms(1,3) by (simp add: shr.counted_def unsigned_of_nat take_bit_nat_eq_self)
qed

section \<open>What the loader and the constructors establish\<close>

lemma progld_loop_keeps:
  "progld_loop elf ph n m = Some (r, m') \<Longrightarrow> mem_size m' = mem_size m \<and> length (mem_b m') = length (mem_b m)"
proof (induction n arbitrary: ph m)
  case (Suc n)
  then show ?case
    by (auto simp: Option.bind_eq_Some_conv split: if_splits dest!: Suc.IH dest: copy_bytes_length)
qed simp

lemma Mem_progld_keeps:
  assumes "Mem_progld m elf = Some (r, m')" "whole_words m"
  shows "whole_words m'" "mem_size m' = mem_size m"
proof -
  from assms(1) obtain z ph n where z: "set_zero (unat (mem_size m)) (mem_b m) = Some z"
    "progld_loop elf ph n (m\<lparr>mem_b := z\<rparr>) = Some (r, m')"
    by (auto simp: Mem_progld_def Option.bind_eq_Some_conv)
  have "length z = length (mem_b m)" using z(1) by (auto simp: set_zero_def split: if_splits)
  with progld_loop_keeps [OF z(2)] assms(2) show "whole_words m'" "mem_size m' = mem_size m"
    by (simp_all add: whole_words_def wf_mem_def)
qed

text \<open>What the allocator owes: blocks of the sizes that were asked for.\<close>

definition alloc_ok :: "u64 \<Rightarrow> nat \<Rightarrow> mem_alloc \<Rightarrow> bool" where
  "alloc_ok sz nshr al \<longleftrightarrow> (\<forall>d. al_data al = Some d \<longrightarrow> length d = unat sz) \<and>
     (\<forall>r. al_resaddr al = Some r \<longrightarrow> length r = nshr)"

lemma Mem_create_ok:
  assumes "Mem_create sz nshr al memctl0 = (Inr m, ctl)" "alloc_ok sz nshr al" "4 dvd unat sz"
  shows "whole_words m" "ctl_ok ctl" "mem_size m = sz"
  using assms by (auto simp: Mem_create_def alloc_ok_def whole_words_def wf_mem_def ctl_ok_def memctl0_def Let_def
      split: if_splits option.splits)

lemma CPU_create_wf:
  assumes "CPU_create n pc ok = Inr cs"
  shows "\<forall>c\<in>set cs. wf_cpu c \<and> cpu_running c" "length cs = unat n"
  using assms wf_cpu_zero by (auto simp: CPU_create_def wf_cpu_def split: if_splits)

lemma u64_to_u32: "unat n < 2 ^ 32 \<Longrightarrow> unat (ucast n :: u32) = unat n" for n :: u64
  by (simp add: unsigned_ucast_eq take_bit_nat_eq_self)

section \<open>Properties\<close>

text \<open>C22: In every round of the simulation, whatever the programs do, \<open>nrun\<close> is the number of
  processors that still run: it is decremented once for each processor that stops, never below 0,
  and the loop condition \<open>nrun > 0\<close> means that some processor runs.\<close>

theorem nrun_counts_running:
  assumes "shr_wf (fst x)" and "unat (snd x) = card {i. i < length (sh_cpu (fst x)) \<and> shr_running i (fst x)}"
    and "shr_round x = Some y"
  shows "shr_wf (fst y) \<and> unat (snd y) = card {i. i < length (sh_cpu (fst y)) \<and> shr_running i (fst y)}"
  using shr_round_counted [of x y] assms by (simp add: shr.counted_def shr.live_def)

text \<open>When \<open>ShrMem_run\<close> returns 0, every one of the processors asked for has executed WAIT:
  none is running any more.\<close>

theorem ShrMem_run_all_stopped:
  assumes "ShrMem_run ncpu memsz entry elf cpu_ok al io = Some (Some (0, Some s))"
    and "unat ncpu < 2 ^ 32" and "4 dvd unat memsz" and "alloc_ok memsz (unat ncpu) al"
  shows "length (sh_cpu s) = unat ncpu \<and> (\<forall>c\<in>set (sh_cpu s). \<not> cpu_running c) \<and> shr_wf s"
proof -
  from assms(1) obtain cpu mem ctl mem' x where
    cpu: "CPU_create (ucast ncpu) (ucast entry) cpu_ok = Inr cpu"
    and mem: "Mem_create memsz (unat ncpu) al memctl0 = (Inr mem, ctl)"
    and ld: "Mem_progld mem elf = Some (OK, mem')"
    and sim: "sim \<lparr>sh_cpu = cpu, sh_mem = mem', sh_ctl = ctl, sh_io = io\<rparr> = Some (Some x)" "s = fst x"
    by (auto simp: ShrMem_run_def split: sum.splits option.splits prod.splits retcode.splits)
  let ?s = "\<lparr>sh_cpu = cpu, sh_mem = mem', sh_ctl = ctl, sh_io = io\<rparr>"
  let ?n = "length cpu"
  have n: "?n = unat ncpu" using CPU_create_wf(2) [OF cpu] u64_to_u32 [OF assms(2)] by simp
  have "shr_wf ?s"
    using CPU_create_wf(1) [OF cpu] Mem_progld_keeps [OF ld Mem_create_ok(1) [OF mem assms(4,3)]]
      Mem_create_ok(2) [OF mem assms(4,3)] by (simp add: shr_wf_def)
  then have start: "shr.counted (?s, of_nat ?n)"
    using shr_start_counted [of ?s] CPU_create_wf(1) [OF cpu] n assms(2) by simp
  let ?P = "\<lambda>x. shr.counted x \<and> length (sh_cpu (fst x)) = ?n"
  have "\<not> snd x > 0 \<and> ?P x"
    using sim(1)[unfolded sim_def]
  proof (rule loop_opt_ends [where P = ?P])
    show "?P v" if "?P u" "shr_round u = Some v" for u v
      using shr_round_counted [of u v] that by simp
  qed (use start in simp)
  then have x: "snd x = 0" "shr.counted x" "length (sh_cpu s) = ?n"
    using sim(2) by (simp_all add: word_gt_0)
  with shr.none_live [OF x(2,1)] sim(2) n show ?thesis
    by (auto simp: shr.counted_def shr_running_def in_set_conv_nth)
qed

text \<open>An executable image of one instruction, loaded at address 0, and an allocator that has all
  that is asked for.\<close>

definition elf_one :: "u32 \<Rightarrow> u8 list" where
  "elf_one w = replicate 28 0 @ elf_word 48 @ replicate 12 0 @ [1, 0, 0, 0] @
     concat (map elf_word [1, 80, 0, 0, 4, 4, 5, 0]) @ elf_word w"

definition al16 :: "nat \<Rightarrow> mem_alloc" where
  "al16 n = \<lparr>al_resaddr = Some (replicate n 0), al_arr = True, al_mutex = True, al_mem = True,
     al_data = Some (replicate 16 7)\<rparr>"

definition no_io :: io where
  "no_io = \<lparr>io_in = [], io_out = []\<rparr>"

theorem ShrMem_run_all_stopped_witness:
  "\<exists>s. ShrMem_run 2 16 0 (elf_one 0x42000020) True (al16 2) no_io = Some (Some (0, Some s)) \<and>
     length (sh_cpu s) = 2 \<and> (\<forall>c\<in>set (sh_cpu s). \<not> cpu_running c)"
proof -
  have "(case ShrMem_run 2 16 0 (elf_one 0x42000020) True (al16 2) no_io of
      Some (Some (r, Some s)) \<Rightarrow> r = 0 | _ \<Rightarrow> False)"
    by code_simp
  then obtain s where s: "ShrMem_run 2 16 0 (elf_one 0x42000020) True (al16 2) no_io = Some (Some (0, Some s))"
    by (auto split: option.splits)
  have "alloc_ok 16 (unat (2 :: u64)) (al16 2)" by (simp add: alloc_ok_def al16_def)
  with ShrMem_run_all_stopped [OF s] s show ?thesis by simp
qed

theorem nrun_counts_running_witness:
  "\<exists>y. shr_round (\<lparr>sh_cpu = [cpu_zero\<lparr>cpu_running := True\<rparr>, cpu_zero], sh_mem = \<lparr>mem_size = 4, mem_b = elf_word 0x42000020\<rparr>,
      sh_ctl = memctl0, sh_io = no_io\<rparr>, 1) = Some y \<and>
     unat (snd y) = card {i. i < length (sh_cpu (fst y)) \<and> shr_running i (fst y)}"
proof -
  let ?s = "\<lparr>sh_cpu = [cpu_zero\<lparr>cpu_running := True\<rparr>, cpu_zero], sh_mem = \<lparr>mem_size = 4, mem_b = elf_word 0x42000020\<rparr>,
      sh_ctl = memctl0, sh_io = no_io\<rparr>"
  have "shr_round (?s, 1) \<noteq> None" by code_simp
  then obtain y where y: "shr_round (?s, 1) = Some y" by auto
  have wf: "shr_wf ?s" by code_simp
  have "i < length (sh_cpu ?s) \<and> shr_running i ?s \<longleftrightarrow> i = 0" for i :: nat
    by (auto simp: shr_running_def cpu_zero_def less_Suc_eq)
  then have "{i. i < length (sh_cpu ?s) \<and> shr_running i ?s} = {0}" by simp
  then have "unat (1 :: u64) = card {i. i < length (sh_cpu ?s) \<and> shr_running i ?s}" by simp
  then show ?thesis using nrun_counts_running [of "(?s, 1)" y] wf y by simp
qed

text \<open>An instruction that the decoder or the switch does not know.\<close>

definition illegal :: "u32 \<Rightarrow> bool" where
  "illegal i \<longleftrightarrow> fst (decode (dec0\<lparr>dec_raw := i\<rparr>)) \<noteq> 0 \<or> map_of switch_table (sign_of i) = None"

lemma illegal_step:
  assumes "cpu_running (m_cpu m0)" "link_op m0 = 0" "fetch (m_cpu m0) (m_mem m0) = Some (Inr i)" "illegal i"
  shows "\<exists>m. Datapath_execute m0 = Some (-1, m) \<and> cpu_running (m_cpu m) \<and> link_op m = 0 \<and>
    fetch (m_cpu m) (m_mem m) = Some (Inr i) \<and> cpu_pc (m_cpu m) = cpu_pc (m_cpu m0) \<and> m_mem m = m_mem m0"
proof -
  have f: "fetch (m_cpu (start_cycle m0)) (m_mem (start_cycle m0)) = Some (Inr i)"
    using assms(3) by (simp add: fetch_def)
  have keep: "cpu_running (m_cpu (inc_cycle (loaded (start_cycle m0) i)))"
    "link_op (inc_cycle (loaded (start_cycle m0) i)) = 0"
    "fetch (m_cpu (inc_cycle (loaded (start_cycle m0) i))) (m_mem (inc_cycle (loaded (start_cycle m0) i))) = Some (Inr i)"
    using assms(1-3) by (simp_all add: link_op_def fetch_def)
  show ?thesis
  proof (cases "decodable (start_cycle m0) i")
    case True
    then have "map_of switch_table (sign_of i) = None" using assms(4) by (simp add: illegal_def decodable_eq)
    then have "execute (loaded (start_cycle m0) i) = Some (E ENOTSUP, loaded (start_cycle m0) i)"
      by (simp add: execute_def loaded_sign)
    then show ?thesis using assms f keep True by (simp add: Datapath_execute_eq Let_def)
  next
    case False
    then show ?thesis using assms f keep by (simp add: Datapath_execute_eq Let_def)
  qed
qed

text \<open>A processor at such an instruction, and the moves of the system: a cycle of a processor, or the
  clearing of the bus between two rounds.\<close>

definition at_illegal :: "nat \<Rightarrow> u32 \<Rightarrow> shr \<Rightarrow> bool" where
  "at_illegal i w s \<longleftrightarrow> cpu_running (sh_cpu s ! i) \<and> link_op (shr_machine s i) = 0 \<and>
     fetch (sh_cpu s ! i) (sh_mem s) = Some (Inr w) \<and> illegal w"

definition shr_move :: "shr \<Rightarrow> shr \<Rightarrow> bool" where
  "shr_move s t \<longleftrightarrow> (\<exists>j r. j < length (sh_cpu s) \<and> shr_step j s = Some (r, t)) \<or> t = s\<lparr>sh_ctl := Mem_busclr (sh_ctl s)\<rparr>"

lemma illegal_turn:
  assumes "at_illegal i w s" "i < length (sh_cpu s)" "shr_step i s = Some (r, t)"
  shows "at_illegal i w t \<and> cpu_pc (sh_cpu t ! i) = cpu_pc (sh_cpu s ! i) \<and> sh_mem t = sh_mem s"
proof -
  have "\<exists>m. Datapath_execute (shr_machine s i) = Some (-1, m) \<and> cpu_running (m_cpu m) \<and> link_op m = 0 \<and>
      fetch (m_cpu m) (m_mem m) = Some (Inr w) \<and> cpu_pc (m_cpu m) = cpu_pc (m_cpu (shr_machine s i)) \<and>
      m_mem m = m_mem (shr_machine s i)"
    using assms(1) by (intro illegal_step) (simp_all add: at_illegal_def shr_machine_def)
  then show ?thesis using assms by (auto simp: at_illegal_def shr_step_def shr_machine_def link_op_def)
qed

lemma illegal_other_turn:
  assumes "at_illegal i w s" "j \<noteq> i" "shr_step j s = Some (r, t)" "fetch (sh_cpu s ! i) (sh_mem t) = Some (Inr w)"
  shows "at_illegal i w t \<and> sh_cpu t ! i = sh_cpu s ! i"
  using assms by (auto simp: at_illegal_def shr_machine_def link_op_def elim!: shr_step_Some)

text \<open>Stuck at the instruction as long as the others leave its word alone.\<close>

lemma illegal_move:
  assumes "at_illegal i w s" "i < length (sh_cpu s)" "shr_move s t" "fetch (sh_cpu s ! i) (sh_mem t) = Some (Inr w)"
  shows "at_illegal i w t \<and> cpu_pc (sh_cpu t ! i) = cpu_pc (sh_cpu s ! i) \<and> length (sh_cpu t) = length (sh_cpu s)"
proof -
  consider j r where "j < length (sh_cpu s)" "shr_step j s = Some (r, t)" | "t = s\<lparr>sh_ctl := Mem_busclr (sh_ctl s)\<rparr>"
    using assms(3) by (auto simp: shr_move_def)
  then show ?thesis
  proof cases
    case (1 j r)
    then have "length (sh_cpu t) = length (sh_cpu s)" by (auto elim!: shr_step_Some)
    then show ?thesis using illegal_turn [OF assms(1,2)] illegal_other_turn [OF assms(1) _ 1(2) assms(4)] 1(2)
      by (cases "j = i") auto
  next
    case 2
    then show ?thesis using assms(1) by (simp add: at_illegal_def shr_machine_def link_op_def)
  qed
qed

lemma fetch_pc: "cpu_pc c = cpu_pc c' \<Longrightarrow> fetch c m = fetch c' m"
  by (simp add: fetch_def)

lemma illegal_moves:
  assumes "shr_move\<^sup>*\<^sup>* s t" "at_illegal i w s" "i < length (sh_cpu s)"
    and "\<forall>t. shr_move\<^sup>*\<^sup>* s t \<longrightarrow> fetch (sh_cpu s ! i) (sh_mem t) = Some (Inr w)"
  shows "at_illegal i w t \<and> cpu_pc (sh_cpu t ! i) = cpu_pc (sh_cpu s ! i) \<and> length (sh_cpu t) = length (sh_cpu s)"
  using assms(1)
proof (induction rule: rtranclp_induct)
  case base
  show ?case using assms(2) by simp
next
  case (step t u)
  then have "fetch (sh_cpu t ! i) (sh_mem u) = Some (Inr w)"
    using assms(4) rtranclp.rtrancl_into_rtrancl [OF step.hyps] fetch_pc by metis
  then show ?case using illegal_move [of i w t u] step assms(3) by simp
qed

lemma round_moves:
  assumes "shr_round (s, n) = Some y" "shr_wf s"
  shows "shr_move\<^sup>*\<^sup>* s (fst y)"
proof -
  let ?t = "s\<lparr>sh_ctl := Mem_busclr (sh_ctl s)\<rparr>"
  have "run_round shr_step shr_running (length (sh_cpu (fst (?t, n)))) (?t, n) = Some y"
    using assms(1) by (simp add: shr_round_def Let_def)
  then show ?thesis
  proof (rule shr.round_keeps [where Q = "\<lambda>t. shr_move\<^sup>*\<^sup>* s t"])
    show "shr_move\<^sup>*\<^sup>* s (fst (?t, n))" by (simp add: shr_move_def r_into_rtranclp)
    show "shr_move\<^sup>*\<^sup>* s u" if "j < length (sh_cpu t)" "shr_move\<^sup>*\<^sup>* s t" "shr_step j t = Some (r, u)" for j t r u
      using that(2) by (rule rtranclp.rtrancl_into_rtrancl) (use that in \<open>auto simp: shr_move_def\<close>)
  qed (use assms(2) in simp)
qed

text \<open>C32: An illegal instruction is not an end of the simulation: with any number of processors, once
  one of them is at an instruction that the decoder or the switch does not know, and the others
  store no other word in its place, in whatever order they take their turns, the loop of \<open>sim\<close> does not
  end: the processor fails in every round and stays counted among those that run. (The word is the only
  thing asked of the others; they may run any program, and stop or not.)\<close>

theorem illegal_instruction_hangs:
  assumes "shr_wf s" and "unat n = card {j. j < length (sh_cpu s) \<and> shr_running j s}"
    and "i < length (sh_cpu s)" and "at_illegal i w s"
    and "\<forall>t. shr_move\<^sup>*\<^sup>* s t \<longrightarrow> fetch (sh_cpu s ! i) (sh_mem t) = Some (Inr w)"
  shows "loop_opt (\<lambda>x. snd x > 0) shr_round (s, n) \<noteq> Some (Some x)"
proof -
  let ?P = "\<lambda>x. shr.counted x \<and> shr_move\<^sup>*\<^sup>* s (fst x)"
  have stuck: "i < length (sh_cpu (fst u)) \<and> shr_running i (fst u)" if "?P u" for u
    using illegal_moves [of s "fst u" i w] that assms(3-5) by (simp add: at_illegal_def shr_running_def)
  have "?P v" if u: "?P u" and v: "shr_round u = Some v" for u v
    using shr_round_counted [of u v] round_moves [of "fst u" "snd u" v] u v
    by (auto simp: shr.counted_def intro: rtranclp_trans)
  moreover have "?P (s, n)" using assms(1,2) by (simp add: shr.counted_def shr.live_def)
  moreover have "snd u > 0" if "?P u" for u
    using that shr.live_nrun [of u i] stuck by blast
  ultimately show ?thesis by (intro loop_opt_never_ends [where P = ?P]) blast+
qed

text \<open>Two processors, both at the illegal instruction: nobody stores anything.\<close>

lemma all_illegal_moves:
  assumes "shr_move\<^sup>*\<^sup>* s t" "\<forall>j<length (sh_cpu s). at_illegal j w s"
  shows "sh_mem t = sh_mem s \<and> length (sh_cpu t) = length (sh_cpu s) \<and> (\<forall>j<length (sh_cpu t). at_illegal j w t)"
  using assms(1)
proof (induction rule: rtranclp_induct)
  case base
  show ?case using assms(2) by simp
next
  case (step t u)
  have mem: "sh_mem u = sh_mem t"
    using step.hyps(2) step.IH illegal_turn unfolding shr_move_def by (elim disjE exE conjE) (metis, simp)
  have "at_illegal j w u \<and> length (sh_cpu u) = length (sh_cpu t)" if "j < length (sh_cpu t)" for j
    using illegal_move [of j w t u] step that mem by (auto simp: at_illegal_def)
  moreover have "length (sh_cpu u) = length (sh_cpu t)"
    using step.hyps(2) by (auto simp: shr_move_def elim!: shr_step_Some)
  ultimately show ?case using step.IH mem by simp
qed

theorem illegal_instruction_hangs_witness:
  "\<forall>x. sim \<lparr>sh_cpu = [cpu_zero\<lparr>cpu_running := True\<rparr>, cpu_zero\<lparr>cpu_running := True\<rparr>],
     sh_mem = \<lparr>mem_size = 4, mem_b = elf_word 0x00000009\<rparr>, sh_ctl = memctl0, sh_io = no_io\<rparr> \<noteq> Some (Some x)"
proof
  let ?s = "\<lparr>sh_cpu = [cpu_zero\<lparr>cpu_running := True\<rparr>, cpu_zero\<lparr>cpu_running := True\<rparr>],
     sh_mem = \<lparr>mem_size = 4, mem_b = elf_word 0x00000009\<rparr>, sh_ctl = memctl0, sh_io = no_io\<rparr>"
  have "sign_of 0x00000009 = 9" by code_simp
  then have "illegal 0x00000009" by (simp add: illegal_def switch_table_def)
  moreover have "link_op (shr_machine ?s 0) = 0" "link_op (shr_machine ?s 1) = 0"
    "fetch (sh_cpu ?s ! 0) (sh_mem ?s) = Some (Inr 0x00000009)" "fetch (sh_cpu ?s ! 1) (sh_mem ?s) = Some (Inr 0x00000009)"
    by code_simp+
  ultimately have ill: "\<forall>j<length (sh_cpu ?s). at_illegal j 0x00000009 ?s"
    by (auto simp: at_illegal_def less_Suc_eq)
  have wf: "shr_wf ?s" by code_simp
  have run: "\<forall>c\<in>set (sh_cpu ?s). cpu_running c" by simp
  have "shr.counted (?s, of_nat (length (sh_cpu ?s)))" using shr_start_counted [OF wf run] by simp
  then have n: "unat (of_nat (length (sh_cpu ?s)) :: u64) = card {j. j < length (sh_cpu ?s) \<and> shr_running j ?s}"
    by (simp only: shr.counted_def shr.live_def fst_conv snd_conv)
  have kept: "\<forall>t. shr_move\<^sup>*\<^sup>* ?s t \<longrightarrow> fetch (sh_cpu ?s ! 0) (sh_mem t) = Some (Inr 0x00000009)"
    using all_illegal_moves [OF _ ill] ill by (auto simp: at_illegal_def)
  have i: "0 < length (sh_cpu ?s)" by simp
  show "sim ?s \<noteq> Some (Some x)" for x
    unfolding sim_def by (rule illegal_instruction_hangs [OF wf n i _ kept]) (use ill i in blast)
qed

text \<open>A processor that waits for the network keeps waiting: no other part of the system touches
  its link.\<close>

definition waits :: "nat \<Rightarrow> shr \<Rightarrow> bool" where
  "waits i s \<longleftrightarrow> cpu_running (sh_cpu s ! i) \<and> link_op (shr_machine s i) \<noteq> 0"

lemma waits_step:
  assumes "shr_wf s" "j < length (sh_cpu s)" "i < length (sh_cpu s)" "waits i s" "shr_step j s = Some (r, s')"
  shows "waits i s'"
proof -
  obtain m where m: "Datapath_execute (shr_machine s j) = Some (r, m)" "s' = put_machine j m s"
    using assms(5) by (rule shr_step_Some)
  show ?thesis
  proof (cases "j = i")
    case True
    have w: "cpu_running (m_cpu (shr_machine s j))" "link_op (shr_machine s j) \<noteq> 0"
      using assms(4) True by (simp_all add: waits_def shr_machine_def)
    from m(1) have "cpu_running (m_cpu m) \<and> link_op m \<noteq> 0"
      by (cases rule: Datapath_execute_cases) (use w in \<open>auto simp: link_op_def\<close>)
    then show ?thesis using True m(2) assms(3) by (simp add: waits_def shr_machine_def link_op_def)
  next
    case False
    then show ?thesis using assms(4) m(2) by (simp add: waits_def shr_machine_def link_op_def)
  qed
qed

text \<open>The network instructions have no place in the shared-memory system: as soon as one
  processor has executed INPUT, OUTPUT or ALT it waits for a network that is not there, and
  \<open>sim\<close> never returns, whatever the other processors do.\<close>

theorem network_instruction_hangs:
  assumes "shr_wf s" and "\<forall>c\<in>set (sh_cpu s). cpu_running c" and "length (sh_cpu s) < 2 ^ 64"
    and "i < length (sh_cpu s)" and "link_op (shr_machine s i) \<noteq> 0"
  shows "sim s \<noteq> Some (Some x)"
proof -
  let ?P = "\<lambda>x. shr.counted x \<and> i < length (sh_cpu (fst x)) \<and> waits i (fst x)"
  have "?P v" if u: "?P u" and v: "shr_round u = Some v" for u v
  proof -
    let ?t = "(fst u)\<lparr>sh_ctl := Mem_busclr (sh_ctl (fst u))\<rparr>"
    have t: "shr_wf ?t" "i < length (sh_cpu ?t) \<and> waits i ?t"
      using u by (auto simp: shr.counted_def waits_def shr_machine_def link_op_def)
    have "run_round shr_step shr_running (length (sh_cpu (fst (?t, snd u)))) (?t, snd u) = Some v"
      using v by (simp add: shr_round_def Let_def)
    then have "i < length (sh_cpu (fst v)) \<and> waits i (fst v)"
    proof (rule shr.round_keeps [where Q = "\<lambda>s. i < length (sh_cpu s) \<and> waits i s"])
      show "i < length (sh_cpu s') \<and> waits i s'"
        if "j < length (sh_cpu s)" "shr_wf s" "i < length (sh_cpu s) \<and> waits i s" "shr_step j s = Some (r, s')" for j s r s'
        using waits_step [of s j i r s'] shr.step_inv [of s j r s'] that by simp
    qed (use t in simp_all)
    then show ?thesis using shr_round_counted [of u v] u v by simp
  qed
  moreover have "?P (s, of_nat (length (sh_cpu s)))"
    using shr_start_counted [OF assms(1-3)] assms(2,4,5) by (simp add: waits_def)
  moreover have "snd u > 0" if "?P u" for u
    using that shr.live_nrun [of u i] by (simp add: waits_def shr_running_def)
  ultimately show ?thesis unfolding sim_def by (intro loop_opt_never_ends [where P = ?P]) blast+
qed

theorem network_instruction_hangs_witness:
  "\<forall>x. sim \<lparr>sh_cpu = [cpu_zero\<lparr>cpu_running := True, cpu_cop2 := [[0, 0, 1, 0, 0, 0]]\<rparr>],
     sh_mem = \<lparr>mem_size = 0, mem_b = []\<rparr>, sh_ctl = memctl0, sh_io = no_io\<rparr> \<noteq> Some (Some x)"
proof
  let ?s = "\<lparr>sh_cpu = [cpu_zero\<lparr>cpu_running := True, cpu_cop2 := [[0, 0, 1, 0, 0, 0]]\<rparr>],
     sh_mem = \<lparr>mem_size = 0, mem_b = []\<rparr>, sh_ctl = memctl0, sh_io = no_io\<rparr>"
  have "shr_wf ?s" "link_op (shr_machine ?s 0) \<noteq> 0" by code_simp+
  then show "sim ?s \<noteq> Some (Some x)" for x
    by (intro network_instruction_hangs [where i = 0]) simp_all
qed

end
