(* ===== verification/BusUse.thy ===== *)
theory BusUse
  imports ShrMem
begin

text \<open>
  The bus in the running system: what a whole round of processors does to the bus controller,
  under any programs.
\<close>

section \<open>The controller during an instruction\<close>

text \<open>
  An instruction touches the controller only by asking for the bus and by making or ending
  reservations.
\<close>

definition ctl_closed :: "(memctl \<Rightarrow> bool) \<Rightarrow> bool" where
  "ctl_closed P \<longleftrightarrow> (\<forall>c p. P c \<longrightarrow> P (snd (Mem_busacc p c))) \<and> (\<forall>c a. P c \<longrightarrow> P (clear_res a c)) \<and>
     (\<forall>c i a. P c \<longrightarrow> P (c\<lparr>mc_resaddr := (mc_resaddr c)[i := a]\<rparr>))"

lemma ctl_closedD:
  assumes "ctl_closed P" "P c"
  shows "P (snd (Mem_busacc p c))" "P (clear_res a c)" "P (c\<lparr>mc_resaddr := (mc_resaddr c)[i := a]\<rparr>)"
  using assms by (simp_all add: ctl_closed_def)

definition keeps_ctl :: "(memctl \<Rightarrow> bool) \<Rightarrow> handler \<Rightarrow> bool" where
  "keeps_ctl P h \<longleftrightarrow> (\<forall>m r m'. P (m_ctl m) \<longrightarrow> h m = Some (r, m') \<longrightarrow> P (m_ctl m'))"

text \<open>The other instructions touch neither the controller nor the memory.\<close>

definition no_access :: "handler \<Rightarrow> bool" where
  "no_access h \<longleftrightarrow> (\<forall>m r m'. h m = Some (r, m') \<longrightarrow> m_ctl m' = m_ctl m \<and> m_mem m' = m_mem m)"

lemma alu_no_access:
  "no_access exec_SLL" "no_access exec_SRA" "no_access exec_SLLV" "no_access exec_JR"
    "no_access exec_MOVZ" "no_access exec_MOVN" "no_access exec_MFHI" "no_access exec_MFLO"
    "no_access exec_MULT" "no_access exec_DIV" "no_access exec_ADDU" "no_access exec_SUBU"
    "no_access exec_AND" "no_access exec_OR" "no_access exec_XOR" "no_access exec_SLT"
    "no_access exec_MUL" "no_access exec_EXT" "no_access exec_BLTZ" "no_access exec_BGEZ"
    "no_access exec_BEQ" "no_access exec_BNE" "no_access exec_BLEZ" "no_access exec_BGTZ"
    "no_access exec_J" "no_access exec_JAL" "no_access exec_ADDIU" "no_access exec_SLTI"
    "no_access exec_SLTIU" "no_access exec_ANDI" "no_access exec_ORI" "no_access exec_XORI"
    "no_access exec_LUI" "no_access exec_WAIT" "no_access exec_MFC2" "no_access exec_MTC2"
    "no_access exec_COP2"
  by (auto simp: no_access_def handler_defs Let_def set_rd_def set_rt_def branch_if_def
      split: if_splits sum.splits prod.splits)

lemma no_access_keeps: "no_access h \<Longrightarrow> keeps_ctl P h"
  by (auto simp: no_access_def keeps_ctl_def)

lemmas alu_keeps_ctl = alu_no_access [THEN no_access_keeps]

lemma with_bus_keeps_ctl:
  assumes "ctl_closed P" "P (m_ctl m)" "with_bus f body m = Some (r, m')"
    and "\<And>m1 r m'. P (m_ctl m1) \<Longrightarrow> body m1 = Some (r, m') \<Longrightarrow> P (m_ctl m')"
  shows "P (m_ctl m')"
proof (cases "fst (Mem_busacc (gpr (m_cpu m) (regno K0)) (m_ctl m)) = 0")
  case True
  then have "body (m\<lparr>m_ctl := snd (Mem_busacc (gpr (m_cpu m) (regno K0)) (m_ctl m))\<rparr>) = Some (r, m')"
    using assms(3) by (simp add: with_bus_def Let_def split: prod.splits)
  then show ?thesis by (rule assms(4) [rotated]) (simp add: ctl_closedD(1) [OF assms(1,2)])
next
  case False
  then have "m_ctl m' = snd (Mem_busacc (gpr (m_cpu m) (regno K0)) (m_ctl m))"
    using assms(3) by (auto simp: with_bus_def Let_def split: prod.splits)
  then show ?thesis by (simp only: ctl_closedD(1) [OF assms(1,2)])
qed

lemma stores_keep_ctl:
  assumes "ctl_closed P"
  shows "Mem_sw m c a v = Some (r, m', c') \<Longrightarrow> P c \<Longrightarrow> P c'"
    "Mem_sc m c p a v = Some (r, m', c') \<Longrightarrow> P c \<Longrightarrow> P c'"
    "Mem_ll m c p a = Some (x, c') \<Longrightarrow> P c \<Longrightarrow> P c'"
  using ctl_closedD [OF assms, of c]
  by (auto simp: Mem_sw_def Mem_sc_def Mem_ll_def Let_def split: if_splits)

lemma memory_keeps_ctl:
  assumes "ctl_closed P"
  shows "keeps_ctl P exec_LB" "keeps_ctl P exec_LW" "keeps_ctl P exec_SB" "keeps_ctl P exec_SW"
    "keeps_ctl P exec_LL" "keeps_ctl P exec_SC"
  unfolding keeps_ctl_def exec_LB_def exec_LW_def exec_SB_def exec_SW_def exec_LL_def exec_SC_def Let_def
  by (auto simp: get_char_def set_rt_def split: if_splits option.splits sum.splits list.splits
      elim!: with_bus_keeps_ctl [OF assms, rotated])
    (erule (1) stores_keep_ctl [OF assms])+

lemma execute_keeps_ctl:
  assumes "ctl_closed P"
  shows "keeps_ctl P execute"
proof -
  have "\<forall>(l, h)\<in>set switch_table. keeps_ctl P h"
    using alu_keeps_ctl memory_keeps_ctl [OF assms] by (simp add: switch_table_def)
  then show ?thesis
    unfolding keeps_ctl_def execute_def by (auto split: option.splits dest!: map_of_SomeD)
qed

lemma Datapath_keeps_ctl:
  assumes "ctl_closed P" "Datapath_execute m0 = Some (r, m)" "P (m_ctl m0)"
  shows "P (m_ctl m)"
proof -
  have *: "P (m_ctl m2)" if "execute (loaded (start_cycle m0) i) = Some (e, m2)" for i e m2
  proof -
    have "P (m_ctl (loaded (start_cycle m0) i))" using assms(3) by simp
    with that execute_keeps_ctl [OF assms(1)] show ?thesis unfolding keeps_ctl_def by blast
  qed
  from assms(2) show ?thesis
    by (cases rule: Datapath_execute_cases) (use assms(3) in \<open>auto dest: *\<close>)
qed

section \<open>Which processor uses the bus\<close>















section \<open>A round\<close>






section \<open>Properties\<close>



end
