(* ===== verification/Link.thy ===== *)
theory Link
  imports Prelude
begin

text \<open>
  The links of the network (net.c, \<open>link_insmsg\<close> and \<open>link_remmsg\<close>; net.h, \<open>struct Msg\<close> and
  \<open>struct Link\<close>) as the code has them: messages in a heap, chained by their \<open>nxt\<close> pointers,
  with a head pointer, a tail pointer that is not cleared when the link becomes empty, and a
  length. They are shown to be bounded first-in first-out queues, which is how the rest of the
  network model uses them.
\<close>

section \<open>Messages and links\<close>

definition LINK_BUFSZ :: nat where "LINK_BUFSZ = 4"

record Msg =
  msg_to :: u16
  msg_from :: u16
  msg_data :: u32
  msg_hops :: u32
  msg_ack :: bool

text \<open>An allocated message: its fields, and the pointer to the next one (\<open>None\<close> is NULL).\<close>

record cell =
  c_msg :: Msg
  c_nxt :: "nat option"

type_synonym heap = "nat \<Rightarrow> cell option"

record Link =
  lk_hd :: "nat option"
  lk_tl :: "nat option"
  lk_len :: u64

text \<open>\<open>p->nxt = q\<close>; undefined when \<open>p\<close> is not an allocated message.\<close>

definition set_nxt :: "nat \<Rightarrow> nat option \<Rightarrow> heap \<Rightarrow> heap option" where
  "set_nxt p q h = map_option (\<lambda>c. h(p \<mapsto> c\<lparr>c_nxt := q\<rparr>)) (h p)"

definition ptr_insmsg :: "nat \<Rightarrow> heap \<times> Link \<Rightarrow> (int \<times> heap \<times> Link) option" where
  "ptr_insmsg msg x = (let (h, l) = x in
     if lk_len l = of_nat LINK_BUFSZ then Some (-1, h, l)
     else if lk_len l > 0 then do {
       t \<leftarrow> lk_tl l;
       h1 \<leftarrow> set_nxt t (Some msg) h;
       h2 \<leftarrow> set_nxt msg None h1;
       Some (0, h2, l\<lparr>lk_tl := Some msg, lk_len := lk_len l + 1\<rparr>)
     }
     else Some (0, h, l\<lparr>lk_hd := Some msg, lk_tl := Some msg, lk_len := lk_len l + 1\<rparr>))"

definition ptr_remmsg :: "heap \<times> Link \<Rightarrow> (nat option \<times> heap \<times> Link) option" where
  "ptr_remmsg x = (let (h, l) = x in
     case lk_hd l of
       None \<Rightarrow> Some (None, h, l)
     | Some msg \<Rightarrow> do {
         c \<leftarrow> h msg;
         h1 \<leftarrow> set_nxt msg None h;
         Some (Some msg, h1, l\<lparr>lk_hd := c_nxt c, lk_len := lk_len l - 1\<rparr>)
       })"

section \<open>The queue in the heap\<close>

text \<open>\<open>chain h ps\<close>: the cells at \<open>ps\<close> are linked in this order and the last has no successor.\<close>

fun chain :: "heap \<Rightarrow> nat list \<Rightarrow> bool" where
  "chain h [] = True"
| "chain h [p] = (\<exists>c. h p = Some c \<and> c_nxt c = None)"
| "chain h (p # q # ps) = ((\<exists>c. h p = Some c \<and> c_nxt c = Some q) \<and> chain h (q # ps))"

definition link_holds :: "heap \<Rightarrow> Link \<Rightarrow> nat list \<Rightarrow> bool" where
  "link_holds h l ps \<longleftrightarrow> chain h ps \<and> distinct ps \<and> length ps \<le> LINK_BUFSZ \<and>
     lk_len l = of_nat (length ps) \<and> lk_hd l = (if ps = [] then None else Some (hd ps)) \<and>
     (ps \<noteq> [] \<longrightarrow> lk_tl l = Some (last ps))"

text \<open>A message that is in no link: allocated, with no successor.\<close>

definition detached :: "heap \<Rightarrow> nat \<Rightarrow> bool" where
  "detached h p \<longleftrightarrow> (\<exists>c. h p = Some c \<and> c_nxt c = None)"

lemma chain_cong: "(\<And>p. p \<in> set ps \<Longrightarrow> h' p = h p) \<Longrightarrow> chain h' ps = chain h ps"
  by (induction h ps rule: chain.induct) auto

lemma chain_append1:
  "chain h ps \<Longrightarrow> ps \<noteq> [] \<Longrightarrow> distinct ps \<Longrightarrow> m \<notin> set ps \<Longrightarrow> h m = Some cm \<Longrightarrow> last ps = t \<Longrightarrow> h t = Some ct \<Longrightarrow>
     chain (h(t \<mapsto> ct\<lparr>c_nxt := Some m\<rparr>, m \<mapsto> cm\<lparr>c_nxt := None\<rparr>)) (ps @ [m])"
proof (induction h ps rule: chain.induct)
  case (3 h p q ps)
  let ?h = "h(t \<mapsto> ct\<lparr>c_nxt := Some m\<rparr>, m \<mapsto> cm\<lparr>c_nxt := None\<rparr>)"
  have "chain ?h ((q # ps) @ [m])" by (rule 3(1)) (use 3(2-) in simp_all)
  moreover have "t \<in> set (q # ps)" using 3(7) last_in_set [of "q # ps"] by simp
  then have "?h p = h p" using 3(4,5) by auto
  ultimately show ?case using 3(2) by (simp del: fun_upd_apply)
qed auto

lemma chain_last: "chain h ps \<Longrightarrow> ps \<noteq> [] \<Longrightarrow> \<exists>c. h (last ps) = Some c \<and> c_nxt c = None"
  by (induction h ps rule: chain.induct) auto

lemma chain_tl: "chain h (p # ps) \<Longrightarrow> chain h ps \<and> (\<exists>c. h p = Some c \<and> c_nxt c = (if ps = [] then None else Some (hd ps)))"
  by (cases ps) auto

lemma link_holds_len: "link_holds h l ps \<Longrightarrow> (lk_len l = of_nat LINK_BUFSZ) = (length ps = LINK_BUFSZ) \<and> (lk_len l > 0) = (ps \<noteq> [])"
proof -
  assume "link_holds h l ps"
  then have n: "lk_len l = of_nat (length ps)" "length ps \<le> 4" by (auto simp: link_holds_def LINK_BUFSZ_def)
  then have u: "unat (lk_len l) = length ps" by (simp add: unsigned_of_nat take_bit_nat_eq_self)
  then show ?thesis by (auto simp: LINK_BUFSZ_def word_unat_eq_iff word_gt_0)
qed

text \<open>The two operations on a link that holds a queue.\<close>

lemma ptr_insmsg_holds:
  assumes "link_holds h l ps" "detached h m" "m \<notin> set ps" "length ps < LINK_BUFSZ"
  shows "\<exists>h' l'. ptr_insmsg m (h, l) = Some (0, h', l') \<and> link_holds h' l' (ps @ [m]) \<and>
    (\<forall>p. p \<notin> set ps \<longrightarrow> p \<noteq> m \<longrightarrow> h' p = h p) \<and> (\<forall>p. map_option c_msg (h' p) = map_option c_msg (h p))"
proof (cases "ps = []")
  case True
  then show ?thesis
    using assms link_holds_len [OF assms(1)]
    by (auto simp: ptr_insmsg_def link_holds_def detached_def LINK_BUFSZ_def)
next
  case False
  obtain ct where ct: "h (last ps) = Some ct"
    using assms(1) False chain_last by (fastforce simp: link_holds_def)
  obtain cm where cm: "h m = Some cm" using assms(2) by (auto simp: detached_def)
  let ?h = "h(last ps \<mapsto> ct\<lparr>c_nxt := Some m\<rparr>, m \<mapsto> cm\<lparr>c_nxt := None\<rparr>)"
  let ?l = "l\<lparr>lk_tl := Some m, lk_len := lk_len l + 1\<rparr>"
  have neq: "last ps \<noteq> m" "last ps \<in> set ps" using False assms(3) by auto
  have "ptr_insmsg m (h, l) = Some (0, ?h, ?l)"
    using assms(1,4) False link_holds_len [OF assms(1)] ct cm neq(1)
    by (auto simp: ptr_insmsg_def set_nxt_def link_holds_def)
  moreover have "link_holds ?h ?l (ps @ [m])"
    using assms(1,3,4) False chain_append1 [OF _ False _ assms(3) cm refl ct] by (simp add: link_holds_def)
  moreover have "\<forall>p. p \<notin> set ps \<longrightarrow> p \<noteq> m \<longrightarrow> ?h p = h p" using neq(2) by auto
  moreover have "\<forall>p. map_option c_msg (?h p) = map_option c_msg (h p)" using ct cm by simp
  ultimately show ?thesis by blast
qed

lemma ptr_insmsg_full:
  "link_holds h l ps \<Longrightarrow> length ps = LINK_BUFSZ \<Longrightarrow> ptr_insmsg m (h, l) = Some (-1, h, l)"
  by (simp add: ptr_insmsg_def link_holds_len)

lemma ptr_remmsg_holds:
  assumes "link_holds h l (m # ps)"
  shows "\<exists>h' l'. ptr_remmsg (h, l) = Some (Some m, h', l') \<and> link_holds h' l' ps \<and> detached h' m \<and>
    (\<forall>p. p \<noteq> m \<longrightarrow> h' p = h p) \<and> (\<forall>p. map_option c_msg (h' p) = map_option c_msg (h p))"
proof -
  obtain c where c: "h m = Some c" "c_nxt c = (if ps = [] then None else Some (hd ps))" "chain h ps"
    using assms chain_tl by (fastforce simp: link_holds_def)
  let ?h = "h(m \<mapsto> c\<lparr>c_nxt := None\<rparr>)" and ?l = "l\<lparr>lk_hd := c_nxt c, lk_len := lk_len l - 1\<rparr>"
  have "ptr_remmsg (h, l) = Some (Some m, ?h, ?l)"
    using assms c by (simp add: ptr_remmsg_def set_nxt_def link_holds_def)
  moreover have "chain ?h ps"
  proof -
    have "m \<notin> set ps" using assms by (simp add: link_holds_def)
    then have "?h p = h p" if "p \<in> set ps" for p using that by auto
    then show ?thesis using chain_cong c(3) by blast
  qed
  then have "link_holds ?h ?l ps" using assms c(2) by (auto simp: link_holds_def)
  ultimately show ?thesis using c(1) by (intro exI [of _ ?h] exI [of _ ?l]) (simp add: detached_def)
qed

lemma ptr_remmsg_empty: "link_holds h l [] \<Longrightarrow> ptr_remmsg (h, l) = Some (None, h, l)"
  by (simp add: ptr_remmsg_def link_holds_def)

section \<open>A bounded queue of messages\<close>

text \<open>The contract of a link: a queue of at most \<open>cap\<close> messages.\<close>

locale bounded_queue =
  fixes ins :: "'m \<Rightarrow> 's \<Rightarrow> (int \<times> 's) option"
    and rem :: "'s \<Rightarrow> ('m option \<times> 's) option"
    and holds :: "'s \<Rightarrow> 'm list \<Rightarrow> bool"
    and free :: "'s \<Rightarrow> 'm \<Rightarrow> bool"
    and cap :: nat
  assumes ins_ok: "holds s q \<Longrightarrow> free s m \<Longrightarrow> m \<notin> set q \<Longrightarrow> length q < cap \<Longrightarrow>
      \<exists>s'. ins m s = Some (0, s') \<and> holds s' (q @ [m]) \<and> (\<forall>n. free s n \<longrightarrow> n \<noteq> m \<longrightarrow> n \<notin> set q \<longrightarrow> free s' n)"
    and ins_full: "holds s q \<Longrightarrow> length q = cap \<Longrightarrow> ins m s = Some (-1, s)"
    and rem_ok: "holds s (m # q) \<Longrightarrow> \<exists>s'. rem s = Some (Some m, s') \<and> holds s' q \<and> free s' m \<and>
      (\<forall>n. free s n \<longrightarrow> n \<noteq> m \<longrightarrow> free s' n)"
    and rem_empty: "holds s [] \<Longrightarrow> rem s = Some (None, s)"
    and bounded: "holds s q \<Longrightarrow> length q \<le> cap"
begin

text \<open>Inserting a list of messages, and removing as many.\<close>

fun ins_all :: "'m list \<Rightarrow> 's \<Rightarrow> 's option" where
  "ins_all [] s = Some s"
| "ins_all (m # ms) s = (case ins m s of Some (r, s') \<Rightarrow> if r = 0 then ins_all ms s' else None | None \<Rightarrow> None)"

fun rem_n :: "nat \<Rightarrow> 's \<Rightarrow> ('m list \<times> 's) option" where
  "rem_n 0 s = Some ([], s)"
| "rem_n (Suc n) s = (case rem s of
     Some (Some m, s') \<Rightarrow> map_option (\<lambda>(ms, t). (m # ms, t)) (rem_n n s')
   | _ \<Rightarrow> None)"

lemma ins_all_holds:
  "holds s q \<Longrightarrow> \<forall>m\<in>set ms. free s m \<Longrightarrow> distinct (q @ ms) \<Longrightarrow> length q + length ms \<le> cap \<Longrightarrow>
     \<exists>s'. ins_all ms s = Some s' \<and> holds s' (q @ ms)"
proof (induction ms arbitrary: s q)
  case (Cons m ms)
  then obtain s' where s': "ins m s = Some (0, s')" "holds s' (q @ [m])"
    "\<forall>n. free s n \<longrightarrow> n \<noteq> m \<longrightarrow> n \<notin> set q \<longrightarrow> free s' n"
    using ins_ok [of s q m] by auto
  have "\<forall>n\<in>set ms. free s' n" using s'(3) Cons.prems(2,3) by auto
  with Cons.IH [OF s'(2)] Cons.prems(3,4) s'(1) show ?case by auto
qed simp

lemma rem_n_holds:
  "holds s (ms @ q) \<Longrightarrow> \<exists>s'. rem_n (length ms) s = Some (ms, s') \<and> holds s' q"
proof (induction ms arbitrary: s)
  case (Cons m ms)
  then obtain s' where "rem s = Some (Some m, s')" "holds s' (ms @ q)"
    using rem_ok [of s m "ms @ q"] by auto
  with Cons.IH show ?case by fastforce
qed simp

text \<open>First in, first out.\<close>

lemma fifo:
  assumes "holds s q" "\<forall>m\<in>set ms. free s m" "distinct (q @ ms)" "length q + length ms \<le> cap"
  shows "\<exists>t u. ins_all ms s = Some t \<and> rem_n (length q + length ms) t = Some (q @ ms, u) \<and> holds u []"
proof -
  obtain t where t: "ins_all ms s = Some t" "holds t (q @ ms)" using ins_all_holds [OF assms] by blast
  obtain u where "rem_n (length (q @ ms)) t = Some (q @ ms, u)" "holds u []"
    using rem_n_holds [of t "q @ ms" "[]"] t(2) by auto
  with t(1) show ?thesis by auto
qed

end

interpretation link: bounded_queue ptr_insmsg ptr_remmsg "\<lambda>x. link_holds (fst x) (snd x)" "\<lambda>x. detached (fst x)" LINK_BUFSZ
proof unfold_locales
  fix x :: "heap \<times> Link" and q m
  assume x: "link_holds (fst x) (snd x) q"
  then show "length q \<le> LINK_BUFSZ" by (simp add: link_holds_def)
  show "length q = LINK_BUFSZ \<Longrightarrow> ptr_insmsg m x = Some (- 1, x)"
    using ptr_insmsg_full [OF x] by simp
  assume "detached (fst x) m" "m \<notin> set q" "length q < LINK_BUFSZ"
  from ptr_insmsg_holds [OF x this] show "\<exists>s'. ptr_insmsg m x = Some (0, s') \<and>
      link_holds (fst s') (snd s') (q @ [m]) \<and>
      (\<forall>n. detached (fst x) n \<longrightarrow> n \<noteq> m \<longrightarrow> n \<notin> set q \<longrightarrow> detached (fst s') n)"
    by (fastforce simp: detached_def)
next
  fix x :: "heap \<times> Link" and q m
  assume x: "link_holds (fst x) (snd x) (m # q)"
  from ptr_remmsg_holds [OF x] show "\<exists>s'. ptr_remmsg x = Some (Some m, s') \<and> link_holds (fst s') (snd s') q \<and>
      detached (fst s') m \<and> (\<forall>n. detached (fst x) n \<longrightarrow> n \<noteq> m \<longrightarrow> detached (fst s') n)"
    by (fastforce simp: detached_def)
next
  fix x :: "heap \<times> Link"
  assume "link_holds (fst x) (snd x) []"
  then show "ptr_remmsg x = Some (None, x)" using ptr_remmsg_empty by (cases x) simp
qed

section \<open>Properties of a link\<close>

text \<open>Three allocated messages that are in no link, and the empty link.\<close>

definition heap3 :: heap where
  "heap3 = (\<lambda>p. if p < 3 then Some \<lparr>c_msg = \<lparr>msg_to = 0, msg_from = of_nat p, msg_data = 0, msg_hops = 0,
     msg_ack = False\<rparr>, c_nxt = None\<rparr> else None)"

definition link0 :: Link where
  "link0 = \<lparr>lk_hd = None, lk_tl = None, lk_len = 0\<rparr>"

lemma heap3_ok: "link_holds heap3 link0 []" "p < 3 \<Longrightarrow> detached heap3 p"
  by (simp_all add: link_holds_def link0_def detached_def heap3_def)

text \<open>C28: \<open>link_insmsg\<close> puts a message that is in no link at the end of the queue, unless the link
  is full, when it returns -1 and changes nothing; either way no pointer it follows is invalid,
  the contents of all messages stay, and so do the pointers of the messages outside the link.\<close>

theorem link_insmsg_appends:
  assumes "link_holds h l ps" and "detached h m" and "m \<notin> set ps"
  shows "if length ps = LINK_BUFSZ then ptr_insmsg m (h, l) = Some (-1, h, l)
    else \<exists>h' l'. ptr_insmsg m (h, l) = Some (0, h', l') \<and> link_holds h' l' (ps @ [m]) \<and>
      (\<forall>p. p \<notin> set ps \<longrightarrow> p \<noteq> m \<longrightarrow> h' p = h p) \<and>
      (\<forall>p. map_option c_msg (h' p) = map_option c_msg (h p))"
proof (cases "length ps = LINK_BUFSZ")
  case True
  then show ?thesis using ptr_insmsg_full [OF assms(1)] by simp
next
  case False
  then have "length ps < LINK_BUFSZ" using assms(1) by (simp add: link_holds_def)
  with ptr_insmsg_holds [OF assms] False show ?thesis by simp
qed

theorem link_insmsg_appends_witness:
  "\<exists>h' l'. ptr_insmsg 1 (heap3, link0) = Some (0, h', l') \<and> link_holds h' l' [1]"
  using link_insmsg_appends [OF heap3_ok(1) heap3_ok(2) [of 1]] by (auto simp: LINK_BUFSZ_def)

text \<open>A link is first-in first-out: messages inserted one after the other into a link, as many
  as it has room for, come out of \<open>link_remmsg\<close> in the order of their insertion, behind those that
  were there, and leave the link empty, its stale tail pointer notwithstanding.\<close>

theorem link_fifo:
  assumes "link_holds h l ps" and "\<forall>m\<in>set ms. detached h m" and "distinct (ps @ ms)"
    and "length ps + length ms \<le> LINK_BUFSZ"
  shows "\<exists>t u. link.ins_all ms (h, l) = Some t \<and>
    link.rem_n (length ps + length ms) t = Some (ps @ ms, u) \<and> link_holds (fst u) (snd u) []"
  using link.fifo [of "(h, l)" ps ms] assms by simp

theorem link_fifo_witness:
  "\<exists>t u. link.ins_all [2, 0, 1] (heap3, link0) = Some t \<and> link.rem_n 3 t = Some ([2, 0, 1], u)"
proof -
  have "\<forall>m\<in>set [2, 0, 1]. detached heap3 m" using heap3_ok(2) by simp
  from link_fifo [OF heap3_ok(1) this] show ?thesis by (auto simp: LINK_BUFSZ_def numeral_3_eq_3)
qed

end
