(* ===== verification/Net.thy ===== *)
theory Net
  imports Link Cpu Mem
begin

text \<open>
  The network (net.c, net.h): a mesh of nodes, each with a processor, a memory, four links in each
  direction and a mailbox for every node; the routing, the two phases that move messages, and the
  input, output and alternative commands.

  A link is the list of its messages, first the head; that the linked structure of the code is
  such a queue is shown in the theory of links. \<open>LinkName\<close> has a fifth name, \<open>LINK_MBOX\<close>, for which
  there is no link: using it as an index is out of bounds. The mailboxes of all nodes are one
  array, as the code allocates them: mailbox \<open>k\<close> of node \<open>i\<close> is element \<open>i * size + k\<close>.
\<close>

section \<open>State\<close>

datatype LinkDir = LINK_IN | LINK_OUT

datatype LinkName = LINK_NORTH | LINK_EAST | LINK_SOUTH | LINK_WEST | LINK_MBOX

definition link_names :: "LinkName list" where
  "link_names = [LINK_NORTH, LINK_EAST, LINK_SOUTH, LINK_WEST]"

record Node =
  nd_cpu :: CPU
  nd_mem :: Mem
  nd_link :: "LinkDir \<Rightarrow> LinkName \<Rightarrow> Msg list"
  nd_linkutil :: "LinkDir \<Rightarrow> LinkName \<Rightarrow> u64"
  nd_mbox_start :: u64
  nd_mbox_new :: u64

record Net =
  net_cycle :: u64
  net_size :: u64
  net_x :: u64
  net_y :: u64
  net_nrun :: u64
  net_nd :: "Node list"
  net_mbox :: "Msg option list"

definition upd_node :: "nat \<Rightarrow> (Node \<Rightarrow> Node) \<Rightarrow> Net \<Rightarrow> Net" where
  "upd_node i f net = net\<lparr>net_nd := (net_nd net)[i := f (net_nd net ! i)]\<rparr>"

definition upd_link :: "LinkDir \<Rightarrow> LinkName \<Rightarrow> (Msg list \<Rightarrow> Msg list) \<Rightarrow> Node \<Rightarrow> Node" where
  "upd_link d n f nd = nd\<lparr>nd_link := (nd_link nd)(d := (nd_link nd d)(n := f (nd_link nd d n)))\<rparr>"

definition count_link :: "LinkDir \<Rightarrow> LinkName \<Rightarrow> Node \<Rightarrow> Node" where
  "count_link d n nd =
     nd\<lparr>nd_linkutil := (nd_linkutil nd)(d := (nd_linkutil nd d)(n := nd_linkutil nd d n + 1))\<rparr>"

definition set_sel :: "cop2_link_sel \<Rightarrow> u32 \<Rightarrow> Node \<Rightarrow> Node" where
  "set_sel s v nd =
     nd\<lparr>nd_cpu := snd (CPU_mtc2 (nd_cpu nd) (cop2_reg_val COP2_MSG) (sel_val s) v)\<rparr>"

definition get_sel :: "cop2_link_sel \<Rightarrow> Node \<Rightarrow> u32" where
  "get_sel s nd = (case CPU_mfc2 (nd_cpu nd) (cop2_reg_val COP2_MSG) (sel_val s) of Inl e \<Rightarrow> -1 | Inr v \<Rightarrow> v)"

definition set_K1 :: "u32 \<Rightarrow> Node \<Rightarrow> Node" where
  "set_K1 v nd = nd\<lparr>nd_cpu := (nd_cpu nd)\<lparr>cpu_gpr := (cpu_gpr (nd_cpu nd))[regno K1 := v]\<rparr>\<rparr>"

text \<open>\<open>net->nd[i].mbox[k]\<close>, outside the array undefined.\<close>

definition mbox_index :: "Net \<Rightarrow> nat \<Rightarrow> nat \<Rightarrow> nat" where
  "mbox_index net i k = i * unat (net_size net) + k"

definition get_mbox :: "Net \<Rightarrow> nat \<Rightarrow> nat \<Rightarrow> Msg option option" where
  "get_mbox net i k =
     (if mbox_index net i k < length (net_mbox net) then Some (net_mbox net ! mbox_index net i k) else None)"

definition set_mbox :: "nat \<Rightarrow> nat \<Rightarrow> Msg option \<Rightarrow> Net \<Rightarrow> Net" where
  "set_mbox i k v net = net\<lparr>net_mbox := (net_mbox net)[mbox_index net i k := v]\<rparr>"

section \<open>Links\<close>

definition link_insmsg :: "Msg \<Rightarrow> Msg list \<Rightarrow> int \<times> Msg list" where
  "link_insmsg msg q = (if length q = LINK_BUFSZ then (-1, q) else (0, q @ [msg]))"

definition link_remmsg :: "Msg list \<Rightarrow> Msg option \<times> Msg list" where
  "link_remmsg q = (case q of [] \<Rightarrow> (None, []) | m # ms \<Rightarrow> (Some m, ms))"

section \<open>Routing\<close>

definition guidance :: "u64 \<Rightarrow> u64 \<Rightarrow> u64 \<Rightarrow> LinkName" where
  "guidance y from to =
     (if from < to then (if from mod y < to mod y then LINK_EAST else LINK_NORTH)
      else if from > to then (if from mod y > to mod y then LINK_WEST else LINK_SOUTH)
      else LINK_MBOX)"

section \<open>Commands\<close>

text \<open>
  The code that \<open>input\<close> and \<open>alt\<close> share once they have found the message \<open>msg\<close> in mailbox
  \<open>from\<close> of node \<open>to\<close>: an acknowledgement is put on the link to the sender, the data and the hops go to
  the coprocessor, the operation ends and the mailbox becomes empty. \<open>al\<close> is the answer of
  \<open>malloc\<close>: a block with whatever is in its data field, which an acknowledgement leaves as it is.
\<close>

definition receive :: "Net \<Rightarrow> nat \<Rightarrow> nat \<Rightarrow> Msg \<Rightarrow> u32 option \<Rightarrow> (retcode \<times> Net) option" where
  "receive net from to msg al = (case al of
     None \<Rightarrow> Some (E ENOMEM, net)
   | Some garbage \<Rightarrow>
      let ack = \<lparr>msg_to = msg_from msg, msg_from = of_nat to, msg_data = garbage,
                 msg_hops = msg_hops msg, msg_ack = True\<rparr>;
          link = guidance (net_y net) (of_nat to) (ucast (msg_to ack)) in
      if link = LINK_MBOX then None
      else if length (nd_link (net_nd net ! to) LINK_OUT link) \<ge> LINK_BUFSZ then Some (E ENOBUFS, net)
      else Some (OK, set_mbox to from None (upd_node to (\<lambda>nd.
        let nd1 = upd_link LINK_OUT link (\<lambda>q. snd (link_insmsg ack q)) nd;
            nd2 = set_sel COP2_MSG_DATA (msg_data msg) nd1;
            nd3 = set_sel COP2_MSG_HOPS (get_sel COP2_MSG_HOPS nd2 + msg_hops msg) nd2
        in set_sel COP2_MSG_ST (op_val COP2_MSG_OP_NONE) nd3) net)))"

definition net_input :: "Net \<Rightarrow> nat \<Rightarrow> nat \<Rightarrow> u32 option \<Rightarrow> (retcode \<times> Net) option" where
  "net_input net from to al = (case get_mbox net to from of
     None \<Rightarrow> None
   | Some None \<Rightarrow> Some (E EAGAIN, net)
   | Some (Some msg) \<Rightarrow> receive net from to msg al)"

definition net_output :: "Net \<Rightarrow> nat \<Rightarrow> nat \<Rightarrow> u32 option \<Rightarrow> (retcode \<times> Net) option" where
  "net_output net to from al = (let nd = net_nd net ! from; st = get_sel COP2_MSG_ST nd in
     if COP2_MSG_ST_SENT st \<noteq> 0 then
       (case get_mbox net from to of
          None \<Rightarrow> None
        | Some None \<Rightarrow> Some (E EAGAIN, net)
        | Some (Some msg) \<Rightarrow>
            if msg_ack msg
            then Some (OK, set_mbox from to None
              (upd_node from (set_sel COP2_MSG_ST (op_val COP2_MSG_OP_NONE)) net))
            else Some (E EDEADLK, net))
     else (case al of
        None \<Rightarrow> Some (E ENOMEM, net)
      | Some garbage \<Rightarrow>
         let link = guidance (net_y net) (of_nat from) (of_nat to) in
         if link = LINK_MBOX then None
         else if length (nd_link nd LINK_OUT link) \<ge> LINK_BUFSZ then Some (E ENOBUFS, net)
         else let msg = \<lparr>msg_to = of_nat to, msg_from = of_nat from,
                         msg_data = get_sel COP2_MSG_DATA nd, msg_hops = 0, msg_ack = False\<rparr>
           in Some (OK, upd_node from (\<lambda>nd. set_sel COP2_MSG_ST (st OR 4)
                (upd_link LINK_OUT link (\<lambda>q. snd (link_insmsg msg q)) nd)) net)))"

text \<open>\<open>clauses[i]\<close>, from the pointer that \<open>Mem_getptr\<close> gave.\<close>

definition clause :: "Net \<Rightarrow> nat \<Rightarrow> errno + nat \<Rightarrow> nat \<Rightarrow> u32 option" where
  "clause net to clauses i = (case clauses of
     Inl e \<Rightarrow> None | Inr base \<Rightarrow> get_word (mem_b (nd_mem (net_nd net ! to))) (base + i))"

text \<open>All clauses, as the loop over them reads them.\<close>

fun read_clauses :: "(nat \<Rightarrow> u32 option) \<Rightarrow> nat \<Rightarrow> u32 list option" where
  "read_clauses c 0 = Some []"
| "read_clauses c (Suc n) = do { xs \<leftarrow> read_clauses c n; x \<leftarrow> c n; Some (xs @ [x]) }"

text \<open>
  The search: \<open>cur\<close> goes round the mailboxes from \<open>mbox_start\<close> until it finds a message of a clause
  or is back at the start. The number bounds the iterations; \<open>size\<close> is enough.
\<close>

fun alt_search :: "Net \<Rightarrow> nat \<Rightarrow> u32 list \<Rightarrow> u64 \<Rightarrow> nat \<Rightarrow> u64 \<Rightarrow> (bool \<times> u64) option" where
  "alt_search net to cls start 0 cur = Some (False, cur)"
| "alt_search net to cls start (Suc n) cur = do {
     found \<leftarrow> (if \<exists>c\<in>set cls. ucast c = cur then map_option (\<lambda>x. x \<noteq> None) (get_mbox net to (unat cur))
               else Some False);
     if found then Some (True, cur)
     else let nxt = (cur + 1) mod net_size net in
       if nxt = start then Some (False, nxt) else alt_search net to cls start n nxt
   }"

definition alt :: "Net \<Rightarrow> errno + nat \<Rightarrow> nat \<Rightarrow> u32 option \<Rightarrow> (retcode \<times> Net) option" where
  "alt net clauses to al =
     (let ncl = unat (get_sel COP2_MSG_NCL (net_nd net ! to)); start = nd_mbox_start (net_nd net ! to) in
      if ncl = 0 then Some (E EDEADLK, net)
      else do {
        last \<leftarrow> clause net to clauses (ncl - 1);
        let df = sint last < 0;
        let net1 = (if df then upd_node to (\<lambda>nd. set_sel COP2_MSG_ST (op_val COP2_MSG_OP_NONE) (set_K1 (-1) nd)) net
                    else net);
        cls \<leftarrow> read_clauses (clause net to clauses) ncl;
        (found, cur) \<leftarrow> alt_search net1 to cls start (unat (net_size net)) start;
        let net2 = upd_node to (\<lambda>nd. nd\<lparr>nd_mbox_start := (cur + 1) mod net_size net\<rparr>) net1;
        if \<not> found then Some (if df then OK else E EAGAIN, net2)
        else do {
          m \<leftarrow> get_mbox net2 to (unat cur);
          msg \<leftarrow> m;
          (r, net3) \<leftarrow> receive net2 (unat cur) to msg al;
          Some (r, if r = OK then upd_node to (set_K1 (ucast cur)) net3 else net3)
        }
      })"

definition operate :: "Net \<Rightarrow> nat \<Rightarrow> u32 option \<Rightarrow> (retcode \<times> Net) option" where
  "operate net i al = (let nd = net_nd net ! i; corr = get_sel COP2_MSG_CORR nd;
       st = COP2_MSG_ST_OP (get_sel COP2_MSG_ST nd) in
     if st = op_val COP2_MSG_OP_NONE then Some (OK, net)
     else if st = op_val COP2_MSG_OP_IN then net_input net (unat corr) i al
     else if st = op_val COP2_MSG_OP_OUT then net_output net (unat corr) i al
     else if st = op_val COP2_MSG_OP_ALT then alt net (Mem_getptr (nd_mem nd) corr) i al
     else Some (E EINVAL, net))"

section \<open>Moving messages\<close>

text \<open>The body of the loop of \<open>fwd\<close>: the head of one input link of node \<open>i\<close> goes to an output link
  or to its mailbox, if there is room.\<close>

definition fwd_link :: "nat \<Rightarrow> LinkName \<Rightarrow> Net \<Rightarrow> Net option" where
  "fwd_link i ilink net = (case nd_link (net_nd net ! i) LINK_IN ilink of
     [] \<Rightarrow> Some net
   | msg # rest \<Rightarrow>
      let olink = guidance (net_y net) (of_nat i) (ucast (msg_to msg));
          removed = upd_node i (upd_link LINK_IN ilink (\<lambda>q. snd (link_remmsg q))) net in
      if olink \<noteq> LINK_MBOX then
        if length (nd_link (net_nd net ! i) LINK_OUT olink) = LINK_BUFSZ then Some net
        else Some (upd_node i (upd_link LINK_OUT olink (\<lambda>q. snd (link_insmsg msg q))) removed)
      else (case get_mbox net i (unat (msg_from msg)) of
          None \<Rightarrow> None
        | Some (Some old) \<Rightarrow> Some net
        | Some None \<Rightarrow> Some (set_mbox i (unat (msg_from msg)) (Some msg)
            (upd_node i (\<lambda>nd. (set_sel COP2_MSG_NMSG (get_sel COP2_MSG_NMSG nd + 1) nd)
               \<lparr>nd_mbox_new := nd_mbox_new nd + 1\<rparr>) removed))))"

definition fwd :: "nat \<Rightarrow> Net \<Rightarrow> Net option" where
  "fwd i net = mfold (fwd_link i) link_names net"

text \<open>The switch in \<open>hop\<close>: the next node, the input link there, and whether there is no such node.\<close>

definition hop_next :: "u64 \<Rightarrow> u64 \<Rightarrow> u32 \<Rightarrow> LinkName \<Rightarrow> u32 \<times> LinkName \<times> bool" where
  "hop_next sz y i olink = (case olink of
     LINK_NORTH \<Rightarrow> (let nxt = ucast (ucast i + y) in (nxt, LINK_SOUTH, ucast nxt \<ge> sz \<or> nxt < i))
   | LINK_EAST \<Rightarrow> (let nxt = i + 1 in (nxt, LINK_WEST, ucast nxt mod y = 0))
   | LINK_SOUTH \<Rightarrow> (let nxt = ucast (ucast i - y) in (nxt, LINK_NORTH, nxt > i))
   | LINK_WEST \<Rightarrow> (let nxt = i - 1 in (nxt, LINK_EAST, ucast nxt mod y = y - 1 \<or> nxt > i))
   | LINK_MBOX \<Rightarrow> (0, LINK_MBOX, False))"

text \<open>The body of the loop of \<open>hop\<close>.\<close>

definition hop_link :: "u32 \<Rightarrow> LinkName \<Rightarrow> Net \<Rightarrow> Net option" where
  "hop_link i olink net = (let (nxt, ilink, oob) = hop_next (net_size net) (net_y net) i olink in
     case nd_link (net_nd net ! unat i) LINK_OUT olink of
       [] \<Rightarrow> Some net
     | msg # rest \<Rightarrow>
        if oob then Some net
        else if unat nxt \<ge> length (net_nd net) then None
        else if length (nd_link (net_nd net ! unat nxt) LINK_IN ilink) = LINK_BUFSZ then Some net
        else Some (upd_node (unat nxt) (\<lambda>nd. count_link LINK_IN ilink
               (upd_link LINK_IN ilink (\<lambda>q. snd (link_insmsg (msg\<lparr>msg_hops := msg_hops msg + 1\<rparr>) q)) nd))
             (upd_node (unat i) (\<lambda>nd. count_link LINK_OUT olink
               (upd_link LINK_OUT olink (\<lambda>q. snd (link_remmsg q)) nd)) net)))"

definition hop :: "u32 \<Rightarrow> Net \<Rightarrow> Net option" where
  "hop i net = mfold (hop_link i) link_names net"

section \<open>A network cycle\<close>

text \<open>The loop over \<open>operate\<close>, with the return at a deadlock; \<open>al i\<close> is what \<open>malloc\<close> answers to
  node \<open>i\<close>.\<close>

fun operate_all :: "nat list \<Rightarrow> (nat \<Rightarrow> u32 option) \<Rightarrow> Net \<Rightarrow> (int \<times> Net) option" where
  "operate_all [] al net = Some (0, net)"
| "operate_all (i # is) al net = (case operate net i (al i) of
     None \<Rightarrow> None
   | Some (r, net1) \<Rightarrow> if r = E EDEADLK then Some (-1, net1) else operate_all is al net1)"

definition Net_execute :: "(nat \<Rightarrow> u32 option) \<Rightarrow> Net \<Rightarrow> (int \<times> Net) option" where
  "Net_execute al net = do {
     net1 \<leftarrow> mfold fwd [0..<unat (net_size net)] net;
     (r, net2) \<leftarrow> operate_all [0..<unat (net_size net)] al net1;
     if r \<noteq> 0 then Some (-1, net2)
     else do {
       net3 \<leftarrow> mfold (\<lambda>i. hop (of_nat i)) [0..<unat (net_size net)] net2;
       Some (0, net3)
     }
   }"

end
