(* ===== verification/Routing.thy ===== *)
theory Routing
  imports Net
begin

text \<open>
  Routing in the mesh (net.c, \<open>guidance\<close> and the switch of \<open>hop\<close>): every step that the routing
  chooses exists and brings a message one step nearer to its target.
\<close>

section \<open>The mesh\<close>

text \<open>The distance of two nodes, node \<open>r * Y + c\<close> being in row \<open>r\<close> and column \<open>c\<close>.\<close>

definition ndiff :: "nat \<Rightarrow> nat \<Rightarrow> nat" where
  "ndiff m n = (m - n) + (n - m)"

definition mesh_dist :: "nat \<Rightarrow> nat \<Rightarrow> nat \<Rightarrow> nat" where
  "mesh_dist Y a b = ndiff (a div Y) (b div Y) + ndiff (a mod Y) (b mod Y)"

text \<open>The routing and the neighbours on natural numbers.\<close>

definition go :: "nat \<Rightarrow> nat \<Rightarrow> nat \<Rightarrow> LinkName" where
  "go Y a b =
     (if a < b then (if a mod Y < b mod Y then LINK_EAST else LINK_NORTH)
      else if b < a then (if b mod Y < a mod Y then LINK_WEST else LINK_SOUTH)
      else LINK_MBOX)"

fun neighbour :: "nat \<Rightarrow> nat \<Rightarrow> LinkName \<Rightarrow> nat" where
  "neighbour Y a LINK_NORTH = a + Y" | "neighbour Y a LINK_EAST = a + 1"
| "neighbour Y a LINK_SOUTH = a - Y" | "neighbour Y a LINK_WEST = a - 1"
| "neighbour Y a LINK_MBOX = a"

lemma of_nat_less64: "a < 2 ^ 32 \<Longrightarrow> b < 2 ^ 32 \<Longrightarrow> (of_nat a :: u64) < of_nat b \<longleftrightarrow> a < b"
  by (simp add: word_less_nat_alt unsigned_of_nat take_bit_nat_eq_self)

lemma of_nat_mod64: "a < 2 ^ 32 \<Longrightarrow> b < 2 ^ 32 \<Longrightarrow> (of_nat a :: u64) mod of_nat b = of_nat (a mod b)"
  by (simp add: word_unat_eq_iff unat_mod_distrib unsigned_of_nat take_bit_nat_eq_self mod_less_eq_dividend
      le_less_trans [OF mod_less_eq_dividend])

lemma guidance_go:
  assumes "Y < 2 ^ 32" "a < 2 ^ 32" "b < 2 ^ 32"
  shows "guidance (of_nat Y) (of_nat a) (of_nat b) = go Y a b"
proof -
  have "a mod Y < 2 ^ 32" "b mod Y < 2 ^ 32"
    using assms mod_less_eq_dividend [of a Y] mod_less_eq_dividend [of b Y] by linarith+
  with assms show ?thesis
    by (simp only: guidance_def go_def of_nat_mod64 of_nat_less64)
qed

text \<open>Coordinates.\<close>

lemma coords: "c < Y \<Longrightarrow> (r * Y + c) div Y = r \<and> (r * Y + c) mod Y = c" for r c Y :: nat
  by simp

definition nearer :: "nat \<Rightarrow> nat \<Rightarrow> nat \<Rightarrow> nat \<Rightarrow> bool" where
  "nearer X Y a b \<longleftrightarrow> go Y a b \<noteq> LINK_MBOX \<and> neighbour Y a (go Y a b) < X * Y \<and>
    mesh_dist Y (neighbour Y a (go Y a b)) b + 1 = mesh_dist Y a b"

lemma go_nearer_up:
  assumes a: "a = r * Y + c" "c < Y" and b: "b = r' * Y + c'" "c' < Y" and "a < b" "b < X * Y"
  shows "nearer X Y a b"
proof (cases "c < c'")
  case True
  then have "c + 1 < Y" using b(2) by simp
  note n = coords [OF this, of r]
  have "a + 1 < X * Y" using \<open>a < b\<close> \<open>b < X * Y\<close> by simp
  then show ?thesis using True \<open>a < b\<close> coords [OF a(2), of r] coords [OF b(2), of r'] n a(1) b(1)
    by (auto simp: nearer_def go_def mesh_dist_def ndiff_def add.assoc)
next
  case False
  then have "r * Y < r' * Y" using \<open>a < b\<close> a b by linarith
  then have r: "r < r'" by simp
  have "r' < X" using \<open>b < X * Y\<close> b coords [OF b(2), of r'] by (metis add_lessD1 mult_less_cancel2)
  then have "(r + 1) * Y + Y \<le> X * Y" using r mult_le_mono1 [of "r + 2" X Y] by simp
  then have lt: "a + Y < X * Y" using a by simp
  have "a + Y = (r + 1) * Y + c" using a by simp
  note n = coords [OF a(2), of "r + 1", folded this]
  show ?thesis using False \<open>a < b\<close> coords [OF a(2), of r] coords [OF b(2), of r'] n r lt a(1) b(1)
    by (auto simp: nearer_def go_def mesh_dist_def ndiff_def)
qed

lemma go_nearer_down:
  assumes a: "a = r * Y + c" "c < Y" and b: "b = r' * Y + c'" "c' < Y" and "b < a" "a < X * Y"
  shows "nearer X Y a b"
proof (cases "c' < c")
  case True
  then have "c - 1 < Y" using a(2) by simp
  note n = coords [OF this, of r]
  have "a - 1 = r * Y + (c - 1)" using True a by simp
  then show ?thesis using True \<open>b < a\<close> coords [OF a(2), of r] coords [OF b(2), of r'] n a(1) b(1) \<open>a < X * Y\<close>
    by (auto simp: nearer_def go_def mesh_dist_def ndiff_def)
next
  case False
  then have "r' * Y < r * Y" using \<open>b < a\<close> a b by linarith
  then have r: "r' < r" by simp
  then have "a - Y = (r - 1) * Y + c" using a by (cases r) simp_all
  note n = coords [OF a(2), of "r - 1", folded this]
  show ?thesis using False \<open>b < a\<close> coords [OF a(2), of r] coords [OF b(2), of r'] n r a(1) b(1) \<open>a < X * Y\<close>
    by (auto simp: nearer_def go_def mesh_dist_def ndiff_def)
qed

lemma go_nearer:
  assumes "0 < Y" "a < X * Y" "b < X * Y" "a \<noteq> b"
  shows "go Y a b \<noteq> LINK_MBOX \<and> neighbour Y a (go Y a b) < X * Y \<and>
    mesh_dist Y (neighbour Y a (go Y a b)) b + 1 = mesh_dist Y a b"
proof -
  obtain r c where a: "a = r * Y + c" "c < Y" using assms(1) by (metis div_mult_mod_eq mod_less_divisor)
  obtain r' c' where b: "b = r' * Y + c'" "c' < Y" using assms(1) by (metis div_mult_mod_eq mod_less_divisor)
  have "nearer X Y a b"
    using go_nearer_up [OF a b] go_nearer_down [OF a b] assms(2-4) by (cases "a < b") simp_all
  then show ?thesis unfolding nearer_def .
qed

section \<open>The neighbours that exist\<close>

fun opposite :: "LinkName \<Rightarrow> LinkName" where
  "opposite LINK_NORTH = LINK_SOUTH" | "opposite LINK_EAST = LINK_WEST"
| "opposite LINK_SOUTH = LINK_NORTH" | "opposite LINK_WEST = LINK_EAST"
| "opposite LINK_MBOX = LINK_MBOX"

fun has_exit :: "nat \<Rightarrow> nat \<Rightarrow> nat \<Rightarrow> LinkName \<Rightarrow> bool" where
  "has_exit X Y a LINK_NORTH = (a + Y < X * Y)" | "has_exit X Y a LINK_EAST = ((a + 1) mod Y \<noteq> 0)"
| "has_exit X Y a LINK_SOUTH = (Y \<le> a)" | "has_exit X Y a LINK_WEST = (a mod Y \<noteq> 0)"
| "has_exit X Y a LINK_MBOX = False"

lemma go_has_exit:
  assumes "0 < Y" "a < X * Y" "b < X * Y" "a \<noteq> b"
  shows "has_exit X Y a (go Y a b)"
proof -
  have "go Y a b \<noteq> LINK_MBOX" "neighbour Y a (go Y a b) < X * Y" using go_nearer [OF assms] by blast+
  moreover have "Suc a mod Y \<noteq> 0" if "a mod Y < b mod Y"
    using that mod_less_divisor [OF assms(1), of b] by (simp add: mod_Suc)
  moreover have "Y \<le> a" if "b < a" "\<not> b mod Y < a mod Y"
  proof (rule ccontr)
    assume "\<not> Y \<le> a"
    with that show False by simp
  qed
  ultimately show ?thesis by (auto simp: go_def split: if_splits)
qed

lemma unat_u32: "n < 2 ^ 32 \<Longrightarrow> unat (of_nat n :: u32) = n"
  by (simp add: unsigned_of_nat take_bit_nat_eq_self)

lemma unat_u64: "n < 2 ^ 64 \<Longrightarrow> unat (of_nat n :: u64) = n"
  by (simp add: unsigned_of_nat take_bit_nat_eq_self)

lemma ucast_u32_u64: "n < 2 ^ 32 \<Longrightarrow> (ucast (of_nat n :: u32) :: u64) = of_nat n"
  by (simp add: word_unat_eq_iff unsigned_ucast_eq unsigned_of_nat take_bit_nat_eq_self)

lemma ucast_u64_u32: "n < 2 ^ 32 \<Longrightarrow> (ucast (of_nat n :: u64) :: u32) = of_nat n"
  by (simp add: word_unat_eq_iff unsigned_ucast_eq unsigned_of_nat take_bit_nat_eq_self)

text \<open>The switch of \<open>hop\<close> finds the neighbour exactly when there is one.\<close>

lemma hop_north:
  assumes "a + Y < X * Y" "X * Y \<le> 2 ^ 16"
  shows "hop_next (of_nat (X * Y)) (of_nat Y) (of_nat a) LINK_NORTH = (of_nat (a + Y), LINK_SOUTH, False)"
proof -
  have "(ucast (of_nat a :: u32) :: u64) + of_nat Y = of_nat (a + Y)"
    using assms by (simp add: ucast_u32_u64)
  moreover have "(ucast (of_nat (a + Y) :: u64) :: u32) = of_nat (a + Y)"
    using assms by (intro ucast_u64_u32) simp
  moreover have "\<not> (of_nat (X * Y) :: u64) \<le> ucast (of_nat (a + Y) :: u32)"
    using assms by (simp add: ucast_u32_u64 word_le_nat_alt unat_u64 del: of_nat_add of_nat_mult)
  moreover have "\<not> (of_nat (a + Y) :: u32) < of_nat a"
    using assms by (simp add: word_less_nat_alt unat_u32 del: of_nat_add)
  ultimately show ?thesis by (simp add: hop_next_def Let_def del: of_nat_add of_nat_mult)
qed

lemma hop_east:
  assumes "0 < Y" "Y \<le> 2 ^ 16" "a < 2 ^ 16" "(a + 1) mod Y \<noteq> 0"
  shows "hop_next N (of_nat Y) (of_nat a) LINK_EAST = (of_nat (a + 1), LINK_WEST, False)"
proof -
  have "(ucast (of_nat (a + 1) :: u32) :: u64) mod of_nat Y = of_nat ((a + 1) mod Y)"
    using assms(2,3) ucast_u32_u64 [of "a + 1"] of_nat_mod64 [of "a + 1" Y] by simp
  moreover have "(of_nat ((a + 1) mod Y) :: u64) \<noteq> 0"
    using assms mod_less_divisor [OF assms(1), of "a + 1"]
    by (simp add: word_unat_eq_iff unat_u64 del: mod_less_divisor)
  moreover have "(of_nat a :: u32) + 1 = of_nat (a + 1)" by simp
  ultimately show ?thesis by (simp only: hop_next_def Let_def LinkName.case)
qed

lemma hop_south:
  assumes "Y \<le> a" "a < 2 ^ 16"
  shows "hop_next N (of_nat Y) (of_nat a) LINK_SOUTH = (of_nat (a - Y), LINK_NORTH, False)"
proof -
  have "(ucast (of_nat a :: u32) :: u64) - of_nat Y = of_nat (a - Y)"
    using assms by (simp add: ucast_u32_u64 of_nat_diff)
  moreover have "(ucast (of_nat (a - Y) :: u64) :: u32) = of_nat (a - Y)"
    using assms by (intro ucast_u64_u32) simp
  moreover have "\<not> (of_nat (a - Y) :: u32) > of_nat a"
    using assms by (simp add: word_less_nat_alt unat_u32 del: of_nat_diff)
  ultimately show ?thesis by (simp add: hop_next_def Let_def)
qed

lemma hop_west:
  assumes "0 < Y" "Y \<le> 2 ^ 16" "a < 2 ^ 16" "a mod Y \<noteq> 0"
  shows "hop_next N (of_nat Y) (of_nat a) LINK_WEST = (of_nat (a - 1), LINK_EAST, False)"
proof -
  have a0: "0 < a" using assms(4) by (cases a) auto
  have d: "(of_nat a :: u32) - 1 = of_nat (a - 1)" using a0 by (simp add: of_nat_diff)
  have m: "(ucast (of_nat (a - 1) :: u32) :: u64) mod of_nat Y = of_nat ((a - 1) mod Y)"
    using assms by (simp add: ucast_u32_u64 of_nat_mod64 del: of_nat_diff)
  have "a = Suc (a - 1)" using a0 by simp
  with assms(4) have "Suc ((a - 1) mod Y) \<noteq> Y" by (metis mod_Suc)
  moreover have "(a - 1) mod Y < Y" using assms(1) by simp
  ultimately have "(a - 1) mod Y < Y - 1" by linarith
  moreover have "(of_nat Y :: u64) - 1 = of_nat (Y - 1)" using assms(1) by (simp add: of_nat_diff)
  ultimately have "(of_nat ((a - 1) mod Y) :: u64) \<noteq> of_nat Y - 1"
    using assms(2) by (simp add: word_unat_eq_iff unat_u64 del: of_nat_diff)
  moreover have "\<not> (of_nat (a - 1) :: u32) > of_nat a"
    using assms(3) by (simp add: word_less_nat_alt unat_u32 del: of_nat_diff)
  ultimately show ?thesis using d m by (simp add: hop_next_def Let_def)
qed

lemma hop_next_exit:
  assumes "0 < Y" "a < X * Y" "X * Y \<le> 2 ^ 16" "has_exit X Y a n"
  shows "hop_next (of_nat (X * Y)) (of_nat Y) (of_nat a) n = (of_nat (neighbour Y a n), opposite n, False)"
proof -
  have "X \<noteq> 0" using assms(2) by (cases X) auto
  then have Y: "Y \<le> X * Y" by simp
  then have lt: "a < 2 ^ 16" "Y \<le> 2 ^ 16" using assms(2,3) by linarith+
  show ?thesis
  proof (cases n)
    case LINK_NORTH
    then show ?thesis using hop_north [of a Y X] assms by simp
  next
    case LINK_EAST
    then show ?thesis using hop_east [OF assms(1) lt(2,1), of "of_nat (X * Y)"] assms by simp
  next
    case LINK_SOUTH
    then show ?thesis using hop_south [of Y a "of_nat (X * Y)"] assms lt by simp
  next
    case LINK_WEST
    then show ?thesis using hop_west [OF assms(1) lt(2,1), of "of_nat (X * Y)"] assms by simp
  next
    case LINK_MBOX
    then show ?thesis using assms(4) by simp
  qed
qed

section \<open>Messages arrive\<close>

text \<open>The node after \<open>a\<close> on the way to \<open>b\<close>, as \<open>guidance\<close> and \<open>hop\<close> choose it.\<close>

definition next_node :: "nat \<Rightarrow> nat \<Rightarrow> nat \<Rightarrow> nat \<Rightarrow> nat" where
  "next_node X Y b a = unat (fst (hop_next (of_nat (X * Y)) (of_nat Y) (of_nat a)
     (guidance (of_nat Y) (of_nat a) (of_nat b))))"

lemma next_node_neighbour:
  assumes "0 < Y" "X * Y \<le> 2 ^ 16" "a < X * Y" "b < X * Y" "a \<noteq> b"
  shows "hop_next (of_nat (X * Y)) (of_nat Y) (of_nat a) (guidance (of_nat Y) (of_nat a) (of_nat b)) =
      (of_nat (next_node X Y b a), opposite (go Y a b), False)"
    and "next_node X Y b a = neighbour Y a (go Y a b)"
proof -
  have "X \<noteq> 0" using assms(3) by (cases X) auto
  then have Y: "Y \<le> X * Y" by simp
  have lt: "Y < 2 ^ 32" "a < 2 ^ 32" "b < 2 ^ 32" using le_trans [OF Y assms(2)] assms by simp_all
  note g = guidance_go [OF lt] and near = go_nearer [OF assms(1,3,4,5)]
  note h = hop_next_exit [OF assms(1,3,2) go_has_exit [OF assms(1,3,4,5)]]
  have "neighbour Y a (go Y a b) < 2 ^ 32" using near assms(2) by simp
  then show "next_node X Y b a = neighbour Y a (go Y a b)"
    unfolding next_node_def g h fst_conv by (rule unat_u32)
  then show "hop_next (of_nat (X * Y)) (of_nat Y) (of_nat a) (guidance (of_nat Y) (of_nat a) (of_nat b)) =
      (of_nat (next_node X Y b a), opposite (go Y a b), False)"
    unfolding g h by simp
qed

lemma mesh_dist_0: "0 < Y \<Longrightarrow> mesh_dist Y a b = 0 \<longleftrightarrow> a = b"
  by (auto simp: mesh_dist_def ndiff_def) (metis div_mult_mod_eq le_antisym)

text \<open>A node that is not the target of a message is given a link, never the mailbox; the node at the
  other end of that link exists, lies in the mesh, and is one step nearer to the target.\<close>

theorem routing_progress:
  assumes "0 < Y" "X * Y \<le> 2 ^ 16" "a < X * Y" "b < X * Y" "a \<noteq> b"
  shows "guidance (of_nat Y) (of_nat a) (of_nat b) \<noteq> LINK_MBOX \<and>
    (case hop_next (of_nat (X * Y)) (of_nat Y) (of_nat a) (guidance (of_nat Y) (of_nat a) (of_nat b)) of
       (c, ilink, oob) \<Rightarrow>
         \<not> oob \<and> unat c < X * Y \<and> mesh_dist Y (unat c) b + 1 = mesh_dist Y a b)"
proof -
  have "X \<noteq> 0" using assms(3) by (cases X) auto
  then have Y: "Y \<le> X * Y" by simp
  have "guidance (of_nat Y) (of_nat a) (of_nat b) = go Y a b"
    using le_trans [OF Y assms(2)] assms by (intro guidance_go) simp_all
  moreover note near = go_nearer [OF assms(1,3,4,5)] and n = next_node_neighbour [OF assms]
  moreover have "unat (of_nat (next_node X Y b a) :: u32) = next_node X Y b a"
    using near n(2) assms(2) by (intro unat_u32) simp
  ultimately show ?thesis by (simp del: of_nat_mult)
qed

theorem routing_progress_witness:
  "guidance (of_nat 3) (of_nat 1) (of_nat 5) \<noteq> LINK_MBOX \<and>
    (case hop_next (of_nat (2 * 3)) (of_nat 3) (of_nat 1) (guidance (of_nat 3) (of_nat 1) (of_nat 5)) of
       (c, ilink, oob) \<Rightarrow> \<not> oob \<and> unat c < 2 * 3 \<and> mesh_dist 3 (unat c) 5 + 1 = mesh_dist 3 1 5)"
  by (rule routing_progress) simp_all

lemma route_power:
  assumes "0 < Y" "X * Y \<le> 2 ^ 16" "b < X * Y"
  shows "a < X * Y \<Longrightarrow> k \<le> mesh_dist Y a b \<Longrightarrow>
    (next_node X Y b ^^ k) a < X * Y \<and> mesh_dist Y ((next_node X Y b ^^ k) a) b + k = mesh_dist Y a b"
proof (induction k)
  case (Suc k)
  let ?c = "(next_node X Y b ^^ k) a"
  from Suc have c: "?c < X * Y" "mesh_dist Y ?c b + k = mesh_dist Y a b" by simp_all
  with Suc.prems(2) have "?c \<noteq> b" using mesh_dist_0 [OF assms(1), of ?c b] by auto
  from go_nearer [OF assms(1) c(1) assms(3) this]
    next_node_neighbour(2) [OF assms(1,2) c(1) assms(3) this] c(2)
  show ?case by simp
qed simp

text \<open>C21:
  Following the links that the routing chooses, a message comes from any node to any other in as
  many hops as the nodes are apart in the mesh, and not before; on its way it stays in the mesh.\<close>

theorem route_reaches_target:
  assumes "0 < Y" "X * Y \<le> 2 ^ 16" "a < X * Y" "b < X * Y"
  shows "(next_node X Y b ^^ mesh_dist Y a b) a = b \<and>
    (\<forall>k < mesh_dist Y a b. (next_node X Y b ^^ k) a \<noteq> b \<and> (next_node X Y b ^^ k) a < X * Y)"
proof (intro conjI allI impI)
  note p = route_power [OF assms(1,2,4,3)] and d = mesh_dist_0 [OF assms(1)]
  show "(next_node X Y b ^^ mesh_dist Y a b) a = b" using p [of "mesh_dist Y a b"] d by simp
  fix k assume "k < mesh_dist Y a b"
  then have "(next_node X Y b ^^ k) a < X * Y" "mesh_dist Y ((next_node X Y b ^^ k) a) b \<noteq> 0"
    using p [of k] by linarith+
  then show "(next_node X Y b ^^ k) a \<noteq> b" "(next_node X Y b ^^ k) a < X * Y" unfolding d by blast+
qed

theorem route_reaches_target_witness:
  "(next_node 2 3 5 ^^ mesh_dist 3 1 5) 1 = 5 \<and> (next_node 2 3 5 ^^ 1) 1 \<noteq> 5"
  using route_reaches_target [of 3 2 1 5] by (auto simp: mesh_dist_def ndiff_def)

end
