(* ===== verification/NetFacts.thy ===== *)
theory NetFacts
  imports Routing
begin

text \<open>
  How the parts of a network answer after an update, its well-formedness, and the multiset of the
  messages that are in it.
\<close>

named_theorems net_simps \<open>how the parts of a network answer after an update\<close>

section \<open>Elementary updates\<close>

text \<open>The head of a link leaves, a message is put at its end.\<close>

definition pop :: "nat \<Rightarrow> LinkDir \<Rightarrow> LinkName \<Rightarrow> Net \<Rightarrow> Net" where
  "pop i d n = upd_node i (upd_link d n tl)"

definition push :: "nat \<Rightarrow> LinkDir \<Rightarrow> LinkName \<Rightarrow> Msg \<Rightarrow> Net \<Rightarrow> Net" where
  "push i d n m = upd_node i (upd_link d n (\<lambda>q. q @ [m]))"

text \<open>The queue of a link and the content of a mailbox.\<close>

definition queue :: "Net \<Rightarrow> nat \<Rightarrow> LinkDir \<Rightarrow> LinkName \<Rightarrow> Msg list" where
  "queue net i d n = nd_link (net_nd net ! i) d n"

definition box :: "Net \<Rightarrow> nat \<Rightarrow> nat \<Rightarrow> Msg option" where
  "box net i k = net_mbox net ! mbox_index net i k"

lemma upd_node_fields [net_simps]:
  "net_cycle (upd_node i f net) = net_cycle net" "net_size (upd_node i f net) = net_size net"
  "net_x (upd_node i f net) = net_x net" "net_y (upd_node i f net) = net_y net"
  "net_nrun (upd_node i f net) = net_nrun net" "net_mbox (upd_node i f net) = net_mbox net"
  "length (net_nd (upd_node i f net)) = length (net_nd net)"
  by (simp_all add: upd_node_def)

lemma set_mbox_fields [net_simps]:
  "net_cycle (set_mbox i k v net) = net_cycle net" "net_size (set_mbox i k v net) = net_size net"
  "net_x (set_mbox i k v net) = net_x net" "net_y (set_mbox i k v net) = net_y net"
  "net_nrun (set_mbox i k v net) = net_nrun net" "net_nd (set_mbox i k v net) = net_nd net"
  "length (net_mbox (set_mbox i k v net)) = length (net_mbox net)"
  by (simp_all add: set_mbox_def)

lemma upd_node_nth [net_simps]:
  "i < length (net_nd net) \<Longrightarrow>
    net_nd (upd_node i f net) ! j = (if j = i then f (net_nd net ! j) else net_nd net ! j)"
  by (simp add: upd_node_def nth_list_update)

lemma upd_node_comp: "i < length (net_nd net) \<Longrightarrow> upd_node i f (upd_node i g net) = upd_node i (\<lambda>nd. f (g nd)) net"
  by (simp add: upd_node_def)

lemma upd_link_fields [net_simps]:
  "nd_cpu (upd_link d n f nd) = nd_cpu nd" "nd_mem (upd_link d n f nd) = nd_mem nd"
  "nd_mbox_start (upd_link d n f nd) = nd_mbox_start nd" "nd_mbox_new (upd_link d n f nd) = nd_mbox_new nd"
  "nd_link (upd_link d n f nd) d' n' = (if d' = d \<and> n' = n then f (nd_link nd d n) else nd_link nd d' n')"
  by (auto simp: upd_link_def)

lemma count_link_fields [net_simps]:
  "nd_cpu (count_link d n nd) = nd_cpu nd" "nd_mem (count_link d n nd) = nd_mem nd"
  "nd_mbox_start (count_link d n nd) = nd_mbox_start nd" "nd_link (count_link d n nd) = nd_link nd"
  by (simp_all add: count_link_def)

lemma set_sel_fields [net_simps]:
  "nd_mem (set_sel s v nd) = nd_mem nd" "nd_link (set_sel s v nd) = nd_link nd"
  "nd_mbox_start (set_sel s v nd) = nd_mbox_start nd"
  by (simp_all add: set_sel_def)

lemma set_K1_fields [net_simps]:
  "nd_mem (set_K1 v nd) = nd_mem nd" "nd_link (set_K1 v nd) = nd_link nd"
  "nd_mbox_start (set_K1 v nd) = nd_mbox_start nd"
  by (simp_all add: set_K1_def)

lemma get_sel_link: "get_sel s nd = link_reg (nd_cpu nd) s"
  by (simp only: get_sel_def CPU_mfc2_link sum.case)

lemma get_sel_set_sel [net_simps]:
  assumes "wf_cpu (nd_cpu nd)"
  shows "get_sel s (set_sel t v nd) = (if s = t then v else get_sel s nd)"
  using wf_cpuD [OF assms] sel_val_less [of t] sel_val_inject [of s t]
  by (auto simp: get_sel_link set_sel_def CPU_mtc2_def COP2_NREG_def COP2_NSEL_def nth_list_update)

lemma get_sel_frame [net_simps]:
  "get_sel s (upd_link d n f nd) = get_sel s nd" "get_sel s (count_link d n nd) = get_sel s nd"
  "get_sel s (set_K1 v nd) = get_sel s nd" "get_sel s (nd\<lparr>nd_mbox_start := b\<rparr>) = get_sel s nd"
  "get_sel s (nd\<lparr>nd_mbox_new := b\<rparr>) = get_sel s nd"
  by (simp_all add: get_sel_link set_K1_def net_simps)

lemma wf_set_sel: "wf_cpu (nd_cpu nd) \<Longrightarrow> wf_cpu (nd_cpu (set_sel s v nd))"
  by (simp add: set_sel_def CPU_mtc2_wf)

lemma wf_set_K1: "wf_cpu (nd_cpu nd) \<Longrightarrow> wf_cpu (nd_cpu (set_K1 v nd))"
  by (simp add: set_K1_def wf_cpu_def)

lemma queue_upd [net_simps]:
  "i < length (net_nd net) \<Longrightarrow>
    queue (upd_node i f net) j d n = (if j = i then nd_link (f (net_nd net ! i)) d n else queue net j d n)"
  by (simp add: queue_def net_simps)

lemma queue_set_mbox [net_simps]: "queue (set_mbox i k v net) = queue net"
  by (simp add: queue_def net_simps fun_eq_iff)

lemma box_upd [net_simps]: "box (upd_node i f net) = box net"
  by (simp add: box_def mbox_index_def net_simps fun_eq_iff)

lemma queue_pop [net_simps]:
  "i < length (net_nd net) \<Longrightarrow>
    queue (pop i d n net) j e k = (if j = i \<and> e = d \<and> k = n then tl (queue net i d n) else queue net j e k)"
  by (simp add: pop_def net_simps) (simp add: queue_def)

lemma queue_push [net_simps]:
  "i < length (net_nd net) \<Longrightarrow>
    queue (push i d n m net) j e k = (if j = i \<and> e = d \<and> k = n then queue net i d n @ [m] else queue net j e k)"
  by (simp add: push_def net_simps) (simp add: queue_def)

lemma pop_fields [net_simps]:
  "net_size (pop i d n net) = net_size net" "net_y (pop i d n net) = net_y net"
  "net_mbox (pop i d n net) = net_mbox net" "length (net_nd (pop i d n net)) = length (net_nd net)"
  "box (pop i d n net) = box net"
  by (simp_all add: pop_def net_simps)

lemma push_fields [net_simps]:
  "net_size (push i d n m net) = net_size net" "net_y (push i d n m net) = net_y net"
  "net_mbox (push i d n m net) = net_mbox net" "length (net_nd (push i d n m net)) = length (net_nd net)"
  "box (push i d n m net) = box net"
  by (simp_all add: push_def net_simps)

lemma queue_local:
  assumes "i < length (net_nd net)" "nd_link (f (net_nd net ! i)) = nd_link (net_nd net ! i)"
  shows "queue (upd_node i f net) = queue net"
  using assms by (simp add: fun_eq_iff net_simps) (simp add: queue_def)

section \<open>The shape of a network\<close>

text \<open>A mesh of \<open>X\<close> rows and \<open>Y\<close> columns. Node numbers travel in 16 bits (\<open>struct Msg\<close>), so a mesh has
  at most \<open>2 ^ 16\<close> nodes.\<close>

definition mesh :: "nat \<Rightarrow> nat \<Rightarrow> Net \<Rightarrow> bool" where
  "mesh X Y net \<longleftrightarrow> 0 < X \<and> 0 < Y \<and> X * Y \<le> 2 ^ 16 \<and>
     net_size net = of_nat (X * Y) \<and> net_x net = of_nat X \<and> net_y net = of_nat Y \<and>
     length (net_nd net) = X * Y \<and> length (net_mbox net) = X * Y * (X * Y) \<and>
     (\<forall>i<X * Y. wf_cpu (nd_cpu (net_nd net ! i)) \<and> unat (nd_mbox_start (net_nd net ! i)) < X * Y)"

lemma meshD:
  assumes "mesh X Y net"
  shows "0 < X" "0 < Y" "X * Y \<le> 2 ^ 16" "0 < X * Y" "net_size net = of_nat (X * Y)" "net_y net = of_nat Y"
    "length (net_nd net) = X * Y" "length (net_mbox net) = X * Y * (X * Y)" "unat (net_size net) = X * Y"
  using assms unat_u64 [of "X * Y"] by (simp_all add: mesh_def del: of_nat_mult)

lemma mesh_node:
  assumes "mesh X Y net" "i < X * Y"
  shows "wf_cpu (nd_cpu (net_nd net ! i))" "unat (nd_mbox_start (net_nd net ! i)) < X * Y"
  using assms by (simp_all add: mesh_def)

lemma mesh_upd_node:
  assumes "mesh X Y net" "i < X * Y" "wf_cpu (nd_cpu (f (net_nd net ! i)))"
    and "unat (nd_mbox_start (f (net_nd net ! i))) < X * Y"
  shows "mesh X Y (upd_node i f net)"
  using assms by (simp add: mesh_def net_simps)

lemma mesh_set_mbox: "mesh X Y net \<Longrightarrow> mesh X Y (set_mbox i k v net)"
  by (simp add: mesh_def net_simps)

lemma mesh_pop: "mesh X Y net \<Longrightarrow> i < X * Y \<Longrightarrow> mesh X Y (pop i d n net)"
  by (simp add: pop_def mesh_upd_node mesh_node net_simps)

lemma mesh_push: "mesh X Y net \<Longrightarrow> i < X * Y \<Longrightarrow> mesh X Y (push i d n m net)"
  by (simp add: push_def mesh_upd_node mesh_node net_simps)

lemma pair_index:
  fixes i j k l N :: nat
  assumes "k < N" "l < N"
  shows "i * N + k = j * N + l \<longleftrightarrow> i = j \<and> k = l"
proof
  assume e: "i * N + k = j * N + l"
  have "(i * N + k) div N = i" "(j * N + l) div N = j" using assms by simp_all
  with e show "i = j \<and> k = l" by simp
qed simp

lemma pair_index_less:
  fixes i k N :: nat
  assumes "i < N" "k < N"
  shows "i * N + k < N * N"
proof -
  have "Suc i * N \<le> N * N" using assms(1) by (intro mult_le_mono1) simp
  with assms(2) show ?thesis by simp
qed

lemma box_in_range:
  assumes "mesh X Y net" "i < X * Y" "k < X * Y"
  shows "mbox_index net i k < length (net_mbox net)"
  using pair_index_less [OF assms(2,3)] meshD(8,9) [OF assms(1)] by (simp add: mbox_index_def)

lemma get_mbox_box: "mesh X Y net \<Longrightarrow> i < X * Y \<Longrightarrow> k < X * Y \<Longrightarrow> get_mbox net i k = Some (box net i k)"
  by (simp add: get_mbox_def box_def box_in_range)

lemma box_set_mbox:
  assumes "mesh X Y net" "i < X * Y" "k < X * Y" "j < X * Y" "l < X * Y"
  shows "box (set_mbox i k v net) j l = (if j = i \<and> l = k then v else box net j l)"
  using box_in_range [OF assms(1,2,3)] pair_index [OF assms(3,5), of i j] meshD(9) [OF assms(1)]
  by (auto simp: box_def set_mbox_def mbox_index_def nth_list_update)

section \<open>The messages in a network\<close>

text \<open>The hop counter of a message is not part of what it says.\<close>

definition strip :: "Msg \<Rightarrow> Msg" where
  "strip m = m\<lparr>msg_hops := 0\<rparr>"

definition link_msgs :: "(LinkDir \<Rightarrow> LinkName \<Rightarrow> Msg list) \<Rightarrow> Msg multiset" where
  "link_msgs l = (\<Sum>n\<leftarrow>link_names. mset (l LINK_IN n)) + (\<Sum>n\<leftarrow>link_names. mset (l LINK_OUT n))"

definition box_msgs :: "Msg option \<Rightarrow> Msg multiset" where
  "box_msgs b = (case b of None \<Rightarrow> {#} | Some m \<Rightarrow> {#m#})"

definition net_msgs :: "Net \<Rightarrow> Msg multiset" where
  "net_msgs net = image_mset strip
     ((\<Sum>nd\<leftarrow>net_nd net. link_msgs (nd_link nd)) + (\<Sum>b\<leftarrow>net_mbox net. box_msgs b))"

lemma sum_list_upd:
  fixes f :: "'a \<Rightarrow> 'b multiset"
  shows "i < length xs \<Longrightarrow> (\<Sum>x\<leftarrow>xs[i := y]. f x) + f (xs ! i) = (\<Sum>x\<leftarrow>xs. f x) + f y"
proof (induction xs arbitrary: i)
  case (Cons x xs)
  then show ?case by (cases i) (simp_all add: add.commute add.left_commute)
qed simp

lemma link_msgs_upd:
  assumes "n \<noteq> LINK_MBOX"
  shows "link_msgs (l(d := (l d)(n := q))) + mset (l d n) = link_msgs l + mset q"
  using assms by (cases d; cases n) (simp_all add: link_msgs_def link_names_def)

lemma net_msgs_upd_node:
  assumes "i < length (net_nd net)"
  shows "net_msgs (upd_node i f net) + image_mset strip (link_msgs (nd_link (net_nd net ! i))) =
    net_msgs net + image_mset strip (link_msgs (nd_link (f (net_nd net ! i))))"
  using sum_list_upd [OF assms, of "\<lambda>nd. link_msgs (nd_link nd)" "f (net_nd net ! i)"]
  by (simp add: net_msgs_def upd_node_def image_mset_union [symmetric] ac_simps del: image_mset_union)

lemma net_msgs_same_links [net_simps]:
  assumes "i < length (net_nd net)" "nd_link (f (net_nd net ! i)) = nd_link (net_nd net ! i)"
  shows "net_msgs (upd_node i f net) = net_msgs net"
  using net_msgs_upd_node [OF assms(1), of f] assms(2) by simp

lemma net_msgs_push [net_simps]:
  assumes "i < length (net_nd net)" "n \<noteq> LINK_MBOX"
  shows "net_msgs (push i d n m net) = add_mset (strip m) (net_msgs net)"
proof -
  let ?l = "nd_link (net_nd net ! i)"
  let ?f = "upd_link d n (\<lambda>q. q @ [m])"
  have l: "nd_link (?f (net_nd net ! i)) = ?l(d := (?l d)(n := ?l d n @ [m]))" by (simp add: upd_link_def)
  have "link_msgs (nd_link (?f (net_nd net ! i))) = add_mset m (link_msgs ?l)"
    using link_msgs_upd [OF assms(2), of ?l d "?l d n @ [m]"] unfolding l by simp
  with net_msgs_upd_node [OF assms(1), of ?f] show ?thesis by (simp add: push_def)
qed

lemma net_msgs_pop:
  assumes "i < length (net_nd net)" "n \<noteq> LINK_MBOX" "queue net i d n = m # q"
  shows "net_msgs net = add_mset (strip m) (net_msgs (pop i d n net))"
proof -
  let ?l = "nd_link (net_nd net ! i)"
  let ?f = "upd_link d n tl"
  have l: "nd_link (?f (net_nd net ! i)) = ?l(d := (?l d)(n := q))"
    using assms(3) by (simp add: upd_link_def queue_def)
  have "link_msgs ?l = add_mset m (link_msgs (nd_link (?f (net_nd net ! i))))"
    using link_msgs_upd [OF assms(2), of ?l d q] assms(3) unfolding l by (simp add: queue_def)
  with net_msgs_upd_node [OF assms(1), of ?f] show ?thesis by (simp add: pop_def)
qed

lemma net_msgs_set_mbox:
  assumes "mbox_index net i k < length (net_mbox net)"
  shows "net_msgs (set_mbox i k v net) + image_mset strip (box_msgs (box net i k)) =
    net_msgs net + image_mset strip (box_msgs v)"
  using sum_list_upd [OF assms, of box_msgs v]
  by (simp add: net_msgs_def set_mbox_def box_def image_mset_union [symmetric] ac_simps del: image_mset_union)

lemma net_msgs_fill:
  assumes "mesh X Y net" "i < X * Y" "k < X * Y" "box net i k = None"
  shows "net_msgs (set_mbox i k (Some m) net) = add_mset (strip m) (net_msgs net)"
  using net_msgs_set_mbox [OF box_in_range [OF assms(1-3)], of "Some m"] assms(4) by (simp add: box_msgs_def)

lemma net_msgs_take:
  assumes "mesh X Y net" "i < X * Y" "k < X * Y" "box net i k = Some m"
  shows "net_msgs net = add_mset (strip m) (net_msgs (set_mbox i k None net))"
  using net_msgs_set_mbox [OF box_in_range [OF assms(1-3)], of None] assms(4) by (simp add: box_msgs_def)

text \<open>What is in a link or a mailbox is in the network.\<close>

lemma queue_in_net:
  assumes "i < length (net_nd net)" "n \<noteq> LINK_MBOX" "m \<in> set (queue net i d n)"
  shows "strip m \<in># net_msgs net"
proof -
  have "net_nd net ! i \<in> set (net_nd net)" using assms(1) by simp
  then obtain xs ys where "net_nd net = xs @ net_nd net ! i # ys" by (meson split_list)
  then have "net_msgs net = image_mset strip (link_msgs (nd_link (net_nd net ! i))) +
      image_mset strip ((\<Sum>nd\<leftarrow>xs @ ys. link_msgs (nd_link nd)) + (\<Sum>b\<leftarrow>net_mbox net. box_msgs b))"
    by (simp add: net_msgs_def) (metis (no_types, lifting) image_mset_union list.simps(9) map_append
        sum_list.Cons sum_list_append union_assoc union_commute)
  moreover have "m \<in># link_msgs (nd_link (net_nd net ! i))"
    using assms(2,3) by (cases d; cases n) (simp_all add: link_msgs_def link_names_def queue_def)
  ultimately show ?thesis by (simp add: image_iff) blast
qed

lemma box_in_net:
  assumes "mesh X Y net" "i < X * Y" "k < X * Y" "box net i k = Some m"
  shows "strip m \<in># net_msgs net"
  using net_msgs_take [OF assms] by simp

end
