(* ===== verification/NetStep.thy ===== *)
theory NetStep
  imports NetFacts
begin

text \<open>
  The network as a transition system: what a message or a node can do in one step, the
  invariant that every step keeps, and the refinement: a cycle of the code's \<open>Net_execute\<close>
  is a sequence of such steps.
\<close>

section \<open>Steps\<close>

definition node_op :: "Net \<Rightarrow> nat \<Rightarrow> u32" where
  "node_op net i = COP2_MSG_ST_OP (get_sel COP2_MSG_ST (net_nd net ! i))"

definition node_sent :: "Net \<Rightarrow> nat \<Rightarrow> bool" where
  "node_sent net i \<longleftrightarrow> COP2_MSG_ST_SENT (get_sel COP2_MSG_ST (net_nd net ! i)) \<noteq> 0"

definition node_corr :: "Net \<Rightarrow> nat \<Rightarrow> nat" where
  "node_corr net i = unat (get_sel COP2_MSG_CORR (net_nd net ! i))"

definition way :: "Net \<Rightarrow> nat \<Rightarrow> u16 \<Rightarrow> LinkName" where
  "way net i to = guidance (net_y net) (of_nat i) (ucast to)"

text \<open>The counters of a delivery and of an answer.\<close>

definition tally :: "Node \<Rightarrow> Node" where
  "tally nd = (set_sel COP2_MSG_NMSG (get_sel COP2_MSG_NMSG nd + 1) nd)\<lparr>nd_mbox_new := nd_mbox_new nd + 1\<rparr>"

definition answer_of :: "nat \<Rightarrow> u32 \<Rightarrow> Msg \<Rightarrow> Msg" where
  "answer_of i g m = \<lparr>msg_to = msg_from m, msg_from = of_nat i, msg_data = g, msg_hops = msg_hops m, msg_ack = True\<rparr>"

definition take_msg :: "Msg \<Rightarrow> Node \<Rightarrow> Node" where
  "take_msg m nd =
    (let nd2 = set_sel COP2_MSG_DATA (msg_data m) nd;
         nd3 = set_sel COP2_MSG_HOPS (get_sel COP2_MSG_HOPS nd2 + msg_hops m) nd2
     in set_sel COP2_MSG_ST (op_val COP2_MSG_OP_NONE) nd3)"

text \<open>A change of a node that is not seen by the others: its links and coprocessor registers stay,
  but its operation may end.\<close>

definition private_change :: "nat \<Rightarrow> (Node \<Rightarrow> Node) \<Rightarrow> Node \<Rightarrow> bool" where
  "private_change N f nd \<longleftrightarrow> wf_cpu (nd_cpu (f nd)) \<and> unat (nd_mbox_start (f nd)) < N \<and> nd_link (f nd) = nd_link nd \<and>
     nd_mem (f nd) = nd_mem nd \<and> (\<forall>s. s \<noteq> COP2_MSG_ST \<longrightarrow> get_sel s (f nd) = get_sel s nd) \<and>
     get_sel COP2_MSG_ST (f nd) \<in> {get_sel COP2_MSG_ST nd, op_val COP2_MSG_OP_NONE}"

text \<open>The moves of messages.\<close>

inductive net_move :: "nat \<Rightarrow> Net \<Rightarrow> Net \<Rightarrow> bool" for N where
  forward: "\<lbrakk>i < N; n \<noteq> LINK_MBOX; queue net i LINK_IN n = m # q; way net i (msg_to m) = k; k \<noteq> LINK_MBOX;
      length (queue net i LINK_OUT k) < LINK_BUFSZ\<rbrakk>
    \<Longrightarrow> net_move N net (push i LINK_OUT k m (pop i LINK_IN n net))"
| deliver: "\<lbrakk>i < N; n \<noteq> LINK_MBOX; queue net i LINK_IN n = m # q; way net i (msg_to m) = LINK_MBOX;
      box net i (unat (msg_from m)) = None\<rbrakk>
    \<Longrightarrow> net_move N net (set_mbox i (unat (msg_from m)) (Some m) (upd_node i tally (pop i LINK_IN n net)))"
| transmit: "\<lbrakk>i < N; n \<noteq> LINK_MBOX; queue net i LINK_OUT n = m # q;
      hop_next (net_size net) (net_y net) (of_nat i) n = (c, k, False); unat c < N;
      length (queue net (unat c) LINK_IN k) < LINK_BUFSZ\<rbrakk>
    \<Longrightarrow> net_move N net (upd_node (unat c) (count_link LINK_IN k) (push (unat c) LINK_IN k (m\<lparr>msg_hops := msg_hops m + 1\<rparr>)
          (upd_node i (count_link LINK_OUT n) (pop i LINK_OUT n net))))"

text \<open>A step: a move, or a part of the command of a node.\<close>

inductive net_step :: "nat \<Rightarrow> Net \<Rightarrow> Net \<Rightarrow> bool" for N where
  move: "net_move N net net' \<Longrightarrow> net_step N net net'"
| send: "\<lbrakk>i < N; node_corr net i < N; node_op net i = op_val COP2_MSG_OP_OUT; \<not> node_sent net i;
      m = \<lparr>msg_to = of_nat (node_corr net i), msg_from = of_nat i, msg_data = get_sel COP2_MSG_DATA (net_nd net ! i),
           msg_hops = 0, msg_ack = False\<rparr>;
      way net i (msg_to m) = k; k \<noteq> LINK_MBOX; length (queue net i LINK_OUT k) < LINK_BUFSZ\<rbrakk>
    \<Longrightarrow> net_step N net (upd_node i (set_sel COP2_MSG_ST (get_sel COP2_MSG_ST (net_nd net ! i) OR 4))
          (push i LINK_OUT k m net))"
| acknowledged: "\<lbrakk>i < N; node_corr net i < N; node_op net i = op_val COP2_MSG_OP_OUT; node_sent net i;
      box net i (node_corr net i) = Some m; msg_ack m\<rbrakk>
    \<Longrightarrow> net_step N net (set_mbox i (node_corr net i) None
          (upd_node i (set_sel COP2_MSG_ST (op_val COP2_MSG_OP_NONE)) net))"
| accept: "\<lbrakk>i < N; node_op net i \<noteq> op_val COP2_MSG_OP_OUT; j < N; box net i j = Some m;
      way net i (msg_from m) = k; k \<noteq> LINK_MBOX; length (queue net i LINK_OUT k) < LINK_BUFSZ\<rbrakk>
    \<Longrightarrow> net_step N net (set_mbox i j None (upd_node i (take_msg m) (push i LINK_OUT k (answer_of i g m) net)))"
| private_step: "\<lbrakk>i < N; node_op net i \<noteq> op_val COP2_MSG_OP_OUT; private_change N f (net_nd net ! i)\<rbrakk>
    \<Longrightarrow> net_step N net (upd_node i f net)"

abbreviation net_moves :: "nat \<Rightarrow> Net \<Rightarrow> Net \<Rightarrow> bool" where
  "net_moves N \<equiv> (net_move N)\<^sup>*\<^sup>*"

abbreviation net_steps :: "nat \<Rightarrow> Net \<Rightarrow> Net \<Rightarrow> bool" where
  "net_steps N \<equiv> (net_step N)\<^sup>*\<^sup>*"

section \<open>The invariant\<close>

definition msg_ok :: "nat \<Rightarrow> Msg \<Rightarrow> bool" where
  "msg_ok N m \<longleftrightarrow> unat (msg_to m) < N \<and> unat (msg_from m) < N \<and> msg_to m \<noteq> msg_from m"

definition queue_ok :: "nat \<Rightarrow> Net \<Rightarrow> nat \<Rightarrow> LinkDir \<Rightarrow> LinkName \<Rightarrow> Msg list \<Rightarrow> bool" where
  "queue_ok N net i d n q \<longleftrightarrow> length q \<le> LINK_BUFSZ \<and>
     (\<forall>m\<in>set q. msg_ok N m \<and> n \<noteq> LINK_MBOX \<and> (d = LINK_OUT \<longrightarrow> way net i (msg_to m) = n))"

definition links_ok :: "nat \<Rightarrow> Net \<Rightarrow> bool" where
  "links_ok N net \<longleftrightarrow> (\<forall>i<N. \<forall>d n. queue_ok N net i d n (queue net i d n))"

definition boxes_ok :: "nat \<Rightarrow> Net \<Rightarrow> bool" where
  "boxes_ok N net \<longleftrightarrow> (\<forall>i<N. \<forall>k<N. \<forall>m. box net i k = Some m \<longrightarrow>
     msg_ok N m \<and> unat (msg_to m) = i \<and> unat (msg_from m) = k)"

definition net_ok :: "nat \<Rightarrow> nat \<Rightarrow> Net \<Rightarrow> bool" where
  "net_ok X Y net \<longleftrightarrow> mesh X Y net \<and> links_ok (X * Y) net \<and> boxes_ok (X * Y) net"

lemma links_okD:
  assumes "links_ok N net" "i < N"
  shows "length (queue net i d n) \<le> LINK_BUFSZ"
    and "m \<in> set (queue net i d n) \<Longrightarrow> msg_ok N m"
    and "m \<in> set (queue net i d n) \<Longrightarrow> n \<noteq> LINK_MBOX"
    and "m \<in> set (queue net i LINK_OUT n) \<Longrightarrow> way net i (msg_to m) = n"
  using assms by (auto simp: links_ok_def queue_ok_def)

lemma queue_ok_tl: "queue_ok N net i d n q \<Longrightarrow> queue_ok N net i d n (tl q)"
  by (cases q) (simp_all add: queue_ok_def)

lemma boxes_okD:
  assumes "boxes_ok N net" "i < N" "k < N" "box net i k = Some m"
  shows "msg_ok N m" "unat (msg_to m) = i" "unat (msg_from m) = k"
  using assms by (auto simp: boxes_ok_def)

lemma way_fields [net_simps]:
  "way (upd_node i f net) = way net" "way (set_mbox i k v net) = way net"
  by (simp_all add: way_def net_simps fun_eq_iff)

lemma way_pop_push [net_simps]: "way (pop i d n net) = way net" "way (push i d n m net) = way net"
  by (simp_all add: pop_def push_def net_simps)

lemma queue_ok_way: "way net' = way net \<Longrightarrow> queue_ok N net' = queue_ok N net"
  by (simp add: queue_ok_def fun_eq_iff)

lemma links_ok_push:
  assumes "links_ok N net" "i < N" "length (net_nd net) = N" "length (queue net i d n) < LINK_BUFSZ"
    and "msg_ok N m" "n \<noteq> LINK_MBOX" "d = LINK_OUT \<Longrightarrow> way net i (msg_to m) = n"
  shows "links_ok N (push i d n m net)"
proof -
  have "queue_ok N net i d n (queue net i d n @ [m])"
    using assms by (auto simp: links_ok_def queue_ok_def)
  then show ?thesis using assms(1,2,3) by (simp add: links_ok_def queue_ok_way [OF way_pop_push(2)] net_simps)
qed

lemma links_ok_pop:
  assumes "links_ok N net" "i < N" "length (net_nd net) = N"
  shows "links_ok N (pop i d n net)"
  using assms queue_ok_tl by (simp add: links_ok_def queue_ok_way [OF way_pop_push(1)] net_simps)

lemma links_ok_same:
  assumes "links_ok N net" "i < N" "length (net_nd net) = N" "nd_link (f (net_nd net ! i)) = nd_link (net_nd net ! i)"
  shows "links_ok N (upd_node i f net)"
  using assms queue_local [of i net f] by (simp add: links_ok_def queue_ok_way [OF way_fields(1)])

lemma links_ok_set_mbox: "links_ok N net \<Longrightarrow> links_ok N (set_mbox i k v net)"
  by (simp add: links_ok_def queue_ok_way [OF way_fields(2)] net_simps)

lemma boxes_ok_upd_node: "boxes_ok N net \<Longrightarrow> boxes_ok N (upd_node i f net)"
  by (simp add: boxes_ok_def net_simps)

lemma boxes_ok_set_mbox:
  assumes "boxes_ok (X * Y) net" "mesh X Y net" "i < X * Y" "k < X * Y"
    and "\<And>m. v = Some m \<Longrightarrow> msg_ok (X * Y) m \<and> unat (msg_to m) = i \<and> unat (msg_from m) = k"
  shows "boxes_ok (X * Y) (set_mbox i k v net)"
  using assms by (auto simp: boxes_ok_def box_set_mbox)

lemma net_ok_push:
  assumes "net_ok X Y net" "i < X * Y" "length (queue net i d n) < LINK_BUFSZ" "msg_ok (X * Y) m" "n \<noteq> LINK_MBOX"
    "d = LINK_OUT \<Longrightarrow> way net i (msg_to m) = n"
  shows "net_ok X Y (push i d n m net)"
  using assms links_ok_push [of "X * Y" net i d n m] meshD(7) [of X Y net]
  by (simp add: net_ok_def mesh_push boxes_ok_upd_node) (simp add: push_def boxes_ok_upd_node)

lemma net_ok_pop: "net_ok X Y net \<Longrightarrow> i < X * Y \<Longrightarrow> net_ok X Y (pop i d n net)"
  using links_ok_pop [of "X * Y" net i d n] meshD(7) [of X Y net]
  by (simp add: net_ok_def mesh_pop) (simp add: pop_def boxes_ok_upd_node)

lemma net_ok_upd_node:
  assumes "net_ok X Y net" "i < X * Y" "nd_link (f (net_nd net ! i)) = nd_link (net_nd net ! i)"
    "wf_cpu (nd_cpu (f (net_nd net ! i)))" "unat (nd_mbox_start (f (net_nd net ! i))) < X * Y"
  shows "net_ok X Y (upd_node i f net)"
  using assms links_ok_same [of "X * Y" net i f] meshD(7) [of X Y net]
  by (simp add: net_ok_def mesh_upd_node boxes_ok_upd_node)

lemma net_ok_set_mbox:
  assumes "net_ok X Y net" "i < X * Y" "k < X * Y"
    and "\<And>m. v = Some m \<Longrightarrow> msg_ok (X * Y) m \<and> unat (msg_to m) = i \<and> unat (msg_from m) = k"
  shows "net_ok X Y (set_mbox i k v net)"
  using assms boxes_ok_set_mbox [of X Y net i k v] by (simp add: net_ok_def mesh_set_mbox links_ok_set_mbox)

section \<open>Every step keeps the invariant\<close>

lemma go_MBOX: "go Y a b = LINK_MBOX \<longleftrightarrow> a = b"
  by (auto simp: go_def)

lemma way_go:
  assumes "mesh X Y net" "i < X * Y"
  shows "way net i t = go Y i (unat t)"
proof -
  note m = meshD [OF assms(1)]
  have Y: "Y \<le> X * Y" using m(1) by simp
  have "Y < 2 ^ 32" "i < 2 ^ 32" using le_trans [OF Y m(3)] m(3) assms(2) by simp_all
  moreover have "unat t < 2 ^ 32" by (rule less_trans [OF unsigned_less]) simp
  moreover have "(ucast t :: u64) = of_nat (unat t)" by simp
  ultimately show ?thesis unfolding way_def m(6) by (metis guidance_go)
qed

lemma way_MBOX: "mesh X Y net \<Longrightarrow> i < X * Y \<Longrightarrow> way net i t = LINK_MBOX \<longleftrightarrow> i = unat t"
  by (simp add: way_go go_MBOX)

lemma hop_next_link: "hop_next sz y i n = (c, k, b) \<Longrightarrow> n \<noteq> LINK_MBOX \<Longrightarrow> k \<noteq> LINK_MBOX"
  by (cases n) (auto simp: hop_next_def Let_def)

lemma wf_tally: "wf_cpu (nd_cpu nd) \<Longrightarrow> wf_cpu (nd_cpu (tally nd))"
  by (simp add: tally_def wf_set_sel)

lemma tally_fields [net_simps]: "nd_link (tally nd) = nd_link nd" "nd_mbox_start (tally nd) = nd_mbox_start nd"
  "nd_mem (tally nd) = nd_mem nd"
  by (simp_all add: tally_def net_simps)

lemma wf_take_msg: "wf_cpu (nd_cpu nd) \<Longrightarrow> wf_cpu (nd_cpu (take_msg m nd))"
  by (simp add: take_msg_def Let_def wf_set_sel)

lemma take_msg_fields [net_simps]: "nd_link (take_msg m nd) = nd_link nd"
  "nd_mbox_start (take_msg m nd) = nd_mbox_start nd" "nd_mem (take_msg m nd) = nd_mem nd"
  by (simp_all add: take_msg_def Let_def net_simps)

lemmas node_ok_rules = net_ok_upd_node wf_tally wf_take_msg wf_set_sel

lemma net_ok_node:
  assumes "net_ok X Y net" "i < X * Y"
  shows "wf_cpu (nd_cpu (net_nd net ! i))" "unat (nd_mbox_start (net_nd net ! i)) < X * Y"
  using assms mesh_node by (auto simp: net_ok_def)

lemma net_okD:
  assumes "net_ok X Y net"
  shows "mesh X Y net" "links_ok (X * Y) net" "boxes_ok (X * Y) net"
  using assms by (simp_all add: net_ok_def)

text \<open>A change of a node that its links do not see.\<close>

lemma net_ok_local:
  assumes "net_ok X Y net" "i < X * Y" "\<And>nd. nd_link (f nd) = nd_link nd"
    "\<And>nd. nd_mbox_start (f nd) = nd_mbox_start nd" "\<And>nd. wf_cpu (nd_cpu nd) \<Longrightarrow> wf_cpu (nd_cpu (f nd))"
  shows "net_ok X Y (upd_node i f net)"
  using assms net_ok_node [OF assms(1,2)] by (intro net_ok_upd_node) simp_all

lemma head_ok:
  assumes "net_ok X Y net" "i < X * Y" "queue net i d n = m # q"
  shows "msg_ok (X * Y) m" "n \<noteq> LINK_MBOX"
  using links_okD(2,3) [OF net_okD(2) [OF assms(1)] assms(2), of m d n] assms(3) by simp_all

lemma answer_ok:
  assumes "net_ok X Y net" "i < X * Y" "j < X * Y" "box net i j = Some m"
  shows "msg_ok (X * Y) (answer_of i g m)"
proof -
  note b = boxes_okD [OF net_okD(3) [OF assms(1)] assms(2-4)]
  have "X * Y \<le> 2 ^ 16" using meshD(3) [OF net_okD(1) [OF assms(1)]] .
  then have "unat (of_nat i :: u16) = i" using assms(2) by (simp add: unsigned_of_nat take_bit_nat_eq_self)
  then show ?thesis using b assms(2) by (auto simp: msg_ok_def answer_of_def)
qed

lemma net_move_ok:
  assumes "net_move (X * Y) net net'" "net_ok X Y net"
  shows "net_ok X Y net'"
  using assms(1)
proof cases
  case (forward i n m q k)
  have "net_ok X Y (pop i LINK_IN n net)" by (rule net_ok_pop [OF assms(2) forward(2)])
  then show ?thesis using forward head_ok [OF assms(2) forward(2,4)] meshD(7) [OF net_okD(1) [OF assms(2)]]
    by (simp add: net_ok_push net_simps)
next
  case (deliver i n m q)
  have "net_ok X Y (upd_node i tally (pop i LINK_IN n net))"
    using deliver(2) assms(2) by (intro net_ok_local net_ok_pop) (simp_all add: net_simps wf_tally)
  moreover have "unat (msg_to m) = i"
    using way_MBOX [OF net_okD(1) [OF assms(2)] deliver(2)] deliver(5) by simp
  ultimately show ?thesis using deliver head_ok [OF assms(2) deliver(2,4)]
    by (auto simp: msg_ok_def intro!: net_ok_set_mbox)
next
  case (transmit i n m q c k)
  note k = hop_next_link [OF transmit(5,3)]
  let ?net1 = "upd_node i (count_link LINK_OUT n) (pop i LINK_OUT n net)"
  have "net_ok X Y ?net1"
    using transmit(2) assms(2) by (intro net_ok_local net_ok_pop) (simp_all add: net_simps)
  moreover have "queue ?net1 (unat c) LINK_IN k = queue net (unat c) LINK_IN k"
    using transmit meshD(7) [OF net_okD(1) [OF assms(2)]]
    by (simp add: queue_local net_simps)
  moreover have "msg_ok (X * Y) (m\<lparr>msg_hops := msg_hops m + 1\<rparr>)"
    using head_ok [OF assms(2) transmit(2,4)] by (simp add: msg_ok_def)
  ultimately have "net_ok X Y (push (unat c) LINK_IN k (m\<lparr>msg_hops := msg_hops m + 1\<rparr>) ?net1)"
    using transmit k by (intro net_ok_push) simp_all
  then show ?thesis unfolding transmit(1) using transmit(6) by (intro net_ok_local) (simp_all add: net_simps)
qed

lemma net_step_ok:
  assumes "net_step (X * Y) net net'" "net_ok X Y net"
  shows "net_ok X Y net'"
  using assms(1)
proof cases
  case move
  then show ?thesis using assms(2) by (rule net_move_ok)
next
  case (send i m k)
  have N: "X * Y \<le> 2 ^ 16" using meshD(3) [OF net_okD(1) [OF assms(2)]] .
  have u: "unat (of_nat i :: u16) = i" "unat (of_nat (node_corr net i) :: u16) = node_corr net i"
    using N send(2,3) by (simp_all add: unsigned_of_nat take_bit_nat_eq_self)
  have "node_corr net i \<noteq> i"
    using way_MBOX [OF net_okD(1) [OF assms(2)] send(2), of "msg_to m"] send(6-8) u by auto
  then have "msg_to m \<noteq> msg_from m" using u send(6) by (metis Msg.select_convs(1,2))
  then have "msg_ok (X * Y) m" using u send(2,3,6) by (simp add: msg_ok_def)
  then have "net_ok X Y (push i LINK_OUT k m net)" using send by (intro net_ok_push assms(2)) simp_all
  then show ?thesis unfolding send(1) using send(2) by (intro net_ok_local) (simp_all add: net_simps wf_set_sel)
next
  case (acknowledged i m)
  then show ?thesis using assms(2)
    by (auto intro!: net_ok_set_mbox net_ok_local simp: net_simps wf_set_sel)
next
  case (accept i j m k g)
  have "net_ok X Y (push i LINK_OUT k (answer_of i g m) net)"
    using accept answer_ok [OF assms(2) accept(2,4,5)] by (intro net_ok_push assms(2)) (simp_all add: answer_of_def)
  then show ?thesis unfolding accept(1) using accept(2,4)
    by (intro net_ok_set_mbox net_ok_local) (simp_all add: net_simps wf_take_msg)
next
  case (private_step i f)
  then show ?thesis using assms(2) by (auto simp: private_change_def intro: net_ok_upd_node)
qed

end
