(* ===== verification/NetRefine.thy ===== *)
theory NetRefine
  imports NetStep
begin

text \<open>
  The code's functions as sequences of network steps: the two phases that move messages are always
  defined, and a command is a step or two of its node.
\<close>

section \<open>Links\<close>

lemma snd_link_remmsg [net_simps]: "snd (link_remmsg q) = tl q"
  by (cases q) (simp_all add: link_remmsg_def)

lemma upd_node_cong:
  assumes "f (net_nd net ! i) = g (net_nd net ! i)"
  shows "upd_node i f net = upd_node i g net"
  using assms by (simp add: upd_node_def)

lemma pop_remmsg: "upd_node i (upd_link d n (\<lambda>q. snd (link_remmsg q))) net = pop i d n net"
  by (simp add: pop_def net_simps)

lemma push_insmsg:
  assumes "length (queue net i d n) \<noteq> LINK_BUFSZ"
  shows "upd_node i (upd_link d n (\<lambda>q. snd (link_insmsg m q))) net = push i d n m net"
  unfolding push_def using assms
  by (intro upd_node_cong) (simp add: upd_link_def link_insmsg_def queue_def)

lemma unat_of_nat_u32:
  assumes "mesh X Y net" "i < X * Y"
  shows "unat (of_nat i :: u32) = i"
  using assms meshD(3) [OF assms(1)] by (intro unat_u32) simp

section \<open>Moving messages\<close>

text \<open>The head of a link cannot move: its mailbox is taken, or the next link is full.\<close>

definition in_blocked :: "Net \<Rightarrow> nat \<Rightarrow> LinkName \<Rightarrow> bool" where
  "in_blocked net i n \<longleftrightarrow> (case queue net i LINK_IN n of [] \<Rightarrow> True | m # q \<Rightarrow>
     if way net i (msg_to m) = LINK_MBOX then box net i (unat (msg_from m)) \<noteq> None
     else length (queue net i LINK_OUT (way net i (msg_to m))) = LINK_BUFSZ)"

definition out_blocked :: "Net \<Rightarrow> nat \<Rightarrow> LinkName \<Rightarrow> bool" where
  "out_blocked net i n \<longleftrightarrow> (case queue net i LINK_OUT n of [] \<Rightarrow> True | m # q \<Rightarrow>
     case hop_next (net_size net) (net_y net) (of_nat i) n of (c, k, oob) \<Rightarrow>
       length (queue net (unat c) LINK_IN k) = LINK_BUFSZ)"

lemma fwd_link_moves:
  assumes "net_ok X Y net" "i < X * Y"
  shows "\<exists>net'. fwd_link i n net = Some net' \<and> (net' = net \<and> in_blocked net i n \<or> net_move (X * Y) net net')"
proof (cases "queue net i LINK_IN n")
  case Nil
  then show ?thesis by (simp add: fwd_link_def queue_def in_blocked_def)
next
  case (Cons m q)
  note mesh = net_okD(1) [OF assms(1)]
  note ok = head_ok [OF assms Cons]
  let ?k = "way net i (msg_to m)"
  have q: "nd_link (net_nd net ! i) LINK_IN n = m # q" using Cons by (simp add: queue_def)
  have N: "i < length (net_nd net)" using assms(2) meshD(7) [OF mesh] by simp
  show ?thesis
  proof (cases "?k = LINK_MBOX")
    case True
    have from_less: "unat (msg_from m) < X * Y" using ok by (simp add: msg_ok_def)
    show ?thesis
    proof (cases "box net i (unat (msg_from m))")
      case None
      from deliver [OF assms(2) ok(2) Cons True None] show ?thesis
        using True None get_mbox_box [OF mesh assms(2) from_less]
        by (simp add: fwd_link_def q way_def [symmetric] pop_remmsg tally_def [abs_def])
    next
      case (Some old)
      then show ?thesis using True get_mbox_box [OF mesh assms(2) from_less]
        by (simp add: fwd_link_def q way_def [symmetric] in_blocked_def Cons)
    qed
  next
    case False
    show ?thesis
    proof (cases "length (queue net i LINK_OUT ?k) = LINK_BUFSZ")
      case True
      then show ?thesis using False
        by (simp add: fwd_link_def Cons way_def [symmetric] queue_def [symmetric] in_blocked_def)
    next
      case full: False
      then have room: "length (queue net i LINK_OUT ?k) < LINK_BUFSZ"
        using links_okD(1) [OF net_okD(2) [OF assms(1)] assms(2), of LINK_OUT ?k] by simp
      have "queue (pop i LINK_IN n net) i LINK_OUT ?k = queue net i LINK_OUT ?k" using N by (simp add: net_simps)
      with full have "fwd_link i n net = Some (push i LINK_OUT ?k m (pop i LINK_IN n net))"
        using False by (simp add: fwd_link_def Cons way_def [symmetric] pop_remmsg push_insmsg queue_def [symmetric])
      with forward [OF assms(2) ok(2) Cons refl False room] show ?thesis by blast
    qed
  qed
qed

lemma hop_link_moves:
  assumes "net_ok X Y net" "i < X * Y"
  shows "\<exists>net'. hop_link (of_nat i) n net = Some net' \<and> (net' = net \<and> out_blocked net i n \<or> net_move (X * Y) net net')"
proof (cases "queue net i LINK_OUT n")
  case Nil
  then show ?thesis using unat_of_nat_u32 [OF net_okD(1) [OF assms(1)] assms(2)]
    by (simp add: hop_link_def queue_def out_blocked_def split: prod.split)
next
  case (Cons m q)
  note mesh = net_okD(1) [OF assms(1)]
  note ok = head_ok [OF assms Cons] and u = unat_of_nat_u32 [OF mesh assms(2)]
  have q: "nd_link (net_nd net ! i) LINK_OUT n = m # q" using Cons by (simp add: queue_def)
  have to_less: "unat (msg_to m) < X * Y" using ok by (simp add: msg_ok_def)
  have n: "n = go Y i (unat (msg_to m))"
    using links_okD(4) [OF net_okD(2) [OF assms(1)] assms(2), of m n] Cons way_go [OF mesh assms(2)] by simp
  with ok(2) have "i \<noteq> unat (msg_to m)" by (metis go_MBOX)
  note exit = go_has_exit [OF meshD(2) [OF mesh] assms(2) to_less this, folded n]
    and near = go_nearer [OF meshD(2) [OF mesh] assms(2) to_less this, folded n]
  obtain c k where h: "hop_next (net_size net) (net_y net) (of_nat i) n = (c, k, False)" and "c = of_nat (neighbour Y i n)"
    using hop_next_exit [OF meshD(2) [OF mesh] assms(2) meshD(3) [OF mesh] exit] meshD(5,6) [OF mesh] by simp
  then have c: "unat c < X * Y" using near unat_of_nat_u32 [OF mesh, of "neighbour Y i n"] by simp
  show ?thesis
  proof (cases "length (queue net (unat c) LINK_IN k) = LINK_BUFSZ")
    case True
    then show ?thesis using c meshD(7) [OF mesh]
      by (simp add: hop_link_def h Cons u queue_def [symmetric] out_blocked_def)
  next
    case False
    then have room: "length (queue net (unat c) LINK_IN k) < LINK_BUFSZ"
      using links_okD(1) [OF net_okD(2) [OF assms(1)] c, of LINK_IN k] by simp
    let ?net1 = "upd_node i (count_link LINK_OUT n) (pop i LINK_OUT n net)"
    have N: "i < length (net_nd net)" "unat c < length (net_nd net)" using assms(2) c meshD(7) [OF mesh] by simp_all
    have "queue ?net1 (unat c) LINK_IN k = queue net (unat c) LINK_IN k"
      using N by (simp add: queue_local net_simps)
    then have "upd_node (unat c) (upd_link LINK_IN k (\<lambda>q. snd (link_insmsg (m\<lparr>msg_hops := msg_hops m + 1\<rparr>) q))) ?net1 =
        push (unat c) LINK_IN k (m\<lparr>msg_hops := msg_hops m + 1\<rparr>) ?net1"
      using False by (intro push_insmsg) simp
    then have "hop_link (of_nat i) n net = Some (upd_node (unat c) (count_link LINK_IN k)
        (push (unat c) LINK_IN k (m\<lparr>msg_hops := msg_hops m + 1\<rparr>) ?net1))"
      using False N by (simp add: hop_link_def h q u queue_def upd_node_comp [symmetric] pop_def [symmetric] net_simps)
    with transmit [OF assms(2) ok(2) Cons h c room] show ?thesis by blast
  qed
qed

text \<open>Loops of such bodies.\<close>

lemma mfold_net_moves:
  assumes "net_ok X Y net"
    and "\<And>i net. i \<in> set is \<Longrightarrow> net_ok X Y net \<Longrightarrow> \<exists>net'. f i net = Some net' \<and> net_moves (X * Y) net net'"
  shows "\<exists>net'. mfold f is net = Some net' \<and> net_moves (X * Y) net net'"
  using assms
proof (induction "is" arbitrary: net)
  case (Cons i "is")
  then obtain net1 where 1: "f i net = Some net1" "net_moves (X * Y) net net1" by (meson list.set_intros(1))
  have "net_ok X Y net1" using 1(2) Cons.prems(1) by (induction rule: rtranclp_induct) (auto intro: net_move_ok)
  with Cons obtain net2 where "mfold f is net1 = Some net2" "net_moves (X * Y) net1 net2"
    by (metis list.set_intros(2))
  with 1 show ?case by (auto intro: rtranclp_trans)
qed simp

lemma fwd_moves:
  assumes "net_ok X Y net" "i < X * Y"
  shows "\<exists>net'. fwd i net = Some net' \<and> net_moves (X * Y) net net'"
  unfolding fwd_def using assms(1)
  by (rule mfold_net_moves) (use fwd_link_moves assms(2) in \<open>blast intro: r_into_rtranclp\<close>)

lemma hop_moves:
  assumes "net_ok X Y net" "i < X * Y"
  shows "\<exists>net'. hop (of_nat i) net = Some net' \<and> net_moves (X * Y) net net'"
  unfolding hop_def using assms(1)
  by (rule mfold_net_moves) (use hop_link_moves assms(2) in \<open>blast intro: r_into_rtranclp\<close>)

section \<open>Commands\<close>

lemma node_op_set [net_simps]:
  assumes "i < length (net_nd net)"
  shows "node_op (upd_node i f net) j =
    (if j = i then COP2_MSG_ST_OP (get_sel COP2_MSG_ST (f (net_nd net ! i))) else node_op net j)"
  using assms by (simp add: node_op_def net_simps)

lemma node_op_set_mbox [net_simps]: "node_op (set_mbox i k v net) = node_op net"
  by (simp add: node_op_def net_simps fun_eq_iff)

lemma node_op_push [net_simps]: "i < length (net_nd net) \<Longrightarrow> node_op (push i d n m net) = node_op net"
  by (simp add: push_def net_simps fun_eq_iff) (simp add: node_op_def)

lemma take_msg_ST [net_simps]: "wf_cpu (nd_cpu nd) \<Longrightarrow> get_sel COP2_MSG_ST (take_msg m nd) = op_val COP2_MSG_OP_NONE"
  by (simp add: take_msg_def Let_def wf_set_sel net_simps)

lemma receive_steps:
  assumes "net_ok X Y net" "i < X * Y" "j < X * Y" "box net i j = Some m" "node_op net i \<noteq> op_val COP2_MSG_OP_OUT"
  obtains (no_memory) "al = None" "receive net j i m al = Some (E ENOMEM, net)"
  | (full) g where "al = Some g" "receive net j i m al = Some (E ENOBUFS, net)"
      "length (queue net i LINK_OUT (way net i (msg_from m))) = LINK_BUFSZ"
  | (taken) g where "al = Some g"
      "receive net j i m al = Some (OK, set_mbox i j None (upd_node i (take_msg m)
         (push i LINK_OUT (way net i (msg_from m)) (answer_of i g m) net)))"
      "net_step (X * Y) net (set_mbox i j None (upd_node i (take_msg m)
         (push i LINK_OUT (way net i (msg_from m)) (answer_of i g m) net)))"
proof (cases al)
  case None
  then show thesis using no_memory by (simp add: receive_def)
next
  case (Some g)
  note mesh = net_okD(1) [OF assms(1)] and b = boxes_okD [OF net_okD(3) [OF assms(1)] assms(2-4)]
  have N: "i < length (net_nd net)" using assms(2) meshD(7) [OF mesh] by simp
  let ?k = "way net i (msg_from m)"
  have "i \<noteq> unat (msg_from m)" using b by (auto simp: msg_ok_def word_unat_eq_iff)
  then have k: "?k \<noteq> LINK_MBOX" using way_MBOX [OF mesh assms(2)] by simp
  have ack: "\<lparr>msg_to = msg_from m, msg_from = of_nat i, msg_data = g, msg_hops = msg_hops m, msg_ack = True\<rparr> = answer_of i g m"
    by (simp add: answer_of_def)
  have to: "msg_to (answer_of i g m) = msg_from m" by (simp add: answer_of_def)
  show thesis
  proof (cases "length (queue net i LINK_OUT ?k) \<ge> LINK_BUFSZ")
    case True
    then have "length (queue net i LINK_OUT ?k) = LINK_BUFSZ"
      using links_okD(1) [OF net_okD(2) [OF assms(1)] assms(2), of LINK_OUT ?k] by simp
    with True Some k full show thesis
      by (simp add: receive_def Let_def way_def [symmetric] queue_def)
  next
    case False
    then have q: "length (queue net i LINK_OUT ?k) \<noteq> LINK_BUFSZ" by simp
    have "upd_node i (\<lambda>nd. take_msg m (upd_link LINK_OUT ?k (\<lambda>q. snd (link_insmsg (answer_of i g m) q)) nd)) net =
        upd_node i (take_msg m) (push i LINK_OUT ?k (answer_of i g m) net)"
      unfolding upd_node_comp [OF N, symmetric] push_insmsg [OF q] ..
    then have "receive net j i m al = Some (OK, set_mbox i j None (upd_node i (take_msg m)
         (push i LINK_OUT ?k (answer_of i g m) net)))"
      using Some k False by (simp add: receive_def Let_def way_def [symmetric] queue_def ack to take_msg_def)
    with Some taken accept [OF assms(2,5,3,4) refl k, of g] False show thesis by simp
  qed
qed

lemma net_input_steps:
  assumes "net_ok X Y net" "i < X * Y" "j < X * Y" "node_op net i \<noteq> op_val COP2_MSG_OP_OUT"
  shows "\<exists>r net'. net_input net j i al = Some (r, net') \<and> r \<noteq> E EDEADLK \<and> (net' = net \<or> net_step (X * Y) net net')"
proof (cases "box net i j")
  case None
  then show ?thesis using get_mbox_box [OF net_okD(1) [OF assms(1)] assms(2,3)] by (simp add: net_input_def)
next
  case (Some m)
  then have "net_input net j i al = receive net j i m al"
    using get_mbox_box [OF net_okD(1) [OF assms(1)] assms(2,3)] by (simp add: net_input_def)
  then show ?thesis by (cases rule: receive_steps [OF assms(1-3) Some assms(4), of al]) auto
qed

lemma net_output_steps:
  assumes "net_ok X Y net" "i < X * Y" "node_corr net i < X * Y" "node_op net i = op_val COP2_MSG_OP_OUT"
    and "net_output net (node_corr net i) i al = Some (r, net')"
  shows "net' = net \<or> net_step (X * Y) net net'"
    and "r = E EDEADLK \<Longrightarrow> node_sent net i \<and> (\<exists>m. box net i (node_corr net i) = Some m \<and> \<not> msg_ack m)"
proof -
  let ?j = "node_corr net i" and ?st = "get_sel COP2_MSG_ST (net_nd net ! i)"
  note mesh = net_okD(1) [OF assms(1)] and mb = get_mbox_box [OF net_okD(1) [OF assms(1)] assms(2,3)]
  have N: "i < length (net_nd net)" using assms(2) meshD(7) [OF mesh] by simp
  have "(net' = net \<or> net_step (X * Y) net net') \<and>
    (r = E EDEADLK \<longrightarrow> node_sent net i \<and> (\<exists>m. box net i ?j = Some m \<and> \<not> msg_ack m))"
  proof (cases "node_sent net i")
    case True
    then show ?thesis using assms(5) acknowledged [OF assms(2,3,4) True]
      by (auto simp: net_output_def Let_def node_sent_def mb split: option.splits if_splits)
  next
    case False
    let ?m = "\<lparr>msg_to = of_nat ?j, msg_from = of_nat i, msg_data = get_sel COP2_MSG_DATA (net_nd net ! i),
      msg_hops = 0, msg_ack = False\<rparr> :: Msg"
    let ?k = "way net i (msg_to ?m)"
    have "?j < 2 ^ 16" using assms(3) meshD(3) [OF mesh] by simp
    then have "(ucast (of_nat ?j :: u16) :: u64) = of_nat ?j"
      by (simp add: word_unat_eq_iff unsigned_ucast_eq unsigned_of_nat take_bit_nat_eq_self)
    then have k: "guidance (net_y net) (of_nat i) (of_nat ?j) = ?k" by (simp add: way_def)
    show ?thesis
    proof (cases "al = None \<or> ?k = LINK_MBOX \<or> length (queue net i LINK_OUT ?k) \<ge> LINK_BUFSZ")
      case True
      then show ?thesis using assms(5) False
        by (auto simp: net_output_def Let_def node_sent_def k queue_def split: option.splits if_splits)
    next
      case no: False
      then have q: "length (queue net i LINK_OUT ?k) \<noteq> LINK_BUFSZ" by simp
      obtain g where "al = Some g" using no by auto
      with no False have "net_output net ?j i al = Some (OK, upd_node i (\<lambda>nd. set_sel COP2_MSG_ST (?st OR 4)
          (upd_link LINK_OUT ?k (\<lambda>q. snd (link_insmsg ?m q)) nd)) net)"
        by (simp add: net_output_def Let_def node_sent_def k queue_def)
      also have "\<dots> = Some (OK, upd_node i (set_sel COP2_MSG_ST (?st OR 4)) (push i LINK_OUT ?k ?m net))"
        unfolding upd_node_comp [OF N, symmetric] push_insmsg [OF q] ..
      finally show ?thesis using assms(5) send [OF assms(2,3,4) False refl refl] no by auto
    qed
  qed
  then show "net' = net \<or> net_step (X * Y) net net'"
    and "r = E EDEADLK \<Longrightarrow> node_sent net i \<and> (\<exists>m. box net i (node_corr net i) = Some m \<and> \<not> msg_ack m)"
    by blast+
qed

end
