(* ===== verification/NetAlt.thy ===== *)
theory NetAlt
  imports NetRefine
begin

text \<open>
  The alternative command: the search for a message is a round-robin search from the node's
  starting mailbox, it ends within as many steps as there are nodes, and the command is a
  sequence of network steps.
\<close>

section \<open>The search\<close>

text \<open>A mailbox that a clause names and that holds a message.\<close>

definition candidate :: "Net \<Rightarrow> nat \<Rightarrow> u32 list \<Rightarrow> nat \<Rightarrow> bool" where
  "candidate net i cls k \<longleftrightarrow> (\<exists>c\<in>set cls. unat c = k) \<and> box net i k \<noteq> None"

text \<open>The mailboxes in the order of the search.\<close>

definition round_robin :: "nat \<Rightarrow> nat \<Rightarrow> nat list" where
  "round_robin N s = map (\<lambda>d. (s + d) mod N) [0..<N]"

lemma ucast_u32_eq:
  assumes "k < 2 ^ 32"
  shows "(ucast c :: u64) = of_nat k \<longleftrightarrow> unat (c :: u32) = k"
proof -
  have "unat c < 2 ^ 64" by (rule less_trans [OF unsigned_less]) simp
  then show ?thesis using assms
    by (simp add: word_unat_eq_iff unsigned_ucast_eq unsigned_of_nat take_bit_nat_eq_self)
qed

lemma alt_search_from:
  assumes "mesh X Y net" "i < X * Y" "s < X * Y" "d < X * Y"
  shows "alt_search net i cls (of_nat s) (X * Y - d) (of_nat ((s + d) mod (X * Y))) =
    Some (case find (candidate net i cls) (map (\<lambda>d. (s + d) mod (X * Y)) [d..<X * Y]) of
      None \<Rightarrow> (False, of_nat s) | Some k \<Rightarrow> (True, of_nat k))"
  using assms(4)
proof (induction "X * Y - d" arbitrary: d)
  case (Suc n)
  note m = meshD [OF assms(1)]
  let ?N = "X * Y"
  let ?k = "(s + d) mod ?N"
  have k: "?k < ?N" using m(4) by simp
  have k32: "?k < 2 ^ 32" "?k + 1 < 2 ^ 32" "?N < 2 ^ 32" using less_le_trans [OF k m(3)] m(3) by simp_all
  have uk: "unat (of_nat ?k :: u64) = ?k" using k32 by (intro unat_u64) simp
  have cand: "(\<exists>c\<in>set cls. ucast c = (of_nat ?k :: u64)) \<and> box net i ?k \<noteq> None \<longleftrightarrow> candidate net i cls ?k"
    by (simp only: candidate_def ucast_u32_eq [OF k32(1)])
  have "(of_nat ?k + 1 :: u64) = of_nat (?k + 1)" by simp
  then have "(of_nat ?k + 1 :: u64) mod net_size net = of_nat ((?k + 1) mod ?N)"
    unfolding m(5) by (simp only: of_nat_mod64 [OF k32(2,3)])
  also have "(?k + 1) mod ?N = (s + Suc d) mod ?N" by (simp add: mod_Suc_eq)
  finally have nxt: "(of_nat ?k + 1 :: u64) mod net_size net = of_nat ((s + Suc d) mod ?N)" .
  have wrap: "(of_nat ((s + Suc d) mod ?N) :: u64) = of_nat s \<longleftrightarrow> Suc d = ?N"
  proof -
    have "(s + Suc d) mod ?N < 2 ^ 64" "s < 2 ^ 64"
      using less_le_trans [OF assms(3) m(3)] less_le_trans [OF mod_less_divisor [OF m(4), of "s + Suc d"] m(3)]
      by simp_all
    then have "(of_nat ((s + Suc d) mod ?N) :: u64) = of_nat s \<longleftrightarrow> (s + Suc d) mod ?N = s"
      using unat_u64 by metis
    also have "\<dots> \<longleftrightarrow> Suc d = ?N"
      using add_mod_inj [OF _ m(4), of "Suc d" s] assms(3) Suc.prems by (cases "Suc d = ?N") auto
    finally show ?thesis .
  qed
  have split: "[d..<?N] = d # [Suc d..<?N]" using Suc.prems by (rule upt_conv_Cons)
  have num: "?N - d = Suc n" "n = ?N - Suc d" using Suc.hyps(2) by simp_all
  have f: "(if \<exists>c\<in>set cls. ucast c = (of_nat ?k :: u64)
      then map_option (\<lambda>x. x \<noteq> None) (get_mbox net i (unat (of_nat ?k :: u64))) else Some False) =
      Some (candidate net i cls ?k)"
    using cand get_mbox_box [OF assms(1,2) k] uk by auto
  have unfold: "alt_search net i cls (of_nat s) (Suc n) (of_nat ?k) =
      (if candidate net i cls ?k then Some (True, of_nat ?k)
       else if Suc d = ?N then Some (False, of_nat s)
       else alt_search net i cls (of_nat s) n (of_nat ((s + Suc d) mod ?N)))"
    unfolding alt_search.simps(2) f using wrap mod_less [OF assms(3)] by (simp only: Option.bind.bind_lunit nxt Let_def) (simp split: if_split)
  show ?case unfolding num(1) split unfold
    using Suc.hyps(1) [OF num(2)] Suc.prems num(2) by (cases "Suc d = ?N") auto
qed simp

lemma alt_search_round_robin:
  assumes "mesh X Y net" "i < X * Y" "s < X * Y"
  shows "alt_search net i cls (of_nat s) (unat (net_size net)) (of_nat s) =
    Some (case find (candidate net i cls) (round_robin (X * Y) s) of
      None \<Rightarrow> (False, of_nat s) | Some k \<Rightarrow> (True, of_nat k))"
  using alt_search_from [OF assms(1-3) meshD(4) [OF assms(1)]] assms(3) meshD(9) [OF assms(1)]
  by (simp add: round_robin_def)

lemma set_round_robin: "0 < N \<Longrightarrow> k \<in> set (round_robin N s) \<Longrightarrow> k < N"
  by (auto simp: round_robin_def)

section \<open>The command\<close>

text \<open>What the command reads before it searches: the clauses from \<open>base\<close> on, the last one first.\<close>

definition ready_clauses :: "Net \<Rightarrow> errno + nat \<Rightarrow> nat \<Rightarrow> u32 list option" where
  "ready_clauses net base i = (let ncl = unat (get_sel COP2_MSG_NCL (net_nd net ! i)) in
     read_clauses (clause net i base) ncl)"

lemma read_clauses_last:
  "read_clauses c (Suc n) = Some cls \<Longrightarrow> c n = Some (last cls) \<and> cls \<noteq> [] \<and> length cls = Suc n"
proof (induction n arbitrary: cls)
  case (Suc n)
  then show ?case by (auto simp: Option.bind_eq_Some_conv)
qed (auto simp: Option.bind_eq_Some_conv)

lemma read_clauses_None: "c n = None \<Longrightarrow> read_clauses c (Suc n) = None"
  by (cases "read_clauses c n") simp_all

text \<open>The default clause ends the operation before the search.\<close>

definition default_change :: "Node \<Rightarrow> Node" where
  "default_change nd = set_sel COP2_MSG_ST (op_val COP2_MSG_OP_NONE) (set_K1 (-1) nd)"

definition with_default :: "nat \<Rightarrow> u32 list \<Rightarrow> Net \<Rightarrow> Net" where
  "with_default i cls net = (if sint (last cls) < 0 then upd_node i default_change net else net)"

definition turn_to :: "nat \<Rightarrow> nat \<Rightarrow> Net \<Rightarrow> Net" where
  "turn_to i k net = upd_node i (\<lambda>nd. nd\<lparr>nd_mbox_start := of_nat ((k + 1) mod unat (net_size net))\<rparr>) net"

lemma private_default:
  "wf_cpu (nd_cpu nd) \<Longrightarrow> unat (nd_mbox_start nd) < N \<Longrightarrow> private_change N default_change nd"
  by (auto simp: private_change_def default_change_def net_simps wf_set_sel wf_set_K1)

lemma private_K1: "wf_cpu (nd_cpu nd) \<Longrightarrow> unat (nd_mbox_start nd) < N \<Longrightarrow> private_change N (set_K1 v) nd"
  by (auto simp: private_change_def net_simps wf_set_K1)

lemma private_start:
  "wf_cpu (nd_cpu nd) \<Longrightarrow> unat b < N \<Longrightarrow> private_change N (\<lambda>nd. nd\<lparr>nd_mbox_start := b\<rparr>) nd"
  by (auto simp: private_change_def net_simps)

lemma next_start:
  assumes "mesh X Y net" "k < X * Y"
  shows "(of_nat k + 1 :: u64) mod net_size net = of_nat ((k + 1) mod unat (net_size net))"
    and "unat (of_nat ((k + 1) mod unat (net_size net)) :: u64) < X * Y"
proof -
  note m = meshD [OF assms(1)]
  have "k + 1 < 2 ^ 32" "X * Y < 2 ^ 32" using assms(2) m(3) by simp_all
  from of_nat_mod64 [OF this] show "(of_nat k + 1 :: u64) mod net_size net = of_nat ((k + 1) mod unat (net_size net))"
    unfolding m(5) m(9) [unfolded m(5)] by (simp add: add.commute)
  have "(k + 1) mod unat (net_size net) < X * Y" unfolding m(9) by (rule mod_less_divisor [OF m(4)])
  moreover from this have "(k + 1) mod unat (net_size net) < 2 ^ 64" using m(3) by simp
  ultimately show "unat (of_nat ((k + 1) mod unat (net_size net)) :: u64) < X * Y" by (simp only: unat_u64)
qed

lemma mesh_turn_to:
  assumes "mesh X Y net" "i < X * Y" "k < X * Y"
  shows "mesh X Y (turn_to i k net)"
  using assms mesh_node [OF assms(1,2)] next_start(2) [OF assms(1,3)]
  by (simp add: turn_to_def mesh_upd_node)

text \<open>The command after the search, on the network with the default clause done.\<close>

definition after_search :: "nat \<Rightarrow> u32 list \<Rightarrow> u32 option \<Rightarrow> Net \<Rightarrow> bool \<times> u64 \<Rightarrow> (retcode \<times> Net) option" where
  "after_search i cls al net1 = (\<lambda>(found, cur).
     let net2 = upd_node i (\<lambda>nd. nd\<lparr>nd_mbox_start := (cur + 1) mod net_size net1\<rparr>) net1 in
     if \<not> found then Some (if sint (last cls) < 0 then OK else E EAGAIN, net2)
     else do {
       m \<leftarrow> get_mbox net2 i (unat cur);
       msg \<leftarrow> m;
       (r, net3) \<leftarrow> receive net2 (unat cur) i msg al;
       Some (r, if r = OK then upd_node i (set_K1 (ucast cur)) net3 else net3)
     })"

lemma with_default_parts:
  "net_size (with_default i cls net) = net_size net" "box (with_default i cls net) = box net"
  "candidate (with_default i cls net) i cls = candidate net i cls"
  by (simp_all add: with_default_def net_simps candidate_def fun_eq_iff)

lemma alt_reads:
  "alt net base i al =
    (if get_sel COP2_MSG_NCL (net_nd net ! i) = 0 then Some (E EDEADLK, net)
     else case ready_clauses net base i of None \<Rightarrow> None | Some cls \<Rightarrow>
       (let net1 = with_default i cls net; start = nd_mbox_start (net_nd net ! i) in
        Option.bind (alt_search net1 i cls start (unat (net_size net)) start) (after_search i cls al net1)))"
proof -
  define ncl where "ncl = unat (get_sel COP2_MSG_NCL (net_nd net ! i))"
  show ?thesis
  proof (cases ncl)
    case 0
    then show ?thesis by (simp add: alt_def ncl_def Let_def unat_eq_0)
  next
    case (Suc n)
    show ?thesis
    proof (cases "read_clauses (clause net i base) ncl")
      case None
      then show ?thesis using Suc unfolding alt_def ready_clauses_def ncl_def [symmetric] Let_def
        by (auto simp: ncl_def unat_eq_0 split: option.split bind_splits)
    next
      case (Some cls)
      have l: "clause net i base (ncl - 1) = Some (last cls)"
        using read_clauses_last [of _ n cls] Some unfolding Suc by simp
      have net1: "(if sint (last cls) < 0
          then upd_node i (\<lambda>nd. set_sel COP2_MSG_ST (op_val COP2_MSG_OP_NONE) (set_K1 (- 1) nd)) net else net) = with_default i cls net"
        by (simp add: with_default_def default_change_def [abs_def])
      have nz: "get_sel COP2_MSG_NCL (net_nd net ! i) \<noteq> 0" using Suc by (auto simp: ncl_def)
      show ?thesis using nz unfolding alt_def ready_clauses_def ncl_def [symmetric] Some l Let_def Option.bind.bind_lunit net1
        by (simp add: after_search_def [abs_def] with_default_parts ncl_def unat_eq_0 Let_def split del: if_split cong: if_cong)
    qed
  qed
qed

text \<open>The whole command, the search written as a round-robin search.\<close>

lemma alt_unfold:
  assumes "mesh X Y net" "i < X * Y"
  shows "alt net base i al =
    (if get_sel COP2_MSG_NCL (net_nd net ! i) = 0 then Some (E EDEADLK, net)
     else case ready_clauses net base i of None \<Rightarrow> None | Some cls \<Rightarrow>
       (let net1 = with_default i cls net; s = unat (nd_mbox_start (net_nd net ! i)) in
        case find (candidate net i cls) (round_robin (X * Y) s) of
          None \<Rightarrow> Some (if sint (last cls) < 0 then OK else E EAGAIN, turn_to i s net1)
        | Some k \<Rightarrow> (case receive (turn_to i k net1) k i (the (box net i k)) al of
            None \<Rightarrow> None
          | Some (r, net3) \<Rightarrow> Some (r, if r = OK then upd_node i (set_K1 (of_nat k)) net3 else net3))))"
proof -
  note m = meshD [OF assms(1)]
  define s where "s = unat (nd_mbox_start (net_nd net ! i))"
  have s: "s < X * Y" "nd_mbox_start (net_nd net ! i) = of_nat s" "unat (of_nat s :: u64) = s"
    using mesh_node(2) [OF assms] by (simp_all add: s_def)
  have "Option.bind (alt_search (with_default i cls net) i cls (of_nat s) (unat (net_size net)) (of_nat s))
      (after_search i cls al (with_default i cls net)) =
    (case find (candidate net i cls) (round_robin (X * Y) s) of
       None \<Rightarrow> Some (if sint (last cls) < 0 then OK else E EAGAIN, turn_to i s (with_default i cls net))
     | Some k \<Rightarrow> (case receive (turn_to i k (with_default i cls net)) k i (the (box net i k)) al of
         None \<Rightarrow> None
       | Some (r, net3) \<Rightarrow> Some (r, if r = OK then upd_node i (set_K1 (of_nat k)) net3 else net3)))" for cls
  proof -
    let ?net1 = "with_default i cls net"
    have m1: "mesh X Y ?net1" using assms mesh_node [OF assms]
      by (auto simp: with_default_def default_change_def net_simps wf_set_sel wf_set_K1 intro!: mesh_upd_node)
    note search = alt_search_round_robin [OF m1 assms(2) s(1), of cls, unfolded with_default_parts]
    show ?thesis
    proof (cases "find (candidate net i cls) (round_robin (X * Y) s)")
      case None
      then show ?thesis using next_start(1) [OF assms(1) s(1)] search
        by (simp add: after_search_def turn_to_def with_default_parts)
    next
      case (Some k)
      then have k: "k < X * Y" "candidate net i cls k" using set_round_robin [OF m(4), of k s] by (auto simp: find_Some_iff)
      then obtain msg where b: "box net i k = Some msg" by (auto simp: candidate_def)
      have uk: "unat (of_nat k :: u64) = k" "(ucast (of_nat k :: u64) :: u32) = of_nat k"
        using k(1) m(3) by (auto intro!: unat_u64 ucast_u64_u32)
      have "box (turn_to i k ?net1) = box net" by (simp add: turn_to_def net_simps with_default_parts)
      then have "get_mbox (turn_to i k ?net1) i k = Some (Some msg)"
        using get_mbox_box [OF mesh_turn_to [OF m1 assms(2) k(1)] assms(2) k(1)] b by simp
      then show ?thesis using Some next_start(1) [OF assms(1) k(1)] search b uk
        by (simp add: after_search_def turn_to_def with_default_parts split: option.split prod.split)
    qed
  qed
  then show ?thesis unfolding alt_reads s(2) by (simp add: s(3) Let_def split: option.split)
qed

end
