(* ===== verification/NetExample.thy ===== *)
theory NetExample
  imports NetStep
begin

text \<open>
  Networks without messages, and small concrete networks on which the properties are shown to apply.
\<close>

definition quiet_node :: "Node \<Rightarrow> bool" where
  "quiet_node nd \<longleftrightarrow> wf_cpu (nd_cpu nd) \<and> nd_mbox_start nd = 0 \<and> (\<forall>d n. nd_link nd d n = [])"

definition quiet_net :: "nat \<Rightarrow> nat \<Rightarrow> Node list \<Rightarrow> Net" where
  "quiet_net X Y nds = \<lparr>net_cycle = 0, net_size = of_nat (X * Y), net_x = of_nat X, net_y = of_nat Y,
     net_nrun = of_nat (X * Y), net_nd = nds, net_mbox = replicate (X * Y * (X * Y)) None\<rparr>"

lemma empty_net_ok:
  assumes "mesh X Y net" "\<And>i d n. i < X * Y \<Longrightarrow> queue net i d n = []" "\<And>i k. i < X * Y \<Longrightarrow> k < X * Y \<Longrightarrow> box net i k = None"
  shows "net_ok X Y net"
  using assms by (simp add: net_ok_def links_ok_def queue_ok_def boxes_ok_def)

lemma quiet_net_ok:
  assumes "0 < X" "0 < Y" "X * Y \<le> 2 ^ 16" "length nds = X * Y" "\<And>nd. nd \<in> set nds \<Longrightarrow> quiet_node nd"
  shows "net_ok X Y (quiet_net X Y nds)"
proof (rule empty_net_ok)
  have nth: "quiet_node (nds ! i)" if "i < X * Y" for i using assms(4,5) that by simp
  show mesh: "mesh X Y (quiet_net X Y nds)"
    using assms nth by (simp add: mesh_def quiet_net_def quiet_node_def)
  show "queue (quiet_net X Y nds) i d n = []" if "i < X * Y" for i d n
    using nth [OF that] by (simp add: queue_def quiet_net_def quiet_node_def)
  show "box (quiet_net X Y nds) i k = None" if "i < X * Y" "k < X * Y" for i k
    using box_in_range [OF mesh that] by (simp add: box_def) (simp add: quiet_net_def)
qed

lemma no_msgs: "(\<And>x. x \<in> set xs \<Longrightarrow> f x = {#}) \<Longrightarrow> (\<Sum>x\<leftarrow>xs. f x) = {#}"
  by (induction xs) simp_all

lemma quiet_link_msgs: "quiet_node nd \<Longrightarrow> link_msgs (nd_link nd) = {#}"
  by (simp add: quiet_node_def link_msgs_def link_names_def)

lemma empty_net_msgs:
  assumes "\<And>nd. nd \<in> set (net_nd net) \<Longrightarrow> quiet_node nd" "set (net_mbox net) \<subseteq> {None}"
  shows "net_msgs net = {#}"
proof -
  have "(\<Sum>b\<leftarrow>net_mbox net. box_msgs b) = {#}"
    using assms(2) by (intro no_msgs) (auto simp: box_msgs_def)
  then show ?thesis using no_msgs [of "net_nd net" "\<lambda>nd. link_msgs (nd_link nd)"] assms(1)
    by (simp add: net_msgs_def quiet_link_msgs)
qed

lemma quiet_net_msgs:
  assumes "\<And>nd. nd \<in> set nds \<Longrightarrow> quiet_node nd"
  shows "net_msgs (quiet_net X Y nds) = {#}"
  using assms by (intro empty_net_msgs) (auto simp: quiet_net_def)

text \<open>A node whose coprocessor asks for an operation.\<close>

definition asking :: "cop2_link_op \<Rightarrow> u32 \<Rightarrow> u32 \<Rightarrow> u32 \<Rightarrow> Node" where
  "asking opn corr data ncl =
     \<lparr>nd_cpu = cpu_zero\<lparr>cpu_cop2 := [[corr, data, op_val opn, 0, 0, ncl]]\<rparr>,
      nd_mem = \<lparr>mem_size = 16, mem_b = replicate 16 0\<rparr>,
      nd_link = (\<lambda>_ _. []), nd_linkutil = (\<lambda>_ _. 0), nd_mbox_start = 0, nd_mbox_new = 0\<rparr>"

lemma quiet_asking: "quiet_node (asking opn corr data ncl)"
  by (simp add: quiet_node_def asking_def wf_cpu_def cpu_zero_def perfct0_def COP2_NREG_def COP2_NSEL_def)

lemma get_sel_asking [simp]:
  "get_sel COP2_MSG_CORR (asking opn corr data ncl) = corr" "get_sel COP2_MSG_DATA (asking opn corr data ncl) = data"
  "get_sel COP2_MSG_ST (asking opn corr data ncl) = op_val opn" "get_sel COP2_MSG_NCL (asking opn corr data ncl) = ncl"
  by (simp_all add: get_sel_link asking_def)

text \<open>Two nodes: the first sends 7 to the second, which waits for an input from the first.\<close>

definition pair_net :: Net where
  "pair_net = quiet_net 1 2 [asking COP2_MSG_OP_OUT 1 7 0, asking COP2_MSG_OP_IN 0 0 0]"

lemma pair_net_ok: "net_ok 1 2 pair_net"
  unfolding pair_net_def by (rule quiet_net_ok) (auto simp: quiet_asking)

lemma pair_net_node: "net_nd pair_net = [asking COP2_MSG_OP_OUT 1 7 0, asking COP2_MSG_OP_IN 0 0 0]"
  by (simp add: pair_net_def quiet_net_def)

end
