(* ===== verification/NetCycle.thy ===== *)
theory NetCycle
  imports NetAlt NetExample
begin

text \<open>
  A cycle of the network: commands that name existing nodes and readable clauses are served
  without undefined behaviour, and the whole cycle is a sequence of network steps.
\<close>

section \<open>What a step leaves to every node\<close>

definition same_command :: "Node \<Rightarrow> Node \<Rightarrow> bool" where
  "same_command nd nd' \<longleftrightarrow> nd_mem nd' = nd_mem nd \<and>
     get_sel COP2_MSG_CORR nd' = get_sel COP2_MSG_CORR nd \<and> get_sel COP2_MSG_NCL nd' = get_sel COP2_MSG_NCL nd \<and>
     COP2_MSG_ST_OP (get_sel COP2_MSG_ST nd')
       \<in> {COP2_MSG_ST_OP (get_sel COP2_MSG_ST nd), op_val COP2_MSG_OP_NONE}"

lemma same_command_refl [simp]: "same_command nd nd"
  by (simp add: same_command_def)

lemma same_command_trans: "same_command a b \<Longrightarrow> same_command b c \<Longrightarrow> same_command a c"
  by (auto simp: same_command_def)

lemma same_command_upd:
  assumes "i < length (net_nd net)" "same_command (net_nd net ! i) (f (net_nd net ! i))"
  shows "same_command (net_nd net ! j) (net_nd (upd_node i f net) ! j)"
  using assms by (simp add: net_simps)

lemma op_NONE: "COP2_MSG_ST_OP 0 = 0"
  by (simp add: COP2_MSG_ST_OP_def)

lemma op_sent: "COP2_MSG_ST_OP (v OR 4) = COP2_MSG_ST_OP v"
  by (simp add: COP2_MSG_ST_OP_def bit.conj_disj_distrib2)

lemma same_command_local:
  "wf_cpu (nd_cpu nd) \<Longrightarrow> same_command nd (tally nd)"
  "wf_cpu (nd_cpu nd) \<Longrightarrow> same_command nd (take_msg m nd)"
  "wf_cpu (nd_cpu nd) \<Longrightarrow> same_command nd (set_sel COP2_MSG_ST 0 nd)"
  "wf_cpu (nd_cpu nd) \<Longrightarrow> same_command nd (set_sel COP2_MSG_ST (get_sel COP2_MSG_ST nd OR 4) nd)"
  "same_command nd (upd_link d n g nd)" "same_command nd (count_link d n nd)"
  "private_change N h nd \<Longrightarrow> same_command nd (h nd)"
  by (auto simp: same_command_def tally_def take_msg_def Let_def wf_set_sel op_NONE op_sent private_change_def net_simps)

lemma net_move_same_command:
  assumes "net_move (X * Y) net net'" "mesh X Y net" "j < X * Y"
  shows "same_command (net_nd net ! j) (net_nd net' ! j)"
proof -
  note wf = mesh_node(1) [OF assms(2)] and len = meshD(7) [OF assms(2)]
  show ?thesis using assms(1)
  proof cases
    case (forward i n m q k)
    then show ?thesis using len
      by (auto simp: push_def pop_def net_simps intro!: same_command_trans [OF same_command_local(5) same_command_local(5)])
  next
    case (deliver i n m q)
    then show ?thesis using len wf [OF deliver(2)]
      by (auto simp: pop_def net_simps intro!: same_command_trans [OF same_command_local(5) same_command_local(1)])
  next
    case (transmit i n m q c k)
    then show ?thesis using len by (auto simp: push_def pop_def net_simps same_command_def)
  qed
qed

lemma net_step_same_command:
  assumes "net_step (X * Y) net net'" "mesh X Y net" "j < X * Y"
  shows "same_command (net_nd net ! j) (net_nd net' ! j)"
proof -
  note wf = mesh_node(1) [OF assms(2)] and len = meshD(7) [OF assms(2)]
  show ?thesis using assms(1)
  proof cases
    case move
    then show ?thesis using assms(2,3) by (rule net_move_same_command)
  next
    case (send i m k)
    then show ?thesis using len wf [OF send(2)]
      by (auto simp: push_def net_simps same_command_def wf_set_sel op_sent)
  next
    case (acknowledged i m)
    then show ?thesis using len wf [OF acknowledged(2)] by (simp add: net_simps same_command_local)
  next
    case (accept i k m l g)
    then show ?thesis using len wf [OF accept(2)]
      by (auto simp: push_def net_simps intro!: same_command_trans [OF same_command_local(5) same_command_local(2)])
  next
    case (private_step i f)
    then show ?thesis using len by (simp add: net_simps same_command_local(7))
  qed
qed

section \<open>Commands that can be served\<close>

text \<open>The correspondent of an input or an output is a node of the network, an output is not to its own
  node, and the clauses of an alternative are in the memory.\<close>

definition commands_ok :: "nat \<Rightarrow> Net \<Rightarrow> bool" where
  "commands_ok N net \<longleftrightarrow> (\<forall>i<N.
     (node_op net i \<in> {op_val COP2_MSG_OP_IN, op_val COP2_MSG_OP_OUT} \<longrightarrow> node_corr net i < N) \<and>
     (node_op net i = op_val COP2_MSG_OP_OUT \<longrightarrow> node_corr net i \<noteq> i) \<and>
     (node_op net i = op_val COP2_MSG_OP_ALT \<longrightarrow> get_sel COP2_MSG_NCL (net_nd net ! i) \<noteq> 0 \<longrightarrow>
        ready_clauses net (Mem_getptr (nd_mem (net_nd net ! i)) (get_sel COP2_MSG_CORR (net_nd net ! i))) i \<noteq> None))"

lemma commands_okD:
  assumes "commands_ok N net" "i < N"
  shows "node_op net i \<in> {op_val COP2_MSG_OP_IN, op_val COP2_MSG_OP_OUT} \<Longrightarrow> node_corr net i < N"
    and "node_op net i = op_val COP2_MSG_OP_OUT \<Longrightarrow> node_corr net i \<noteq> i"
    and "node_op net i = op_val COP2_MSG_OP_ALT \<Longrightarrow> get_sel COP2_MSG_NCL (net_nd net ! i) \<noteq> 0 \<Longrightarrow>
        ready_clauses net (Mem_getptr (nd_mem (net_nd net ! i)) (get_sel COP2_MSG_CORR (net_nd net ! i))) i \<noteq> None"
  using assms by (auto simp: commands_ok_def)

lemma ready_clauses_same:
  "nd_mem (net_nd net' ! i) = nd_mem (net_nd net ! i) \<Longrightarrow>
    get_sel COP2_MSG_NCL (net_nd net' ! i) = get_sel COP2_MSG_NCL (net_nd net ! i) \<Longrightarrow>
    ready_clauses net' base i = ready_clauses net base i"
  by (cases base) (simp_all add: ready_clauses_def clause_def [abs_def])

lemma same_commands_ok:
  assumes "commands_ok N net" "\<And>i. i < N \<Longrightarrow> same_command (net_nd net ! i) (net_nd net' ! i)"
  shows "commands_ok N net'"
  unfolding commands_ok_def
proof (intro allI impI)
  fix i assume i: "i < N"
  from assms(2) [OF i]
  have s: "nd_mem (net_nd net' ! i) = nd_mem (net_nd net ! i)"
    "get_sel COP2_MSG_CORR (net_nd net' ! i) = get_sel COP2_MSG_CORR (net_nd net ! i)"
    "get_sel COP2_MSG_NCL (net_nd net' ! i) = get_sel COP2_MSG_NCL (net_nd net ! i)"
    "node_op net' i = node_op net i \<or> node_op net' i = op_val COP2_MSG_OP_NONE"
    by (auto simp: same_command_def node_op_def)
  then have "node_corr net' i = node_corr net i" by (simp add: node_corr_def)
  then show "(node_op net' i \<in> {op_val COP2_MSG_OP_IN, op_val COP2_MSG_OP_OUT} \<longrightarrow> node_corr net' i < N) \<and>
     (node_op net' i = op_val COP2_MSG_OP_OUT \<longrightarrow> node_corr net' i \<noteq> i) \<and>
     (node_op net' i = op_val COP2_MSG_OP_ALT \<longrightarrow> get_sel COP2_MSG_NCL (net_nd net' ! i) \<noteq> 0 \<longrightarrow>
        ready_clauses net' (Mem_getptr (nd_mem (net_nd net' ! i)) (get_sel COP2_MSG_CORR (net_nd net' ! i))) i \<noteq> None)"
    using s commands_okD [OF assms(1) i] ready_clauses_same [OF s(1,3)] by auto
qed

lemma net_step_commands_ok:
  assumes "net_step (X * Y) net net'" "mesh X Y net" "commands_ok (X * Y) net"
  shows "commands_ok (X * Y) net'"
  by (rule same_commands_ok [OF assms(3) net_step_same_command [OF assms(1,2)]])

lemma net_steps_ok:
  assumes "net_steps (X * Y) net net'" "net_ok X Y net"
  shows "net_ok X Y net'" and "commands_ok (X * Y) net \<Longrightarrow> commands_ok (X * Y) net'"
proof -
  have "net_ok X Y net' \<and> (commands_ok (X * Y) net \<longrightarrow> commands_ok (X * Y) net')"
    using assms by (induction rule: rtranclp_induct) (auto intro: net_step_ok net_step_commands_ok dest: net_okD(1))
  then show "net_ok X Y net'" and "commands_ok (X * Y) net \<Longrightarrow> commands_ok (X * Y) net'" by blast+
qed

section \<open>The alternative as steps\<close>

lemma private_net_step:
  assumes "net_ok X Y net" "i < X * Y" "node_op net i \<noteq> op_val COP2_MSG_OP_OUT"
    "\<And>nd. wf_cpu (nd_cpu nd) \<Longrightarrow> unat (nd_mbox_start nd) < X * Y \<Longrightarrow> private_change (X * Y) f nd"
  shows "net_steps (X * Y) net (upd_node i f net)" "net_ok X Y (upd_node i f net)"
    "node_op (upd_node i f net) i \<noteq> op_val COP2_MSG_OP_OUT"
proof -
  have step: "net_step (X * Y) net (upd_node i f net)"
    using assms net_ok_node [OF assms(1,2)] by (intro private_step) auto
  then show "net_steps (X * Y) net (upd_node i f net)" "net_ok X Y (upd_node i f net)"
    using net_step_ok [OF step assms(1)] by auto
  have "node_op (upd_node i f net) i = node_op net i \<or> node_op (upd_node i f net) i = op_val COP2_MSG_OP_NONE"
    using net_step_same_command [OF step net_okD(1) [OF assms(1)] assms(2)] by (auto simp: same_command_def node_op_def)
  then show "node_op (upd_node i f net) i \<noteq> op_val COP2_MSG_OP_OUT" using assms(3) by auto
qed

text \<open>The preparation: the default clause, then the new start of the search.\<close>

lemma alt_prepare:
  assumes "net_ok X Y net" "i < X * Y" "node_op net i \<noteq> op_val COP2_MSG_OP_OUT" "k < X * Y"
  shows "net_steps (X * Y) net (turn_to i k (with_default i cls net))"
    "net_ok X Y (turn_to i k (with_default i cls net))"
    "node_op (turn_to i k (with_default i cls net)) i \<noteq> op_val COP2_MSG_OP_OUT"
proof -
  let ?net1 = "with_default i cls net"
  have 1: "net_steps (X * Y) net ?net1" "net_ok X Y ?net1" "node_op ?net1 i \<noteq> op_val COP2_MSG_OP_OUT"
    using private_net_step [OF assms(1-3) private_default] assms(1,3) by (simp_all add: with_default_def)
  note t = private_net_step [OF 1(2) assms(2) 1(3) private_start [OF _ next_start(2) [OF net_okD(1) [OF 1(2)] assms(4)]],
      folded turn_to_def]
  show "net_steps (X * Y) net (turn_to i k ?net1)" using 1(1) t(1) by (rule rtranclp_trans)
  show "net_ok X Y (turn_to i k ?net1)" by (rule t(2))
  show "node_op (turn_to i k ?net1) i \<noteq> op_val COP2_MSG_OP_OUT" by (rule t(3))
qed

lemma box_prepared: "box (turn_to i k (with_default i cls net)) = box net"
  by (simp add: turn_to_def with_default_def net_simps)

lemma alt_steps:
  assumes "net_ok X Y net" "i < X * Y" "node_op net i \<noteq> op_val COP2_MSG_OP_OUT"
    "get_sel COP2_MSG_NCL (net_nd net ! i) \<noteq> 0 \<Longrightarrow> ready_clauses net base i \<noteq> None"
  shows "\<exists>r net'. alt net base i al = Some (r, net') \<and> net_steps (X * Y) net net' \<and>
    (r = E EDEADLK \<longrightarrow> get_sel COP2_MSG_NCL (net_nd net ! i) = 0)"
proof (cases "get_sel COP2_MSG_NCL (net_nd net ! i) = 0")
  case True
  then show ?thesis by (simp add: alt_unfold [OF net_okD(1) [OF assms(1)] assms(2)])
next
  case False
  then obtain cls where cls: "ready_clauses net base i = Some cls" using assms(4) by auto
  define s where "s = unat (nd_mbox_start (net_nd net ! i))"
  have s: "s < X * Y" using net_ok_node [OF assms(1,2)] by (simp add: s_def)
  note unfold = alt_unfold [OF net_okD(1) [OF assms(1)] assms(2), of base al, folded s_def]
  show ?thesis
  proof (cases "find (candidate net i cls) (round_robin (X * Y) s)")
    case None
    then show ?thesis using False cls alt_prepare(1) [OF assms(1-3) s] by (simp add: unfold Let_def)
  next
    case (Some k)
    then have "k \<in> set (round_robin (X * Y) s)" "candidate net i cls k"
      by (auto simp: find_Some_iff)
    then have k: "k < X * Y" "candidate net i cls k"
      using set_round_robin meshD(4) [OF net_okD(1) [OF assms(1)]] by blast+
    then obtain m where b: "box net i k = Some m" by (auto simp: candidate_def)
    note p = alt_prepare [OF assms(1-3) k(1), of cls]
    let ?net2 = "turn_to i k (with_default i cls net)"
    have b2: "box ?net2 i k = Some m" by (simp add: box_prepared b)
    show ?thesis
    proof (cases rule: receive_steps [OF p(2) assms(2) k(1) b2 p(3), of al])
      case (3 g)
      note taken = 3
      let ?net3 = "set_mbox i k None (upd_node i (take_msg m) (push i LINK_OUT (way ?net2 i (msg_from m)) (answer_of i g m) ?net2))"
      note ok3 = net_step_ok [OF taken(3) p(2)]
      have "i < length (net_nd (push i LINK_OUT (way ?net2 i (msg_from m)) (answer_of i g m) ?net2))"
        using meshD(7) [OF net_okD(1) [OF p(2)]] assms(2) by (simp add: net_simps)
      moreover have "wf_cpu (nd_cpu (net_nd (push i LINK_OUT (way ?net2 i (msg_from m)) (answer_of i g m) ?net2) ! i))"
        using meshD(7) [OF net_okD(1) [OF p(2)]] net_ok_node(1) [OF p(2) assms(2)] assms(2)
        by (simp add: push_def net_simps)
      ultimately have "node_op ?net3 i = op_val COP2_MSG_OP_NONE" by (simp add: net_simps op_NONE)
      then have "net_steps (X * Y) ?net3 (upd_node i (set_K1 (of_nat k)) ?net3)"
        by (intro private_net_step(1) [OF ok3 assms(2) _ private_K1]) simp_all
      then have "net_steps (X * Y) net (upd_node i (set_K1 (of_nat k)) ?net3)"
        using p(1) taken(3) by (meson rtranclp.rtrancl_into_rtrancl rtranclp_trans)
      then show ?thesis using False cls Some taken unfolding unfold by (simp add: Let_def b)
    qed (use False cls Some p(1) in \<open>unfold unfold, simp_all add: Let_def b\<close>)
  qed
qed

section \<open>A cycle of the network\<close>

lemma operate_steps:
  assumes "net_ok X Y net" "i < X * Y" "commands_ok (X * Y) net"
  shows "\<exists>r net'. operate net i al = Some (r, net') \<and> net_steps (X * Y) net net' \<and>
    (r = E EDEADLK \<longrightarrow> node_op net i = op_val COP2_MSG_OP_ALT \<and> get_sel COP2_MSG_NCL (net_nd net ! i) = 0 \<or>
       node_op net i = op_val COP2_MSG_OP_OUT \<and> node_sent net i \<and>
         (\<exists>m. box net i (node_corr net i) = Some m \<and> \<not> msg_ack m))"
proof -
  note c = commands_okD [OF assms(3,2)]
  have op: "operate net i al =
      (if node_op net i = op_val COP2_MSG_OP_NONE then Some (OK, net)
       else if node_op net i = op_val COP2_MSG_OP_IN then net_input net (node_corr net i) i al
       else if node_op net i = op_val COP2_MSG_OP_OUT then net_output net (node_corr net i) i al
       else if node_op net i = op_val COP2_MSG_OP_ALT
       then alt net (Mem_getptr (nd_mem (net_nd net ! i)) (get_sel COP2_MSG_CORR (net_nd net ! i))) i al
       else Some (E EINVAL, net))"
    by (simp only: operate_def Let_def node_op_def node_corr_def)
  consider (IN) "node_op net i = op_val COP2_MSG_OP_IN" | (OUT) "node_op net i = op_val COP2_MSG_OP_OUT"
    | (ALT) "node_op net i = op_val COP2_MSG_OP_ALT"
    | (none) "node_op net i \<noteq> op_val COP2_MSG_OP_IN" "node_op net i \<noteq> op_val COP2_MSG_OP_OUT"
      "node_op net i \<noteq> op_val COP2_MSG_OP_ALT" by blast
  then show ?thesis
  proof cases
    case IN
    then have "node_corr net i < X * Y" "node_op net i \<noteq> op_val COP2_MSG_OP_OUT" using c(1) by simp_all
    from net_input_steps [OF assms(1,2) this, of al] show ?thesis using IN unfolding op by fastforce
  next
    case OUT
    then have j: "node_corr net i < X * Y" using c(1) by simp
    have "net_output net (node_corr net i) i al \<noteq> None"
      using c(2) [OF OUT] j way_MBOX [OF net_okD(1) [OF assms(1)] assms(2), of "of_nat (node_corr net i)"]
        meshD(3) [OF net_okD(1) [OF assms(1)]] get_mbox_box [OF net_okD(1) [OF assms(1)] assms(2) j]
      by (auto simp: net_output_def Let_def way_def unsigned_of_nat take_bit_nat_eq_self unsigned_ucast_eq
          word_unat_eq_iff split: option.splits)
    then obtain r net' where o: "net_output net (node_corr net i) i al = Some (r, net')" by auto
    from net_output_steps [OF assms(1,2) j OUT o] show ?thesis using OUT o unfolding op by auto
  next
    case ALT
    then have "node_op net i \<noteq> op_val COP2_MSG_OP_OUT" by simp
    from alt_steps [OF assms(1,2) this c(3) [OF ALT], of al] show ?thesis using ALT unfolding op by auto
  next
    case none
    then show ?thesis unfolding op by auto
  qed
qed

text \<open>The commands after which the code reports a deadlock: an alternative without clauses, and an
  output that waits for its acknowledgement and finds a message instead.\<close>

definition stuck :: "Net \<Rightarrow> nat \<Rightarrow> bool" where
  "stuck net i \<longleftrightarrow> node_op net i = op_val COP2_MSG_OP_ALT \<and> get_sel COP2_MSG_NCL (net_nd net ! i) = 0 \<or>
     node_op net i = op_val COP2_MSG_OP_OUT \<and> node_sent net i \<and>
       (\<exists>m. box net i (node_corr net i) = Some m \<and> \<not> msg_ack m)"

lemma net_moves_steps: "net_moves N net net' \<Longrightarrow> net_steps N net net'"
  by (erule mono_rtranclp [rule_format, rotated]) (rule move)

lemma operate_all_steps:
  assumes "net_ok X Y net" "commands_ok (X * Y) net" "set is \<subseteq> {..<X * Y}"
  shows "\<exists>r net'. operate_all is al net = Some (r, net') \<and> net_steps (X * Y) net net' \<and>
    (r = 0 \<or> r = -1 \<and> (\<exists>net1. \<exists>i<X * Y. net_steps (X * Y) net net1 \<and> stuck net1 i))"
  using assms
proof (induction "is" arbitrary: net)
  case (Cons i "is")
  then have i: "i < X * Y" by simp
  obtain r net1 where o: "operate net i (al i) = Some (r, net1)" "net_steps (X * Y) net net1"
    "r = E EDEADLK \<Longrightarrow> stuck net i"
    using operate_steps [OF Cons.prems(1) i Cons.prems(2), of "al i"] unfolding stuck_def by blast
  note ok = net_steps_ok [OF o(2) Cons.prems(1)]
  show ?case
  proof (cases "r = E EDEADLK")
    case True
    then show ?thesis using o i by auto
  next
    case False
    from Cons.IH [OF ok(1) ok(2) [OF Cons.prems(2)]] Cons.prems(3)
    obtain r2 net2 where 2: "operate_all is al net1 = Some (r2, net2)" "net_steps (X * Y) net1 net2"
      "r2 = 0 \<or> r2 = -1 \<and> (\<exists>net3. \<exists>i<X * Y. net_steps (X * Y) net1 net3 \<and> stuck net3 i)" by auto
    from 2(3) have "r2 = 0 \<or> r2 = -1 \<and> (\<exists>net3. \<exists>i<X * Y. net_steps (X * Y) net net3 \<and> stuck net3 i)"
      using o(2) by (meson rtranclp_trans)
    moreover have "operate_all (i # is) al net = Some (r2, net2)" using o(1) False 2(1) by simp
    moreover have "net_steps (X * Y) net net2" using o(2) 2(2) by (rule rtranclp_trans)
    ultimately show ?thesis by blast
  qed
qed simp

text \<open>The three phases.\<close>

lemma Net_execute_phases:
  assumes "net_ok X Y net" "commands_ok (X * Y) net"
  obtains net1 r net2 where "mfold fwd [0..<X * Y] net = Some net1" "net_moves (X * Y) net net1"
    "operate_all [0..<X * Y] al net1 = Some (r, net2)" "net_steps (X * Y) net1 net2"
    "r = -1 \<Longrightarrow> Net_execute al net = Some (-1, net2)"
    "r = -1 \<Longrightarrow> \<exists>net3. \<exists>i<X * Y. net_steps (X * Y) net net3 \<and> stuck net3 i"
    "r \<noteq> -1 \<Longrightarrow> \<exists>net3. mfold (\<lambda>i. hop (of_nat i)) [0..<X * Y] net2 = Some net3 \<and> net_moves (X * Y) net2 net3 \<and>
       Net_execute al net = Some (0, net3)"
proof -
  let ?N = "X * Y"
  note size = meshD(9) [OF net_okD(1) [OF assms(1)]]
  have 1: "\<exists>net1. mfold fwd [0..<?N] net = Some net1 \<and> net_moves ?N net net1"
    by (rule mfold_net_moves [OF assms(1)]) (auto intro: fwd_moves)
  then obtain net1 where 1: "mfold fwd [0..<?N] net = Some net1" "net_moves ?N net net1" by blast
  note s1 = net_moves_steps [OF 1(2)]
  note ok1 = net_steps_ok(1) [OF s1 assms(1)] net_steps_ok(2) [OF s1 assms]
  have "set [0..<?N] \<subseteq> {..<?N}" by auto
  from operate_all_steps [OF ok1 this, of al]
  obtain r net2 where 2: "operate_all [0..<?N] al net1 = Some (r, net2)" "net_steps ?N net1 net2"
    "r = 0 \<or> r = -1 \<and> (\<exists>net3. \<exists>i<?N. net_steps ?N net1 net3 \<and> stuck net3 i)" by blast
  note ok2 = net_steps_ok(1) [OF 2(2) ok1(1)]
  have 3: "\<exists>net3. mfold (\<lambda>i. hop (of_nat i)) [0..<?N] net2 = Some net3 \<and> net_moves ?N net2 net3"
    by (rule mfold_net_moves [OF ok2]) (auto intro: hop_moves)
  show thesis
  proof (rule that [OF 1 2(1,2)])
    assume r: "r = -1"
    then show "Net_execute al net = Some (-1, net2)" using 1(1) 2(1) by (simp add: Net_execute_def size)
    from r 2(3) s1 show "\<exists>net3. \<exists>i<?N. net_steps ?N net net3 \<and> stuck net3 i" by (auto intro: rtranclp_trans)
  next
    assume "r \<noteq> -1"
    then have "r = 0" using 2(3) by simp
    with 3 1(1) 2(1) show "\<exists>net3. mfold (\<lambda>i. hop (of_nat i)) [0..<?N] net2 = Some net3 \<and> net_moves ?N net2 net3 \<and>
       Net_execute al net = Some (0, net3)"
      by (auto simp: Net_execute_def size)
  qed
qed

lemma Net_execute_steps:
  assumes "net_ok X Y net" "commands_ok (X * Y) net"
  shows "\<exists>r net'. Net_execute al net = Some (r, net') \<and> net_steps (X * Y) net net' \<and>
    (r = 0 \<or> r = -1 \<and> (\<exists>net3. \<exists>i<X * Y. net_steps (X * Y) net net3 \<and> stuck net3 i))"
proof (rule Net_execute_phases [OF assms, of al])
  fix net1 r net2
  assume "mfold fwd [0..<X * Y] net = Some net1" and 1: "net_moves (X * Y) net net1"
    and "operate_all [0..<X * Y] al net1 = Some (r, net2)" and 2: "net_steps (X * Y) net1 net2"
    and 3: "r = -1 \<Longrightarrow> Net_execute al net = Some (-1, net2)"
      "r = -1 \<Longrightarrow> \<exists>net3. \<exists>i<X * Y. net_steps (X * Y) net net3 \<and> stuck net3 i"
      "r \<noteq> -1 \<Longrightarrow> \<exists>net3. mfold (\<lambda>i. hop (of_nat i)) [0..<X * Y] net2 = Some net3 \<and> net_moves (X * Y) net2 net3 \<and>
       Net_execute al net = Some (0, net3)"
  have "net_steps (X * Y) net net2" using net_moves_steps [OF 1] 2 by (rule rtranclp_trans)
  then show ?thesis using 3 rtranclp_trans [OF _ net_moves_steps] by (cases "r = -1") blast+
qed

section \<open>Moves keep the messages\<close>

lemma strip_hops [simp]: "strip (m\<lparr>msg_hops := h\<rparr>) = strip m"
  by (simp add: strip_def)

lemma net_move_msgs:
  assumes "net_move (X * Y) net net'" "net_ok X Y net"
  shows "net_msgs net' = net_msgs net"
proof -
  note mesh = net_okD(1) [OF assms(2)] and len = meshD(7) [OF net_okD(1) [OF assms(2)]]
  show ?thesis using assms(1)
  proof cases
    case (forward i n m q k)
    then show ?thesis using net_msgs_pop [OF _ forward(3,4)] len by (simp add: net_simps)
  next
    case (deliver i n m q)
    let ?net1 = "upd_node i tally (pop i LINK_IN n net)"
    have m1: "mesh X Y ?net1"
      using mesh_pop [OF mesh deliver(2)] mesh_node [OF mesh_pop [OF mesh deliver(2)] deliver(2)] deliver(2)
      by (intro mesh_upd_node) (simp_all add: net_simps wf_tally)
    have from_less: "unat (msg_from m) < X * Y" using head_ok [OF assms(2) deliver(2,4)] by (simp add: msg_ok_def)
    have "net_msgs net' = add_mset (strip m) (net_msgs ?net1)"
      unfolding deliver(1) using deliver(6) by (intro net_msgs_fill [OF m1 deliver(2) from_less]) (simp add: net_simps)
    moreover have "net_msgs ?net1 = net_msgs (pop i LINK_IN n net)"
      using deliver(2) len by (simp add: net_simps)
    ultimately show ?thesis using net_msgs_pop [OF _ deliver(3,4)] deliver(2) len by simp
  next
    case (transmit i n m q c k)
    note k = hop_next_link [OF transmit(5,3)]
    let ?net1 = "upd_node i (count_link LINK_OUT n) (pop i LINK_OUT n net)"
    have "net_msgs net' = add_mset (strip m) (net_msgs ?net1)"
      unfolding transmit(1) using transmit(2,6) k len by (simp add: net_simps)
    moreover have "net_msgs ?net1 = net_msgs (pop i LINK_OUT n net)"
      using transmit(2) len by (simp add: net_simps)
    ultimately show ?thesis using net_msgs_pop [OF _ transmit(3,4)] transmit(2) len by simp
  qed
qed

lemma net_moves_msgs:
  assumes "net_moves (X * Y) net net'" "net_ok X Y net"
  shows "net_ok X Y net'" "net_msgs net' = net_msgs net"
proof -
  have "net_ok X Y net' \<and> net_msgs net' = net_msgs net"
    using assms by (induction rule: rtranclp_induct) (auto intro: net_move_ok dest: net_move_msgs)
  then show "net_ok X Y net'" "net_msgs net' = net_msgs net" by blast+
qed

section \<open>Properties\<close>

lemma pair_net_commands: "commands_ok (1 * 2) pair_net"
proof -
  have "i < 1 * 2 \<longleftrightarrow> i = 0 \<or> i = 1" for i :: nat by auto
  then show ?thesis
    by (auto simp: commands_ok_def node_op_def node_corr_def pair_net_node COP2_MSG_ST_OP_def)
qed

text \<open>C4:
  A cycle of a well-formed network whose nodes ask for nothing impossible has no undefined behaviour:
  it ends with success or with the report of a deadlock, and the network is well formed again. In
  particular no link ever holds more than \<open>LINK_BUFSZ\<close> messages, every message is addressed to a node of
  the mesh and is in a link on its way, and a mailbox holds what its sender sent to its owner.\<close>

theorem net_cycle_safe:
  assumes "net_ok X Y net" "commands_ok (X * Y) net"
  shows "\<exists>r net'. Net_execute al net = Some (r, net') \<and> (r = 0 \<or> r = -1) \<and>
    net_ok X Y net' \<and> commands_ok (X * Y) net'"
  using Net_execute_steps [OF assms, of al] net_steps_ok [OF _ assms(1)] assms(2) by blast

theorem net_cycle_safe_witness:
  "\<exists>r net'. Net_execute (\<lambda>_. Some 0) pair_net = Some (r, net') \<and> (r = 0 \<or> r = -1) \<and>
    net_ok 1 2 net' \<and> commands_ok (1 * 2) net'"
  by (rule net_cycle_safe [OF pair_net_ok pair_net_commands])

text \<open>Moving messages loses none and makes none: forwarding the input links of a node, and sending its output
  links to the neighbours, are always defined and leave the multiset of the messages in links
  and mailboxes as it was, but for the hops they count.\<close>

theorem moves_keep_messages:
  assumes "net_ok X Y net" "i < X * Y"
  shows "\<exists>net1 net2. fwd i net = Some net1 \<and> net_msgs net1 = net_msgs net \<and> net_ok X Y net1 \<and>
    hop (of_nat i) net = Some net2 \<and> net_msgs net2 = net_msgs net \<and> net_ok X Y net2"
  using fwd_moves [OF assms] hop_moves [OF assms] net_moves_msgs assms(1) by blast

theorem moves_keep_messages_witness:
  "\<exists>net1 net2. fwd 0 pair_net = Some net1 \<and> net_msgs net1 = net_msgs pair_net \<and> net_ok 1 2 net1 \<and>
    hop (of_nat 0) pair_net = Some net2 \<and> net_msgs net2 = net_msgs pair_net \<and> net_ok 1 2 net2"
  by (rule moves_keep_messages [OF pair_net_ok]) simp

end
