(* ===== verification/NetServe.thy ===== *)
theory NetServe
  imports NetCycle
begin

text \<open>
  What the commands do: an input, an output and an alternative that find what they wait for, and the order in
  which an alternative serves its clauses.
\<close>

section \<open>Round robin\<close>

text \<open>How far mailbox \<open>k\<close> is ahead of the start \<open>s\<close> of the search.\<close>

definition ahead :: "nat \<Rightarrow> nat \<Rightarrow> nat \<Rightarrow> nat" where
  "ahead N s k = (if s \<le> k then k - s else k + N - s)"

lemma ahead_nth: "s < N \<Longrightarrow> k < N \<Longrightarrow> ahead N s k < N \<and> (s + ahead N s k) mod N = k"
  by (auto simp: ahead_def)

lemma ahead_of_nth:
  assumes "s < N" "d < N"
  shows "ahead N s ((s + d) mod N) = d"
proof (cases "s + d < N")
  case True
  then show ?thesis by (simp add: ahead_def)
next
  case False
  then have "(s + d) mod N = s + d - N" using assms by (simp add: mod_if)
  then show ?thesis using False assms by (simp add: ahead_def)
qed

lemma ahead_decreases:
  assumes "s < N" "k < N" "j < N" "ahead N s k \<le> ahead N s j" "j \<noteq> k"
  shows "ahead N ((k + 1) mod N) j < ahead N s j"
  using assms by (cases "k + 1 = N") (auto simp: ahead_def split: if_splits)

lemma find_first:
  assumes "s < N" "k < N" "P k" "\<And>j. j < N \<Longrightarrow> P j \<Longrightarrow> ahead N s k \<le> ahead N s j"
  shows "find P (round_robin N s) = Some k"
proof -
  note a = ahead_nth [OF assms(1,2)]
  have "\<not> P ((s + d) mod N)" if "d < ahead N s k" for d
  proof
    assume p: "P ((s + d) mod N)"
    have "(s + d) mod N < N" using assms(2) by (intro mod_less_divisor) simp
    from assms(4) [OF this p] show False using ahead_of_nth [OF assms(1), of d] that a by simp
  qed
  then show ?thesis using a assms(3) unfolding find_Some_iff round_robin_def
    by (intro exI [of _ "ahead N s k"]) (auto simp: nth_map)
qed

section \<open>The alternative\<close>

definition node_K1 :: "Net \<Rightarrow> nat \<Rightarrow> u32" where
  "node_K1 net i = cpu_gpr (nd_cpu (net_nd net ! i)) ! regno K1"

definition node_start :: "Net \<Rightarrow> nat \<Rightarrow> nat" where
  "node_start net i = unat (nd_mbox_start (net_nd net ! i))"

lemma take_msg_DATA:
  "wf_cpu (nd_cpu nd) \<Longrightarrow> get_sel COP2_MSG_DATA (take_msg m nd) = msg_data m"
  by (simp add: take_msg_def Let_def wf_set_sel net_simps)

lemma take_msg_HOPS:
  "wf_cpu (nd_cpu nd) \<Longrightarrow> get_sel COP2_MSG_HOPS (take_msg m nd) = get_sel COP2_MSG_HOPS nd + msg_hops m"
  by (simp add: take_msg_def Let_def wf_set_sel net_simps)

lemma K1_set: "wf_cpu (nd_cpu nd) \<Longrightarrow> cpu_gpr (nd_cpu (set_K1 v nd)) ! regno K1 = v"
  using regno_less [of K1] by (simp add: set_K1_def wf_cpu_def)

text \<open>The state of the node and the network after a message has been taken.\<close>

definition served :: "nat \<Rightarrow> Net \<Rightarrow> nat \<Rightarrow> nat \<Rightarrow> Msg \<Rightarrow> u32 \<Rightarrow> Net \<Rightarrow> bool" where
  "served N net i k m g net' \<longleftrightarrow>
     get_sel COP2_MSG_DATA (net_nd net' ! i) = msg_data m \<and>
     get_sel COP2_MSG_HOPS (net_nd net' ! i) = get_sel COP2_MSG_HOPS (net_nd net ! i) + msg_hops m \<and>
     node_op net' i = op_val COP2_MSG_OP_NONE \<and>
     (\<forall>j<N. box net' i j = (if j = k then None else box net i j)) \<and>
     queue net' i LINK_OUT (way net i (msg_from m)) = queue net i LINK_OUT (way net i (msg_from m)) @ [answer_of i g m] \<and>
     (\<forall>j<N. j \<noteq> i \<longrightarrow> net_nd net' ! j = net_nd net ! j)"

lemma served_take:
  assumes "net_ok X Y net" "i < X * Y" "k < X * Y"
  shows "served (X * Y) net i k m g (set_mbox i k None (upd_node i (take_msg m)
         (push i LINK_OUT (way net i (msg_from m)) (answer_of i g m) net)))"
proof -
  note mesh = net_okD(1) [OF assms(1)]
  note N = assms(2) [folded meshD(7) [OF mesh]] and wf = mesh_node(1) [OF mesh assms(2)]
  let ?p = "push i LINK_OUT (way net i (msg_from m)) (answer_of i g m) net"
  have p: "wf_cpu (nd_cpu (net_nd ?p ! i))" "get_sel s (net_nd ?p ! i) = get_sel s (net_nd net ! i)" for s
    using N wf by (simp_all add: push_def net_simps)
  have m: "mesh X Y (upd_node i (take_msg m) ?p)"
    using mesh_push [OF mesh assms(2)] mesh_node [OF mesh_push [OF mesh assms(2)] assms(2)] assms(2)
    by (intro mesh_upd_node) (simp_all add: net_simps wf_take_msg)
  show ?thesis unfolding served_def using N wf p
    by (simp add: net_simps take_msg_DATA take_msg_HOPS op_NONE box_set_mbox [OF m assms(2,3,2)] queue_local)
      (simp add: push_def net_simps)
qed

lemma prepared_same:
  assumes "mesh X Y net" "i < X * Y"
  shows "s \<noteq> COP2_MSG_ST \<Longrightarrow> get_sel s (net_nd (turn_to i k (with_default i cls net)) ! i) = get_sel s (net_nd net ! i)"
    "queue (turn_to i k (with_default i cls net)) = queue net" "way (turn_to i k (with_default i cls net)) = way net"
    "j \<noteq> i \<Longrightarrow> net_nd (turn_to i k (with_default i cls net)) ! j = net_nd net ! j"
    "nd_mbox_start (net_nd (turn_to i k (with_default i cls net)) ! i) = of_nat ((k + 1) mod (X * Y))"
proof -
  note N = assms(2) [folded meshD(7) [OF assms(1)]] and wf = mesh_node(1) [OF assms]
  have "get_sel s (default_change (net_nd net ! i)) = get_sel s (net_nd net ! i)" if "s \<noteq> COP2_MSG_ST" for s
    using wf that by (simp add: default_change_def net_simps wf_set_K1)
  moreover have "nd_link (default_change nd) = nd_link nd" for nd by (simp add: default_change_def net_simps)
  ultimately show "s \<noteq> COP2_MSG_ST \<Longrightarrow> get_sel s (net_nd (turn_to i k (with_default i cls net)) ! i) = get_sel s (net_nd net ! i)"
    "queue (turn_to i k (with_default i cls net)) = queue net" "way (turn_to i k (with_default i cls net)) = way net"
    "j \<noteq> i \<Longrightarrow> net_nd (turn_to i k (with_default i cls net)) ! j = net_nd net ! j"
    "nd_mbox_start (net_nd (turn_to i k (with_default i cls net)) ! i) = of_nat ((k + 1) mod (X * Y))"
    using N meshD(9) [OF assms(1)] by (simp_all add: turn_to_def with_default_def queue_local net_simps)
qed

lemma served_same:
  assumes "served N net1 i k m g net'" "get_sel COP2_MSG_HOPS (net_nd net1 ! i) = get_sel COP2_MSG_HOPS (net_nd net ! i)"
    "queue net1 = queue net" "way net1 = way net" "box net1 = box net" "\<And>j. j \<noteq> i \<Longrightarrow> net_nd net1 ! j = net_nd net ! j"
  shows "served N net i k m g net'"
  using assms by (simp add: served_def)

lemma served_K1:
  assumes "served N net i k m g net'" "i < length (net_nd net')" "wf_cpu (nd_cpu (net_nd net' ! i))"
  shows "served N net i k m g (upd_node i (set_K1 v) net')"
  using assms by (simp add: served_def net_simps) (simp add: queue_def node_op_def)

lemma set_K1_start [net_simps]:
  "i < length (net_nd net) \<Longrightarrow> node_start (upd_node i (set_K1 v) net) i = node_start net i"
  by (simp add: node_start_def net_simps)

text \<open>C10:
  An alternative whose clauses name a mailbox with a message takes the message of the first such mailbox
  from the node's starting point on, round about: the data, the hops and the number of the sender go to the processor,
  the operation is over, the mailbox is empty, and the acknowledgement is the last message in the link
  towards the sender; no other node changes. The next search starts behind that mailbox, so that every other
  candidate is strictly nearer to the start than it was: a clause is passed over less often than there are nodes.\<close>

theorem alt_serves_round_robin:
  assumes "net_ok X Y net" "i < X * Y" "node_op net i \<noteq> op_val COP2_MSG_OP_OUT"
    "get_sel COP2_MSG_NCL (net_nd net ! i) \<noteq> 0" "ready_clauses net base i = Some cls"
    "k < X * Y" "candidate net i cls k" "box net i k = Some m"
    "\<And>j. j < X * Y \<Longrightarrow> candidate net i cls j \<Longrightarrow> ahead (X * Y) (node_start net i) k \<le> ahead (X * Y) (node_start net i) j"
    "length (queue net i LINK_OUT (way net i (msg_from m))) < LINK_BUFSZ"
  shows "\<exists>net'. alt net base i (Some g) = Some (OK, net') \<and> served (X * Y) net i k m g net' \<and>
    node_K1 net' i = of_nat k \<and>
    (\<forall>j<X * Y. j \<noteq> k \<and> candidate net i cls j \<longrightarrow> candidate net' i cls j \<and>
       ahead (X * Y) (node_start net' i) j < ahead (X * Y) (node_start net i) j)"
proof -
  let ?N = "X * Y" and ?net2 = "turn_to i k (with_default i cls net)"
  note mesh = net_okD(1) [OF assms(1)]
  note p = alt_prepare [OF assms(1-3,6), of cls] and same = prepared_same [OF mesh assms(2)]
  have s: "node_start net i < ?N" using net_ok_node(2) [OF assms(1,2)] by (simp add: node_start_def)
  have find: "find (candidate net i cls) (round_robin ?N (node_start net i)) = Some k"
    by (rule find_first [where P = "candidate net i cls", OF s assms(6,7,9)])
  note unfold = alt_unfold [OF mesh assms(2), of base "Some g", folded node_start_def]
  have b2: "box ?net2 i k = Some m" by (simp add: box_prepared assms(8))
  let ?net3 = "set_mbox i k None (upd_node i (take_msg m) (push i LINK_OUT (way ?net2 i (msg_from m)) (answer_of i g m) ?net2))"
  have r: "receive ?net2 k i m (Some g) = Some (OK, ?net3)" "net_ok X Y ?net3"
    using receive_steps [OF p(2) assms(2,6) b2 p(3), of "Some g"] assms(10) net_step_ok [OF _ p(2)]
    by (auto simp: same(2,3))
  let ?net' = "upd_node i (set_K1 (of_nat k)) ?net3"
  have alt: "alt net base i (Some g) = Some (OK, ?net')"
    using assms(4,5,8) find r(1) unfolding unfold by (simp add: Let_def)
  have len: "i < length (net_nd ?net3)" using meshD(7) [OF net_okD(1) [OF r(2)]] assms(2) by simp
  have "served ?N net i k m g ?net3"
    by (rule served_same [OF served_take [OF p(2) assms(2,6)]]) (simp_all add: same box_prepared)
  then have served: "served ?N net i k m g ?net'"
    by (rule served_K1 [OF _ len net_ok_node(1) [OF r(2) assms(2)]])
  have k1: "node_K1 ?net' i = of_nat k"
    using K1_set [OF net_ok_node(1) [OF r(2) assms(2)]] len by (simp add: node_K1_def net_simps)
  have "node_start ?net3 i = node_start ?net2 i"
    using meshD(7) [OF net_okD(1) [OF p(2)]] assms(2) by (simp add: node_start_def push_def net_simps)
  also have "\<dots> = (k + 1) mod ?N"
    using less_le_trans [OF mod_less_divisor [OF meshD(4) [OF mesh], of "k + 1"] meshD(3) [OF mesh]]
    by (simp add: node_start_def same unat_u64 del: of_nat_Suc)
  finally have "node_start ?net' i = (k + 1) mod ?N" using len by (simp add: set_K1_start)
  then have "candidate ?net' i cls j \<and> ahead ?N (node_start ?net' i) j < ahead ?N (node_start net i) j"
    if "j < ?N" "j \<noteq> k" "candidate net i cls j" for j
    using ahead_decreases [OF s assms(6) that(1) assms(9) [OF that(1,3)] that(2)] served that
    by (auto simp: served_def candidate_def)
  with alt served k1 show ?thesis by blast
qed

text \<open>The second of two nodes has a message from the first and an alternative with the clause 0.\<close>

definition letter :: Msg where
  "letter = \<lparr>msg_to = 1, msg_from = 0, msg_data = 7, msg_hops = 1, msg_ack = False\<rparr>"

definition alt_net :: Net where
  "alt_net = set_mbox 1 0 (Some letter) (quiet_net 1 2 [asking COP2_MSG_OP_NONE 0 0 0, asking COP2_MSG_OP_ALT 0 0 1])"

lemma quiet_net_nd: "net_nd (quiet_net X Y nds) = nds"
  by (simp add: quiet_net_def)

lemma alt_net_facts:
  "net_ok 1 2 alt_net" "net_nd alt_net = [asking COP2_MSG_OP_NONE 0 0 0, asking COP2_MSG_OP_ALT 0 0 1]"
  "box alt_net 1 0 = Some letter" "box alt_net 1 1 = None" "length (queue alt_net 1 LINK_OUT n) < LINK_BUFSZ"
proof -
  let ?net = "quiet_net 1 2 [asking COP2_MSG_OP_NONE 0 0 0, asking COP2_MSG_OP_ALT 0 0 1]"
  have q: "net_ok 1 2 ?net" by (rule quiet_net_ok) (auto simp: quiet_asking)
  note mesh = net_okD(1) [OF q]
  show ok: "net_ok 1 2 alt_net" unfolding alt_net_def
    by (rule net_ok_set_mbox [OF q]) (auto simp: msg_ok_def letter_def)
  show nd: "net_nd alt_net = [asking COP2_MSG_OP_NONE 0 0 0, asking COP2_MSG_OP_ALT 0 0 1]"
    by (simp add: alt_net_def net_simps quiet_net_nd)
  show "length (queue alt_net 1 LINK_OUT n) < LINK_BUFSZ"
    by (simp add: queue_def nd asking_def LINK_BUFSZ_def)
  show "box alt_net 1 0 = Some letter" "box alt_net 1 1 = None"
    unfolding alt_net_def by (simp_all add: box_def set_mbox_def mbox_index_def quiet_net_def)
qed

theorem alt_serves_round_robin_witness:
  "\<exists>net'. alt alt_net (Inr 0) 1 (Some 5) = Some (OK, net') \<and> get_sel COP2_MSG_DATA (net_nd net' ! 1) = 7 \<and>
    node_K1 net' 1 = 0 \<and> box net' 1 0 = None"
proof -
  have cls: "ready_clauses alt_net (Inr 0) 1 = Some [0]"
    by (simp add: ready_clauses_def alt_net_facts(2) clause_def) (simp add: asking_def get_word_def word_of_bytes_def)
  have "node_op alt_net 1 \<noteq> op_val COP2_MSG_OP_OUT"
    by (simp add: node_op_def alt_net_facts(2) COP2_MSG_ST_OP_def)
  moreover have "get_sel COP2_MSG_NCL (net_nd alt_net ! 1) \<noteq> 0" by (simp add: alt_net_facts(2))
  moreover have "candidate alt_net 1 [0] 0" by (simp add: candidate_def alt_net_facts(3) del: One_nat_def)
  ultimately show ?thesis
    using alt_serves_round_robin [OF alt_net_facts(1) _ _ _ cls _ _ alt_net_facts(3) _ alt_net_facts(5), of 5]
    by (auto simp: candidate_def served_def letter_def simp del: One_nat_def)
qed

text \<open>C20: the cyclic search of an alternative, with its marks for \<open>done\<close> and \<open>found\<close>, is the plain command: read the
  clauses, take the first mailbox, from the round-robin start on, that holds a message of one of them, and
  receive it; without one the default clause ends the command, or it is tried again. The next search starts
  behind the mailbox taken, or behind the old start.\<close>

theorem alt_is_round_robin_search:
  assumes "mesh X Y net" "i < X * Y"
  shows "alt net base i al =
    (if get_sel COP2_MSG_NCL (net_nd net ! i) = 0 then Some (E EDEADLK, net)
     else case ready_clauses net base i of None \<Rightarrow> None | Some cls \<Rightarrow>
       (let net1 = with_default i cls net; s = unat (nd_mbox_start (net_nd net ! i)) in
        case find (candidate net i cls) (round_robin (X * Y) s) of
          None \<Rightarrow> Some (if sint (last cls) < 0 then OK else E EAGAIN, turn_to i s net1)
        | Some k \<Rightarrow> (case receive (turn_to i k net1) k i (the (box net i k)) al of
            None \<Rightarrow> None
          | Some (r, net3) \<Rightarrow> Some (r, if r = OK then upd_node i (set_K1 (of_nat k)) net3 else net3))))"
  by (rule alt_unfold [OF assms])

theorem alt_is_round_robin_search_witness:
  "alt alt_net (Inr 0) 1 None = Some (E ENOMEM, turn_to 1 0 alt_net)"
proof -
  have cls: "ready_clauses alt_net (Inr 0) 1 = Some [0]"
    by (simp add: ready_clauses_def alt_net_facts(2) clause_def) (simp add: asking_def get_word_def word_of_bytes_def)
  have "candidate alt_net 1 [0] 0" by (simp add: candidate_def alt_net_facts(3) del: One_nat_def)
  then have "find (candidate alt_net 1 [0]) (round_robin (1 * 2) 0) = Some 0"
    by (simp add: round_robin_def numeral_2_eq_2 upt_rec del: One_nat_def)
  moreover have "nd_mbox_start (net_nd alt_net ! 1) = 0" "get_sel COP2_MSG_NCL (net_nd alt_net ! 1) \<noteq> 0"
    by (simp_all add: alt_net_facts(2)) (simp add: asking_def)
  moreover have "with_default 1 [0] alt_net = alt_net" by (simp add: with_default_def)
  ultimately show ?thesis
    using alt_is_round_robin_search [OF net_okD(1) [OF alt_net_facts(1)], of 1 "Inr 0" None] cls
    by (simp add: receive_def Let_def)
qed

end
