(* ===== verification/Rendezvous.thy ===== *)
theory Rendezvous
  imports NetServe
begin

text \<open>
  The rendezvous protocol of output and input: a node that has sent a message has exactly one message or
  acknowledgement on its way, the other nodes have none. From this follows when the network can
  report a deadlock.
\<close>

section \<open>Messages on their way\<close>

text \<open>A message from \<open>i\<close> to \<open>k\<close>, or the acknowledgement that it has been taken.\<close>

definition concerns :: "nat \<Rightarrow> nat \<Rightarrow> Msg \<Rightarrow> bool" where
  "concerns i k m \<longleftrightarrow> (\<not> msg_ack m \<and> unat (msg_from m) = i \<and> unat (msg_to m) = k) \<or>
     (msg_ack m \<and> unat (msg_from m) = k \<and> unat (msg_to m) = i)"

definition flight :: "Net \<Rightarrow> nat \<Rightarrow> nat \<Rightarrow> nat" where
  "flight net i k = size (filter_mset (concerns i k) (net_msgs net))"

definition sending :: "Net \<Rightarrow> nat \<Rightarrow> nat \<Rightarrow> bool" where
  "sending net i k \<longleftrightarrow> node_op net i = op_val COP2_MSG_OP_OUT \<and> node_sent net i \<and> node_corr net i = k"

definition rendezvous :: "nat \<Rightarrow> Net \<Rightarrow> bool" where
  "rendezvous N net \<longleftrightarrow> (\<forall>i<N. \<forall>k<N. i \<noteq> k \<longrightarrow> flight net i k = (if sending net i k then 1 else 0))"

lemma rendezvousD: "rendezvous N net \<Longrightarrow> i < N \<Longrightarrow> k < N \<Longrightarrow> i \<noteq> k \<Longrightarrow>
    flight net i k = (if sending net i k then 1 else 0)"
  by (simp add: rendezvous_def)

text \<open>Who has something on its way is sending.\<close>

lemma flight_pos: "m \<in># net_msgs net \<Longrightarrow> concerns i k m \<Longrightarrow> flight net i k \<noteq> 0"
  unfolding flight_def by (metis empty_iff set_mset_empty size_eq_0_iff_empty mem_Collect_eq set_mset_filter)

lemma in_flight_sending:
  assumes "rendezvous N net" "m \<in># net_msgs net" "concerns i k m" "i < N" "k < N" "i \<noteq> k"
  shows "sending net i k"
  using rendezvousD [OF assms(1,4-6)] flight_pos [OF assms(2,3)] by (simp split: if_splits)

lemma concerns_strip [simp]: "concerns i k (strip m) = concerns i k m"
  by (simp add: concerns_def strip_def)

lemma flight_add:
  "net_msgs net' = add_mset (strip m) (net_msgs net) \<Longrightarrow>
    flight net' i k = flight net i k + (if concerns i k m then 1 else 0)"
  by (simp add: flight_def)

lemma flight_same: "net_msgs net' = net_msgs net \<Longrightarrow> flight net' = flight net"
  by (simp add: flight_def fun_eq_iff)

lemma sending_upd:
  assumes "i < length (net_nd net)" "wf_cpu (nd_cpu (net_nd net ! i))"
    "get_sel COP2_MSG_CORR (f (net_nd net ! i)) = get_sel COP2_MSG_CORR (net_nd net ! i)"
  shows "sending (upd_node i f net) j k =
    (if j = i then COP2_MSG_ST_OP (get_sel COP2_MSG_ST (f (net_nd net ! i))) = op_val COP2_MSG_OP_OUT \<and>
       COP2_MSG_ST_SENT (get_sel COP2_MSG_ST (f (net_nd net ! i))) \<noteq> 0 \<and> node_corr net i = k
     else sending net j k)"
  using assms by (simp add: sending_def node_op_def node_sent_def node_corr_def net_simps)

lemma sending_set_mbox [net_simps]: "sending (set_mbox i k v net) = sending net"
  by (simp add: sending_def node_op_def node_sent_def node_corr_def net_simps fun_eq_iff)

lemma sending_push [net_simps]: "i < length (net_nd net) \<Longrightarrow> sending (push i d n m net) = sending net"
  by (simp add: sending_def node_op_def node_sent_def node_corr_def push_def net_simps fun_eq_iff)

lemma sending_pop [net_simps]: "i < length (net_nd net) \<Longrightarrow> sending (pop i d n net) = sending net"
  by (simp add: sending_def node_op_def node_sent_def node_corr_def pop_def net_simps fun_eq_iff)

lemma set_mbox_upd_node: "set_mbox i k v (upd_node j f net) = upd_node j f (set_mbox i k v net)"
  by (simp add: set_mbox_def upd_node_def mbox_index_def)

lemma take_msg_CORR:
  "wf_cpu (nd_cpu nd) \<Longrightarrow> get_sel COP2_MSG_CORR (take_msg m nd) = get_sel COP2_MSG_CORR nd"
  by (simp add: take_msg_def Let_def wf_set_sel net_simps)

section \<open>The steps keep the protocol\<close>

lemma net_move_sending:
  assumes "net_move (X * Y) net net'" "mesh X Y net"
  shows "sending net' = sending net"
proof -
  note wf = mesh_node(1) [OF assms(2)] and len = meshD(7) [OF assms(2)]
  show ?thesis using assms(1)
  proof cases
    case (forward i n m q k)
    then show ?thesis using len by (simp add: net_simps)
  next
    case (deliver i n m q)
    then show ?thesis using len wf [OF deliver(2)]
      by (auto simp: fun_eq_iff sending_def node_op_def node_sent_def node_corr_def pop_def tally_def net_simps)
  next
    case (transmit i n m q c k)
    then show ?thesis using len
      by (auto simp: fun_eq_iff sending_def node_op_def node_sent_def node_corr_def push_def pop_def net_simps)
  qed
qed

text \<open>What each step does to the messages on their way.\<close>

lemma step_msgs:
  assumes "mesh X Y net" "i < X * Y"
  shows sent_msgs: "k \<noteq> LINK_MBOX \<Longrightarrow>
      net_msgs (upd_node i (set_sel COP2_MSG_ST v) (push i LINK_OUT k m net)) = add_mset (strip m) (net_msgs net)"
    and acknowledged_msgs: "net_msgs (set_mbox i j None (upd_node i (set_sel COP2_MSG_ST v) net)) = net_msgs (set_mbox i j None net)"
    and accepted_msgs: "k \<noteq> LINK_MBOX \<Longrightarrow>
      net_msgs (set_mbox i j None (upd_node i (take_msg m) (push i LINK_OUT k a net))) = add_mset (strip a) (net_msgs (set_mbox i j None net))"
    and private_msgs: "private_change N f (net_nd net ! i) \<Longrightarrow> net_msgs (upd_node i f net) = net_msgs net"
proof -
  note len = meshD(7) [OF assms(1)]
  show "k \<noteq> LINK_MBOX \<Longrightarrow>
      net_msgs (upd_node i (set_sel COP2_MSG_ST v) (push i LINK_OUT k m net)) = add_mset (strip m) (net_msgs net)"
    using assms(2) len by (simp add: net_simps)
  show "net_msgs (set_mbox i j None (upd_node i (set_sel COP2_MSG_ST v) net)) = net_msgs (set_mbox i j None net)"
    using assms(2) len by (simp add: set_mbox_upd_node net_simps)
  have "set_mbox i j None (upd_node i (take_msg m) (push i LINK_OUT k a net)) =
      upd_node i (take_msg m) (push i LINK_OUT k a (set_mbox i j None net))"
    by (simp only: push_def set_mbox_upd_node)
  then show "k \<noteq> LINK_MBOX \<Longrightarrow> net_msgs (set_mbox i j None (upd_node i (take_msg m) (push i LINK_OUT k a net))) =
      add_mset (strip a) (net_msgs (set_mbox i j None net))"
    using assms(2) len by (simp add: net_simps)
  show "private_change N f (net_nd net ! i) \<Longrightarrow> net_msgs (upd_node i f net) = net_msgs net"
    using assms(2) len by (intro net_msgs_same_links) (simp_all add: private_change_def)
qed

text \<open>The protocol after each kind of step.\<close>

lemmas sending_defs = sending_def node_op_def node_sent_def node_corr_def

lemma rendezvous_send:
  assumes "mesh X Y net" "rendezvous (X * Y) net" "i < X * Y" "node_op net i = op_val COP2_MSG_OP_OUT" "\<not> node_sent net i"
    "m = \<lparr>msg_to = of_nat (node_corr net i), msg_from = of_nat i, msg_data = d, msg_hops = 0, msg_ack = False\<rparr>"
    "node_corr net i < X * Y" "k \<noteq> LINK_MBOX"
  shows "rendezvous (X * Y) (upd_node i (set_sel COP2_MSG_ST (get_sel COP2_MSG_ST (net_nd net ! i) OR 4)) (push i LINK_OUT k m net))"
    (is "rendezvous _ ?net")
proof -
  have "unat (msg_from m) = i" "unat (msg_to m) = node_corr net i" "\<not> msg_ack m"
    using assms(3,6,7) meshD(3) [OF assms(1)] by (simp_all add: unsigned_of_nat take_bit_nat_eq_self)
  then have c: "concerns a b m \<longleftrightarrow> a = i \<and> b = node_corr net i" for a b by (auto simp: concerns_def)
  have f: "flight ?net a b = flight net a b + (if a = i \<and> b = node_corr net i then 1 else 0)" for a b
    by (simp only: flight_add [OF sent_msgs [OF assms(1,3,8)]] c)
  have s: "sending ?net a b = (if a = i then node_corr net i = b else sending net a b)" for a b
    using assms(3,4) meshD(7) [OF assms(1)] mesh_node(1) [OF assms(1,3)]
    by (auto simp: sending_defs push_def net_simps wf_set_sel op_sent COP2_MSG_ST_SENT_def bit.conj_disj_distrib2)
  show ?thesis unfolding rendezvous_def f s using rendezvousD [OF assms(2)] assms(5) by (auto simp: sending_def)
qed

lemma rendezvous_acknowledged:
  assumes "net_ok X Y net" "rendezvous (X * Y) net" "i < X * Y" "node_corr net i < X * Y"
    "node_op net i = op_val COP2_MSG_OP_OUT" "node_sent net i" "box net i (node_corr net i) = Some m" "msg_ack m"
  shows "rendezvous (X * Y) (set_mbox i (node_corr net i) None (upd_node i (set_sel COP2_MSG_ST (op_val COP2_MSG_OP_NONE)) net))"
    (is "rendezvous _ ?net")
proof -
  note mesh = net_okD(1) [OF assms(1)]
  note b = boxes_okD [OF net_okD(3) [OF assms(1)] assms(3,4,7)]
  have c: "concerns a d m \<longleftrightarrow> a = i \<and> d = node_corr net i" for a d using b assms(8) by (auto simp: concerns_def)
  have "flight ?net = flight (set_mbox i (node_corr net i) None net)"
    by (rule flight_same [OF acknowledged_msgs [OF mesh assms(3)]])
  note f = flight_add [OF net_msgs_take [OF mesh assms(3,4,7)], unfolded c, folded this]
  have s: "sending ?net a d = (a \<noteq> i \<and> sending net a d)" for a d
    using assms(3) meshD(7) [OF mesh] mesh_node(1) [OF mesh assms(3)] by (auto simp: sending_defs net_simps op_NONE)
  have "flight ?net a d = (if sending ?net a d then 1 else 0)" if "a < X * Y" "d < X * Y" "a \<noteq> d" for a d
    using rendezvousD [OF assms(2) that] f [of a d] assms(5,6) unfolding s by (auto simp: sending_def split: if_splits)
  then show ?thesis by (simp add: rendezvous_def)
qed

lemma rendezvous_accept:
  assumes "net_ok X Y net" "rendezvous (X * Y) net" "i < X * Y" "j < X * Y" "node_op net i \<noteq> op_val COP2_MSG_OP_OUT"
    "box net i j = Some m" "k \<noteq> LINK_MBOX"
  shows "rendezvous (X * Y) (set_mbox i j None (upd_node i (take_msg m) (push i LINK_OUT k (answer_of i g m) net)))"
    (is "rendezvous _ ?net")
proof -
  note mesh = net_okD(1) [OF assms(1)]
  note b = boxes_okD [OF net_okD(3) [OF assms(1)] assms(3,4,6)] and t = net_msgs_take [OF mesh assms(3,4,6)]
  have i_j: "i \<noteq> j" using b by (auto simp: msg_ok_def word_unat_eq_iff)
  have "\<not> sending net i j" using assms(5) by (simp add: sending_def)
  then have "flight net i j = 0" using rendezvousD [OF assms(2-4) i_j] by simp
  then have "\<not> msg_ack m" using flight_add [OF t, of i j] b by (auto simp: concerns_def split: if_splits)
  then have c: "concerns a d m \<longleftrightarrow> a = j \<and> d = i" for a d using b by (auto simp: concerns_def)
  have "i < 2 ^ 16" using assms(3) meshD(3) [OF mesh] by simp
  then have "concerns a d (answer_of i g m) \<longleftrightarrow> a = j \<and> d = i" for a d
    using b by (auto simp: concerns_def answer_of_def unsigned_of_nat take_bit_nat_eq_self)
  then have "flight ?net = flight net"
    using flight_add [OF accepted_msgs [OF mesh assms(3,7)]] flight_add [OF t] c by (simp add: fun_eq_iff)
  moreover have "sending ?net = sending net"
    using assms(3,5) meshD(7) [OF mesh] mesh_node(1) [OF mesh assms(3)]
    by (auto simp: fun_eq_iff sending_defs push_def net_simps op_NONE take_msg_CORR)
  ultimately show ?thesis using assms(2) by (simp add: rendezvous_def)
qed

lemma net_step_rendezvous:
  assumes "net_step (X * Y) net net'" "net_ok X Y net" "rendezvous (X * Y) net"
  shows "rendezvous (X * Y) net'"
proof -
  note mesh = net_okD(1) [OF assms(2)]
  show ?thesis using assms(1)
  proof cases
    case move
    then show ?thesis using assms(3) net_move_sending [OF move mesh] flight_same [OF net_move_msgs [OF move assms(2)]]
      by (simp add: rendezvous_def)
  next
    case (send i m k)
    show ?thesis unfolding send(1) by (rule rendezvous_send [OF mesh assms(3) send(2,4,5,6,3,8)])
  next
    case (acknowledged i m)
    show ?thesis unfolding acknowledged(1) by (rule rendezvous_acknowledged [OF assms(2,3) acknowledged(2-7)])
  next
    case (accept i j m k g)
    show ?thesis unfolding accept(1) by (rule rendezvous_accept [OF assms(2,3) accept(2,4,3,5,7)])
  next
    case (private_step i f)
    have "sending net' = sending net"
      unfolding private_step(1) using private_step(2-4) meshD(7) [OF mesh]
      by (auto simp: fun_eq_iff sending_defs private_change_def net_simps op_NONE)
    then show ?thesis using assms(3) flight_same [OF private_msgs [OF mesh private_step(2,4)]] private_step(1)
      by (simp add: rendezvous_def)
  qed
qed

lemma net_steps_rendezvous:
  assumes "net_steps (X * Y) net net'" "net_ok X Y net" "rendezvous (X * Y) net"
  shows "rendezvous (X * Y) net'"
proof -
  have "net_ok X Y net' \<and> rendezvous (X * Y) net'"
    using assms by (induction rule: rtranclp_induct) (auto intro: net_step_ok net_step_rendezvous)
  then show ?thesis ..
qed

section \<open>What is received is what was sent\<close>

text \<open>A message on its way carries what its sender still has in its data register.\<close>

definition payload :: "Net \<Rightarrow> bool" where
  "payload net \<longleftrightarrow> (\<forall>m\<in>#net_msgs net. \<not> msg_ack m \<longrightarrow>
     msg_data m = get_sel COP2_MSG_DATA (net_nd net ! unat (msg_from m)))"

lemma payloadD: "payload net \<Longrightarrow> strip m \<in># net_msgs net \<Longrightarrow> \<not> msg_ack m \<Longrightarrow>
    msg_data m = get_sel COP2_MSG_DATA (net_nd net ! unat (msg_from m))"
  by (auto simp: payload_def strip_def)

lemma payload_sub:
  assumes "payload net" "\<And>m. m \<in># net_msgs net' \<Longrightarrow> \<not> msg_ack m \<Longrightarrow> m \<in># net_msgs net \<and>
    get_sel COP2_MSG_DATA (net_nd net' ! unat (msg_from m)) = get_sel COP2_MSG_DATA (net_nd net ! unat (msg_from m))"
  shows "payload net'"
  using assms by (auto simp: payload_def)

lemma net_move_DATA:
  assumes "net_move (X * Y) net net'" "mesh X Y net"
  shows "get_sel COP2_MSG_DATA (net_nd net' ! j) = get_sel COP2_MSG_DATA (net_nd net ! j)"
proof -
  note wf = mesh_node(1) [OF assms(2)] and len = meshD(7) [OF assms(2)]
  show ?thesis using assms(1)
  proof cases
    case (deliver i n m q)
    then show ?thesis using len wf [OF deliver(2)] by (auto simp: pop_def tally_def net_simps)
  qed (use len in \<open>auto simp: push_def pop_def net_simps\<close>)
qed

text \<open>No data message of a node is on its way when the node is not sending.\<close>

lemma quiet_sender:
  assumes "net_ok X Y net" "rendezvous (X * Y) net" "m \<in># net_msgs net" "\<not> msg_ack m"
    "unat (msg_from m) = i" "unat (msg_to m) < X * Y" "i < X * Y" "i \<noteq> unat (msg_to m)"
  shows "node_op net i = op_val COP2_MSG_OP_OUT"
  using in_flight_sending [OF assms(2,3), of i "unat (msg_to m)"] assms(4-8) by (simp add: concerns_def sending_def)

lemma in_sum_list: "x \<in># sum_list Ms \<longleftrightarrow> (\<exists>M\<in>set Ms. x \<in># M)" for Ms :: "'a multiset list"
  by (induction Ms) auto

lemma net_msgs_ok:
  assumes "net_ok X Y net" "m \<in># net_msgs net"
  shows "msg_ok (X * Y) m"
proof -
  note mesh = net_okD(1) [OF assms(1)]
  obtain m0 where m0: "m = strip m0"
    "(\<exists>nd\<in>set (net_nd net). m0 \<in># link_msgs (nd_link nd)) \<or> (\<exists>b\<in>set (net_mbox net). m0 \<in># box_msgs b)"
    using assms(2) by (auto simp: net_msgs_def in_sum_list)
  from m0(2) have "msg_ok (X * Y) m0"
  proof (elim disjE bexE)
    fix nd assume nd: "nd \<in> set (net_nd net)" "m0 \<in># link_msgs (nd_link nd)"
    then obtain i where i: "i < X * Y" "nd = net_nd net ! i"
      using meshD(7) [OF mesh] by (auto simp: in_set_conv_nth)
    obtain d n where "m0 \<in> set (nd_link nd d n)"
      using nd(2) by (auto simp: link_msgs_def in_sum_list)
    then show ?thesis using links_okD(2) [OF net_okD(2) [OF assms(1)] i(1)] i(2) by (auto simp: queue_def)
  next
    fix b assume b: "b \<in> set (net_mbox net)" "m0 \<in># box_msgs b"
    then obtain j where j: "j < X * Y * (X * Y)" "b = net_mbox net ! j"
      using meshD(8) [OF mesh] by (auto simp: in_set_conv_nth)
    have less: "j div (X * Y) < X * Y" "j mod (X * Y) < X * Y"
      using j(1) meshD(4) [OF mesh] by (simp_all add: div_less_iff_less_mult)
    have "j = j div (X * Y) * (X * Y) + j mod (X * Y)" by (rule div_mult_mod_eq [symmetric])
    then have "box net (j div (X * Y)) (j mod (X * Y)) = Some m0"
      using b(2) j(2) meshD(9) [OF mesh] by (simp add: box_def mbox_index_def box_msgs_def split: option.splits)
    then show ?thesis using boxes_okD(1) [OF net_okD(3) [OF assms(1)] less] by blast
  qed
  then show ?thesis by (simp add: m0(1) msg_ok_def strip_def)
qed

lemma net_step_payload:
  assumes "net_step (X * Y) net net'" "net_ok X Y net" "rendezvous (X * Y) net" "payload net"
  shows "payload net'"
proof -
  note mesh = net_okD(1) [OF assms(2)]
  note wf = mesh_node(1) [OF mesh] and len = meshD(7) [OF mesh]
  have quiet: "unat (msg_from m) \<noteq> i"
    if "m \<in># net_msgs net" "\<not> msg_ack m" "node_op net i \<noteq> op_val COP2_MSG_OP_OUT" for m i
    using that quiet_sender [OF assms(2,3) that(1,2) refl] net_msgs_ok [OF assms(2) that(1)]
    by (auto simp: msg_ok_def word_unat_eq_iff)
  show ?thesis using assms(1)
  proof cases
    case move
    then show ?thesis using assms(4) net_move_msgs [OF move assms(2)] net_move_DATA [OF move mesh]
      by (simp add: payload_def)
  next
    case (send i m k)
    have d: "get_sel COP2_MSG_DATA (net_nd net' ! j) = get_sel COP2_MSG_DATA (net_nd net ! j)" for j
      unfolding send(1) using send(2) len wf [OF send(2)] by (simp add: push_def net_simps)
    have "unat (msg_from m) = i" "msg_data m = get_sel COP2_MSG_DATA (net_nd net ! i)"
      using send(2,6) meshD(3) [OF mesh] by (simp_all add: unsigned_of_nat take_bit_nat_eq_self)
    moreover have "net_msgs net' = add_mset (strip m) (net_msgs net)"
      unfolding send(1) by (rule sent_msgs [OF mesh send(2,8)])
    ultimately show ?thesis using assms(4) unfolding payload_def d by (simp add: strip_def)
  next
    case (acknowledged i m)
    have d: "get_sel COP2_MSG_DATA (net_nd net' ! j) = get_sel COP2_MSG_DATA (net_nd net ! j)" for j
      unfolding acknowledged(1) using acknowledged(2) len wf [OF acknowledged(2)] by (simp add: net_simps)
    have "net_msgs net' = net_msgs (set_mbox i (node_corr net i) None net)"
      unfolding acknowledged(1) by (rule acknowledged_msgs [OF mesh acknowledged(2)])
    then show ?thesis using net_msgs_take [OF mesh acknowledged(2,3,6)] by (intro payload_sub [OF assms(4)]) (simp add: d)
  next
    case (accept i j m k g)
    have msgs: "net_msgs net' = add_mset (strip (answer_of i g m)) (net_msgs (set_mbox i j None net))"
      unfolding accept(1) by (rule accepted_msgs [OF mesh accept(2,7)])
    have "msg_ack (strip (answer_of i g m))" by (simp add: strip_def answer_of_def)
    then have sub: "m' \<in># net_msgs net" if "m' \<in># net_msgs net'" "\<not> msg_ack m'" for m'
      using that net_msgs_take [OF mesh accept(2,4,5)] unfolding msgs by auto
    have d: "get_sel COP2_MSG_DATA (net_nd net' ! l) = get_sel COP2_MSG_DATA (net_nd net ! l)" if "l \<noteq> i" for l
      unfolding accept(1) using that accept(2) len by (simp add: push_def net_simps)
    show ?thesis using sub quiet [OF _ _ accept(3)] d by (intro payload_sub [OF assms(4)]) blast
  next
    case (private_step i f)
    have "net_msgs net' = net_msgs net"
      unfolding private_step(1) by (rule private_msgs [OF mesh private_step(2,4)])
    moreover have "get_sel COP2_MSG_DATA (net_nd net' ! l) = get_sel COP2_MSG_DATA (net_nd net ! l)" for l
      unfolding private_step(1) using private_step(2,4) len by (simp add: private_change_def net_simps)
    ultimately show ?thesis using assms(4) by (simp add: payload_def)
  qed
qed

lemma net_steps_payload:
  assumes "net_steps (X * Y) net net'" "net_ok X Y net" "rendezvous (X * Y) net" "payload net"
  shows "payload net'"
proof -
  have "net_ok X Y net' \<and> rendezvous (X * Y) net' \<and> payload net'"
    using assms by (induction rule: rtranclp_induct) (auto intro: net_step_ok net_step_rendezvous net_step_payload)
  then show ?thesis by blast
qed

section \<open>Properties\<close>

text \<open>Where nobody sends, nothing is on its way.\<close>

lemma no_sender_no_msgs:
  assumes "net_ok X Y net" "rendezvous (X * Y) net" "\<And>i. i < X * Y \<Longrightarrow> \<not> node_sent net i"
  shows "net_msgs net = {#}"
proof (rule ccontr)
  assume "net_msgs net \<noteq> {#}"
  then obtain m where m: "m \<in># net_msgs net" by blast
  then have mo: "msg_ok (X * Y) m" by (rule net_msgs_ok [OF assms(1)])
  then obtain a d where "concerns a d m" "a < X * Y" "d < X * Y" "a \<noteq> d"
    by (cases "msg_ack m") (auto simp: concerns_def msg_ok_def word_unat_eq_iff)
  then have "sending net a d" "a < X * Y" using in_flight_sending [OF assms(2) m] by simp_all
  then show False using assms(3) by (simp add: sending_def)
qed

lemma quiet_rendezvous:
  assumes "net_msgs net = {#}" "\<And>i. i < N \<Longrightarrow> \<not> node_sent net i"
  shows "rendezvous N net"
  using assms by (simp add: rendezvous_def flight_def sending_def)

lemma pair_net_rendezvous: "rendezvous (1 * 2) pair_net"
proof (rule quiet_rendezvous)
  show "net_msgs pair_net = {#}" unfolding pair_net_def by (rule quiet_net_msgs) (auto simp: quiet_asking)
  fix i :: nat assume "i < 1 * 2"
  then have "i = 0 \<or> i = 1" by auto
  then show "\<not> node_sent pair_net i" by (auto simp: node_sent_def pair_net_node COP2_MSG_ST_SENT_def)
qed

lemma quiet_payload: "net_msgs net = {#} \<Longrightarrow> payload net"
  by (simp add: payload_def)

lemma pair_net_payload: "payload pair_net"
  by (rule quiet_payload) (unfold pair_net_def, rule quiet_net_msgs, auto simp: quiet_asking)

text \<open>C5:
  The rendezvous protocol: between any two nodes there is one message or acknowledgement on its way when
  the first waits for an output to the second, and none otherwise, and a message on its way carries what is
  still in its sender's data register; a cycle of the network keeps it so, whatever it reports.\<close>

theorem net_cycle_rendezvous:
  assumes "net_ok X Y net" "commands_ok (X * Y) net" "rendezvous (X * Y) net" "payload net"
    "Net_execute al net = Some (r, net')"
  shows "rendezvous (X * Y) net' \<and> payload net'"
  using Net_execute_steps [OF assms(1,2), of al] net_steps_rendezvous [OF _ assms(1,3)]
    net_steps_payload [OF _ assms(1,3,4)] assms(5) by auto

theorem net_cycle_rendezvous_witness:
  "\<exists>r net'. Net_execute (\<lambda>_. Some 0) pair_net = Some (r, net') \<and> rendezvous (1 * 2) net' \<and> payload net'"
proof -
  obtain r net' where e: "Net_execute (\<lambda>_. Some 0) pair_net = Some (r, net')"
    using Net_execute_steps [OF pair_net_ok pair_net_commands] by blast
  show ?thesis
    using net_cycle_rendezvous [OF pair_net_ok pair_net_commands pair_net_rendezvous pair_net_payload e] e by blast
qed

text \<open>C9:
  An input that finds its mailbox filled, with room for the acknowledgement, succeeds: the receiver's data
  register gets what is in the data register of the sender, which is still waiting in its output to the receiver,
  the acknowledgement is on its way, and the receiver's operation is over.\<close>

theorem input_receives_data:
  assumes "net_ok X Y net" "rendezvous (X * Y) net" "payload net"
    "i < X * Y" "node_op net i = op_val COP2_MSG_OP_IN" "node_corr net i = k" "k < X * Y" "box net i k = Some m"
    "length (queue net i LINK_OUT (way net i (msg_from m))) < LINK_BUFSZ"
  shows "\<exists>net'. net_input net k i (Some g) = Some (OK, net') \<and>
    get_sel COP2_MSG_DATA (net_nd net' ! i) = get_sel COP2_MSG_DATA (net_nd net ! k) \<and>
    node_op net k = op_val COP2_MSG_OP_OUT \<and> node_corr net k = i \<and>
    served (X * Y) net i k m g net'"
proof -
  note mesh = net_okD(1) [OF assms(1)] and b = boxes_okD [OF net_okD(3) [OF assms(1)] assms(4,7,8)]
  have out: "node_op net i \<noteq> op_val COP2_MSG_OP_OUT" using assms(5) by simp
  have ki: "i \<noteq> k" using b by (auto simp: msg_ok_def word_unat_eq_iff)
  have mem: "strip m \<in># net_msgs net" by (rule box_in_net [OF mesh assms(4,7,8)])
  have some: "flight net a d \<noteq> 0" if "concerns a d m" for a d using flight_pos [OF mem] that by simp
  have "flight net i k = 0" using rendezvousD [OF assms(2,4,7) ki] out by (simp add: sending_def)
  then have data: "\<not> msg_ack m" using some [of i k] b by (auto simp: concerns_def)
  then have "sending net k i"
    using some [of k i] b rendezvousD [OF assms(2,7,4) ki [symmetric]] by (auto simp: concerns_def split: if_splits)
  then have k: "node_op net k = op_val COP2_MSG_OP_OUT" "node_corr net k = i" by (simp_all add: sending_def)
  have d: "msg_data m = get_sel COP2_MSG_DATA (net_nd net ! k)"
    using payloadD [OF assms(3) mem data] b by simp
  have "net_input net k i (Some g) = receive net k i m (Some g)"
    using get_mbox_box [OF mesh assms(4,7)] assms(8) by (simp add: net_input_def)
  also have "\<dots> = Some (OK, set_mbox i k None (upd_node i (take_msg m)
         (push i LINK_OUT (way net i (msg_from m)) (answer_of i g m) net)))"
    using assms(9) by (cases rule: receive_steps [OF assms(1,4,7,8) out, of "Some g"]) auto
  finally have e: "net_input net k i (Some g) = Some (OK, set_mbox i k None (upd_node i (take_msg m)
         (push i LINK_OUT (way net i (msg_from m)) (answer_of i g m) net)))" .
  from served_take [OF assms(1,4,7), of m g] d have
    "get_sel COP2_MSG_DATA (net_nd (set_mbox i k None (upd_node i (take_msg m)
         (push i LINK_OUT (way net i (msg_from m)) (answer_of i g m) net))) ! i) = get_sel COP2_MSG_DATA (net_nd net ! k)"
    by (simp add: served_def)
  with e k served_take [OF assms(1,4,7), of m g] show ?thesis by blast
qed

text \<open>The first of two nodes has sent 7 to the second, and the message has arrived.\<close>

definition letter_net :: Net where
  "letter_net = set_mbox 1 0 (Some letter) (upd_node 0 (set_sel COP2_MSG_ST 6) pair_net)"

lemma letter_net_facts:
  "net_ok 1 2 letter_net" "rendezvous (1 * 2) letter_net" "payload letter_net"
  "node_op letter_net 1 = op_val COP2_MSG_OP_IN" "node_corr letter_net 1 = 0" "box letter_net 1 0 = Some letter"
  "length (queue letter_net 1 LINK_OUT n) < LINK_BUFSZ" "net_msgs letter_net = {#strip letter#}"
proof -
  let ?net = "upd_node 0 (set_sel COP2_MSG_ST 6) pair_net"
  have len: "0 < length (net_nd pair_net)" by (simp add: pair_net_node)
  have "net_ok 1 2 ?net" by (rule net_ok_local [OF pair_net_ok]) (simp_all add: net_simps wf_set_sel)
  note ok = this and mesh = net_okD(1) [OF this]
  show "net_ok 1 2 letter_net" unfolding letter_net_def
    by (rule net_ok_set_mbox [OF ok]) (auto simp: msg_ok_def letter_def)
  have wf: "wf_cpu (nd_cpu (asking COP2_MSG_OP_OUT 1 7 0))" using quiet_asking by (simp add: quiet_node_def)
  have nd: "net_nd letter_net ! 0 = set_sel COP2_MSG_ST 6 (asking COP2_MSG_OP_OUT 1 7 0)"
    "net_nd letter_net ! 1 = asking COP2_MSG_OP_IN 0 0 0"
    using len by (simp_all add: letter_net_def net_simps pair_net_node)
  have empty: "box ?net 1 0 = None" by (simp add: net_simps) (simp add: box_def mbox_index_def pair_net_def quiet_net_def)
  have "net_msgs pair_net = {#}" unfolding pair_net_def by (rule quiet_net_msgs) (auto simp: quiet_asking)
  then have "net_msgs ?net = {#}" using len by (simp add: net_simps)
  then show msgs: "net_msgs letter_net = {#strip letter#}"
    unfolding letter_net_def using net_msgs_fill [OF mesh _ _ empty] by simp
  show op: "node_op letter_net 1 = op_val COP2_MSG_OP_IN" "node_corr letter_net 1 = 0"
    by (simp_all add: node_op_def node_corr_def nd [unfolded One_nat_def] COP2_MSG_ST_OP_def)
  have "sending letter_net 0 1" "\<not> sending letter_net 1 k" for k
    using op wf by (simp_all add: sending_def node_op_def node_sent_def node_corr_def nd net_simps
        COP2_MSG_ST_OP_def COP2_MSG_ST_SENT_def)
  moreover have "i < 1 * 2 \<longleftrightarrow> i = 0 \<or> i = 1" for i :: nat by auto
  ultimately show "rendezvous (1 * 2) letter_net"
    unfolding rendezvous_def flight_def msgs
    by (simp add: concerns_strip) (simp add: concerns_def letter_def)
  show "payload letter_net" unfolding payload_def msgs using wf by (simp add: strip_def letter_def nd net_simps)
  show "box letter_net 1 0 = Some letter"
    unfolding letter_net_def by (simp add: box_set_mbox [OF mesh])
  show "length (queue letter_net 1 LINK_OUT n) < LINK_BUFSZ"
    by (simp add: queue_def nd [unfolded One_nat_def] asking_def LINK_BUFSZ_def)
qed

theorem input_receives_data_witness:
  "\<exists>net'. net_input letter_net 0 1 (Some 5) = Some (OK, net') \<and>
    get_sel COP2_MSG_DATA (net_nd net' ! 1) = get_sel COP2_MSG_DATA (net_nd letter_net ! 0)"
  using input_receives_data [OF letter_net_facts(1-3) _ letter_net_facts(4,5) _ letter_net_facts(6,7), of 5]
  by auto

lemma net_steps_same_command:
  assumes "net_steps (X * Y) net net'" "net_ok X Y net" "i < X * Y"
  shows "same_command (net_nd net ! i) (net_nd net' ! i)"
proof -
  have "net_ok X Y net' \<and> same_command (net_nd net ! i) (net_nd net' ! i)"
    using assms(1,2)
    by (induction rule: rtranclp_induct)
      (auto intro: net_step_ok same_command_trans [OF _ net_step_same_command [OF _ net_okD(1) assms(3)]])
  then show ?thesis ..
qed

lemma same_commandD:
  assumes "same_command (net_nd net ! i) (net_nd net' ! i)" "node_op net' i \<noteq> op_val COP2_MSG_OP_NONE"
  shows "node_op net i = node_op net' i" "node_corr net i = node_corr net' i"
    "get_sel COP2_MSG_NCL (net_nd net ! i) = get_sel COP2_MSG_NCL (net_nd net' ! i)"
  using assms by (auto simp: same_command_def node_op_def node_corr_def)

text \<open>C37:
  The network reports a deadlock only when two nodes output to each other, or a node waits for an
  alternative without clauses.\<close>

theorem deadlock_reported_only_if:
  assumes "net_ok X Y net" "commands_ok (X * Y) net" "rendezvous (X * Y) net" "Net_execute al net = Some (-1, net')"
  shows "(\<exists>i<X * Y. \<exists>k<X * Y. i \<noteq> k \<and>
      node_op net i = op_val COP2_MSG_OP_OUT \<and> node_corr net i = k \<and>
      node_op net k = op_val COP2_MSG_OP_OUT \<and> node_corr net k = i) \<or>
    (\<exists>i<X * Y. node_op net i = op_val COP2_MSG_OP_ALT \<and> get_sel COP2_MSG_NCL (net_nd net ! i) = 0)"
proof -
  obtain net1 i where 1: "i < X * Y" "net_steps (X * Y) net net1" "stuck net1 i"
    using Net_execute_steps [OF assms(1,2), of al] assms(4) by auto
  note ok = net_steps_ok(1) [OF 1(2) assms(1)] and com = net_steps_ok(2) [OF 1(2) assms(1,2)]
  note same = same_commandD [OF net_steps_same_command [OF 1(2) assms(1)]]
  from 1(3) consider
      (alt) "node_op net1 i = op_val COP2_MSG_OP_ALT" "get_sel COP2_MSG_NCL (net_nd net1 ! i) = 0"
    | (out) m where "node_op net1 i = op_val COP2_MSG_OP_OUT" "box net1 i (node_corr net1 i) = Some m" "\<not> msg_ack m"
    unfolding stuck_def by blast
  then show ?thesis
  proof cases
    case alt
    then show ?thesis using same [OF 1(1)] 1(1) by auto
  next
    case out
    let ?k = "node_corr net1 i"
    have k: "?k < X * Y" "?k \<noteq> i" using commands_okD(1,2) [OF com 1(1)] out(1) by simp_all
    have "concerns ?k i m"
      using boxes_okD [OF net_okD(3) [OF ok] 1(1) k(1) out(2)] out(3) by (simp add: concerns_def)
    moreover have "strip m \<in># net_msgs net1" by (rule box_in_net [OF net_okD(1) [OF ok] 1(1) k(1) out(2)])
    ultimately have "sending net1 ?k i"
      using in_flight_sending [OF net_steps_rendezvous [OF 1(2) assms(1,3)] _ _ k(1) 1(1) k(2)] by simp
    then have "node_op net1 ?k = op_val COP2_MSG_OP_OUT" "node_corr net1 ?k = i" by (simp_all add: sending_def)
    then have "node_op net ?k = op_val COP2_MSG_OP_OUT \<and> node_corr net ?k = i \<and>
        node_op net i = op_val COP2_MSG_OP_OUT \<and> node_corr net i = ?k"
      using same [OF 1(1)] same [OF k(1)] out(1) by simp
    then show ?thesis using 1(1) k by metis
  qed
qed

text \<open>A single node that waits for an alternative without clauses.\<close>

definition lone_net :: Net where
  "lone_net = quiet_net 1 1 [asking COP2_MSG_OP_ALT 0 0 0]"

lemma lone_net_ok:
  "net_ok 1 1 lone_net" "commands_ok (1 * 1) lone_net" "rendezvous (1 * 1) lone_net"
proof -
  have node: "net_nd lone_net = [asking COP2_MSG_OP_ALT 0 0 0]" by (simp add: lone_net_def quiet_net_def)
  show "net_ok 1 1 lone_net" unfolding lone_net_def by (rule quiet_net_ok) (auto simp: quiet_asking)
  show "commands_ok (1 * 1) lone_net"
    by (auto simp: commands_ok_def node_op_def node_corr_def node COP2_MSG_ST_OP_def)
  show "rendezvous (1 * 1) lone_net"
  proof (rule quiet_rendezvous)
    show "net_msgs lone_net = {#}" unfolding lone_net_def by (rule quiet_net_msgs) (auto simp: quiet_asking)
    show "\<not> node_sent lone_net i" if "i < 1 * 1" for i
      using that by (simp add: node_sent_def node COP2_MSG_ST_SENT_def)
  qed
qed

lemma lone_net_deadlock: "Net_execute al lone_net = Some (- 1, lone_net)"
proof -
  have node: "net_nd lone_net = [asking COP2_MSG_OP_ALT 0 0 0]" "unat (net_size lone_net) = 1"
    by (simp_all add: lone_net_def quiet_net_def)
  have "fwd_link 0 n lone_net = Some lone_net" for n by (simp add: fwd_link_def node asking_def)
  then have "fwd 0 lone_net = Some lone_net" by (simp add: fwd_def link_names_def)
  moreover have "operate lone_net 0 (al 0) = Some (E EDEADLK, lone_net)"
    by (simp add: operate_def node COP2_MSG_ST_OP_def alt_def)
  ultimately show ?thesis by (simp add: Net_execute_def node)
qed

theorem deadlock_reported_only_if_witness:
  "node_op lone_net 0 = op_val COP2_MSG_OP_ALT \<and> get_sel COP2_MSG_NCL (net_nd lone_net ! 0) = 0"
  using deadlock_reported_only_if [OF lone_net_ok lone_net_deadlock] by auto

end
