(* ===== verification/NetRest.thy ===== *)
theory NetRest
  imports NetCycle
begin

text \<open>
  Messages do not travel for ever: every move brings the network nearer to rest by one. And they may
  come to rest before they are delivered: the routing can fill four links in a circle.
\<close>

section \<open>What is left to do\<close>

text \<open>A message in an output link has to cross the distance that is left, a link and a node for each
  hop; in an input link it has one more move to make.\<close>

definition weight :: "nat \<Rightarrow> nat \<Rightarrow> LinkDir \<Rightarrow> Msg \<Rightarrow> nat" where
  "weight Y i d m = 2 * mesh_dist Y i (unat (msg_to m)) + (if d = LINK_IN then 1 else 0)"

definition places :: "nat \<Rightarrow> (nat \<times> LinkDir \<times> LinkName) set" where
  "places N = {..<N} \<times> {LINK_IN, LINK_OUT} \<times> set link_names"

definition load :: "nat \<Rightarrow> Net \<Rightarrow> nat \<times> LinkDir \<times> LinkName \<Rightarrow> nat" where
  "load Y net = (\<lambda>(i, d, n). \<Sum>m\<leftarrow>queue net i d n. weight Y i d m)"

definition todo :: "nat \<Rightarrow> nat \<Rightarrow> Net \<Rightarrow> nat" where
  "todo X Y net = (\<Sum>p\<in>places (X * Y). load Y net p)"

lemma finite_places: "finite (places N)"
  by (simp add: places_def)

lemma in_places: "(i, d, n) \<in> places N \<longleftrightarrow> i < N \<and> n \<noteq> LINK_MBOX"
  by (cases d; cases n) (simp_all add: places_def link_names_def)

lemma todo_upd:
  assumes "p \<in> places (X * Y)" "\<And>p'. p' \<noteq> p \<Longrightarrow> load Y net' p' = load Y net p'"
  shows "todo X Y net' + load Y net p = todo X Y net + load Y net' p"
proof -
  have "todo X Y b = load Y b p + (\<Sum>p\<in>places (X * Y) - {p}. load Y b p)" for b
    unfolding todo_def by (rule sum.remove [OF finite_places assms(1)])
  moreover have "(\<Sum>p\<in>places (X * Y) - {p}. load Y net' p) = (\<Sum>p\<in>places (X * Y) - {p}. load Y net p)"
    using assms(2) by (intro sum.cong) auto
  ultimately show ?thesis by simp
qed

lemma todo_push:
  assumes "i < X * Y" "n \<noteq> LINK_MBOX" "length (net_nd net) = X * Y"
  shows "todo X Y (push i d n m net) = todo X Y net + weight Y i d m"
proof -
  have p: "(i, d, n) \<in> places (X * Y)" using assms by (simp add: in_places)
  have "load Y (push i d n m net) p' = load Y net p'" if "p' \<noteq> (i, d, n)" for p'
    using that assms by (cases p') (auto simp: load_def net_simps)
  from todo_upd [OF p this] assms show ?thesis by (simp add: load_def net_simps)
qed

lemma todo_pop:
  assumes "i < X * Y" "n \<noteq> LINK_MBOX" "length (net_nd net) = X * Y" "queue net i d n = m # q"
  shows "todo X Y net = todo X Y (pop i d n net) + weight Y i d m"
proof -
  have p: "(i, d, n) \<in> places (X * Y)" using assms by (simp add: in_places)
  have "load Y (pop i d n net) p' = load Y net p'" if "p' \<noteq> (i, d, n)" for p'
    using that assms by (cases p') (auto simp: load_def net_simps)
  from todo_upd [OF p this] assms show ?thesis by (simp add: load_def net_simps)
qed

lemma todo_queue: "queue net' = queue net \<Longrightarrow> todo X Y net' = todo X Y net"
  by (simp add: todo_def load_def)

text \<open>Every move does one of the things that are left.\<close>

lemma net_move_todo:
  assumes "net_move (X * Y) net net'" "net_ok X Y net"
  shows "todo X Y net = todo X Y net' + 1"
  using assms(1)
proof cases
  note mesh = net_okD(1) [OF assms(2)]
  note len = meshD(7) [OF mesh]
  {
    case (forward i n m q k)
    then show ?thesis using todo_pop [OF forward(2,3) len forward(4)] len
      by (simp add: todo_push net_simps weight_def)
  next
    case (deliver i n m q)
    have "todo X Y net' = todo X Y (pop i LINK_IN n net)"
      unfolding deliver(1) using deliver(2) len by (intro todo_queue) (simp add: queue_local net_simps)
    moreover have "unat (msg_to m) = i" using way_MBOX [OF mesh deliver(2)] deliver(5) by simp
    ultimately show ?thesis using todo_pop [OF deliver(2,3) len deliver(4)] by (simp add: weight_def mesh_dist_def ndiff_def)
  next
    case (transmit i n m q c k)
    note ok = head_ok [OF assms(2) transmit(2,4)] and k = hop_next_link [OF transmit(5,3)]
    have t: "unat (msg_to m) < X * Y" using ok by (simp add: msg_ok_def)
    have n: "n = go Y i (unat (msg_to m))"
      using links_okD(4) [OF net_okD(2) [OF assms(2)] transmit(2), of m n] transmit(4) way_go [OF mesh transmit(2)] by simp
    then have "i \<noteq> unat (msg_to m)" using ok(2) go_MBOX by metis
    note near = go_nearer [OF meshD(2) [OF mesh] transmit(2) t this, folded n]
      and exit = go_has_exit [OF meshD(2) [OF mesh] transmit(2) t this, folded n]
    have "c = of_nat (neighbour Y i n)"
      using hop_next_exit [OF meshD(2) [OF mesh] transmit(2) meshD(3) [OF mesh] exit] transmit(5) meshD(5,6) [OF mesh] by simp
    then have c: "unat c = neighbour Y i n"
      using near unat_of_nat_u32 [OF mesh, of "neighbour Y i n"] by simp
    let ?net1 = "upd_node i (count_link LINK_OUT n) (pop i LINK_OUT n net)"
    let ?net2 = "push (unat c) LINK_IN k (m\<lparr>msg_hops := msg_hops m + 1\<rparr>) ?net1"
    have "todo X Y net' = todo X Y ?net2"
      unfolding transmit(1) using transmit(6) len by (intro todo_queue) (simp add: queue_local net_simps)
    also have "\<dots> = todo X Y ?net1 + weight Y (unat c) LINK_IN (m\<lparr>msg_hops := msg_hops m + 1\<rparr>)"
      using transmit(6) k len by (intro todo_push) (simp_all add: net_simps)
    also have "todo X Y ?net1 = todo X Y (pop i LINK_OUT n net)"
      using transmit(2) len by (intro todo_queue) (simp add: queue_local net_simps)
    finally show ?thesis using todo_pop [OF transmit(2,3) len transmit(4)] near c by (simp add: weight_def)
  }
qed

section \<open>A network whose nodes ask for nothing\<close>

text \<open>One body of a loop either changes nothing, its link being blocked, or moves messages.\<close>

definition moves_or :: "nat \<Rightarrow> nat \<Rightarrow> ('i \<Rightarrow> Net \<Rightarrow> Net option) \<Rightarrow> (Net \<Rightarrow> 'i \<Rightarrow> bool) \<Rightarrow> 'i \<Rightarrow> bool" where
  "moves_or X Y f B i \<longleftrightarrow> (\<forall>net. net_ok X Y net \<longrightarrow>
     (\<exists>net'. f i net = Some net' \<and> (net' = net \<and> B net i \<or> (net_move (X * Y))\<^sup>+\<^sup>+ net net')))"

lemma net_moves_ok:
  assumes "(net_move (X * Y))\<^sup>+\<^sup>+ net net'" "net_ok X Y net"
  shows "net_ok X Y net'" "todo X Y net' < todo X Y net" "net_msgs net' = net_msgs net"
    "i < X * Y \<Longrightarrow> same_command (net_nd net ! i) (net_nd net' ! i)"
proof -
  have "net_ok X Y net' \<and> todo X Y net' < todo X Y net \<and> net_msgs net' = net_msgs net \<and>
    (i < X * Y \<longrightarrow> same_command (net_nd net ! i) (net_nd net' ! i))"
    using assms
  proof (induction rule: tranclp_induct)
    case (base net1)
    then show ?case using net_move_ok net_move_todo net_move_msgs net_move_same_command net_okD(1) by fastforce
  next
    case (step net1 net2)
    then have ok: "net_ok X Y net1" by blast
    from step show ?case
      using net_move_todo [OF step(2) ok] net_move_ok [OF step(2) ok] net_move_msgs [OF step(2) ok] net_move_same_command [OF step(2) net_okD(1) [OF ok]]
      by (auto intro: same_command_trans)
  qed
  then show "net_ok X Y net'" "todo X Y net' < todo X Y net" "net_msgs net' = net_msgs net"
    "i < X * Y \<Longrightarrow> same_command (net_nd net ! i) (net_nd net' ! i)" by blast+
qed

lemma moves_or_mfold:
  assumes "\<And>i. i \<in> set is \<Longrightarrow> moves_or X Y f B i"
  shows "moves_or X Y (\<lambda>_. mfold f is) (\<lambda>net _. \<forall>i\<in>set is. B net i) j"
  using assms
proof (induction "is")
  case (Cons i "is")
  show ?case unfolding moves_or_def
  proof (intro allI impI)
    fix net assume ok: "net_ok X Y net"
    then obtain net1 where 1: "f i net = Some net1" "net1 = net \<and> B net i \<or> (net_move (X * Y))\<^sup>+\<^sup>+ net net1"
      using Cons.prems [of i] by (auto simp: moves_or_def)
    then have "net_ok X Y net1" using ok net_moves_ok(1) by blast
    then obtain net2 where "mfold f is net1 = Some net2"
      "net2 = net1 \<and> (\<forall>i\<in>set is. B net1 i) \<or> (net_move (X * Y))\<^sup>+\<^sup>+ net1 net2"
      using Cons by (auto simp: moves_or_def)
    with 1 show "\<exists>net'. mfold f (i # is) net = Some net' \<and>
        (net' = net \<and> (\<forall>i\<in>set (i # is). B net i) \<or> (net_move (X * Y))\<^sup>+\<^sup>+ net net')"
      by (auto intro: tranclp_trans)
  qed
qed (simp add: moves_or_def)

lemma fwd_or: "i < X * Y \<Longrightarrow> moves_or X Y fwd (\<lambda>net i. \<forall>n\<in>set link_names. in_blocked net i n) i"
  using moves_or_mfold [of link_names X Y "fwd_link i" "\<lambda>net n. in_blocked net i n" i] fwd_link_moves
  unfolding moves_or_def fwd_def by (metis tranclp.r_into_trancl)

lemma hop_or: "i < X * Y \<Longrightarrow> moves_or X Y (\<lambda>i. hop (of_nat i)) (\<lambda>net i. \<forall>n\<in>set link_names. out_blocked net i n) i"
  using moves_or_mfold [of link_names X Y "hop_link (of_nat i)" "\<lambda>net n. out_blocked net i n" i] hop_link_moves
  unfolding moves_or_def hop_def by (metis tranclp.r_into_trancl)

definition idle :: "nat \<Rightarrow> Net \<Rightarrow> bool" where
  "idle N net \<longleftrightarrow> (\<forall>i<N. node_op net i = op_val COP2_MSG_OP_NONE)"

definition blocked :: "nat \<Rightarrow> Net \<Rightarrow> bool" where
  "blocked N net \<longleftrightarrow> (\<forall>i<N. \<forall>n\<in>set link_names. in_blocked net i n \<and> out_blocked net i n)"

lemma operate_all_idle:
  assumes "idle N net" "set is \<subseteq> {..<N}"
  shows "operate_all is al net = Some (0, net)"
  using assms(2)
proof (induction "is")
  case (Cons i "is")
  then have "operate net i (al i) = Some (OK, net)"
    using assms(1) by (simp add: operate_def Let_def idle_def node_op_def)
  with Cons show ?case by simp
qed simp

lemma idle_moves:
  assumes "(net_move (X * Y))\<^sup>+\<^sup>+ net net'" "net_ok X Y net" "idle (X * Y) net"
  shows "idle (X * Y) net'"
  using net_moves_ok(4) [OF assms(1,2)] assms(3) by (auto simp: idle_def node_op_def same_command_def)

lemma idle_cycle:
  assumes "net_ok X Y net" "idle (X * Y) net"
  shows "\<exists>net'. Net_execute al net = Some (0, net') \<and>
    (net' = net \<and> blocked (X * Y) net \<or> (net_move (X * Y))\<^sup>+\<^sup>+ net net')"
proof -
  let ?N = "X * Y"
  have size: "unat (net_size net) = ?N" by (rule meshD(9) [OF net_okD(1) [OF assms(1)]])
  have "moves_or X Y (\<lambda>_. mfold fwd [0..<?N]) (\<lambda>net _. \<forall>i\<in>set [0..<?N]. \<forall>n\<in>set link_names. in_blocked net i n) ()"
    by (rule moves_or_mfold) (simp add: fwd_or)
  then obtain net1 where 1: "mfold fwd [0..<?N] net = Some net1"
    "net1 = net \<and> (\<forall>i\<in>set [0..<?N]. \<forall>n\<in>set link_names. in_blocked net i n) \<or> (net_move ?N)\<^sup>+\<^sup>+ net net1"
    using assms(1) unfolding moves_or_def by blast
  then have ok1: "net_ok X Y net1" "idle ?N net1"
    using assms net_moves_ok(1) idle_moves by blast+
  have op: "operate_all [0..<?N] al net1 = Some (0, net1)" by (rule operate_all_idle [OF ok1(2)]) auto
  have "moves_or X Y (\<lambda>_. mfold (\<lambda>i. hop (of_nat i)) [0..<?N])
      (\<lambda>net _. \<forall>i\<in>set [0..<?N]. \<forall>n\<in>set link_names. out_blocked net i n) ()"
    by (rule moves_or_mfold) (simp add: hop_or)
  then obtain net2 where 2: "mfold (\<lambda>i. hop (of_nat i)) [0..<?N] net1 = Some net2"
    "net2 = net1 \<and> (\<forall>i\<in>set [0..<?N]. \<forall>n\<in>set link_names. out_blocked net1 i n) \<or> (net_move ?N)\<^sup>+\<^sup>+ net1 net2"
    using ok1(1) unfolding moves_or_def by blast
  have "Net_execute al net = Some (0, net2)" using 1(1) 2(1) op by (simp add: Net_execute_def size)
  moreover have "net2 = net \<and> blocked ?N net \<or> (net_move ?N)\<^sup>+\<^sup>+ net net2"
    using 1(2) 2(2) by (auto simp: blocked_def intro: tranclp_trans)
  ultimately show ?thesis by blast
qed

text \<open>Some cycles of the network.\<close>

fun run_cycles :: "(nat \<Rightarrow> u32 option) \<Rightarrow> nat \<Rightarrow> Net \<Rightarrow> Net option" where
  "run_cycles al 0 net = Some net"
| "run_cycles al (Suc n) net = (case Net_execute al net of
     None \<Rightarrow> None | Some (r, net') \<Rightarrow> if r = 0 then run_cycles al n net' else None)"

text \<open>C11:
  Messages do not travel for ever: when the nodes of a well-formed network ask for nothing, the network
  comes to rest within as many cycles as there are hops and deliveries left to make, and from then on
  its cycles change nothing. No message is lost, and a message that is still in a link waits
  for a full link or for a mailbox that is not empty.\<close>

theorem idle_network_rests:
  assumes "net_ok X Y net" "idle (X * Y) net"
  shows "\<exists>n\<le>todo X Y net. \<exists>rest. run_cycles al n net = Some rest \<and> Net_execute al rest = Some (0, rest) \<and>
    net_ok X Y rest \<and> net_msgs rest = net_msgs net \<and> blocked (X * Y) rest"
  using assms
proof (induction "todo X Y net" arbitrary: net rule: less_induct)
  case less
  obtain net' where e: "Net_execute al net = Some (0, net')"
    "net' = net \<and> blocked (X * Y) net \<or> (net_move (X * Y))\<^sup>+\<^sup>+ net net'"
    using idle_cycle [OF less.prems] by blast
  from e(2) show ?case
  proof
    assume "net' = net \<and> blocked (X * Y) net"
    then show ?thesis using e(1) less.prems(1) by (intro exI [of _ 0]) simp
  next
    assume m: "(net_move (X * Y))\<^sup>+\<^sup>+ net net'"
    note ok = net_moves_ok(1-3) [OF m less.prems(1)]
    from less.hyps [OF ok(2,1) idle_moves [OF m less.prems]] obtain n rest where r: "n \<le> todo X Y net'"
      "run_cycles al n net' = Some rest" "Net_execute al rest = Some (0, rest)" "net_ok X Y rest"
      "net_msgs rest = net_msgs net'" "blocked (X * Y) rest" by blast
    have "Suc n \<le> todo X Y net" "run_cycles al (Suc n) net = Some rest" using r(1,2) ok(2) e(1) by simp_all
    then show ?thesis using r ok(3) by metis
  qed
qed

text \<open>A message from the first to the second of two nodes, at the start of its way.\<close>

definition posted_msg :: Msg where
  "posted_msg = \<lparr>msg_to = 1, msg_from = 0, msg_data = 7, msg_hops = 0, msg_ack = False\<rparr>"

definition posted_net :: Net where
  "posted_net = push 0 LINK_OUT LINK_EAST posted_msg
     (quiet_net 1 2 [asking COP2_MSG_OP_NONE 0 0 0, asking COP2_MSG_OP_NONE 0 0 0])"

lemma posted_net_ok: "net_ok 1 2 posted_net" "idle (1 * 2) posted_net"
proof -
  let ?net = "quiet_net 1 2 [asking COP2_MSG_OP_NONE 0 0 0, asking COP2_MSG_OP_NONE 0 0 0]"
  have q: "net_ok 1 2 ?net" by (rule quiet_net_ok) (auto simp: quiet_asking)
  have node: "net_nd (quiet_net X Y nds) = nds" for X Y nds by (simp add: quiet_net_def)
  have "way ?net 0 (msg_to posted_msg) = go 2 0 (unat (msg_to posted_msg))"
    by (rule way_go [OF net_okD(1) [OF q]]) simp
  also have "\<dots> = LINK_EAST" by (simp add: go_def posted_msg_def)
  finally have "way ?net 0 (msg_to posted_msg) = LINK_EAST" .
  moreover have "queue ?net 0 LINK_OUT LINK_EAST = []" by (simp add: queue_def node asking_def)
  ultimately show "net_ok 1 2 posted_net" unfolding posted_net_def
    by (intro net_ok_push q) (simp_all add: LINK_BUFSZ_def msg_ok_def posted_msg_def)
  have "node_op posted_net i = 0" if "i = 0 \<or> i = 1" for i
    using that by (auto simp: node_op_def posted_net_def push_def net_simps node COP2_MSG_ST_OP_def)
  moreover have "i < 1 * 2 \<longleftrightarrow> i = 0 \<or> i = 1" for i :: nat by auto
  ultimately show "idle (1 * 2) posted_net" by (simp add: idle_def)
qed

theorem idle_network_rests_witness:
  "\<exists>n rest. run_cycles (\<lambda>_. Some 0) n posted_net = Some rest \<and> Net_execute (\<lambda>_. Some 0) rest = Some (0, rest) \<and>
    net_msgs rest = net_msgs posted_net \<and> blocked (1 * 2) rest"
  using idle_network_rests [OF posted_net_ok] by blast

end
