(* ===== verification/DstbMem.thy ===== *)
theory DstbMem
  imports ShrMem Rendezvous
begin

text \<open>
  The distributed-memory system (dstbmem.c): a mesh of processors with private memories, the
  simulation loop in which every processor executes a cycle and then the network does, and
  \<open>DstbMem_run\<close>. Names that the file shares with shrmem.c get the prefix \<open>dstb_\<close>. The counters printed at
  the end (\<open>perfct\<close>) are in theory Report; the releases of memory (\<open>destroy\<close>) and the unmapping of the program are left out.
\<close>

section \<open>Creation\<close>

text \<open>The answers of the allocator to \<open>create\<close>: for the network, the processors, the memory objects, the
  memory itself, the mailboxes and the nodes. The mailboxes are not cleared: their content is whatever
  the block held.\<close>

record dstb_alloc =
  da_net :: bool
  da_cpu :: bool
  da_marr :: bool
  da_mem :: "u8 list option"
  da_mbox :: "Msg option list option"
  da_nd :: bool

definition new_node :: "CPU \<Rightarrow> Mem \<Rightarrow> Node" where
  "new_node cpu mem = \<lparr>nd_cpu = cpu, nd_mem = mem, nd_link = (\<lambda>_ _. []), nd_linkutil = (\<lambda>_ _. 0),
     nd_mbox_start = 0, nd_mbox_new = 0\<rparr>"

text \<open>\<open>CPU_create\<close> takes the number of processors as 32 bits; with more nodes than that the pointers
  \<open>&cpubank[i]\<close> leave the bank.\<close>

definition dstb_create :: "u64 \<Rightarrow> u64 \<Rightarrow> u64 \<Rightarrow> u32 \<Rightarrow> dstb_alloc \<Rightarrow> (errno + Net) option" where
  "dstb_create x y memsz entry al = (let size = x * y in
     if \<not> da_net al then Some (Inl ENOMEM)
     else case CPU_create (ucast size) entry (da_cpu al) of
       Inl e \<Rightarrow> Some (Inl ENOMEM)
     | Inr cpubank \<Rightarrow>
      (case Mem_createarr memsz (unat size) (da_marr al) (da_mem al) of
        Inl e \<Rightarrow> Some (Inl ENOMEM)
      | Inr membank \<Rightarrow>
       (case da_mbox al of
         None \<Rightarrow> Some (Inl ENOMEM)
       | Some mboxes \<Rightarrow>
           if \<not> da_nd al then Some (Inl ENOMEM)
           else if length cpubank < unat size then None
           else Some (Inr \<lparr>net_cycle = 0, net_size = size, net_x = x, net_y = y, net_nrun = size,
             net_nd = map (\<lambda>i. new_node (cpubank ! i) (membank ! i)) [0..<unat size], net_mbox = mboxes\<rparr>))))"

text \<open>\<open>memcpy(dst, src, n)\<close> between two memories.\<close>

definition mem_copy :: "u64 \<Rightarrow> Mem \<Rightarrow> Mem \<Rightarrow> Mem option" where
  "mem_copy n src dst =
     (if unat n \<le> length (mem_b src) \<and> unat n \<le> length (mem_b dst)
      then Some (dst\<lparr>mem_b := take (unat n) (mem_b src) @ drop (unat n) (mem_b dst)\<rparr>) else None)"

definition dstb_copy :: "u64 \<Rightarrow> nat \<Rightarrow> Net \<Rightarrow> Net option" where
  "dstb_copy memsz i net = map_option (\<lambda>m. upd_node i (\<lambda>nd. nd\<lparr>nd_mem := m\<rparr>) net)
     (mem_copy memsz (nd_mem (net_nd net ! 0)) (nd_mem (net_nd net ! i)))"

definition dstb_progld :: "Net \<Rightarrow> u64 \<Rightarrow> u8 list \<Rightarrow> (int \<times> Net) option" where
  "dstb_progld net memsz elf =
     (if net_nd net = [] then None
      else case Mem_progld (nd_mem (net_nd net ! 0)) elf of
        None \<Rightarrow> None
      | Some (r, m) \<Rightarrow>
          let net1 = upd_node 0 (\<lambda>nd. nd\<lparr>nd_mem := m\<rparr>) net in
          if r \<noteq> OK then Some (-1, net1)
          else map_option (Pair 0) (mfold (dstb_copy memsz) [1..<unat (net_size net)] net1))"

section \<open>Simulation\<close>

record dstb =
  ds_net :: Net
  ds_ctl :: memctl
  ds_io :: io

definition dstb_machine :: "dstb \<Rightarrow> nat \<Rightarrow> machine" where
  "dstb_machine s i = \<lparr>m_cpu = nd_cpu (net_nd (ds_net s) ! i), m_mem = nd_mem (net_nd (ds_net s) ! i),
     m_ctl = ds_ctl s, m_io = ds_io s\<rparr>"

definition put_cpu :: "machine \<Rightarrow> Node \<Rightarrow> Node" where
  "put_cpu m nd = nd\<lparr>nd_cpu := m_cpu m, nd_mem := m_mem m\<rparr>"

definition dstb_put :: "nat \<Rightarrow> machine \<Rightarrow> dstb \<Rightarrow> dstb" where
  "dstb_put i m s = s\<lparr>ds_net := upd_node i (put_cpu m) (ds_net s), ds_ctl := m_ctl m, ds_io := m_io m\<rparr>"

definition dstb_step :: "nat \<Rightarrow> dstb \<Rightarrow> (int \<times> dstb) option" where
  "dstb_step i s = (case Datapath_execute (dstb_machine s i) of
     None \<Rightarrow> None | Some (r, m) \<Rightarrow> Some (r, dstb_put i m s))"

definition dstb_running :: "nat \<Rightarrow> dstb \<Rightarrow> bool" where
  "dstb_running i s = cpu_running (nd_cpu (net_nd (ds_net s) ! i))"

text \<open>The body of the \<open>while\<close> loop; \<open>al c i\<close> is what \<open>malloc\<close> answers to node \<open>i\<close> in cycle \<open>c\<close>. The value is
  0 when the loop goes on and -1 when it returns.\<close>

definition set_net :: "Net \<Rightarrow> dstb \<Rightarrow> dstb" where
  "set_net net s = s\<lparr>ds_net := net\<rparr>"

definition dstb_round :: "(u64 \<Rightarrow> nat \<Rightarrow> u32 option) \<Rightarrow> dstb \<Rightarrow> (int \<times> dstb) option" where
  "dstb_round al s = do {
     (s1, nrun) \<leftarrow> run_round dstb_step dstb_running (unat (net_size (ds_net s))) (s, net_nrun (ds_net s));
     (errcode, net) \<leftarrow> Net_execute (al (net_cycle (ds_net s1))) ((ds_net s1)\<lparr>net_nrun := nrun\<rparr>);
     Some (if errcode = 0 then (0, set_net (net\<lparr>net_cycle := net_cycle net + 1\<rparr>) s1) else (-1, set_net net s1))
   }"

definition dstb_sim :: "(u64 \<Rightarrow> nat \<Rightarrow> u32 option) \<Rightarrow> dstb \<Rightarrow> (int \<times> dstb) option option" where
  "dstb_sim al s = loop_opt (\<lambda>(ret, s). ret = 0 \<and> net_nrun (ds_net s) > 0) (\<lambda>(ret, s). dstb_round al s) (0, s)"

definition DstbMem_run ::
  "u64 \<Rightarrow> u64 \<Rightarrow> u64 \<Rightarrow> u64 \<Rightarrow> u8 list \<Rightarrow> dstb_alloc \<Rightarrow> (u64 \<Rightarrow> nat \<Rightarrow> u32 option) \<Rightarrow> io \<Rightarrow>
    (int \<times> dstb option) option option"
where
  "DstbMem_run x y memsz entry elf da al io =
     (case dstb_create x y memsz (ucast entry) da of
        None \<Rightarrow> Some None
      | Some (Inl e) \<Rightarrow> Some (Some (-1, None))
      | Some (Inr net) \<Rightarrow>
       (case dstb_progld net memsz elf of
          None \<Rightarrow> Some None
        | Some (r, net1) \<Rightarrow>
            if r < 0 then Some (Some (-1, None))
            else map_option (map_option (\<lambda>(ret, s). (ret, Some s)))
              (dstb_sim al \<lparr>ds_net = net1, ds_ctl = memctl0, ds_io = io\<rparr>)))"

section \<open>What the network leaves alone\<close>

text \<open>Whatever the nodes ask for, a network cycle does not start or stop a processor and does not touch a memory.\<close>

definition node_kept :: "Node \<Rightarrow> Node \<Rightarrow> bool" where
  "node_kept nd nd' \<longleftrightarrow> cpu_running (nd_cpu nd') = cpu_running (nd_cpu nd) \<and> nd_mem nd' = nd_mem nd \<and>
     (wf_cpu (nd_cpu nd) \<longrightarrow> wf_cpu (nd_cpu nd'))"

definition kept :: "Net \<Rightarrow> Net \<Rightarrow> bool" where
  "kept net net' \<longleftrightarrow> length (net_nd net') = length (net_nd net) \<and> net_nrun net' = net_nrun net \<and>
     net_size net' = net_size net \<and>
     (\<forall>i<length (net_nd net). node_kept (net_nd net ! i) (net_nd net' ! i))"

lemma node_kept_trans: "node_kept a b \<Longrightarrow> node_kept b c \<Longrightarrow> node_kept a c"
  by (simp add: node_kept_def)

lemma node_kept_simps [simp]:
  "node_kept nd nd" "node_kept nd (set_sel s v nd)" "node_kept nd (set_K1 v nd)"
  "node_kept nd (upd_link d n f nd)" "node_kept nd (nd\<lparr>nd_mbox_start := b\<rparr>)"
  by (auto simp: node_kept_def net_simps wf_set_sel wf_set_K1) (simp_all add: set_sel_def set_K1_def net_simps)

lemma kept_refl [simp]: "kept net net"
  by (simp add: kept_def)

lemma kept_trans: "kept a b \<Longrightarrow> kept b c \<Longrightarrow> kept a c"
  by (auto simp: kept_def intro: node_kept_trans)

lemma kept_upd_node:
  assumes "\<And>nd. node_kept nd (f nd)" "kept net0 net"
  shows "kept net0 (upd_node i f net)"
  using assms by (cases "i < length (net_nd net)")
    (auto simp: kept_def net_simps intro: node_kept_trans, auto simp: upd_node_def)

lemma kept_set_mbox: "kept net0 net \<Longrightarrow> kept net0 (set_mbox i k v net)"
  by (simp add: kept_def net_simps)

lemma node_kept_chain:
  "node_kept nd (count_link d n (upd_link e k f nd))"
  "node_kept nd (set_sel s v (set_sel t w (set_sel u x (upd_link d n f nd))))"
  "node_kept nd (set_sel s v (set_K1 w nd))" "node_kept nd (set_sel s v (upd_link d n f nd))"
  "node_kept nd ((set_sel s v nd)\<lparr>nd_mbox_new := b\<rparr>)"
  by (auto simp: node_kept_def net_simps wf_set_sel wf_set_K1) (simp_all add: set_sel_def set_K1_def net_simps)

lemmas kept_rules = kept_upd_node kept_set_mbox node_kept_chain

lemma kept_fwd_link: "fwd_link i n net = Some net' \<Longrightarrow> kept net net'"
  by (auto simp: fwd_link_def Let_def split: list.splits option.splits if_splits intro!: kept_rules)

lemma kept_hop_link: "hop_link i n net = Some net' \<Longrightarrow> kept net net'"
  by (auto simp: hop_link_def Let_def split: prod.splits list.splits option.splits if_splits intro!: kept_rules)

lemma kept_receive: "receive net j i m al = Some (r, net') \<Longrightarrow> kept net net'"
  by (auto simp: receive_def Let_def split: option.splits if_splits intro!: kept_rules)

lemma kept_net_input: "net_input net j i al = Some (r, net') \<Longrightarrow> kept net net'"
  by (auto simp: net_input_def split: option.splits dest: kept_receive)

lemma kept_net_output: "net_output net k i al = Some (r, net') \<Longrightarrow> kept net net'"
  by (auto simp: net_output_def Let_def split: option.splits if_splits intro!: kept_rules)

lemma kept_alt: "alt net base i al = Some (r, net') \<Longrightarrow> kept net net'"
  unfolding alt_def Let_def
  by (auto simp: Option.bind_eq_Some_conv split: if_splits intro!: kept_rules
      dest!: kept_receive intro: kept_trans [rotated])

lemma kept_operate: "operate net i al = Some (r, net') \<Longrightarrow> kept net net'"
  by (auto simp: operate_def Let_def split: if_splits dest: kept_net_input kept_net_output kept_alt)

lemma kept_operate_all: "operate_all is al net = Some (r, net') \<Longrightarrow> kept net net'"
proof (induction "is" arbitrary: net)
  case (Cons i "is")
  then show ?case by (auto split: option.splits if_splits dest!: kept_operate intro: kept_trans)
qed simp

lemma kept_mfold:
  assumes "mfold f is net = Some net'" "\<And>i net net'. f i net = Some net' \<Longrightarrow> kept net net'"
  shows "kept net net'"
  using assms(1) by (rule mfold_invariant) (auto intro: kept_trans assms(2))

lemma kept_Net_execute:
  assumes "Net_execute al net = Some (r, net')"
  shows "kept net net'"
proof -
  have fwd: "fwd i a = Some b \<Longrightarrow> kept a b" for i a b
    unfolding fwd_def by (erule kept_mfold) (rule kept_fwd_link)
  have hop: "hop i a = Some b \<Longrightarrow> kept a b" for i a b
    unfolding hop_def by (erule kept_mfold) (rule kept_hop_link)
  from assms obtain net1 net2 where "mfold fwd [0..<unat (net_size net)] net = Some net1"
    "\<exists>r. operate_all [0..<unat (net_size net)] al net1 = Some (r, net2)"
    "net' = net2 \<or> mfold (\<lambda>i. hop (of_nat i)) [0..<unat (net_size net)] net2 = Some net'"
    by (auto simp: Net_execute_def Option.bind_eq_Some_conv split: if_splits)
  then have "kept net net1" "kept net1 net2" "kept net2 net'"
    using kept_mfold [OF _ fwd] kept_mfold [OF _ hop] kept_operate_all by auto
  then show ?thesis by (blast intro: kept_trans)
qed

section \<open>The loop as a bank of processors\<close>

definition dstb_wf :: "dstb \<Rightarrow> bool" where
  "dstb_wf s \<longleftrightarrow> (\<forall>nd\<in>set (net_nd (ds_net s)). wf_cpu (nd_cpu nd) \<and> whole_words (nd_mem nd)) \<and> ctl_ok (ds_ctl s)"

lemma dstb_wf_machine: "dstb_wf s \<Longrightarrow> i < length (net_nd (ds_net s)) \<Longrightarrow> wf_machine (dstb_machine s i)"
  by (simp add: dstb_wf_def wf_machine_def dstb_machine_def)

lemma dstb_put_parts [simp]:
  "length (net_nd (ds_net (dstb_put i m s))) = length (net_nd (ds_net s))"
  "i < length (net_nd (ds_net s)) \<Longrightarrow> net_nd (ds_net (dstb_put i m s)) ! j =
     (if j = i then put_cpu m (net_nd (ds_net s) ! i) else net_nd (ds_net s) ! j)"
  "ds_ctl (dstb_put i m s) = m_ctl m" "ds_io (dstb_put i m s) = m_io m"
  by (simp_all add: dstb_put_def net_simps)

lemma dstb_step_Some:
  assumes "dstb_step i s = Some (r, s')"
  obtains m where "Datapath_execute (dstb_machine s i) = Some (r, m)" "s' = dstb_put i m s"
  using assms by (auto simp: dstb_step_def split: option.splits)

lemma put_cpu_same: "put_cpu (dstb_machine s i) (net_nd (ds_net s) ! i) = net_nd (ds_net s) ! i"
  by (simp add: put_cpu_def dstb_machine_def)

lemma dstb_put_same: "dstb_put i (dstb_machine s i) s = s"
  by (simp add: dstb_put_def upd_node_def put_cpu_same) (simp add: dstb_machine_def)

lemma dstb_put_wf:
  assumes "dstb_wf s" "wf_machine m"
  shows "dstb_wf (dstb_put i m s)"
  using assms by (auto simp: dstb_wf_def wf_machine_def dstb_put_def upd_node_def put_cpu_def
      dest!: subsetD [OF set_update_subset_insert])

interpretation dstb: processor_bank dstb_step dstb_running "\<lambda>s. length (net_nd (ds_net s))" dstb_wf
proof unfold_locales
  fix s i r s' assume s: "dstb_wf s" "i < length (net_nd (ds_net s))"
  note wf = dstb_wf_machine [OF s]
  { assume "\<not> dstb_running i s"
    then have "Datapath_execute (dstb_machine s i) = Some (-1, dstb_machine s i)"
      by (intro Datapath_stopped) (simp add: dstb_running_def dstb_machine_def)
    then show "\<exists>r. r \<noteq> 0 \<and> dstb_step i s = Some (r, s)"
      by (simp add: dstb_step_def dstb_put_same) }
  assume "dstb_step i s = Some (r, s')"
  then obtain m where m: "Datapath_execute (dstb_machine s i) = Some (r, m)" "s' = dstb_put i m s"
    by (rule dstb_step_Some)
  show "dstb_wf s' \<and> length (net_nd (ds_net s')) = length (net_nd (ds_net s))"
    using dstb_put_wf [OF s(1) Datapath_wf(1) [OF wf m(1)]] m(2) by simp
  show "r \<noteq> 0 \<Longrightarrow> dstb_running i s' = dstb_running i s"
    using Datapath_failed_running [OF wf m(1)] m(2) s(2) by (simp add: dstb_running_def dstb_machine_def put_cpu_def)
  show "j \<noteq> i \<Longrightarrow> dstb_running j s' = dstb_running j s" for j
    using m(2) s(2) by (simp add: dstb_running_def)
qed

lemma dstb_kept_counted:
  assumes "dstb.counted (s, n)" "kept (ds_net s) net"
  shows "dstb.counted (set_net net s, n)"
proof -
  have k: "node_kept (net_nd (ds_net s) ! i) (net_nd net ! i)" if "i < length (net_nd net)" for i
    using assms(2) that by (simp add: kept_def)
  have len: "length (net_nd net) = length (net_nd (ds_net s))" using assms(2) by (simp add: kept_def)
  have "dstb.live (set_net net s) = dstb.live s"
    using k len by (auto simp: dstb.live_def dstb_running_def set_net_def node_kept_def)
  moreover have "dstb_wf (set_net net s)"
    using assms(1) k len
    by (fastforce simp: dstb.counted_def dstb_wf_def set_net_def node_kept_def in_set_conv_nth)
  ultimately show ?thesis using assms(1) by (simp add: dstb.counted_def)
qed

text \<open>The fields of the network that a cycle of the processors leaves alone.\<close>

lemma dstb_round_Some:
  assumes "dstb_round al s = Some (r, s')"
  obtains s1 nrun errcode net where
    "run_round dstb_step dstb_running (unat (net_size (ds_net s))) (s, net_nrun (ds_net s)) = Some (s1, nrun)"
    "Net_execute (al (net_cycle (ds_net s1))) ((ds_net s1)\<lparr>net_nrun := nrun\<rparr>) = Some (errcode, net)"
    "r = 0 \<and> errcode = 0 \<and> s' = set_net (net\<lparr>net_cycle := net_cycle net + 1\<rparr>) s1 \<or>
     r = -1 \<and> errcode \<noteq> 0 \<and> s' = set_net net s1"
  using assms by (auto simp: dstb_round_def Option.bind_eq_Some_conv split: if_splits)

text \<open>The count of running processors is part of the network here.\<close>

definition dstb_counts :: "dstb \<Rightarrow> bool" where
  "dstb_counts s \<longleftrightarrow> dstb_wf s \<and> unat (net_size (ds_net s)) = length (net_nd (ds_net s)) \<and>
     unat (net_nrun (ds_net s)) = card {i. i < length (net_nd (ds_net s)) \<and> dstb_running i s}"

lemma dstb_counts_counted:
  "dstb_counts s \<longleftrightarrow> dstb.counted (s, net_nrun (ds_net s)) \<and> unat (net_size (ds_net s)) = length (net_nd (ds_net s))"
  by (auto simp: dstb_counts_def dstb.counted_def dstb.live_def)

lemma dstb_round_counts:
  assumes "dstb_counts s" "dstb_round al s = Some (r, s')"
  shows "dstb_counts s' \<and> length (net_nd (ds_net s')) = length (net_nd (ds_net s))"
  using assms(2)
proof (rule dstb_round_Some)
  fix s1 nrun errcode net
  assume 1: "run_round dstb_step dstb_running (unat (net_size (ds_net s))) (s, net_nrun (ds_net s)) = Some (s1, nrun)"
    and 2: "Net_execute (al (net_cycle (ds_net s1))) ((ds_net s1)\<lparr>net_nrun := nrun\<rparr>) = Some (errcode, net)"
    and 3: "r = 0 \<and> errcode = 0 \<and> s' = set_net (net\<lparr>net_cycle := net_cycle net + 1\<rparr>) s1 \<or>
      r = -1 \<and> errcode \<noteq> 0 \<and> s' = set_net net s1"
  from assms(1) have c: "dstb.counted (s, net_nrun (ds_net s))" "unat (net_size (ds_net s)) = length (net_nd (ds_net s))"
    by (simp_all add: dstb_counts_counted)
  then have run: "run_round dstb_step dstb_running (length (net_nd (ds_net (fst (s, net_nrun (ds_net s))))))
      (s, net_nrun (ds_net s)) = Some (s1, nrun)" using 1 by simp
  from dstb.round_counted [OF c(1) run] have r1: "dstb.counted (s1, nrun)"
    "length (net_nd (ds_net s1)) = length (net_nd (ds_net s))" by simp_all
  have wf: "dstb_wf s" using c(1) by (simp add: dstb.counted_def)
  have "net_size (ds_net (fst (s1, nrun))) = net_size (ds_net s)"
    by (rule dstb.round_keeps [OF run, where Q = "\<lambda>t. net_size (ds_net t) = net_size (ds_net s)"])
      (use wf in \<open>auto simp: dstb_put_def net_simps elim!: dstb_step_Some\<close>)
  then have size: "unat (net_size (ds_net s1)) = length (net_nd (ds_net s1))" using c(2) r1(2) by simp
  note k = kept_Net_execute [OF 2]
  then have k1: "kept (ds_net s1) (net\<lparr>net_nrun := net_nrun (ds_net s1)\<rparr>)" "net_nrun net = nrun"
    by (simp_all add: kept_def)
  from dstb_kept_counted [OF r1(1) k1(1)] have "dstb.counted (set_net net s1, nrun)"
    by (simp add: dstb.counted_def dstb.live_def dstb_wf_def dstb_running_def set_net_def)
  then have "dstb_counts (set_net net s1)" "length (net_nd net) = length (net_nd (ds_net s))"
    using k k1(2) size r1(2) by (simp_all add: dstb_counts_counted kept_def set_net_def)
  then show ?thesis using 3
    by (auto simp: dstb_counts_def dstb_wf_def dstb_running_def set_net_def)
qed

section \<open>Creation and loading\<close>

text \<open>What the allocator owes: a block of the size that was asked for.\<close>

definition dstb_alloc_ok :: "u64 \<Rightarrow> nat \<Rightarrow> dstb_alloc \<Rightarrow> bool" where
  "dstb_alloc_ok memsz n al \<longleftrightarrow> (\<forall>d. da_mem al = Some d \<longrightarrow> length d = n * unat memsz) \<and>
     (\<forall>b. da_mbox al = Some b \<longrightarrow> length b = n * n)"

lemma dstb_create_parts:
  assumes "dstb_create x y memsz entry al = Some (Inr net)" "dstb_alloc_ok memsz (unat (x * y)) al"
  shows "net_size net = x * y" "net_x net = x" "net_y net = y" "net_nrun net = x * y"
    "length (net_nd net) = unat (x * y)" "da_mbox al = Some (net_mbox net)" "unat (x * y) < 2 ^ 32"
    "\<And>i. i < unat (x * y) \<Longrightarrow> \<exists>cpu. wf_cpu cpu \<and> cpu_running cpu \<and> cpu_cop2 cpu = cpu_cop2 cpu_zero \<and>
       (\<exists>b. length b = unat memsz \<and> net_nd net ! i = new_node cpu \<lparr>mem_size = memsz, mem_b = b\<rparr>)"
proof -
  let ?n = "unat (x * y)"
  obtain cpubank arr where c: "CPU_create (ucast (x * y)) entry (da_cpu al) = Inr cpubank"
    and a: "da_mem al = Some arr" and m: "da_mbox al = Some (net_mbox net)" and n: "?n \<le> length cpubank"
    and net: "net = \<lparr>net_cycle = 0, net_size = x * y, net_x = x, net_y = y, net_nrun = x * y,
             net_nd = map (\<lambda>i. new_node (cpubank ! i) (map (\<lambda>i. \<lparr>mem_size = memsz,
              mem_b = take (unat memsz) (drop (i * unat memsz) arr)\<rparr>) [0..<?n] ! i)) [0..<?n], net_mbox = net_mbox net\<rparr>"
    using assms(1) by (auto simp: dstb_create_def Mem_createarr_def Let_def split: sum.splits option.splits if_splits)
  show "net_size net = x * y" "net_x net = x" "net_y net = y" "net_nrun net = x * y" "length (net_nd net) = ?n"
    by (subst net; simp)+
  show "da_mbox al = Some (net_mbox net)" by (rule m)
  have "length cpubank < 2 ^ 32" unfolding CPU_create_wf(2) [OF c] by (rule less_le_trans [OF unsigned_less]) simp
  with n show "?n < 2 ^ 32" by simp
  fix i assume i: "i < ?n"
  then have "cpubank ! i \<in> set cpubank" using n by simp
  then have w: "wf_cpu (cpubank ! i)" "cpu_running (cpubank ! i)" using CPU_create_wf(1) [OF c] by simp_all
  have z: "cpu_cop2 (cpubank ! i) = cpu_cop2 cpu_zero"
    using c i n by (auto simp: CPU_create_def split: if_splits)
  have "Suc i * unat memsz \<le> ?n * unat memsz" using i by (intro mult_le_mono1) simp
  then have "length (take (unat memsz) (drop (i * unat memsz) arr)) = unat memsz"
    using assms(2) a by (simp add: dstb_alloc_ok_def)
  moreover have "net_nd net ! i = new_node (cpubank ! i)
      \<lparr>mem_size = memsz, mem_b = take (unat memsz) (drop (i * unat memsz) arr)\<rparr>"
    using i by (subst net) simp
  ultimately show "\<exists>cpu. wf_cpu cpu \<and> cpu_running cpu \<and> cpu_cop2 cpu = cpu_cop2 cpu_zero \<and>
       (\<exists>b. length b = unat memsz \<and> net_nd net ! i = new_node cpu \<lparr>mem_size = memsz, mem_b = b\<rparr>)"
    using w z by blast
qed

text \<open>Loading changes memories only, and leaves every node the same image.\<close>

lemma mfold_copy:
  assumes "mfold (dstb_copy memsz) is net = Some net'" "set is \<subseteq> {1..<length (net_nd net)}"
    "\<And>i. i < length (net_nd net) \<Longrightarrow> length (mem_b (nd_mem (net_nd net ! i))) = unat memsz \<and> mem_size (nd_mem (net_nd net ! i)) = memsz"
    "distinct is"
  shows "net_nd net' = map (\<lambda>i. if i \<in> set is then (net_nd net ! i)\<lparr>nd_mem := nd_mem (net_nd net ! 0)\<rparr> else net_nd net ! i)
      [0..<length (net_nd net)] \<and> net_size net' = net_size net \<and> net_nrun net' = net_nrun net \<and> net_mbox net' = net_mbox net \<and>
      net_x net' = net_x net \<and> net_y net' = net_y net"
  using assms
proof (induction "is" arbitrary: net)
  case (Cons i "is")
  let ?m = "nd_mem (net_nd net ! 0)"
  have i: "0 < i" "i < length (net_nd net)" using Cons.prems(2) by auto
  have len: "length (mem_b ?m) = unat memsz" "mem_size ?m = memsz" "length (mem_b (nd_mem (net_nd net ! i))) = unat memsz"
    "mem_size (nd_mem (net_nd net ! i)) = memsz"
    using Cons.prems(3) [OF le_less_trans [OF le0 i(2)]] Cons.prems(3) [OF i(2)] by simp_all
  then have "mem_copy memsz ?m (nd_mem (net_nd net ! i)) = Some ?m" by (simp add: mem_copy_def)
  then have c: "dstb_copy memsz i net = Some (upd_node i (\<lambda>nd. nd\<lparr>nd_mem := ?m\<rparr>) net)" by (simp add: dstb_copy_def)
  let ?net1 = "upd_node i (\<lambda>nd. nd\<lparr>nd_mem := ?m\<rparr>) net"
  have nd1: "net_nd ?net1 ! j = (if j = i then (net_nd net ! i)\<lparr>nd_mem := ?m\<rparr> else net_nd net ! j)" for j
    using i by (simp add: net_simps)
  have "mfold (dstb_copy memsz) is ?net1 = Some net'" using Cons.prems(1) c by simp
  from Cons.IH [OF this] Cons.prems(2-4) len nd1 have IH:
    "net_nd net' = map (\<lambda>j. if j \<in> set is then (net_nd ?net1 ! j)\<lparr>nd_mem := nd_mem (net_nd ?net1 ! 0)\<rparr> else net_nd ?net1 ! j)
      [0..<length (net_nd ?net1)] \<and> net_size net' = net_size ?net1 \<and> net_nrun net' = net_nrun ?net1 \<and> net_mbox net' = net_mbox ?net1 \<and>
      net_x net' = net_x ?net1 \<and> net_y net' = net_y ?net1"
    by (auto simp: net_simps)
  have "nd_mem (net_nd ?net1 ! 0) = ?m" unfolding nd1 using i by simp
  then show ?case using IH Cons.prems(4) nd1 by (auto simp: net_simps intro!: map_cong)
qed (simp add: map_nth)

definition mem_fits :: "u64 \<Rightarrow> Mem \<Rightarrow> bool" where
  "mem_fits memsz m \<longleftrightarrow> mem_size m = memsz \<and> length (mem_b m) = unat memsz"

lemma dstb_progld_image:
  assumes "dstb_progld net memsz elf = Some (0, net')" "unat (net_size net) = length (net_nd net)"
    "\<And>nd. nd \<in> set (net_nd net) \<Longrightarrow> mem_fits memsz (nd_mem nd)" "4 dvd unat memsz"
  shows "\<exists>m. Mem_progld (nd_mem (net_nd net ! 0)) elf = Some (OK, m) \<and> mem_fits memsz m \<and>
    net_nd net' = map (\<lambda>nd. nd\<lparr>nd_mem := m\<rparr>) (net_nd net) \<and> net_size net' = net_size net \<and>
    net_nrun net' = net_nrun net \<and> net_mbox net' = net_mbox net \<and> net_x net' = net_x net \<and> net_y net' = net_y net"
proof -
  have pos: "0 < length (net_nd net)" using assms(1) by (auto simp: dstb_progld_def split: if_splits)
  obtain m where m: "Mem_progld (nd_mem (net_nd net ! 0)) elf = Some (OK, m)"
    and f: "mfold (dstb_copy memsz) [1..<unat (net_size net)] (upd_node 0 (\<lambda>nd. nd\<lparr>nd_mem := m\<rparr>) net) = Some net'"
    using assms(1) by (auto simp: dstb_progld_def Let_def split: if_splits option.splits)
  have fits: "mem_fits memsz (nd_mem (net_nd net ! i))" if "i < length (net_nd net)" for i
    using assms(3) that by simp
  have "whole_words (nd_mem (net_nd net ! 0))"
    using fits [OF pos] assms(4) by (simp add: whole_words_def wf_mem_def mem_fits_def)
  from Mem_progld_keeps [OF m this] fits [OF pos] have mf: "mem_fits memsz m"
    by (simp add: mem_fits_def whole_words_def wf_mem_def)
  let ?net1 = "upd_node 0 (\<lambda>nd. nd\<lparr>nd_mem := m\<rparr>) net"
  have nd1: "net_nd ?net1 ! i = (if i = 0 then (net_nd net ! 0)\<lparr>nd_mem := m\<rparr> else net_nd net ! i)" for i
    using pos by (simp add: net_simps)
  have "net_nd net' = map (\<lambda>i. if i \<in> set [1..<unat (net_size net)] then (net_nd ?net1 ! i)\<lparr>nd_mem := nd_mem (net_nd ?net1 ! 0)\<rparr>
      else net_nd ?net1 ! i) [0..<length (net_nd ?net1)] \<and> net_size net' = net_size ?net1 \<and> net_nrun net' = net_nrun ?net1 \<and>
      net_mbox net' = net_mbox ?net1 \<and> net_x net' = net_x ?net1 \<and> net_y net' = net_y ?net1"
    by (rule mfold_copy [OF f]) (use assms(2) fits mf nd1 in \<open>auto simp: net_simps mem_fits_def\<close>)
  moreover have "map (\<lambda>i. if i \<in> set [1..<unat (net_size net)] then (net_nd ?net1 ! i)\<lparr>nd_mem := nd_mem (net_nd ?net1 ! 0)\<rparr>
      else net_nd ?net1 ! i) [0..<length (net_nd ?net1)] = map (\<lambda>nd. nd\<lparr>nd_mem := m\<rparr>) (net_nd net)"
    using nd1 assms(2) by (intro nth_equalityI) (auto simp: net_simps not_less_eq_eq)
  ultimately show ?thesis using m mf by (simp add: net_simps)
qed

section \<open>The start of a simulation\<close>

lemma dstb_start:
  assumes "dstb_create x y memsz entry al = Some (Inr net)" "dstb_alloc_ok memsz (unat (x * y)) al" "4 dvd unat memsz"
    "dstb_progld net memsz elf = Some (0, net1)"
  shows "dstb_counts \<lparr>ds_net = net1, ds_ctl = memctl0, ds_io = io\<rparr>" "length (net_nd net1) = unat (x * y)"
    "\<And>i. i < unat (x * y) \<Longrightarrow> \<exists>cpu m. wf_cpu cpu \<and> cpu_cop2 cpu = cpu_cop2 cpu_zero \<and> net_nd net1 ! i = new_node cpu m"
    "net_size net1 = x * y" "net_x net1 = x" "net_y net1 = y" "net_mbox net1 = net_mbox net"
proof -
  note c = dstb_create_parts [OF assms(1,2)]
  have "\<exists>cpu m. wf_cpu cpu \<and> cpu_running cpu \<and> cpu_cop2 cpu = cpu_cop2 cpu_zero \<and> nd = new_node cpu m \<and> mem_fits memsz m"
    if "nd \<in> set (net_nd net)" for nd
  proof -
    obtain i where "i < unat (x * y)" "nd = net_nd net ! i" using \<open>nd \<in> _\<close> c(5) by (auto simp: in_set_conv_nth)
    with c(8) show ?thesis by (fastforce simp: mem_fits_def)
  qed
  note nodes = this
  have fits: "mem_fits memsz (nd_mem nd)" if "nd \<in> set (net_nd net)" for nd
    using nodes [OF that] by (auto simp: new_node_def)
  have size: "unat (net_size net) = length (net_nd net)" using c(1,5) by simp
  obtain m where m: "mem_fits memsz m" "net_nd net1 = map (\<lambda>nd. nd\<lparr>nd_mem := m\<rparr>) (net_nd net)"
    "net_size net1 = net_size net" "net_nrun net1 = net_nrun net" "net_mbox net1 = net_mbox net" "net_x net1 = net_x net" "net_y net1 = net_y net"
    using dstb_progld_image [OF assms(4) size fits assms(3)] by blast
  show len: "length (net_nd net1) = unat (x * y)" using m(2) c(5) by simp
  show "net_size net1 = x * y" "net_x net1 = x" "net_y net1 = y" "net_mbox net1 = net_mbox net" using m c by simp_all
  have nd1: "\<exists>cpu. wf_cpu cpu \<and> cpu_running cpu \<and> cpu_cop2 cpu = cpu_cop2 cpu_zero \<and> net_nd net1 ! i = new_node cpu m"
    if "i < unat (x * y)" for i
  proof -
    have "net_nd net ! i \<in> set (net_nd net)" using that c(5) by simp
    from nodes [OF this] that c(5) m(2) show ?thesis by (auto simp: new_node_def)
  qed
  then show "\<exists>cpu m. wf_cpu cpu \<and> cpu_cop2 cpu = cpu_cop2 cpu_zero \<and> net_nd net1 ! i = new_node cpu m"
    if "i < unat (x * y)" for i using that by blast
  let ?s = "\<lparr>ds_net = net1, ds_ctl = memctl0, ds_io = io\<rparr>"
  have "dstb_wf ?s" unfolding dstb_wf_def
  proof (intro conjI ballI)
    fix nd assume "nd \<in> set (net_nd (ds_net ?s))"
    then obtain i where "i < unat (x * y)" "nd = net_nd net1 ! i" using len by (auto simp: in_set_conv_nth)
    with nd1 [of i] m(1) assms(3) show "wf_cpu (nd_cpu nd)" "whole_words (nd_mem nd)"
      by (auto simp: new_node_def whole_words_def wf_mem_def mem_fits_def)
  qed (simp add: ctl_ok_def memctl0_def)
  moreover have "{i. i < length (net_nd net1) \<and> dstb_running i ?s} = {0..<unat (x * y)}"
    using nd1 len by (fastforce simp: dstb_running_def new_node_def)
  ultimately show "dstb_counts ?s" using len m(3,4) c(1,4) by (simp add: dstb_counts_def)
qed

section \<open>Properties\<close>

text \<open>C12:
  A distributed simulation that returns 0 ends with all its processors stopped: the count of running
  processors in the network is exact in every round, for any programs, messages and allocator
  answers, and the loop ends only when it is 0.\<close>

theorem DstbMem_run_all_stopped:
  assumes "DstbMem_run x y memsz entry elf da al io = Some (Some (0, Some s))"
    and "dstb_alloc_ok memsz (unat (x * y)) da" "4 dvd unat memsz"
  shows "length (net_nd (ds_net s)) = unat (x * y) \<and> (\<forall>i < unat (x * y). \<not> dstb_running i s)"
proof -
  obtain net net1 r where c: "dstb_create x y memsz (ucast entry) da = Some (Inr net)"
    and l: "dstb_progld net memsz elf = Some (r, net1)" "\<not> r < 0"
    and sim: "dstb_sim al \<lparr>ds_net = net1, ds_ctl = memctl0, ds_io = io\<rparr> = Some (Some (0, s))"
    using assms(1) by (auto simp: DstbMem_run_def split: option.splits sum.splits prod.splits if_splits)
  have "r = 0" using l by (auto simp: dstb_progld_def Let_def split: if_splits option.splits)
  note start = dstb_start(1) [OF c assms(2,3) l(1) [unfolded this], of io] dstb_start(2) [OF c assms(2,3) l(1) [unfolded this]]
  have "\<not> (case (0 :: int, s) of (ret, s) \<Rightarrow> ret = 0 \<and> net_nrun (ds_net s) > 0) \<and>
      (dstb_counts (snd (0 :: int, s)) \<and> length (net_nd (ds_net (snd (0 :: int, s)))) = unat (x * y))"
    using sim [unfolded dstb_sim_def]
  proof (rule loop_opt_ends [where P = "\<lambda>u. dstb_counts (snd u) \<and> length (net_nd (ds_net (snd u))) = unat (x * y)"])
    show "dstb_counts (snd v) \<and> length (net_nd (ds_net (snd v))) = unat (x * y)"
      if "dstb_counts (snd u) \<and> length (net_nd (ds_net (snd u))) = unat (x * y)" "(case u of (ret, s) \<Rightarrow> dstb_round al s) = Some v"
      for u v
      using dstb_round_counts [of "snd u" al "fst v" "snd v"] that by (auto split: prod.splits)
  qed (use start in simp)
  then have s: "net_nrun (ds_net s) = 0" "dstb_counts s" "length (net_nd (ds_net s)) = unat (x * y)"
    by (auto simp: word_gt_0)
  then have "card {i. i < unat (x * y) \<and> dstb_running i s} = 0" by (simp add: dstb_counts_def)
  then have "{i. i < unat (x * y) \<and> dstb_running i s} = {}" by (subst (asm) card_0_eq) auto
  then show ?thesis using s(3) by auto
qed

text \<open>Two nodes that execute WAIT at once.\<close>

definition da16 :: dstb_alloc where
  "da16 = \<lparr>da_net = True, da_cpu = True, da_marr = True, da_mem = Some (replicate 32 7),
     da_mbox = Some (replicate 4 None), da_nd = True\<rparr>"

theorem DstbMem_run_all_stopped_witness:
  "\<exists>s. DstbMem_run 1 2 16 0 (elf_one 0x42000020) da16 (\<lambda>_ _. Some 0) no_io = Some (Some (0, Some s)) \<and>
     length (net_nd (ds_net s)) = 2 \<and> \<not> dstb_running 0 s \<and> \<not> dstb_running 1 s"
proof -
  have "(case DstbMem_run 1 2 16 0 (elf_one 0x42000020) da16 (\<lambda>_ _. Some 0) no_io of
      Some (Some (r, Some s)) \<Rightarrow> r = 0 | _ \<Rightarrow> False)"
    by code_simp
  then obtain s where s: "DstbMem_run 1 2 16 0 (elf_one 0x42000020) da16 (\<lambda>_ _. Some 0) no_io = Some (Some (0, Some s))"
    by (auto split: option.splits)
  have "dstb_alloc_ok 16 (unat (1 * 2 :: u64)) da16" by (simp add: dstb_alloc_ok_def da16_def)
  with DstbMem_run_all_stopped [OF s] s show ?thesis by simp
qed

end
