(* ===== verification/DstbNet.thy ===== *)
theory DstbNet
  imports DstbMem
begin

text \<open>
  Processors and network together: the network that \<open>create\<close> makes, and the rounds of the distributed
  simulation, in which a processor whose operation is under way does not touch its coprocessor.
\<close>

section \<open>The turn of the processors\<close>

text \<open>What a round of the processors leaves of a network.\<close>

definition turn_keeps :: "Net \<Rightarrow> Net \<Rightarrow> bool" where
  "turn_keeps net net' \<longleftrightarrow> net_size net' = net_size net \<and> net_x net' = net_x net \<and> net_y net' = net_y net \<and>
     net_mbox net' = net_mbox net \<and> length (net_nd net') = length (net_nd net) \<and>
     (\<forall>i<length (net_nd net). nd_link (net_nd net' ! i) = nd_link (net_nd net ! i) \<and>
        nd_mbox_start (net_nd net' ! i) = nd_mbox_start (net_nd net ! i) \<and>
        (node_op net i \<noteq> op_val COP2_MSG_OP_NONE \<longrightarrow> cpu_cop2 (nd_cpu (net_nd net' ! i)) = cpu_cop2 (nd_cpu (net_nd net ! i))))"

lemma waiting_cop2:
  assumes "Datapath_execute m0 = Some (r, m)" "link_op m0 \<noteq> 0"
  shows "cpu_cop2 (m_cpu m) = cpu_cop2 (m_cpu m0)"
  using assms(1) by (cases rule: Datapath_execute_cases) (use assms(2) in auto)

lemma dstb_step_turn:
  assumes "turn_keeps net (ds_net s)" "j < length (net_nd (ds_net s))" "dstb_step j s = Some (r, s')"
  shows "turn_keeps net (ds_net s')"
proof -
  obtain m where m: "Datapath_execute (dstb_machine s j) = Some (r, m)" "s' = dstb_put j m s"
    using assms(3) by (rule dstb_step_Some)
  have "cpu_cop2 (m_cpu m) = cpu_cop2 (nd_cpu (net_nd net ! j))" if "node_op net j \<noteq> op_val COP2_MSG_OP_NONE"
  proof -
    have c: "cpu_cop2 (nd_cpu (net_nd (ds_net s) ! j)) = cpu_cop2 (nd_cpu (net_nd net ! j))"
      using assms(1,2) that by (simp add: turn_keeps_def)
    then have "link_op (dstb_machine s j) = node_op net j"
      by (simp add: link_op_def dstb_machine_def node_op_def get_sel_link)
    with waiting_cop2 [OF m(1)] that c show ?thesis by (simp add: dstb_machine_def)
  qed
  then show ?thesis using assms(1,2) m(2)
    by (auto simp: turn_keeps_def) (simp_all add: dstb_put_def net_simps put_cpu_def)
qed

lemma turn_keeps_refl: "turn_keeps net net"
  by (simp add: turn_keeps_def)

lemma dstb_turn:
  assumes "run_round dstb_step dstb_running (length (net_nd (ds_net s))) (s, nrun) = Some (s1, nrun1)" "dstb_wf s"
  shows "turn_keeps (ds_net s) (ds_net s1)" "dstb_wf s1"
proof -
  have run: "run_round dstb_step dstb_running (length (net_nd (ds_net (fst (s, nrun))))) (s, nrun) = Some (s1, nrun1)"
    using assms(1) by simp
  have "turn_keeps (ds_net s) (ds_net (fst (s1, nrun1)))"
  proof (rule dstb.round_keeps [OF run, where Q = "\<lambda>t. turn_keeps (ds_net s) (ds_net t)"])
    show "turn_keeps (ds_net s) (ds_net t')"
      if "i < length (net_nd (ds_net t))" "turn_keeps (ds_net s) (ds_net t)" "dstb_step i t = Some (r, t')" for i t r t'
      using that(2,1,3) by (rule dstb_step_turn)
  qed (simp_all add: assms(2) turn_keeps_refl)
  then show "turn_keeps (ds_net s) (ds_net s1)" by simp
  have "dstb_wf (fst (s1, nrun1))"
  proof (rule dstb.round_keeps [OF run, where Q = dstb_wf])
    show "dstb_wf t'" if "i < length (net_nd (ds_net t))" "dstb_wf t" "dstb_step i t = Some (r, t')" for i t r t'
      using dstb.step_inv [OF that(2,1,3)] ..
  qed (simp_all add: assms(2))
  then show "dstb_wf s1" by simp
qed

text \<open>The links and mailboxes, and so the messages, stay as they are.\<close>

lemma turn_net:
  assumes "turn_keeps net net'" "net_ok X Y net" "\<And>i. i < X * Y \<Longrightarrow> wf_cpu (nd_cpu (net_nd net' ! i))"
  shows "net_ok X Y net'" "net_msgs net' = net_msgs net"
proof -
  note mesh = net_okD(1) [OF assms(2)]
  note len = meshD(7) [OF mesh]
  have mesh': "mesh X Y net'" using mesh assms(1,3) by (simp add: mesh_def turn_keeps_def)
  have q: "queue net' i d n = queue net i d n" if "i < X * Y" for i d n
    using assms(1) that len by (simp add: turn_keeps_def queue_def)
  have w: "way net' = way net" using assms(1) by (simp add: way_def turn_keeps_def fun_eq_iff)
  have "links_ok (X * Y) net'"
    using net_okD(2) [OF assms(2)] q by (simp add: links_ok_def queue_ok_way [OF w])
  moreover have "box net' = box net" using assms(1) by (simp add: box_def mbox_index_def turn_keeps_def fun_eq_iff)
  ultimately show "net_ok X Y net'" using mesh' net_okD(3) [OF assms(2)] by (simp add: net_ok_def boxes_ok_def)
  have "map (\<lambda>nd. link_msgs (nd_link nd)) (net_nd net') = map (\<lambda>nd. link_msgs (nd_link nd)) (net_nd net)"
    using assms(1) by (intro nth_equalityI) (simp_all add: turn_keeps_def)
  then show "net_msgs net' = net_msgs net"
    using assms(1) by (simp add: net_msgs_def turn_keeps_def)
qed

lemma turn_node:
  assumes "turn_keeps net net'" "i < length (net_nd net)" "node_op net i \<noteq> op_val COP2_MSG_OP_NONE"
  shows "get_sel t (net_nd net' ! i) = get_sel t (net_nd net ! i)"
  using assms by (simp add: turn_keeps_def get_sel_link)

lemma turn_rendezvous:
  assumes "turn_keeps net net'" "net_ok X Y net" "net_msgs net' = net_msgs net" "rendezvous (X * Y) net" "payload net"
    and "\<And>i. i < X * Y \<Longrightarrow> node_op net i = op_val COP2_MSG_OP_NONE \<Longrightarrow> \<not> node_sent net' i"
  shows "rendezvous (X * Y) net'" "payload net'"
proof -
  note len = meshD(7) [OF net_okD(1) [OF assms(2)]]
  have "sending net' i k = sending net i k" if "i < X * Y" for i k
  proof (cases "node_op net i = op_val COP2_MSG_OP_NONE")
    case True
    then show ?thesis using assms(6) [OF that] by (simp add: sending_def)
  next
    case False
    then show ?thesis using turn_node [OF assms(1) _ False] that len
      by (simp add: sending_def node_op_def node_sent_def node_corr_def)
  qed
  then show "rendezvous (X * Y) net'" using assms(4) flight_same [OF assms(3)] by (simp add: rendezvous_def)
  show "payload net'" unfolding payload_def assms(3)
  proof (intro ballI impI)
    fix m assume m: "m \<in># net_msgs net" "\<not> msg_ack m"
    have ok: "msg_ok (X * Y) m" by (rule net_msgs_ok [OF assms(2) m(1)])
    then have "node_op net (unat (msg_from m)) = op_val COP2_MSG_OP_OUT"
      using quiet_sender [OF assms(2,4) m refl] by (auto simp: msg_ok_def word_unat_eq_iff)
    then have "get_sel COP2_MSG_DATA (net_nd net' ! unat (msg_from m)) = get_sel COP2_MSG_DATA (net_nd net ! unat (msg_from m))"
      using ok len by (intro turn_node [OF assms(1)]) (simp_all add: msg_ok_def)
    then show "msg_data m = get_sel COP2_MSG_DATA (net_nd net' ! unat (msg_from m))"
      using assms(5) m by (simp add: payload_def)
  qed
qed

section \<open>Properties\<close>

text \<open>The part of a network that its invariants are about does not include the count of processors or cycles.\<close>

lemma net_counts_irrelevant:
  "net_ok X Y (net\<lparr>net_nrun := a\<rparr>) = net_ok X Y net" "net_ok X Y (net\<lparr>net_cycle := a\<rparr>) = net_ok X Y net"
  "rendezvous N (net\<lparr>net_nrun := a\<rparr>) = rendezvous N net" "rendezvous N (net\<lparr>net_cycle := a\<rparr>) = rendezvous N net"
  "payload (net\<lparr>net_nrun := a\<rparr>) = payload net" "payload (net\<lparr>net_cycle := a\<rparr>) = payload net"
  by (simp_all add: net_ok_def mesh_def links_ok_def queue_ok_def boxes_ok_def box_def queue_def mbox_index_def way_def
      rendezvous_def flight_def net_msgs_def sending_def node_op_def node_sent_def node_corr_def payload_def)

lemma commands_nrun_irrelevant: "commands_ok N (net\<lparr>net_nrun := a\<rparr>) = commands_ok N net"
proof -
  have "ready_clauses (net\<lparr>net_nrun := a\<rparr>) b i = ready_clauses net b i" for b i
    by (rule ready_clauses_same) simp_all
  then show ?thesis by (simp add: commands_ok_def node_op_def node_corr_def)
qed

text \<open>A round, taken apart: the turn of the processors, then the cycle of the network.\<close>

lemma dstb_round_steps:
  assumes "dstb_wf s" "net_ok X Y (ds_net s)" "rendezvous (X * Y) (ds_net s)" "payload (ds_net s)"
    and "run_round dstb_step dstb_running (X * Y) (s, net_nrun (ds_net s)) = Some (s1, nrun)"
    and "commands_ok (X * Y) (ds_net s1)"
    and "\<And>i. i < X * Y \<Longrightarrow> node_op (ds_net s) i = op_val COP2_MSG_OP_NONE \<Longrightarrow> \<not> node_sent (ds_net s1) i"
  defines "net1 \<equiv> (ds_net s1)\<lparr>net_nrun := nrun\<rparr>"
  obtains r net where "Net_execute (al (net_cycle (ds_net s1))) net1 = Some (r, net)"
    "turn_keeps (ds_net s) (ds_net s1)" "net_msgs net1 = net_msgs (ds_net s)" "dstb_wf s1"
    "net_ok X Y net1" "commands_ok (X * Y) net1" "rendezvous (X * Y) net1" "payload net1"
    "net_steps (X * Y) net1 net" "net_ok X Y net" "rendezvous (X * Y) net" "payload net"
    "dstb_round al s = Some (if r = 0 then (0, set_net (net\<lparr>net_cycle := net_cycle net + 1\<rparr>) s1) else (-1, set_net net s1))"
proof -
  let ?N = "X * Y"
  note m = meshD(7,9) [OF net_okD(1) [OF assms(2)]]
  note turn = dstb_turn [OF assms(5) [folded m(1)] assms(1)]
  have "wf_cpu (nd_cpu (net_nd (ds_net s1) ! i))" if "i < ?N" for i
    using turn that m(1) by (simp add: dstb_wf_def turn_keeps_def)
  note n1 = turn_net [OF turn(1) assms(2) this] 
  note r1 = turn_rendezvous [OF turn(1) assms(2) n1(2) assms(3,4,7)]
  have ok: "net_ok X Y net1" "commands_ok ?N net1" "rendezvous ?N net1" "payload net1"
    using n1(1) assms(6) r1 by (simp_all add: net1_def net_counts_irrelevant commands_nrun_irrelevant)
  obtain r net where e: "Net_execute (al (net_cycle (ds_net s1))) net1 = Some (r, net)" "net_steps ?N net1 net"
    using Net_execute_steps [OF ok(1,2)] by blast
  have msgs: "net_msgs net1 = net_msgs (ds_net s)" using n1(2) by (simp add: net1_def net_msgs_def)
  have "dstb_round al s = Some (if r = 0 then (0, set_net (net\<lparr>net_cycle := net_cycle net + 1\<rparr>) s1) else (-1, set_net net s1))"
    using assms(5) e(1) m(2) by (simp add: dstb_round_def net1_def)
  from that [OF e(1) turn(1) msgs turn(2) ok e(2) net_steps_ok(1) [OF e(2) ok(1)]
      net_steps_rendezvous [OF e(2) ok(1,3)] net_steps_payload [OF e(2) ok(1,3,4)] this] show thesis .
qed

text \<open>C6:
  A round of the distributed simulation keeps the network well formed and the rendezvous protocol intact:
  the processors take their turn without undefined behaviour, those with an operation under way do not
  touch their coprocessor, and then the network's cycle is defined. The programs' part is to ask for
  operations that exist, and never to write the sent flag into the status register themselves.\<close>

theorem dstb_round_keeps_protocol:
  assumes "dstb_wf s" "net_ok X Y (ds_net s)" "rendezvous (X * Y) (ds_net s)" "payload (ds_net s)"
    and "run_round dstb_step dstb_running (X * Y) (s, net_nrun (ds_net s)) = Some (s1, nrun)"
    and "commands_ok (X * Y) (ds_net s1)"
    and "\<And>i. i < X * Y \<Longrightarrow> node_op (ds_net s) i = op_val COP2_MSG_OP_NONE \<Longrightarrow> \<not> node_sent (ds_net s1) i"
  shows "\<exists>r s'. dstb_round al s = Some (r, s') \<and> net_ok X Y (ds_net s') \<and> rendezvous (X * Y) (ds_net s') \<and> payload (ds_net s')"
proof (rule dstb_round_steps [OF assms, of al])
  fix r net
  assume "net_ok X Y net" "rendezvous (X * Y) net" "payload net"
    "dstb_round al s = Some (if r = 0 then (0, set_net (net\<lparr>net_cycle := net_cycle net + 1\<rparr>) s1) else (-1, set_net net s1))"
  then show ?thesis by (cases "r = 0") (simp_all add: set_net_def net_counts_irrelevant)
qed

text \<open>Two running processors, the first of which outputs to the second.\<close>

definition awake :: "Node \<Rightarrow> Node" where
  "awake nd = nd\<lparr>nd_cpu := (nd_cpu nd)\<lparr>cpu_running := True\<rparr>\<rparr>"

definition pair_system :: dstb where
  "pair_system = \<lparr>ds_net = quiet_net 1 2 [awake (asking COP2_MSG_OP_OUT 1 7 0), awake (asking COP2_MSG_OP_IN 0 0 0)],
     ds_ctl = memctl0, ds_io = no_io\<rparr>"

lemma awake_quiet: "quiet_node nd \<Longrightarrow> quiet_node (awake nd)"
  by (simp add: quiet_node_def awake_def wf_cpu_def)

lemma get_sel_awake [simp]: "get_sel t (awake nd) = get_sel t nd"
  by (simp add: get_sel_link awake_def)

lemma pair_system_facts:
  "dstb_wf pair_system" "net_ok 1 2 (ds_net pair_system)" "rendezvous (1 * 2) (ds_net pair_system)" "payload (ds_net pair_system)"
  "node_op (ds_net pair_system) 0 = op_val COP2_MSG_OP_OUT" "node_op (ds_net pair_system) 1 = op_val COP2_MSG_OP_IN"
  "node_corr (ds_net pair_system) 0 = 1" "node_corr (ds_net pair_system) 1 = 0"
proof -
  let ?nds = "[awake (asking COP2_MSG_OP_OUT 1 7 0), awake (asking COP2_MSG_OP_IN 0 0 0)]"
  have q: "quiet_node nd" if "nd \<in> set ?nds" for nd using that by (auto simp: quiet_asking awake_quiet)
  have net: "ds_net pair_system = quiet_net 1 2 ?nds" by (simp add: pair_system_def)
  have nd: "net_nd (ds_net pair_system) = ?nds" by (simp add: net quiet_net_nd)
  show "net_ok 1 2 (ds_net pair_system)" unfolding net by (rule quiet_net_ok) (use q in auto)
  have msgs: "net_msgs (ds_net pair_system) = {#}" unfolding net by (rule quiet_net_msgs) (rule q)
  then show "payload (ds_net pair_system)" by (rule quiet_payload)
  show "rendezvous (1 * 2) (ds_net pair_system)"
  proof (rule quiet_rendezvous [OF msgs])
    fix i :: nat assume "i < 1 * 2"
    then have "i = 0 \<or> i = 1" by auto
    then show "\<not> node_sent (ds_net pair_system) i" by (auto simp: node_sent_def nd COP2_MSG_ST_SENT_def)
  qed
  show "node_op (ds_net pair_system) 0 = op_val COP2_MSG_OP_OUT" "node_op (ds_net pair_system) 1 = op_val COP2_MSG_OP_IN"
    "node_corr (ds_net pair_system) 0 = 1" "node_corr (ds_net pair_system) 1 = 0"
    by (simp_all add: node_op_def node_corr_def nd COP2_MSG_ST_OP_def)
  show "dstb_wf pair_system"
    unfolding dstb_wf_def nd using q
    by (auto simp: quiet_node_def) (simp_all add: awake_def asking_def whole_words_def wf_mem_def pair_system_def ctl_ok_def memctl0_def)
qed

theorem dstb_round_keeps_protocol_witness:
  "\<exists>r s'. dstb_round (\<lambda>_ _. Some 0) pair_system = Some (r, s') \<and> net_ok 1 2 (ds_net s') \<and>
    rendezvous (1 * 2) (ds_net s') \<and> payload (ds_net s')"
proof -
  note f = pair_system_facts
  have "run_round dstb_step dstb_running (1 * 2) (pair_system, net_nrun (ds_net pair_system)) \<noteq> None" by code_simp
  then obtain s1 nrun where run:
    "run_round dstb_step dstb_running (1 * 2) (pair_system, net_nrun (ds_net pair_system)) = Some (s1, nrun)" by auto
  have len: "length (net_nd (ds_net pair_system)) = 1 * 2" using meshD(7) [OF net_okD(1) [OF f(2)]] .
  note turn = dstb_turn(1) [OF _ f(1), unfolded len, OF run]
  have two: "i < 1 * 2 \<longleftrightarrow> i = 0 \<or> i = 1" for i :: nat by auto
  have same: "node_op (ds_net s1) i = node_op (ds_net pair_system) i" "node_corr (ds_net s1) i = node_corr (ds_net pair_system) i"
    if "i < 1 * 2" for i
    using turn_node [OF turn, unfolded len, OF that] that f(5,6) unfolding two
    by (auto simp: node_op_def node_corr_def)
  have "commands_ok (1 * 2) (ds_net s1)"
    unfolding commands_ok_def two using same [unfolded two] f(5-8) by auto
  moreover have "node_op (ds_net pair_system) i \<noteq> op_val COP2_MSG_OP_NONE" if "i < 1 * 2" for i
    using that f(5,6) unfolding two by auto
  ultimately show ?thesis by (intro dstb_round_keeps_protocol [OF f(1-4) run]) blast+
qed

section \<open>The network that create makes\<close>

text \<open>C38:
  After \<open>create\<close> and \<open>progld\<close> the network is well formed and follows the rendezvous protocol exactly when the
  block that \<open>malloc\<close> gave for the mailboxes happened to hold null pointers only: \<open>create\<close> clears the nodes, but
  not the mailboxes.\<close>

theorem fresh_network_iff_mailboxes_null:
  assumes "0 < X" "0 < Y" "X * Y \<le> 2 ^ 16"
    "dstb_create (of_nat X) (of_nat Y) memsz entry al = Some (Inr net)" "dstb_alloc_ok memsz (X * Y) al" "4 dvd unat memsz"
    "dstb_progld net memsz elf = Some (0, net1)"
  shows "net_ok X Y net1 \<and> rendezvous (X * Y) net1 \<longleftrightarrow> (\<exists>mboxes. da_mbox al = Some mboxes \<and> set mboxes \<subseteq> {None})"
proof -
  have n: "unat (of_nat X * of_nat Y :: u64) = X * Y" using assms(3) unat_u64 [of "X * Y"] by simp
  note start = dstb_start(2-) [OF assms(4) assms(5) [folded n] assms(6,7), unfolded n]
  note parts = dstb_create_parts [OF assms(4) assms(5) [folded n], unfolded n]
  have blen: "length (net_mbox net1) = X * Y * (X * Y)"
    using assms(5) parts(6) start(6) by (simp add: dstb_alloc_ok_def)
  have node: "quiet_node (net_nd net1 ! i) \<and> \<not> node_sent net1 i" if i: "i < X * Y" for i
  proof -
    obtain cpu m where c: "wf_cpu cpu" "cpu_cop2 cpu = cpu_cop2 cpu_zero" "net_nd net1 ! i = new_node cpu m"
      using start(2) [OF i] by blast
    have "get_sel COP2_MSG_ST (new_node cpu m) = 0"
      using c(2) by (simp add: get_sel_link new_node_def cpu_zero_def COP2_NREG_def COP2_NSEL_def)
    with c show ?thesis by (simp add: quiet_node_def new_node_def node_sent_def COP2_MSG_ST_SENT_def)
  qed
  have mesh: "mesh X Y net1"
    using assms(1-3) start(1,3-5) blen node by (simp add: mesh_def quiet_node_def)
  show ?thesis
  proof
    assume "\<exists>mboxes. da_mbox al = Some mboxes \<and> set mboxes \<subseteq> {None}"
    then have null: "set (net_mbox net1) \<subseteq> {None}" using parts(6) start(6) by auto
    have box: "box net1 i k = None" if "i < X * Y" "k < X * Y" for i k
      using null box_in_range [OF mesh that] nth_mem by (fastforce simp: box_def)
    have ok: "net_ok X Y net1"
      using node box by (intro empty_net_ok [OF mesh]) (auto simp: queue_def quiet_node_def)
    have "net_msgs net1 = {#}"
      using null node start(1) by (intro empty_net_msgs) (auto simp: in_set_conv_nth)
    then have "rendezvous (X * Y) net1" using node by (intro quiet_rendezvous) auto
    with ok show "net_ok X Y net1 \<and> rendezvous (X * Y) net1" ..
  next
    assume ok: "net_ok X Y net1 \<and> rendezvous (X * Y) net1"
    then have none: "net_msgs net1 = {#}" using node by (intro no_sender_no_msgs) auto
    have "b = None" if b: "b \<in> set (net_mbox net1)" for b
    proof (cases b)
      case (Some m)
      then have "strip m \<in># net_msgs net1" using b
        by (auto simp: net_msgs_def in_sum_list box_msgs_def image_iff intro!: bexI [of _ m] disjI2)
          (force simp: box_msgs_def)
      then show ?thesis by (simp add: none)
    qed simp
    then show "\<exists>mboxes. da_mbox al = Some mboxes \<and> set mboxes \<subseteq> {None}" using parts(6) start(6) by auto
  qed
qed

definition started :: "dstb_alloc \<Rightarrow> Net option" where
  "started al = (case dstb_create 1 2 16 0 al of Some (Inr net) \<Rightarrow>
     (case dstb_progld net 16 (elf_one 0x42000020) of Some (r, net1) \<Rightarrow> if r = 0 then Some net1 else None | None \<Rightarrow> None)
   | _ \<Rightarrow> None)"

theorem fresh_network_iff_mailboxes_null_witness:
  "\<exists>net. started da16 = Some net \<and> net_ok 1 2 net \<and> rendezvous (1 * 2) net"
proof -
  have "started da16 \<noteq> None" by code_simp
  then obtain net net1 where n: "dstb_create (of_nat 1) (of_nat 2) 16 0 da16 = Some (Inr net)"
    "dstb_progld net 16 (elf_one 0x42000020) = Some (0, net1)"
    by (auto simp: started_def split: option.splits sum.splits if_splits)
  have "dstb_alloc_ok 16 (1 * 2) da16" by (simp add: dstb_alloc_ok_def da16_def)
  from fresh_network_iff_mailboxes_null [OF _ _ _ n(1) this _ n(2)]
  have "net_ok 1 2 net1 \<and> rendezvous (1 * 2) net1" by (simp add: da16_def)
  moreover have "started da16 = Some net1" using n by (simp add: started_def)
  ultimately show ?thesis by blast
qed

end
