(* ===== verification/Options.thy ===== *)
theory Options
  imports DstbMem
begin

text \<open>
  The command line (main.c, simutil.h): the options, the checks of the program file, and the start of one of the
  two systems. \<open>getopt\<close> gives the options of the command line one after the other; their arguments are
  read by \<open>strtoul\<close> and \<open>strtok\<close>, which are modelled as the C library documents them.
\<close>

section \<open>Library functions on strings\<close>

definition isspace :: "char \<Rightarrow> bool" where
  "isspace c \<longleftrightarrow> c = CHR '' '' \<or> of_char c \<in> {9 .. 13 :: nat}"

definition isdigit :: "char \<Rightarrow> bool" where
  "isdigit c \<longleftrightarrow> of_char c \<in> {48 .. 57 :: nat}"

definition digit_val :: "char \<Rightarrow> int" where
  "digit_val c = of_char c - 48"

definition digits_val :: "string \<Rightarrow> int" where
  "digits_val = foldl (\<lambda>n c. 10 * n + digit_val c) 0"

text \<open>\<open>strtoul(s, NULL, 10)\<close>: leading white space, a sign, the digits; \<open>ULONG_MAX\<close> when the number is too big.\<close>

definition strtoul :: "string \<Rightarrow> u64" where
  "strtoul s =
     (let s1 = dropWhile isspace s;
          neg = (case s1 of c # cs \<Rightarrow> c = CHR ''-'' | [] \<Rightarrow> False);
          s2 = (case s1 of c # cs \<Rightarrow> if c = CHR ''-'' \<or> c = CHR ''+'' then cs else s1 | [] \<Rightarrow> []);
          n = digits_val (takeWhile isdigit s2)
      in if n \<ge> 2 ^ 64 then -1 else if neg then - of_int n else of_int n)"

text \<open>\<open>strtok(s, d)\<close> with one delimiter: the next token, if there is one, and the rest of the string.\<close>

definition strtok :: "char \<Rightarrow> string \<Rightarrow> (string \<times> string) option" where
  "strtok d s = (let s1 = dropWhile (\<lambda>c. c = d) s in
     if s1 = [] then None else Some (takeWhile (\<lambda>c. c \<noteq> d) s1, drop 1 (dropWhile (\<lambda>c. c \<noteq> d) s1)))"

section \<open>Options\<close>

datatype Org = NONE | SHRMEM | NET

text \<open>What \<open>getopt\<close> returns: an option with its argument, \<open>':'\<close> for a missing argument, \<open>'?'\<close> for an
  unknown option.\<close>

datatype opt = Opt_c string | Opt_n string | Opt_m string | Opt_missing | Opt_unknown

record options =
  op_memsz :: u64
  op_ncpu :: u64
  op_flag :: Org
  op_x :: u64
  op_y :: u64

definition options0 :: options where
  "options0 = \<lparr>op_memsz = push_bit 24 1, op_ncpu = 1, op_flag = NONE, op_x = 1, op_y = 1\<rparr>"

text \<open>A missing token makes \<open>strtoul\<close> read a null pointer, which is undefined; \<open>Inl\<close> is the exit with a failure.\<close>

fun parse_options :: "opt list \<Rightarrow> options \<Rightarrow> (unit + options) option" where
  "parse_options [] o1 = Some (Inr o1)"
| "parse_options (Opt_c a # os) o1 = parse_options os (o1\<lparr>op_flag := SHRMEM, op_ncpu := strtoul a\<rparr>)"
| "parse_options (Opt_n a # os) o1 = do {
     (t1, r) \<leftarrow> strtok CHR ''x'' a;
     (t2, r) \<leftarrow> strtok CHR ''x'' r;
     parse_options os (o1\<lparr>op_flag := NET, op_x := strtoul t1, op_y := strtoul t2\<rparr>)
   }"
| "parse_options (Opt_m a # os) o1 = parse_options os (o1\<lparr>op_memsz := strtoul a\<rparr>)"
| "parse_options (Opt_missing # os) o1 = Some (Inl ())"
| "parse_options (Opt_unknown # os) o1 = Some (Inl ())"

section \<open>The program file\<close>

definition IS_ELF :: "u8 list \<Rightarrow> bool" where
  "IS_ELF eh \<longleftrightarrow> eh ! 0 = 0x7F \<and> eh ! 1 = 0x45 \<and> eh ! 2 = 0x4C \<and> eh ! 3 = 0x46"

text \<open>The checks of the file type; \<open>None\<close> when the file is shorter than the header that is read.\<close>

definition mips_elf :: "u8 list \<Rightarrow> bool option" where
  "mips_elf eh = (if length eh < 52 then None else do {
     e_type \<leftarrow> elf_u16 eh 16;
     e_machine \<leftarrow> elf_u16 eh 18;
     Some (IS_ELF eh \<and> eh ! 4 = 1 \<and> eh ! 5 = 1 \<and> e_type = 2 \<and> e_machine = 8)
   })"

section \<open>main\<close>

text \<open>The exit status. \<open>name\<close> is \<open>argv[optind]\<close>, \<open>file\<close> the pages of the file, if it can be opened and mapped,
  \<open>written\<close> tells whether \<open>perfct\<close> of dstbmem.c can open and close its file (that of shrmem.c only warns),
  \<open>closed\<close> is the answer of \<open>close\<close>; the other parameters are those of the two systems. The outer option is
  \<open>None\<close> when the program does not end.\<close>

definition psim_main :: "opt list \<Rightarrow> string option \<Rightarrow> u8 list option \<Rightarrow> bool \<Rightarrow> bool \<Rightarrow>
    bool \<Rightarrow> mem_alloc \<Rightarrow> dstb_alloc \<Rightarrow> (u64 \<Rightarrow> nat \<Rightarrow> u32 option) \<Rightarrow> io \<Rightarrow> int option option" where
  "psim_main args name file written closed cpu_ok al da nal io = (case parse_options args options0 of
       None \<Rightarrow> Some None
     | Some (Inl e) \<Rightarrow> Some (Some 1)
     | Some (Inr o1) \<Rightarrow>
        if op_flag o1 = NONE then Some (Some 1)
        else if name = None then Some (Some 1)
        else (case file of None \<Rightarrow> Some (Some 1) | Some elf \<Rightarrow>
          (case elf_u32 elf 24 of None \<Rightarrow> Some None | Some entry \<Rightarrow>
          (case mips_elf elf of None \<Rightarrow> Some None | Some good \<Rightarrow>
            if \<not> good then Some (Some 1)
            else if op_flag o1 = SHRMEM
            then map_option (map_option (\<lambda>_. if closed then 0 else 1))
              (ShrMem_run (op_ncpu o1) (op_memsz o1) (ucast entry) elf cpu_ok al io)
            else map_option (map_option (\<lambda>(_, ran). if (ran = None \<or> written) \<and> closed then 0 else 1))
              (DstbMem_run (op_x o1) (op_y o1) (op_memsz o1) (ucast entry) elf da nal io)))))"

section \<open>Decimal numbers\<close>

text \<open>The decimal notation of a number, as a user writes it.\<close>

fun dec :: "nat \<Rightarrow> string" where
  "dec n = (if n < 10 then [char_of (48 + n)] else dec (n div 10) @ [char_of (48 + n mod 10)])"

declare dec.simps [simp del]

lemma digit_of:
  assumes "d < 10"
  shows "isdigit (char_of (48 + d))" "digit_val (char_of (48 + d)) = int d"
proof -
  have "of_char (char_of (48 + d) :: char) = 48 + d" using assms by (simp add: take_bit_eq_mod)
  then show "isdigit (char_of (48 + d))" using assms by (simp add: isdigit_def)
  have "(of_char (char_of (48 + d) :: char) :: int) = int (of_char (char_of (48 + d) :: char))"
    by (simp only: of_nat_of_char)
  also have "\<dots> = int (48 + d)" using \<open>of_char (char_of (48 + d) :: char) = 48 + d\<close> by (rule arg_cong)
  finally show "digit_val (char_of (48 + d)) = int d" by (simp add: digit_val_def)
qed

lemma dec_digits: "\<forall>c\<in>set (dec n). isdigit c"
  by (induction n rule: dec.induct) (subst dec.simps, auto simp: digit_of)

lemma dec_value: "digits_val (dec n) = int n"
proof (induction n rule: dec.induct)
  case (1 n)
  show ?case
  proof (cases "n < 10")
    case True
    then show ?thesis by (simp add: dec.simps [of n] digits_val_def digit_of)
  next
    case False
    then have "digits_val (dec n) = 10 * int (n div 10) + int (n mod 10)"
      using 1 by (subst dec.simps) (simp add: digits_val_def digit_of)
    also have "\<dots> = int (10 * (n div 10) + n mod 10)" by (simp only: of_nat_add of_nat_mult of_nat_numeral)
    finally show ?thesis by (simp only: mult_div_mod_eq)
  qed
qed

lemma isdigit_not: "isdigit c \<Longrightarrow> \<not> isspace c \<and> c \<noteq> CHR ''-'' \<and> c \<noteq> CHR ''+'' \<and> c \<noteq> CHR ''x''"
  by (auto simp: isdigit_def isspace_def)

lemma dec_nonempty [simp]: "dec n \<noteq> []"
  by (subst dec.simps) simp

lemma strtoul_digits:
  assumes "\<forall>c\<in>set s. isdigit c" "s \<noteq> []" "digits_val s < 2 ^ 64"
  shows "strtoul s = of_int (digits_val s)"
proof -
  obtain c cs where s: "s = c # cs" using assms(2) by (cases s) auto
  have "takeWhile isdigit (c # cs) = c # cs" using assms(1) s by (simp only: takeWhile_eq_all_conv)
  moreover have "dropWhile isspace (c # cs) = c # cs" using assms(1) isdigit_not by (simp add: s)
  moreover have "c \<noteq> CHR ''-''" "c \<noteq> CHR ''+''" using assms(1) isdigit_not [of c] s by auto
  ultimately show ?thesis using assms(3) unfolding strtoul_def Let_def s by (simp del: takeWhile.simps dropWhile.simps takeWhile_eq_all_conv)
qed

lemma strtoul_dec: "n < 2 ^ 64 \<Longrightarrow> strtoul (dec n) = of_nat n"
  using strtoul_digits [OF dec_digits dec_nonempty] by (simp add: dec_value)

lemma strtok_first:
  assumes "t \<noteq> []" "d \<notin> set t"
  shows "strtok d (t @ d # r) = Some (t, r)" "strtok d t = Some (t, [])"
proof -
  obtain c cs where t: "t = c # cs" using assms(1) by (cases t) auto
  have drop: "dropWhile (\<lambda>c. c = d) (t @ u) = t @ u" for u using assms(2) by (auto simp: t)
  have "takeWhile (\<lambda>c. c \<noteq> d) (t @ d # r) = t" "dropWhile (\<lambda>c. c \<noteq> d) (t @ d # r) = d # r"
    using assms(2) by (simp_all add: takeWhile_append dropWhile_append takeWhile_eq_all_conv)
  moreover have "takeWhile (\<lambda>c. c \<noteq> d) t = t" "dropWhile (\<lambda>c. c \<noteq> d) t = []"
    using assms(2) by (auto simp: takeWhile_eq_all_conv dropWhile_eq_Nil_conv)
  ultimately show "strtok d (t @ d # r) = Some (t, r)" "strtok d t = Some (t, [])"
    using drop [of "d # r"] drop [of "[]"] assms(1)
    by (simp_all add: strtok_def del: dropWhile_eq_Nil_conv takeWhile_eq_all_conv)
qed

lemma strtok_None: "strtok d s = None \<longleftrightarrow> set s \<subseteq> {d}"
  by (auto simp: strtok_def Let_def dropWhile_eq_Nil_conv)

lemma dropWhile_replicate: "\<exists>n. s = replicate n d @ dropWhile (\<lambda>c. c = d) s"
  by (induction s) (auto intro: exI [of _ 0] exI [of _ "Suc n" for n])

text \<open>C40:
  Numbers are read as they are written: with the option \<open>-c n\<close>, \<open>-m n\<close> or \<open>-n XxY\<close>, each number in decimal notation
  and below \<open>2 ^ 64\<close>, the option stores these numbers and selects the organisation, and the options after
  it are read as if they stood alone.\<close>

theorem options_read_decimals:
  assumes "n < 2 ^ 64" "x < 2 ^ 64" "y < 2 ^ 64"
  shows "parse_options (Opt_c (dec n) # os) o1 = parse_options os (o1\<lparr>op_flag := SHRMEM, op_ncpu := of_nat n\<rparr>) \<and>
    parse_options (Opt_m (dec n) # os) o1 = parse_options os (o1\<lparr>op_memsz := of_nat n\<rparr>) \<and>
    parse_options (Opt_n (dec x @ ''x'' @ dec y) # os) o1 =
      parse_options os (o1\<lparr>op_flag := NET, op_x := of_nat x, op_y := of_nat y\<rparr>)"
proof -
  have d: "CHR ''x'' \<notin> set (dec k)" for k using dec_digits [of k] isdigit_not by blast
  have "strtok CHR ''x'' (dec x @ ''x'' @ dec y) = Some (dec x, dec y)" "strtok CHR ''x'' (dec y) = Some (dec y, [])"
    using strtok_first [OF dec_nonempty d] by simp_all
  then show ?thesis using assms by (simp add: strtoul_dec)
qed

theorem options_read_decimals_witness:
  "parse_options [Opt_n ''4x16'', Opt_m ''65536''] options0 =
     Some (Inr (options0\<lparr>op_flag := NET, op_x := 4, op_y := 16, op_memsz := 65536\<rparr>))"
proof -
  have "dec 4 = ''4''" "dec 16 = ''16''" "dec 65536 = ''65536''"
    by (simp_all add: dec.simps char_of_def bit_numeral_rec bit_Suc_0_iff)
  with options_read_decimals [of 65536 4 16 "[Opt_m ''65536'']" options0]
    options_read_decimals [of 65536 4 16 "[]" "options0\<lparr>op_flag := NET, op_x := 4, op_y := 16\<rparr>"]
  show ?thesis by simp
qed

text \<open>The argument of \<open>-n\<close> is read beyond the null pointer that \<open>strtok\<close> gives, which is undefined, exactly when
  it has fewer than two parts between the \<open>x\<close>s: the option does not check that both dimensions are there.\<close>

theorem mesh_option_undefined_iff:
  "parse_options [Opt_n a] o1 = None \<longleftrightarrow>
    (\<exists>i t j. a = replicate i CHR ''x'' @ t @ replicate j CHR ''x'' \<and> CHR ''x'' \<notin> set t)" (is "?l \<longleftrightarrow> ?r")
proof -
  define s where "s = dropWhile (\<lambda>c. c = CHR ''x'') a"
  define t where "t = takeWhile (\<lambda>c. c \<noteq> CHR ''x'') s"
  define r where "r = dropWhile (\<lambda>c. c \<noteq> CHR ''x'') s"
  obtain n where a: "a = replicate n CHR ''x'' @ s" using dropWhile_replicate [of a] unfolding s_def by blast
  have l: "?l \<longleftrightarrow> set r \<subseteq> {CHR ''x''}"
  proof -
    have "set (drop 1 r) \<subseteq> {CHR ''x''} \<longleftrightarrow> set r \<subseteq> {CHR ''x''}"
      using hd_dropWhile [of "\<lambda>c. c \<noteq> CHR ''x''" s] unfolding r_def [symmetric] by (cases r) auto
    moreover have "strtok CHR ''x'' a = (if s = [] then None else Some (t, drop 1 r))"
      by (simp add: strtok_def s_def t_def r_def Let_def)
    moreover have "s = [] \<Longrightarrow> r = []" by (simp add: r_def)
    moreover have "?l \<longleftrightarrow> s = [] \<or> strtok CHR ''x'' (drop 1 r) = None"
      using calculation(2) by (cases "strtok CHR ''x'' (drop 1 r)") (auto split: prod.splits)
    ultimately show ?thesis using strtok_None [of "CHR ''x''" "drop 1 r"] by auto
  qed
  have st: "s = t @ r" "CHR ''x'' \<notin> set t" by (auto simp: t_def r_def dest: set_takeWhileD)
  show ?thesis
  proof
    assume ?l
    then have "r = replicate (length r) CHR ''x''" using l by (intro replicate_eqI) auto
    then show ?r using a st by (metis append_assoc)
  next
    assume ?r
    then obtain i u j where u: "a = replicate i CHR ''x'' @ u @ replicate j CHR ''x''" "CHR ''x'' \<notin> set u" by blast
    have s: "s = dropWhile (\<lambda>c. c = CHR ''x'') (u @ replicate j CHR ''x'')"
      unfolding s_def u(1) by (subst dropWhile_append2) auto
    show ?l
    proof (cases "u = []")
      case True
      then have "s = []" unfolding s by (auto simp: dropWhile_eq_Nil_conv)
      then show ?thesis unfolding l by (simp add: r_def)
    next
      case False
      then have "s = u @ replicate j CHR ''x''" using u(2) unfolding s by (cases u) auto
      moreover have "dropWhile (\<lambda>c. c \<noteq> CHR ''x'') (u @ v) = dropWhile (\<lambda>c. c \<noteq> CHR ''x'') v" for v
        by (rule dropWhile_append2) (use u(2) in auto)
      ultimately have "r = dropWhile (\<lambda>c. c \<noteq> CHR ''x'') (replicate j CHR ''x'')" by (simp only: r_def)
      then show ?thesis unfolding l by (auto dest: set_dropWhileD)
    qed
  qed
qed

text \<open>When the command line and the file are good, \<open>psim\<close> exits with success exactly when the run ends in a defined way
  and the files can be written and closed: the value that the run returns, -1 when no system could be created,
  the program not be loaded or the network failed, has no influence on the exit status.\<close>

theorem exit_status_ignores_result:
  assumes "parse_options args options0 = Some (Inr o1)" "op_flag o1 \<noteq> NONE"
    and "elf_u32 elf 24 = Some entry" "mips_elf elf = Some True"
  shows "psim_main args (Some name) (Some elf) written closed cpu_ok al da nal io = Some (Some 0) \<longleftrightarrow> closed \<and>
    (if op_flag o1 = SHRMEM
     then \<exists>r s. ShrMem_run (op_ncpu o1) (op_memsz o1) (ucast entry) elf cpu_ok al io = Some (Some (r, s))
     else \<exists>r s. DstbMem_run (op_x o1) (op_y o1) (op_memsz o1) (ucast entry) elf da nal io = Some (Some (r, s)) \<and>
       (s = None \<or> written))"
  using assms by (auto simp: psim_main_def split: if_splits)

definition elf_header :: "u8 list" where
  "elf_header = [0x7F, 0x45, 0x4C, 0x46, 1, 1] @ replicate 10 0 @ [2, 0, 8, 0] @ replicate 32 0"

theorem exit_status_ignores_result_witness:
  "ShrMem_run 3 16 0 elf_header False (al16 3) no_io = Some (Some (-1, None)) \<and>
   psim_main [Opt_c ''3'', Opt_m ''16''] (Some ''a.out'') (Some elf_header) True True False (al16 3) da16 (\<lambda>_ _. None) no_io =
     Some (Some 0)"
proof -
  have run: "ShrMem_run 3 16 0 elf_header False (al16 3) no_io = Some (Some (-1, None))" by code_simp
  have opts: "parse_options [Opt_c ''3'', Opt_m ''16''] options0 =
      Some (Inr (options0\<lparr>op_flag := SHRMEM, op_ncpu := 3, op_memsz := 16\<rparr>))" by code_simp
  have "elf_u32 elf_header 24 = Some 0" "mips_elf elf_header = Some True" by code_simp+
  from exit_status_ignores_result [OF opts _ this, of "''a.out''" True True False "al16 3" da16 "\<lambda>_ _. None" no_io] run
  show ?thesis by simp
qed

end
