(* ===== verification/Report.thy ===== *)
theory Report
  imports Options
begin

text \<open>
  The performance reports (\<open>perfct\<close> of shrmem.c and of dstbmem.c): the name of the file and its text, a table of
  comma-separated values. The text is what the calls of \<open>dprintf\<close> write, one after the other, with the format
  strings of the code. Opening and closing the file is left out.
\<close>

section \<open>The name of the file\<close>

text \<open>\<open>basename\<close> of libgen.h.\<close>

definition basename :: "string \<Rightarrow> string" where
  "basename path = (if path = [] then ''.'' else
     let p = dropWhile (\<lambda>c. c = CHR ''/'') (rev path) in
     if p = [] then ''/'' else rev (takeWhile (\<lambda>c. c \<noteq> CHR ''/'') p))"

definition NAME_MAX :: nat where "NAME_MAX = 255"

text \<open>\<open>sprintf\<close> into an array of \<open>NAME_MAX\<close> characters, the final zero included.\<close>

definition perfct_name :: "string \<Rightarrow> string option" where
  "perfct_name progname = (let name = ''./perfct_'' @ basename progname @ ''.csv'' in
     if length name + 1 \<le> NAME_MAX then Some name else None)"

section \<open>The text\<close>

definition newline :: string where "newline = [CHR 0x0A]"

text \<open>\<open>dprintf\<close> with the conversions \<open>%u\<close> and \<open>%lu\<close>, which write a number in decimal notation; a missing argument
  is undefined.\<close>

fun dprintf :: "string \<Rightarrow> nat list \<Rightarrow> string option" where
  "dprintf [] ns = Some []"
| "dprintf (c # f) ns = (if c \<noteq> CHR ''%'' then map_option ((#) c) (dprintf f ns)
     else (case ns of
         [] \<Rightarrow> None
       | n # ns' \<Rightarrow>
          if take 1 f = ''u'' then map_option ((@) (dec n)) (dprintf (drop 1 f) ns')
          else if take 2 f = ''lu'' then map_option ((@) (dec n)) (dprintf (drop 2 f) ns')
          else None))"

text \<open>Calls, each with its format and its arguments.\<close>

fun writes :: "(string \<times> nat list) list \<Rightarrow> string option" where
  "writes [] = Some []"
| "writes ((f, ns) # cs) = do { t \<leftarrow> dprintf f ns; ts \<leftarrow> writes cs; Some (t @ ts) }"

text \<open>In the shared-memory report the column heads are written again for each processor.\<close>

definition shr_format :: string where
  "shr_format = ''id,'' @ ''cycles,'' @ ''loads,ld defer,'' @ ''stores,st defer,'' @ ''ll,ll defer,'' @ ''sc,sc defer,'' @
     ''rmwfail,'' @ ''ct0'' @ newline @ ''%u,'' @ ''%lu,'' @ ''%lu,%lu,'' @ ''%lu,%lu,'' @ ''%lu,%lu,'' @ ''%lu,%lu,'' @
     ''%lu,'' @ ''%lu'' @ newline"

definition shr_args :: "CPU \<Rightarrow> nat list" where
  "shr_args c = (let p = cpu_perfct c in
     [unat (cpu_gpr c ! regno K0), unat (pf_cycle p), unat (pf_ld p), unat (pf_lddefer p), unat (pf_st p),
      unat (pf_stdefer p), unat (pf_ll p), unat (pf_lldefer p), unat (pf_sc p), unat (pf_scdefer p),
      unat (pf_rmwfail p), unat (snd (pf_ct p ! 0))])"

definition shr_perfct :: "memctl \<Rightarrow> CPU list \<Rightarrow> string option" where
  "shr_perfct ctl cpus = writes ((''bus,%lu'' @ newline, [unat (Mem_busutil ctl)]) #
     map (\<lambda>c. (shr_format, shr_args c)) cpus)"

definition dstb_head :: string where
  "dstb_head = ''id,cycles,'' @ ''loads,ld defer,'' @ ''stores,st defer,'' @ ''ll,ll defer,'' @ ''sc,sc defer,'' @
     ''rmwfail,'' @ ''ct0,'' @ ''ninput,noutput,nalt,'' @ ''waitin,waitout,waitalt,'' @ ''hops,nmsg,'' @
     ''linkutil[in].north,linkutil[in].east,'' @ ''linkutil[in].south,linkutil[in].west,'' @
     ''linkutil[out].north,linkutil[out].east,'' @ ''linkutil[out].south,linkutil[out].west'' @ newline"

definition dstb_format :: string where
  "dstb_format = ''%u,%lu,'' @ ''%lu,%lu,'' @ ''%lu,%lu,'' @ ''%lu,%lu,'' @ ''%lu,%lu,%lu,'' @ ''%lu,'' @
     ''%lu,%lu,%lu,'' @ ''%lu,%lu,%lu,'' @ ''%lu,%lu''"

definition dstb_args :: "Node \<Rightarrow> nat list" where
  "dstb_args nd = (let c = nd_cpu nd; p = cpu_perfct c in
     [unat (cpu_gpr c ! regno K0), unat (pf_cycle p), unat (pf_ld p), unat (pf_lddefer p), unat (pf_st p),
      unat (pf_stdefer p), unat (pf_ll p), unat (pf_lldefer p), unat (pf_sc p), unat (pf_scdefer p),
      unat (pf_rmwfail p), unat (snd (pf_ct p ! 0)), unat (pf_nin p), unat (pf_nout p), unat (pf_nalt p),
      unat (pf_waitin p), unat (pf_waitout p), unat (pf_waitalt p), unat (get_sel COP2_MSG_HOPS nd),
      unat (get_sel COP2_MSG_NMSG nd)])"

text \<open>The calls for one node: its counters, the two loops over the links, the end of the line.\<close>

definition dstb_calls :: "Node \<Rightarrow> (string \<times> nat list) list" where
  "dstb_calls nd = (dstb_format, dstb_args nd) #
     concat (map (\<lambda>j. map (\<lambda>k. ('',%lu'', [unat (nd_linkutil nd j k)])) link_names) [LINK_IN, LINK_OUT]) @ [(newline, [])]"

definition dstb_perfct :: "Net \<Rightarrow> string option" where
  "dstb_perfct net = writes ((dstb_head, []) # (''net,%lu'' @ newline, [unat (net_cycle net)]) #
     concat (map (\<lambda>i. dstb_calls (net_nd net ! i)) [0..<unat (net_size net)]))"

section \<open>Reading the table\<close>

fun split_at :: "char \<Rightarrow> string \<Rightarrow> string list" where
  "split_at d [] = [[]]"
| "split_at d (c # cs) = (if c = d then [] # split_at d cs
     else case split_at d cs of [] \<Rightarrow> [[c]] | w # ws \<Rightarrow> (c # w) # ws)"

definition read_csv :: "string \<Rightarrow> string list list" where
  "read_csv text = map (split_at CHR '','') (split_at CHR 0x0A text)"

lemma split_at_word: "d \<notin> set w \<Longrightarrow> split_at d w = [w]"
  by (induction w) auto

lemma split_at_append: "d \<notin> set w \<Longrightarrow> split_at d (w @ d # s) = w # split_at d s"
  by (induction w) auto

lemma digit_no_separator: "CHR '','' \<notin> set (dec n)" "CHR 0x0A \<notin> set (dec n)"
  using dec_digits [of n] by (auto simp: isdigit_def)

lemma split_at_cons: "split_at d s = hd (split_at d s) # tl (split_at d s)"
  by (induction s) (auto split: list.splits)

text \<open>A cell is read when its end is: a comma, or the end of the line.\<close>

fun add_cell :: "string \<Rightarrow> string list list \<Rightarrow> string list list" where
  "add_cell w [] = [[w]]"
| "add_cell w (l # ls) = (w # l) # ls"

lemma read_cell:
  assumes "CHR '','' \<notin> set w" "CHR 0x0A \<notin> set w"
  shows "read_csv (w @ CHR '','' # s) = add_cell w (read_csv s)"
proof -
  obtain l ls where s: "split_at CHR 0x0A s = l # ls" using split_at_cons by blast
  have "split_at CHR 0x0A (w @ CHR '','' # s) = (w @ CHR '','' # l) # ls"
    using assms(2) s by (induction w) auto
  then show ?thesis using s assms(1) by (simp add: read_csv_def split_at_append)
qed

lemma read_end:
  assumes "CHR '','' \<notin> set w" "CHR 0x0A \<notin> set w"
  shows "read_csv (w @ CHR 0x0A # s) = [w] # read_csv s"
  using assms by (simp add: read_csv_def split_at_append split_at_word)

lemmas read_numbers = read_cell [OF digit_no_separator] read_end [OF digit_no_separator]

text \<open>A line of heads.\<close>

lemma read_line:
  assumes "CHR 0x0A \<notin> set l"
  shows "read_csv (l @ newline @ text) = split_at CHR '','' l # read_csv text"
  using assms by (simp add: read_csv_def newline_def split_at_append)

lemma writes_append: "writes (cs @ ds) = do { t \<leftarrow> writes cs; ts \<leftarrow> writes ds; Some (t @ ts) }"
  by (induction cs rule: writes.induct) (auto simp: bind_assoc split: Option.bind_splits)

lemma dprintf_plain: "CHR ''%'' \<notin> set f \<Longrightarrow> dprintf f ns = Some f"
  by (induction f) auto

lemma strtoul_word: "strtoul (dec (unat w)) = w" for w :: u64
  using strtoul_dec [of "unat w"] unsigned_less [of w, where ?'a = nat] by simp

lemma strtoul_word32: "strtoul (dec (unat w)) = ucast w" for w :: u32
proof -
  have "unat w < 2 ^ 64" by (rule less_trans [OF unsigned_less]) simp
  then show ?thesis using strtoul_dec [of "unat w"] by simp
qed

section \<open>The properties\<close>

text \<open>What each column is to contain.\<close>

definition cpu_counters :: "CPU \<Rightarrow> (string \<times> u64) list" where
  "cpu_counters c = (let p = cpu_perfct c in
     [(''id'', ucast (cpu_gpr c ! regno K0)), (''cycles'', pf_cycle p), (''loads'', pf_ld p), (''ld defer'', pf_lddefer p),
      (''stores'', pf_st p), (''st defer'', pf_stdefer p), (''ll'', pf_ll p), (''ll defer'', pf_lldefer p),
      (''sc'', pf_sc p), (''sc defer'', pf_scdefer p), (''rmwfail'', pf_rmwfail p), (''ct0'', snd (pf_ct p ! 0))])"

definition node_counters :: "Node \<Rightarrow> (string \<times> u64) list" where
  "node_counters nd = (let p = cpu_perfct (nd_cpu nd) in cpu_counters (nd_cpu nd) @
     [(''ninput'', pf_nin p), (''noutput'', pf_nout p), (''nalt'', pf_nalt p), (''waitin'', pf_waitin p),
      (''waitout'', pf_waitout p), (''waitalt'', pf_waitalt p), (''hops'', ucast (get_sel COP2_MSG_HOPS nd)),
      (''nmsg'', ucast (get_sel COP2_MSG_NMSG nd)), (''linkutil[in].north'', nd_linkutil nd LINK_IN LINK_NORTH),
      (''linkutil[in].east'', nd_linkutil nd LINK_IN LINK_EAST), (''linkutil[in].south'', nd_linkutil nd LINK_IN LINK_SOUTH),
      (''linkutil[in].west'', nd_linkutil nd LINK_IN LINK_WEST), (''linkutil[out].north'', nd_linkutil nd LINK_OUT LINK_NORTH),
      (''linkutil[out].east'', nd_linkutil nd LINK_OUT LINK_EAST), (''linkutil[out].south'', nd_linkutil nd LINK_OUT LINK_SOUTH),
      (''linkutil[out].west'', nd_linkutil nd LINK_OUT LINK_WEST)])"

text \<open>The line of a node.\<close>

definition line_of :: "(string \<times> u64) list \<Rightarrow> string list" where
  "line_of cs = map (\<lambda>(h, v). dec (unat v)) cs"

lemma unat_ucast64: "unat (ucast w :: u64) = unat w" for w :: u32
  by (simp add: unsigned_ucast_eq take_bit_nat_eq_self less_trans [OF unsigned_less])

lemma dstb_line:
  "\<exists>t. writes (dstb_calls nd) = Some t \<and> (\<forall>text. read_csv (t @ text) = line_of (node_counters nd) # read_csv text)"
  by (simp add: dstb_calls_def dstb_format_def dstb_args_def Let_def link_names_def newline_def read_numbers
      line_of_def node_counters_def cpu_counters_def unat_ucast64)

lemma dstb_lines:
  "\<exists>t. writes (concat (map (\<lambda>x. dstb_calls (f x)) xs)) = Some t \<and>
     read_csv t = map (\<lambda>x. line_of (node_counters (f x))) xs @ [[[]]]"
proof (induction xs)
  case Nil
  show ?case by (simp add: read_csv_def)
next
  case (Cons x xs)
  then obtain t where t: "writes (concat (map (\<lambda>x. dstb_calls (f x)) xs)) = Some t"
    "read_csv t = map (\<lambda>x. line_of (node_counters (f x))) xs @ [[[]]]" by blast
  obtain u where "writes (dstb_calls (f x)) = Some u" "read_csv (u @ t) = line_of (node_counters (f x)) # read_csv t"
    using dstb_line by blast
  with t show ?case by (simp add: writes_append)
qed

text \<open>The first two lines of the report of the distributed system.\<close>

definition column_heads :: "string list" where
  "column_heads = split_at CHR '','' (butlast dstb_head)"

lemma column_heads: "map fst (node_counters nd) = column_heads"
  by (simp add: column_heads_def dstb_head_def node_counters_def cpu_counters_def Let_def newline_def)

lemma zip_line: "zip (map fst cs) (map strtoul (line_of cs)) = cs"
  by (induction cs) (auto simp: line_of_def strtoul_word)

lemma dstb_first_lines:
  "\<exists>u. writes [(dstb_head, []), (''net,%lu'' @ newline, [unat (net_cycle net)])] = Some u \<and>
     (\<forall>t. read_csv (u @ t) = column_heads # [''net'', dec (unat (net_cycle net))] # read_csv t)"
proof -
  define head where "head = butlast dstb_head"
  have h: "dstb_head = head @ newline" "CHR 0x0A \<notin> set head" "CHR ''%'' \<notin> set dstb_head"
    by (simp_all add: head_def dstb_head_def newline_def)
  have "writes [(dstb_head, []), (''net,%lu'' @ newline, [unat (net_cycle net)])] =
      Some (head @ newline @ ''net,'' @ dec (unat (net_cycle net)) @ newline)"
    using h(1,3) by (simp add: dprintf_plain) (simp add: newline_def)
  moreover have "read_csv (''net,'' @ dec (unat (net_cycle net)) @ newline @ t) =
      [''net'', dec (unat (net_cycle net))] # read_csv t" for t
    using read_cell [of "''net''" "dec (unat (net_cycle net)) @ newline @ t"] by (simp add: newline_def read_numbers)
  ultimately show ?thesis using read_line [OF h(2)] by (simp add: column_heads_def head_def)
qed

text \<open>The same for the report of the shared-memory system.\<close>

lemma shr_line:
  "\<exists>u. dprintf shr_format (shr_args c) = Some u \<and>
     (\<forall>text. read_csv (u @ text) = map fst (cpu_counters c) # line_of (cpu_counters c) # read_csv text)"
proof -
  define head where "head = ''id,cycles,loads,ld defer,stores,st defer,ll,ll defer,sc,sc defer,rmwfail,ct0''"
  have h: "CHR 0x0A \<notin> set head" "split_at CHR '','' head = map fst (cpu_counters c)"
    by (simp_all add: head_def cpu_counters_def Let_def)
  have "\<exists>u. dprintf shr_format (shr_args c) = Some (head @ newline @ u) \<and>
      (\<forall>text. read_csv (u @ text) = line_of (cpu_counters c) # read_csv text)"
    by (simp add: shr_format_def shr_args_def Let_def newline_def read_numbers line_of_def cpu_counters_def unat_ucast64 head_def)
  then show ?thesis using read_line [OF h(1)] h(2) by force
qed

lemma shr_lines:
  "\<exists>t. writes (map (\<lambda>c. (shr_format, shr_args c)) cpus) = Some t \<and>
     read_csv t = concat (map (\<lambda>c. [map fst (cpu_counters c), line_of (cpu_counters c)]) cpus) @ [[[]]]"
proof (induction cpus)
  case Nil
  show ?case by (simp add: read_csv_def)
next
  case (Cons c cpus)
  have "\<exists>u. dprintf shr_format (shr_args c) = Some u \<and>
      (\<forall>text. read_csv (u @ text) = map fst (cpu_counters c) # line_of (cpu_counters c) # read_csv text)"
    using shr_line by blast
  then show ?case using Cons by fastforce
qed

text \<open>C39: the report of the distributed system, the text that its calls of \<open>dprintf\<close> write with
  their format strings, is a table: a line of column heads, the line of the network's cycles, and a line for each
  node with one number under each head, the counter that the head names. Nothing follows the last node.\<close>

theorem dstb_perfct_reads_back:
  "\<exists>text. dstb_perfct net = Some text \<and>
    (let table = read_csv text; heads = hd table; n = unat (net_size net) in
      table ! 1 = [''net'', dec (unat (net_cycle net))] \<and>
      map (\<lambda>line. zip heads (map strtoul line)) (take n (drop 2 table)) = map (\<lambda>i. node_counters (net_nd net ! i)) [0..<n] \<and>
      map length (take n (drop 2 table)) = replicate n (length heads) \<and> drop (n + 2) table = [[[]]])"
proof -
  let ?n = "unat (net_size net)" and ?lines = "map (\<lambda>i. line_of (node_counters (net_nd net ! i))) [0..<unat (net_size net)]"
  obtain t where t: "writes (concat (map (\<lambda>i. dstb_calls (net_nd net ! i)) [0..<?n])) = Some t"
    "read_csv t = ?lines @ [[[]]]" using dstb_lines by blast
  obtain u where u: "writes [(dstb_head, []), (''net,%lu'' @ newline, [unat (net_cycle net)])] = Some u"
    "read_csv (u @ t) = column_heads # [''net'', dec (unat (net_cycle net))] # read_csv t" using dstb_first_lines by blast
  have "dstb_perfct net = writes ([(dstb_head, []), (''net,%lu'' @ newline, [unat (net_cycle net)])] @
      concat (map (\<lambda>i. dstb_calls (net_nd net ! i)) [0..<?n]))" by (simp only: dstb_perfct_def append.simps)
  then have "dstb_perfct net = Some (u @ t)" by (simp only: writes_append u(1) t(1) Option.bind.simps)
  moreover have "zip column_heads (map strtoul (line_of (node_counters nd))) = node_counters nd"
    "length (line_of (node_counters nd)) = length column_heads" for nd
    by (simp_all only: zip_line flip: column_heads [of nd]) (simp add: line_of_def)
  ultimately show ?thesis using u(2) t(2) by (simp add: Let_def comp_def map_replicate_const)
qed

text \<open>The report of the shared-memory system: the line of the bus, then for each processor the heads again and
  its counters under them.\<close>

theorem shr_perfct_reads_back:
  "\<exists>text. shr_perfct ctl cpus = Some text \<and> read_csv text = [''bus'', dec (unat (Mem_busutil ctl))] #
     concat (map (\<lambda>c. [map fst (cpu_counters c), line_of (cpu_counters c)]) cpus) @ [[[]]]"
proof -
  obtain t where t: "writes (map (\<lambda>c. (shr_format, shr_args c)) cpus) = Some t"
    "read_csv t = concat (map (\<lambda>c. [map fst (cpu_counters c), line_of (cpu_counters c)]) cpus) @ [[[]]]"
    using shr_lines by blast
  have "read_csv (''bus,'' @ dec n @ newline @ t) = [''bus'', dec n] # read_csv t" for n
    using read_cell [of "''bus''" "dec n @ newline @ t"] by (simp add: newline_def read_numbers)
  moreover have "dprintf (''bus,%lu'' @ newline) [n] = Some (''bus,'' @ dec n @ newline)" for n
    by (simp add: newline_def)
  ultimately show ?thesis using t unfolding shr_perfct_def writes.simps by simp
qed

text \<open>The name of the report overflows its buffer exactly when the name of the program has more than 241 characters,
  which the file system allows.\<close>

theorem perfct_name_overflows_iff:
  "perfct_name progname = None \<longleftrightarrow> 242 \<le> length (basename progname)"
  by (auto simp: perfct_name_def Let_def NAME_MAX_def)

end
