(* ===== verification/Count.thy ===== *)
theory Count
  imports Prelude
begin

text \<open>
  Sums over the processes of a program and how many of them are at a place: what one step, which moves one process,
  does to the count. The invariants of the example programs are stated with them.
\<close>

lemma sum_change:
  fixes g :: "nat \<Rightarrow> int"
  assumes "i < N" "\<And>j. j < N \<Longrightarrow> j \<noteq> i \<Longrightarrow> h j = g j"
  shows "(\<Sum>j<N. h j) = (\<Sum>j<N. g j) - g i + h i"
proof -
  have "(\<Sum>j<N. h j) = h i + (\<Sum>j\<in>{..<N} - {i}. h j)" "(\<Sum>j<N. g j) = g i + (\<Sum>j\<in>{..<N} - {i}. g j)"
    using assms(1) by (simp_all add: sum.remove)
  moreover have "(\<Sum>j\<in>{..<N} - {i}. h j) = (\<Sum>j\<in>{..<N} - {i}. g j)"
    by (rule sum.cong) (use assms(2) in auto)
  ultimately show ?thesis by simp
qed

definition cnt :: "('a \<Rightarrow> bool) \<Rightarrow> 'a list \<Rightarrow> int" where
  "cnt f cs = (\<Sum>j<length cs. of_bool (f (cs ! j)))"

lemma cnt_update [simp]: "j < length cs \<Longrightarrow> cnt f (cs[j := c]) = cnt f cs - of_bool (f (cs ! j)) + of_bool (f c)"
  unfolding cnt_def length_list_update by (subst sum_change [of j _ _ "\<lambda>j. of_bool (f (cs ! j))"]) auto

lemma cnt_bounds: "0 \<le> cnt f cs" "cnt f cs \<le> int (length cs)"
proof -
  show "0 \<le> cnt f cs" by (simp add: cnt_def sum_nonneg)
  have "cnt f cs \<le> (\<Sum>j<length cs. 1)" unfolding cnt_def by (rule sum_mono) simp
  then show "cnt f cs \<le> int (length cs)" by simp
qed

lemma cnt_pos: "j < length cs \<Longrightarrow> f (cs ! j) \<Longrightarrow> 1 \<le> cnt f cs"
  unfolding cnt_def using member_le_sum [of j "{..<length cs}" "\<lambda>j. of_bool (f (cs ! j)) :: int"] by simp

lemma cnt_le: "(\<And>c. f c \<Longrightarrow> g c) \<Longrightarrow> cnt f cs \<le> cnt g cs"
  unfolding cnt_def by (rule sum_mono) auto

lemma cnt_others:
  assumes "j < length cs" "f (cs ! j)" "\<not> g (cs ! j)" "\<And>c. g c \<Longrightarrow> f c"
  shows "cnt g cs + 1 \<le> cnt f cs"
proof -
  have "cnt g cs + cnt (\<lambda>c. f c \<and> \<not> g c) cs = cnt f cs"
    unfolding cnt_def sum.distrib [symmetric] by (rule sum.cong) (use assms(4) in auto)
  moreover have "1 \<le> cnt (\<lambda>c. f c \<and> \<not> g c) cs" using assms(1-3) by (intro cnt_pos) auto
  ultimately show ?thesis by simp
qed

lemma cnt_replicate: "\<not> f c \<Longrightarrow> cnt f (replicate n c) = 0"
  by (simp add: cnt_def)

lemma cnt_all: "(\<And>j. j < length cs \<Longrightarrow> f (cs ! j)) \<Longrightarrow> cnt f cs = int (length cs)"
  by (simp add: cnt_def)

lemma cnt_none: "(\<And>j. j < length cs \<Longrightarrow> \<not> f (cs ! j)) \<Longrightarrow> cnt f cs = 0"
  by (simp add: cnt_def)

lemma cnt_0: "cnt f cs = 0 \<longleftrightarrow> (\<forall>c\<in>set cs. \<not> f c)"
  unfolding cnt_def by (subst sum_nonneg_eq_0_iff) (auto simp: all_set_conv_all_nth)

end
