(* ===== verification/Ring.thy ===== *)
theory Ring
  imports Prelude
begin

text \<open>
  The ring buffers of the producer-consumer programs (\<open>enqueue\<close> and \<open>dequeue\<close> in examples/src/): the items in
  the order in which they will be taken, and the queue as an interface for the programs that keep one.
\<close>

section \<open>Lists in a ring\<close>

text \<open>The waiting items, first to be taken first.\<close>

definition ring_list :: "nat \<Rightarrow> int list \<Rightarrow> nat \<Rightarrow> nat \<Rightarrow> int list" where
  "ring_list M buf h n = map (\<lambda>k. buf ! ((h + k) mod M)) [0..<n]"

lemma ring_list_put:
  assumes "n < length buf" "length buf = M"
  shows "ring_list M (buf[(h + n) mod M := x]) h (Suc n) = ring_list M buf h n @ [x]"
proof -
  have "buf[(h + n) mod M := x] ! ((h + k) mod M) = buf ! ((h + k) mod M)" if "k \<in> set [0..<n]" for k
    using add_mod_inj [of k M n h] that assms by (simp add: nth_list_update_neq)
  then have "ring_list M (buf[(h + n) mod M := x]) h n = ring_list M buf h n"
    unfolding ring_list_def by (rule map_cong [OF refl])
  moreover have "(h + n) mod M < length buf" using assms by (metis less_nat_zero_code mod_less_divisor neq0_conv)
  ultimately show ?thesis by (simp add: ring_list_def)
qed

lemma ring_list_take:
  assumes "0 < n" "h < M"
  shows "ring_list M buf h n = buf ! h # ring_list M buf ((h + 1) mod M) (n - 1)"
proof -
  obtain m where n: "n = Suc m" using assms(1) by (cases n) auto
  have "map (\<lambda>k. buf ! ((h + Suc k) mod M)) [0..<m] = map (\<lambda>k. buf ! (((h + 1) mod M + k) mod M)) [0..<m]"
    by (simp add: mod_add_left_eq)
  then show ?thesis using assms(2) unfolding n ring_list_def upt_conv_Cons [OF zero_less_Suc] 
    by (simp add: map_Suc_upt [symmetric] comp_def del: upt_Suc)
qed

definition pow2 :: "nat \<Rightarrow> bool" where
  "pow2 M \<longleftrightarrow> (\<exists>k. M = 2 ^ k)"

lemma pow2_mask: "pow2 M \<Longrightarrow> n AND (M - 1) = n mod M"
  by (auto simp: pow2_def take_bit_eq_mod [symmetric] take_bit_eq_mask mask_eq_exp_minus_1)

section \<open>The ring of the programs with a buffer process\<close>

text \<open>\<open>ct\<close>, \<open>hd\<close>, \<open>tl\<close> and \<open>buf\<close> of d_producer-consumer.c and d_producer-consumerv2.c.\<close>

record ring =
  rg_ct :: int
  rg_hd :: nat
  rg_tl :: nat
  rg_buf :: "int list"

definition d_enqueue :: "nat \<Rightarrow> int \<Rightarrow> ring \<Rightarrow> ring" where
  "d_enqueue M item r = r\<lparr>rg_buf := (rg_buf r)[rg_tl r := item], rg_tl := (rg_tl r + 1) AND (M - 1), rg_ct := rg_ct r + 1\<rparr>"

definition d_dequeue :: "nat \<Rightarrow> ring \<Rightarrow> int \<times> ring" where
  "d_dequeue M r = (rg_buf r ! rg_hd r, r\<lparr>rg_hd := (rg_hd r + 1) AND (M - 1), rg_ct := rg_ct r - 1\<rparr>)"

definition ring0 :: "nat \<Rightarrow> ring" where
  "ring0 M = \<lparr>rg_ct = 0, rg_hd = 0, rg_tl = 0, rg_buf = replicate M 0\<rparr>"

definition ring_items :: "nat \<Rightarrow> ring \<Rightarrow> int list" where
  "ring_items M r = ring_list M (rg_buf r) (rg_hd r) (nat (rg_ct r))"

definition ring_wf :: "nat \<Rightarrow> ring \<Rightarrow> bool" where
  "ring_wf M r \<longleftrightarrow> pow2 M \<and> 0 \<le> rg_ct r \<and> rg_ct r \<le> int M \<and> length (rg_buf r) = M \<and> rg_hd r < M \<and>
     rg_tl r = (rg_hd r + nat (rg_ct r)) mod M"

lemma length_ring_items: "length (ring_items M r) = nat (rg_ct r)"
  by (simp add: ring_items_def ring_list_def)

lemma ct_enqueue [simp]: "rg_ct (d_enqueue M x r) = rg_ct r + 1"
  and ct_dequeue [simp]: "rg_ct (snd (d_dequeue M r)) = rg_ct r - 1"
  by (simp_all add: d_enqueue_def d_dequeue_def)

lemma ring0_wf: "pow2 M \<Longrightarrow> ring_wf M (ring0 M)" "ring_items M (ring0 M) = []"
  by (auto simp: ring_wf_def ring0_def pow2_def ring_items_def ring_list_def)

section \<open>The interface: a bounded queue\<close>

locale channel =
  fixes put :: "'a \<Rightarrow> 'c \<Rightarrow> 'c" and get :: "'c \<Rightarrow> 'a \<times> 'c" and items :: "'c \<Rightarrow> 'a list" and valid :: "'c \<Rightarrow> bool"
    and bound :: nat
  assumes put: "valid c \<Longrightarrow> length (items c) < bound \<Longrightarrow> valid (put x c) \<and> items (put x c) = items c @ [x]"
    and get: "valid c \<Longrightarrow> items c \<noteq> [] \<Longrightarrow> items c = fst (get c) # items (snd (get c)) \<and> valid (snd (get c))"
    and bounded: "valid c \<Longrightarrow> length (items c) \<le> bound"
begin

text \<open>What has been taken, followed by what is queued, is what was sent.\<close>

lemma order_put:
  assumes "valid c" "length (items c) < bound" "got @ items c = sent"
  shows "got @ items (put x c) = sent @ [x]"
  using put [OF assms(1,2)] assms(3) by simp

lemma order_get:
  assumes "valid c" "items c \<noteq> []" "got @ items c = sent"
  shows "(got @ [fst (get c)]) @ items (snd (get c)) = sent"
  using get [OF assms(1,2)] assms(3) by simp

lemma get_sent:
  assumes "valid c" "items c \<noteq> []" "got @ items c = sent"
  shows "fst (get c) \<in> set sent"
  using get [OF assms(1,2)] assms(3) by (metis in_set_conv_decomp list.set_intros(1) Un_iff set_append)

end

interpretation rq: channel "d_enqueue M" "d_dequeue M" "ring_items M" "ring_wf M" M for M
proof
  fix r x assume wf: "ring_wf M r" and room: "length (ring_items M r) < M"
  have r: "pow2 M" "0 \<le> rg_ct r" "length (rg_buf r) = M" "rg_tl r = (rg_hd r + nat (rg_ct r)) mod M"
    using wf by (simp_all add: ring_wf_def)
  have n: "nat (rg_ct r + 1) = Suc (nat (rg_ct r))" "nat (rg_ct r) < length (rg_buf r)"
    using r(2,3) room by (simp_all add: length_ring_items)
  have "ring_items M (d_enqueue M x r) = ring_items M r @ [x]"
    using ring_list_put [OF n(2) r(3), of "rg_hd r" x] r(4) by (simp add: ring_items_def d_enqueue_def n(1))
  moreover have "ring_wf M (d_enqueue M x r)"
    using wf n r(3) room by (simp add: ring_wf_def d_enqueue_def pow2_mask [OF r(1), unfolded One_nat_def] mod_Suc_eq)
  ultimately show "ring_wf M (d_enqueue M x r) \<and> ring_items M (d_enqueue M x r) = ring_items M r @ [x]" by simp
next
  fix r assume wf: "ring_wf M r" and some: "ring_items M r \<noteq> []"
  have r: "pow2 M" "rg_hd r < M" "rg_tl r = (rg_hd r + nat (rg_ct r)) mod M" using wf by (simp_all add: ring_wf_def)
  have n: "0 < nat (rg_ct r)" using some length_ring_items [of M r] by (metis length_greater_0_conv)
  have n': "nat (rg_ct r - 1) = nat (rg_ct r) - 1" by simp
  have h: "rg_hd (snd (d_dequeue M r)) = (rg_hd r + 1) mod M"
    by (simp add: d_dequeue_def pow2_mask [OF r(1), unfolded One_nat_def])
  have "ring_items M r = fst (d_dequeue M r) # ring_items M (snd (d_dequeue M r))"
    using ring_list_take [OF n r(2), of "rg_buf r"] h by (simp add: ring_items_def d_dequeue_def n')
  moreover have "((rg_hd r + 1) mod M + (nat (rg_ct r) - 1)) mod M = (rg_hd r + 1 + (nat (rg_ct r) - 1)) mod M"
    by (rule mod_add_left_eq)
  then have "ring_wf M (snd (d_dequeue M r))"
    using wf n h unfolding ring_wf_def by (simp add: d_dequeue_def n' del: One_nat_def)
  ultimately show "ring_items M r = fst (d_dequeue M r) # ring_items M (snd (d_dequeue M r)) \<and> ring_wf M (snd (d_dequeue M r))"
    by simp
qed (auto simp: ring_wf_def length_ring_items)

end
