(* ===== verification/Sem.thy ===== *)
theory Sem
  imports LLSC Count
begin

text \<open>
  The semaphores of the example programs (examples/src/libsem, Sem_P.s and Sem_V.s): the two spin loops
  around LL and SC, run by any number of processors on a shared memory while other processors do
  other things with it. The instructions between LL and SC work on registers only, so they are part of
  the step of the LL.
\<close>

section \<open>The two routines\<close>

datatype semop = Sem_P | Sem_V

text \<open>Where a processor stands in a routine: before its LL, or before the SC with the new value in \<open>$t0\<close>.\<close>

datatype semloc = AT_LL | AT_SC u32

text \<open>From the loaded value to the SC, or back to the LL.\<close>

fun sem_next :: "semop \<Rightarrow> u32 \<Rightarrow> semloc" where
  "sem_next Sem_P w = (let t0 = w - 1 in if sint t0 < 0 then AT_LL else AT_SC t0)"
| "sem_next Sem_V w = AT_SC (w + 1)"

text \<open>The shared memory, and for each processor the routine it is in with the address of the semaphore.\<close>

record semsys =
  ss_mem :: Mem
  ss_ctl :: memctl
  ss_at :: "u32 \<Rightarrow> (semop \<times> u64 \<times> semloc) option"

text \<open>An action: a processor calls a routine, runs its routine up to the next access of the memory,
  or does an access of its own. The outcome has the routine that came to its end, if any.\<close>

datatype semact = Call u32 semop u64 | Run u32 | Other u32 memop

fun by_proc :: "u32 \<Rightarrow> memop \<Rightarrow> bool" where
  "by_proc p (OpLL q a) = (q = p)"
| "by_proc p (OpSC q a v) = (q = p)"
| "by_proc p _ = True"

definition set_at :: "u32 \<Rightarrow> (semop \<times> u64 \<times> semloc) option \<Rightarrow> Mem \<Rightarrow> memctl \<Rightarrow> semsys \<Rightarrow> semsys" where
  "set_at p r m c s = s\<lparr>ss_mem := m, ss_ctl := c, ss_at := (ss_at s)(p := r)\<rparr>"

text \<open>A failing access leaves the processor at its instruction.\<close>

definition run_ll :: "u32 \<Rightarrow> semop \<Rightarrow> u64 \<Rightarrow> semsys \<Rightarrow> semsys option" where
  "run_ll p f a s = (case Mem_ll (ss_mem s) (ss_ctl s) p a of
       None \<Rightarrow> None
     | Some (Inr w, c) \<Rightarrow> Some (set_at p (Some (f, a, sem_next f w)) (ss_mem s) c s)
     | Some (Inl e, c) \<Rightarrow> Some (set_at p (Some (f, a, AT_LL)) (ss_mem s) c s))"

definition run_sc :: "u32 \<Rightarrow> semop \<Rightarrow> u64 \<Rightarrow> u32 \<Rightarrow> semsys \<Rightarrow> ((semop \<times> u64) option \<times> semsys) option" where
  "run_sc p f a v s = (case Mem_sc (ss_mem s) (ss_ctl s) p a v of
       None \<Rightarrow> None
     | Some (r, m, c) \<Rightarrow>
         if r = OK then Some (Some (f, a), set_at p None m c s)
         else Some (None, set_at p (Some (f, a, if r = E EAGAIN then AT_LL else AT_SC v)) m c s))"

fun sem_step :: "semact \<Rightarrow> semsys \<Rightarrow> ((semop \<times> u64) option \<times> semsys) option" where
  "sem_step (Call p f a) s = (case ss_at s p of
       Some r \<Rightarrow> None
     | None \<Rightarrow> Some (None, set_at p (Some (f, a, AT_LL)) (ss_mem s) (ss_ctl s) s))"
| "sem_step (Run p) s = (case ss_at s p of
       None \<Rightarrow> None
     | Some (f, a, AT_LL) \<Rightarrow> map_option (Pair None) (run_ll p f a s)
     | Some (f, a, AT_SC v) \<Rightarrow> run_sc p f a v s)"
| "sem_step (Other p op) s = (if ss_at s p \<noteq> None \<or> \<not> by_proc p op then None
     else map_option (\<lambda>(m, c). (None, s\<lparr>ss_mem := m, ss_ctl := c\<rparr>)) (mem_step op (ss_mem s, ss_ctl s)))"

fun sem_run :: "semact list \<Rightarrow> semsys \<Rightarrow> ((semop \<times> u64) list \<times> semsys) option" where
  "sem_run [] s = Some ([], s)"
| "sem_run (act # acts) s = do {
     (ev, s1) \<leftarrow> sem_step act s;
     (evs, s2) \<leftarrow> sem_run acts s1;
     Some ((case ev of None \<Rightarrow> evs | Some e \<Rightarrow> e # evs), s2)
   }"

section \<open>The reservation guards the loaded value\<close>

text \<open>What is known of a word while a processor holds its reservation stays true.\<close>

context reservation_memory
begin

lemma step_guards:
  assumes "inv s" "step op s = Some s'" "keeps op p a" "reserved s p a \<longrightarrow> R (word_at s a)"
  shows "reserved s' p a \<longrightarrow> R (word_at s' a)"
  using step_reserved [OF assms(1-3)] assms(4) by auto

end

definition ss_shr :: "semsys \<Rightarrow> Mem \<times> memctl" where
  "ss_shr s = (ss_mem s, ss_ctl s)"

definition guarded :: "u64 \<Rightarrow> semsys \<Rightarrow> u32 \<Rightarrow> bool" where
  "guarded a s p \<longleftrightarrow> (\<forall>f v. ss_at s p = Some (f, a, AT_SC v) \<longrightarrow> holds_res (ss_shr s) p a \<longrightarrow>
     (\<exists>w. word_in (ss_shr s) a = Some w \<and> sem_next f w = AT_SC v))"

definition sem_inv :: "u64 \<Rightarrow> semsys \<Rightarrow> bool" where
  "sem_inv a s \<longleftrightarrow> shr_inv (ss_shr s) \<and> word_ok (ss_mem s) a \<and> (\<forall>p. guarded a s p)"

text \<open>The accesses that leave the semaphore's word alone.\<close>

fun spares :: "u64 \<Rightarrow> semact \<Rightarrow> bool" where
  "spares a (Other p (OpSW b v)) = (b \<noteq> a)"
| "spares a (Other p (OpSC q b v)) = (b \<noteq> a)"
| "spares a (Other p (OpSB b v)) = (drop_bit 2 b \<noteq> drop_bit 2 a)"
| "spares a _ = True"

definition sem_word :: "u64 \<Rightarrow> semsys \<Rightarrow> u32" where
  "sem_word a s = the (word_in (ss_shr s) a)"

fun actor :: "semact \<Rightarrow> u32" where
  "actor (Call p f a) = p"
| "actor (Run p) = p"
| "actor (Other p op) = p"

lemma set_at_parts [simp]:
  "ss_mem (set_at p r m c s) = m" "ss_ctl (set_at p r m c s) = c" "ss_at (set_at p r m c s) = (ss_at s)(p := r)"
  "ss_shr (set_at p r m c s) = (m, c)"
  by (simp_all add: set_at_def ss_shr_def)

text \<open>An action is one access of the memory at most, and it concerns its own processor only.\<close>

lemma sem_step_access:
  assumes "sem_step act s = Some (ev, s')"
  shows "ss_shr s' = ss_shr s \<or> (\<exists>op. mem_step op (ss_shr s) = Some (ss_shr s') \<and>
      (spares a act \<longrightarrow> (\<forall>q. q \<noteq> actor act \<longrightarrow> quiet op q a)))"
    and "q \<noteq> actor act \<Longrightarrow> ss_at s' q = ss_at s q"
proof -
  show "ss_shr s' = ss_shr s \<or> (\<exists>op. mem_step op (ss_shr s) = Some (ss_shr s') \<and>
      (spares a act \<longrightarrow> (\<forall>q. q \<noteq> actor act \<longrightarrow> quiet op q a)))"
  proof (cases act)
    case (Call p f b)
    then show ?thesis using assms by (auto simp: ss_shr_def split: option.splits)
  next
    case (Run p)
    then consider (ll) f b where "ss_at s p = Some (f, b, AT_LL)" "run_ll p f b s = Some s'"
      | (sc) f b v where "ss_at s p = Some (f, b, AT_SC v)" "run_sc p f b v s = Some (ev, s')"
      using assms by (auto split: option.splits prod.splits semloc.splits)
    then show ?thesis
    proof cases
      case ll
      then have "mem_step (OpLL p b) (ss_shr s) = Some (ss_shr s')"
        by (auto simp: run_ll_def ss_shr_def split: option.splits sum.splits)
      then show ?thesis using Run by (intro disjI2 exI [of _ "OpLL p b"]) auto
    next
      case sc
      then have "mem_step (OpSC p b v) (ss_shr s) = Some (ss_shr s')"
        by (auto simp: run_sc_def ss_shr_def split: option.splits if_splits)
      then show ?thesis using Run by (intro disjI2 exI [of _ "OpSC p b v"]) auto
    qed
  next
    case (Other p op)
    have "mem_step op (ss_shr s) = Some (ss_shr s')"
      using assms Other by (auto simp: ss_shr_def split: if_splits)
    moreover have "by_proc p op" using assms Other by (auto split: if_splits)
    then have "spares a act \<longrightarrow> (\<forall>q. q \<noteq> p \<longrightarrow> quiet op q a)" using Other by (cases op) auto
    ultimately show ?thesis using Other by auto
  qed
  show "q \<noteq> actor act \<Longrightarrow> ss_at s' q = ss_at s q"
    using assms by (cases act) (auto simp: run_ll_def run_sc_def split: option.splits prod.splits semloc.splits
      sum.splits if_splits)
qed

lemma sem_step_inv_parts:
  assumes "sem_inv a s" "sem_step act s = Some (ev, s')" "spares a act"
  shows "shr_inv (ss_shr s')" "word_ok (ss_mem s') a" "q \<noteq> actor act \<Longrightarrow> guarded a s' q"
proof -
  have s: "shr_inv (ss_shr s)" "word_ok (ss_mem s) a" "guarded a s q"
    using assms(1) by (simp_all add: sem_inv_def)
  note acc = sem_step_access(1) [OF assms(2), of a]
  show "shr_inv (ss_shr s')" using acc s(1) step_effect(1) by metis
  show "word_ok (ss_mem s') a"
    using acc s(1,2) mem_step_word_ok [OF s(1)] by (metis fst_conv ss_shr_def)
  assume q: "q \<noteq> actor act"
  have "holds_res (ss_shr s') q a \<longrightarrow> R (word_in (ss_shr s') a)"
    if "holds_res (ss_shr s) q a \<longrightarrow> R (word_in (ss_shr s) a)" for R
    using acc llsc.step_guards [OF s(1), of _ "ss_shr s'" q a R] assms(3) q that by auto
  from this [of "\<lambda>x. \<exists>w. x = Some w \<and> sem_next f w = AT_SC v" for f v] show "guarded a s' q"
    using s(3) sem_step_access(2) [OF assms(2) q] unfolding guarded_def by auto
qed

text \<open>What an action does to the semaphore's word: a routine that ends has replaced the word by what it computed from
  it, and nothing else changes the word.\<close>

definition word_effect :: "u64 \<Rightarrow> (semop \<times> u64) option \<Rightarrow> u32 \<Rightarrow> u32 \<Rightarrow> bool" where
  "word_effect a ev w w' \<longleftrightarrow> (case ev of
       Some (f, b) \<Rightarrow> if b = a then sem_next f w = AT_SC w' else w' = w
     | None \<Rightarrow> w' = w)"

lemma other_word:
  assumes "shr_inv (m, c)" "mem_step op (m, c) = Some (m', c')" "spares a (Other p op)"
  shows "load_word m' a = load_word m a"
proof -
  have "mc_shared c" using assms(1) by (simp add: shr_inv_def)
  with assms(2,3) show ?thesis
    by (cases op) (auto elim!: Mem_sw_cases Mem_sc_cases Mem_sb_cases simp: load_word_set_other load_word_set_byte)
qed

lemmas word_defs = guarded_def word_effect_def sem_word_def word_in_def

lemma run_ll_word:
  assumes "sem_inv a s" "ss_at s p = Some (f, b, AT_LL)" "run_ll p f b s = Some s'"
  shows "guarded a s' p \<and> word_effect a None (sem_word a s) (sem_word a s')"
proof -
  obtain m c where mc: "ss_mem s = m" "ss_ctl s = c" "ss_shr s = (m, c)" by (auto simp: ss_shr_def)
  have shr: "mc_shared c" "length (mc_resaddr c) = mc_nshr c" using assms(1) mc by (auto simp: sem_inv_def shr_inv_def)
  show ?thesis using assms(2,3) mc Mem_ll_reserves(2) [OF _ shr]
    by (fastforce simp: run_ll_def word_defs split: option.splits sum.splits)
qed

text \<open>An SC of a routine, on this semaphore or on another word.\<close>

lemma run_sc_word:
  assumes "sem_inv a s" "ss_at s p = Some (f, b, AT_SC v)" "run_sc p f b v s = Some (ev, s')"
  shows "guarded a s' p \<and> word_effect a ev (sem_word a s) (sem_word a s')"
proof -
  obtain m c where mc: "ss_mem s = m" "ss_ctl s = c" "ss_shr s = (m, c)" by (auto simp: ss_shr_def)
  have inv: "shr_inv (m, c)" "word_ok m a" and g: "guarded a s p" using assms(1) mc by (auto simp: sem_inv_def)
  obtain r m' c' where r: "Mem_sc m c p b v = Some (r, m', c')" and s':
    "(if r = OK then ev = Some (f, b) \<and> s' = set_at p None m' c' s
      else ev = None \<and> s' = set_at p (Some (f, b, if r = E EAGAIN then AT_LL else AT_SC v)) m' c' s)"
    using assms(3) mc by (auto simp: run_sc_def split: option.splits if_splits)
  have "mc_shared c" using inv(1) by (simp add: shr_inv_def)
  with r show ?thesis
  proof (cases rule: Mem_sc_cases)
    case 1
    then show ?thesis using s' assms(2) mc g by (auto simp: word_defs)
  next
    case 2
    then show ?thesis using s' mc inv(2) by (auto simp: word_defs)
  next
    case (3 bs)
    show ?thesis
    proof (cases "b = a")
      case True
      then have "holds_res (m, c) p a" "load_word m' a = Some v" using Mem_sc_OK [OF r [unfolded 3(5)] inv(1)] by simp_all
      then show ?thesis using s' assms(2) mc 3 g True by (auto simp: word_defs)
    next
      case False
      then have "load_word m' a = load_word m a" using load_word_set_other [OF 3(1,4)] 3(2) by simp
      then show ?thesis using s' mc 3 False by (auto simp: word_defs)
    qed
  qed
qed

lemma sem_step_word:
  assumes "sem_inv a s" "sem_step act s = Some (ev, s')" "spares a act"
  shows "guarded a s' (actor act) \<and> word_effect a ev (sem_word a s) (sem_word a s')"
proof (cases act)
  case (Call p f b)
  then show ?thesis using assms(2) by (auto simp: word_defs ss_shr_def split: option.splits)
next
  case (Run p)
  then consider (ll) f b where "ss_at s p = Some (f, b, AT_LL)" "run_ll p f b s = Some s'" "ev = None"
    | (sc) f b v where "ss_at s p = Some (f, b, AT_SC v)" "run_sc p f b v s = Some (ev, s')"
    using assms(2) by (auto split: option.splits prod.splits semloc.splits)
  then show ?thesis using run_ll_word [OF assms(1)] run_sc_word [OF assms(1)] Run by cases auto
next
  case (Other p op)
  obtain m c where mc: "ss_mem s = m" "ss_ctl s = c" by simp
  with Other obtain m' c' where o: "mem_step op (m, c) = Some (m', c')" "ss_at s p = None" "ev = None"
    "s' = s\<lparr>ss_mem := m', ss_ctl := c'\<rparr>"
    using assms(2) by (cases "ss_at s p") (auto split: if_splits)
  moreover have "shr_inv (m, c)" using assms(1) mc by (simp add: sem_inv_def ss_shr_def)
  ultimately show ?thesis using other_word [of m c op m' c'] assms(3) mc Other by (auto simp: word_defs ss_shr_def)
qed

lemma sem_step_inv:
  assumes "sem_inv a s" "sem_step act s = Some (ev, s')" "spares a act"
  shows "sem_inv a s'"
  using sem_step_inv_parts [OF assms] sem_step_word [OF assms] unfolding sem_inv_def by metis

section \<open>The semaphore counts\<close>

text \<open>As long as the counter is not at the top of its range, a routine that ends is one step of a semaphore:
  \<open>Sem_P\<close> takes one from a positive value, \<open>Sem_V\<close> adds one.\<close>

lemma sem_next_sint:
  fixes w w' :: u32
  assumes "0 \<le> sint w"
  shows "sem_next Sem_P w = AT_SC w' \<Longrightarrow> 1 \<le> sint w \<and> sint w' = sint w - 1"
    and "sint w < 2 ^ 31 - 1 \<Longrightarrow> sem_next Sem_V w = AT_SC w' \<Longrightarrow> sint w' = sint w + 1"
proof -
  have b: "sint w < 2 ^ 31" "- (2 ^ 31) \<le> sint w" using sint_lt [of w] sint_ge [of w] by simp_all
  then have m: "sint (w - 1) = sint w - 1"
    using assms by (simp add: sint_word_ariths signed_take_bit_int_eq_self)
  show "sem_next Sem_P w = AT_SC w' \<Longrightarrow> 1 \<le> sint w \<and> sint w' = sint w - 1"
    using m by (auto simp: Let_def split: if_splits)
  assume "sint w < 2 ^ 31 - 1" "sem_next Sem_V w = AT_SC w'"
  then show "sint w' = sint w + 1" using assms by (auto simp: sint_word_ariths signed_take_bit_int_eq_self)
qed

definition count_ev :: "semop \<Rightarrow> u64 \<Rightarrow> (semop \<times> u64) list \<Rightarrow> int" where
  "count_ev f a evs = int (length (filter (\<lambda>e. e = (f, a)) evs))"

lemma count_ev_simps [simp]:
  "count_ev f a [] = 0" "count_ev f a (e # evs) = of_bool (e = (f, a)) + count_ev f a evs" "0 \<le> count_ev f a evs"
  by (simp_all add: count_ev_def)

text \<open>One action, on the values.\<close>

lemma sem_step_value:
  assumes "sem_inv a s" "sem_step act s = Some (ev, s')" "spares a act"
    and "0 \<le> sint (sem_word a s)" "sint (sem_word a s) + of_bool (ev = Some (Sem_V, a)) < 2 ^ 31"
  shows "0 \<le> sint (sem_word a s') \<and> sint (sem_word a s') =
    sint (sem_word a s) + of_bool (ev = Some (Sem_V, a)) - of_bool (ev = Some (Sem_P, a))"
proof (cases "ev = Some (Sem_V, a) \<or> ev = Some (Sem_P, a)")
  case True
  then show ?thesis
    using sem_step_word [OF assms(1-3)] sem_next_sint [OF assms(4), of "sem_word a s'"] assms(4,5)
    by (auto simp: word_effect_def)
next
  case False
  then have "sem_word a s' = sem_word a s"
    using sem_step_word [OF assms(1-3)] by (auto simp: word_effect_def split: option.splits if_splits)
      (metis semop.exhaust)
  then show ?thesis using False assms(4) by auto
qed

text \<open>C13:
  The semaphores of the examples are semaphores. Processors call \<open>Sem_P\<close> and \<open>Sem_V\<close> on any semaphores and do other
  accesses, in any interleaving of their memory accesses; then the word of a semaphore that only the
  two routines write is what it was, plus the calls of \<open>Sem_V\<close> that ended, less those of
  \<open>Sem_P\<close>, and never negative: not more calls of \<open>Sem_P\<close> can have ended than there were units. The bound is
  that of the 32 bits of the word.\<close>

theorem semaphore_counts:
  assumes "sem_run acts s = Some (evs, s')" "sem_inv a s" "\<forall>act\<in>set acts. spares a act"
    and "0 \<le> sint (sem_word a s)" "sint (sem_word a s) + count_ev Sem_V a evs < 2 ^ 31"
  shows "sem_inv a s' \<and> 0 \<le> sint (sem_word a s') \<and>
    sint (sem_word a s') = sint (sem_word a s) + count_ev Sem_V a evs - count_ev Sem_P a evs"
  using assms
proof (induction acts arbitrary: s evs)
  case (Cons act acts)
  then obtain ev s1 evs1 where st: "sem_step act s = Some (ev, s1)" "sem_run acts s1 = Some (evs1, s')"
    "evs = (case ev of None \<Rightarrow> evs1 | Some e \<Rightarrow> e # evs1)"
    by (auto simp: Option.bind_eq_Some_conv)
  have ev: "count_ev f a evs = of_bool (ev = Some (f, a)) + count_ev f a evs1" for f
    using st(3) by (cases ev) auto
  have "sint (sem_word a s) + of_bool (ev = Some (Sem_V, a)) < 2 ^ 31"
    using Cons.prems(5) ev [of Sem_V] count_ev_simps(3) [of Sem_V a evs1] by linarith
  note val = sem_step_value [OF Cons.prems(2) st(1) _ Cons.prems(4) this]
  from Cons.prems(3) have sp: "spares a act" "\<forall>act\<in>set acts. spares a act" by auto
  from Cons.IH [OF st(2) sem_step_inv [OF Cons.prems(2) st(1) sp(1)] sp(2)] val [OF sp(1)] ev Cons.prems(5)
  show ?case by auto
qed simp

text \<open>Two processors; the semaphore at address 4 has the value 2, the word at 0 is data.\<close>

definition sem8 :: semsys where
  "sem8 = \<lparr>ss_mem = mem8, ss_ctl = ctl2, ss_at = (\<lambda>_. None)\<rparr>"

theorem semaphore_counts_witness:
  "\<exists>s. sem_run [Call 0 Sem_P 4, Call 1 Sem_P 4, Run 0, Run 1, Run 1, Run 0, Run 0, Other 1 (OpSW 0 5), Call 1 Sem_V 4,
      Run 0, Run 1, Run 1] sem8 = Some ([(Sem_P, 4), (Sem_P, 4), (Sem_V, 4)], s) \<and> sint (sem_word 4 s) = 1"
proof -
  let ?acts = "[Call 0 Sem_P 4, Call 1 Sem_P 4, Run 0, Run 1, Run 1, Run 0, Run 0, Other 1 (OpSW 0 5), Call 1 Sem_V 4,
      Run 0, Run 1, Run 1]"
  have "map_option fst (sem_run ?acts sem8) = Some [(Sem_P, 4), (Sem_P, 4), (Sem_V, 4)]" by code_simp
  then obtain s where s: "sem_run ?acts sem8 = Some ([(Sem_P, 4), (Sem_P, 4), (Sem_V, 4)], s)" by auto
  have "shr_inv (ss_shr sem8)" using shr_inv_mem8 by (simp add: ss_shr_def sem8_def)
  moreover have "sem_word 4 sem8 = 2" "word_ok (ss_mem sem8) 4" by code_simp+
  ultimately have "sem_inv 4 sem8" by (auto simp: sem_inv_def guarded_def sem8_def)
  from semaphore_counts [OF s this] s \<open>sem_word 4 sem8 = 2\<close> show ?thesis by (auto simp: count_ev_def)
qed

section \<open>The semaphore as the programs see it\<close>

text \<open>\<open>Sem_P\<close> on the value: one step when it is positive, waiting otherwise. \<open>Sem_V\<close> adds one.\<close>

definition P_sem :: "int \<Rightarrow> int option" where
  "P_sem v = (if 1 \<le> v then Some (v - 1) else None)"

lemma P_sem_Some [simp]: "P_sem v = Some w \<longleftrightarrow> 1 \<le> v \<and> w = v - 1" "P_sem v = None \<longleftrightarrow> v < 1"
  by (auto simp: P_sem_def)

end
