(* ===== verification/Dining.thy ===== *)
theory Dining
  imports Sem
begin

text \<open>
  The dining philosophers of the examples (examples/src/dining-philosophers.c): one processor per
  philosopher, one semaphore per fork, and the footman, a semaphore that lets all but one of them sit down. \<open>Sem_P\<close> and
  \<open>Sem_V\<close> are steps on the values of the semaphores, as the theory Sem shows them to be; \<open>busywait\<close>
  and \<open>randstate\<close> have no influence on what happens. The macros \<open>PHILOS\<close> and \<open>IDEAS\<close> are the parameters
  \<open>N\<close> and \<open>I\<close>.
\<close>

section \<open>The program\<close>

text \<open>The places of \<open>main\<close>: at its beginning, at the head of the loop, at each call of \<open>Sem_P\<close> and \<open>Sem_V\<close>
  (\<open>EATING\<close> is the one after \<open>busywait(EAT)\<close>), and behind the loop.\<close>

datatype place = START | THINKING | P_FOOTMAN | P_OWN | P_NBR | EATING | V_OWN | V_FOOTMAN | OUT

record philo =
  ph_at :: place
  ph_ideas :: u32

record dine =
  dn_footman :: int
  dn_fork :: "int list"
  dn_phil :: "philo list"

definition dine0 :: "nat \<Rightarrow> dine" where
  "dine0 N = \<lparr>dn_footman = int N - 1, dn_fork = replicate N 0,
     dn_phil = replicate N \<lparr>ph_at = START, ph_ideas = 0\<rparr>\<rparr>"

definition go_to :: "nat \<Rightarrow> place \<Rightarrow> dine \<Rightarrow> dine" where
  "go_to i l s = s\<lparr>dn_phil := (dn_phil s)[i := (dn_phil s ! i)\<lparr>ph_at := l\<rparr>]\<rparr>"

definition set_fork :: "nat \<Rightarrow> int \<Rightarrow> dine \<Rightarrow> dine" where
  "set_fork k v s = s\<lparr>dn_fork := (dn_fork s)[k := v]\<rparr>"

definition set_ideas :: "nat \<Rightarrow> u32 \<Rightarrow> dine \<Rightarrow> dine" where
  "set_ideas i n s = s\<lparr>dn_phil := (dn_phil s)[i := (dn_phil s ! i)\<lparr>ph_ideas := n\<rparr>]\<rparr>"

text \<open>\<open>fid = rem(id + 1, PHILOS)\<close>.\<close>

definition nbr :: "nat \<Rightarrow> nat \<Rightarrow> nat" where
  "nbr N i = (i + 1) mod N"

text \<open>A step of philosopher \<open>id\<close>, up to the next place; \<open>None\<close> when it waits in \<open>Sem_P\<close> or has ended.\<close>

definition dine_step :: "nat \<Rightarrow> u32 \<Rightarrow> nat \<Rightarrow> dine \<Rightarrow> dine option" where
  "dine_step N I i s = (let fid = nbr N i; ph = dn_phil s ! i in
     if i \<ge> N then None
     else case ph_at ph of
       START \<Rightarrow> Some (go_to i THINKING (set_ideas i I (set_fork i 1 s)))
     | THINKING \<Rightarrow> Some (go_to i (if ph_ideas ph > 0 then P_FOOTMAN else OUT) s)
     | P_FOOTMAN \<Rightarrow> do { v \<leftarrow> P_sem (dn_footman s); Some (go_to i P_OWN (s\<lparr>dn_footman := v\<rparr>)) }
     | P_OWN \<Rightarrow> do { v \<leftarrow> P_sem (dn_fork s ! i); Some (go_to i P_NBR (set_fork i v s)) }
     | P_NBR \<Rightarrow> do { v \<leftarrow> P_sem (dn_fork s ! fid); Some (go_to i EATING (set_fork fid v s)) }
     | EATING \<Rightarrow> Some (go_to i V_OWN (set_fork fid (dn_fork s ! fid + 1) s))
     | V_OWN \<Rightarrow> Some (go_to i V_FOOTMAN (set_fork i (dn_fork s ! i + 1) s))
     | V_FOOTMAN \<Rightarrow> Some (go_to i THINKING (set_ideas i (ph_ideas ph - 1) (s\<lparr>dn_footman := dn_footman s + 1\<rparr>)))
     | OUT \<Rightarrow> None)"

section \<open>Who holds what\<close>

definition at_place :: "dine \<Rightarrow> nat \<Rightarrow> place" where
  "at_place s i = ph_at (dn_phil s ! i)"

definition holds_own :: "place \<Rightarrow> bool" where
  "holds_own l \<longleftrightarrow> l = P_NBR \<or> l = EATING \<or> l = V_OWN"

definition seated :: "place \<Rightarrow> bool" where
  "seated l \<longleftrightarrow> l = P_OWN \<or> l = P_NBR \<or> l = EATING \<or> l = V_OWN \<or> l = V_FOOTMAN"

text \<open>A fork that has been laid out is on the table, or in the hand of its owner, or in that of the neighbour; a seat
  is free or taken.\<close>

definition fork_ok :: "nat \<Rightarrow> dine \<Rightarrow> nat \<Rightarrow> bool" where
  "fork_ok N s i \<longleftrightarrow> 0 \<le> dn_fork s ! nbr N i \<and>
     dn_fork s ! nbr N i + of_bool (holds_own (at_place s (nbr N i))) + of_bool (at_place s i = EATING) =
       of_bool (at_place s (nbr N i) \<noteq> START)"

definition dine_ok :: "nat \<Rightarrow> dine \<Rightarrow> bool" where
  "dine_ok N s \<longleftrightarrow> length (dn_fork s) = N \<and> length (dn_phil s) = N \<and> 0 \<le> dn_footman s \<and>
     dn_footman s + (\<Sum>i<N. of_bool (seated (at_place s i))) = int N - 1 \<and> (\<forall>i<N. fork_ok N s i)"

lemma dine_parts [simp]:
  "dn_footman (go_to i l s) = dn_footman s" "dn_fork (go_to i l s) = dn_fork s"
  "length (dn_phil (go_to i l s)) = length (dn_phil s)"
  "dn_footman (set_fork k v s) = dn_footman s" "dn_fork (set_fork k v s) = (dn_fork s)[k := v]"
  "dn_phil (set_fork k v s) = dn_phil s"
  "dn_footman (set_ideas i n s) = dn_footman s" "dn_fork (set_ideas i n s) = dn_fork s"
  "length (dn_phil (set_ideas i n s)) = length (dn_phil s)"
  by (simp_all add: go_to_def set_fork_def set_ideas_def)

lemma at_place_simps [simp]:
  "i < length (dn_phil s) \<Longrightarrow> at_place (go_to i l s) j = (if j = i then l else at_place s j)"
  "at_place (set_fork k v s) j = at_place s j" "at_place (dn_footman_update g s) j = at_place s j"
  "i < length (dn_phil s) \<Longrightarrow> at_place (set_ideas i n s) j = at_place s j"
  by (simp_all add: at_place_def go_to_def set_fork_def set_ideas_def nth_list_update)

lemma ideas_simps [simp]:
  "i < length (dn_phil s) \<Longrightarrow> ph_ideas (dn_phil (go_to i l s) ! j) = ph_ideas (dn_phil s ! j)"
  "i < length (dn_phil s) \<Longrightarrow> ph_ideas (dn_phil (set_ideas i n s) ! j) = (if j = i then n else ph_ideas (dn_phil s ! j))"
  by (simp_all add: go_to_def set_ideas_def nth_list_update)

lemma nbr_less [simp]: "i < N \<Longrightarrow> nbr N i < N"
  by (simp add: nbr_def)

lemma nbr_inj: "i < N \<Longrightarrow> j < N \<Longrightarrow> nbr N i = nbr N j \<longleftrightarrow> i = j"
  using add_mod_inj [of i N j 1] by (simp add: nbr_def add.commute)

text \<open>A step takes the philosopher from one place to another and changes the semaphores accordingly.\<close>

lemma dine_step_cases:
  assumes "dine_step N I i s = Some s'"
  obtains "i < N" "at_place s i = START" "s' = go_to i THINKING (set_ideas i I (set_fork i 1 s))"
  | "i < N" "at_place s i = THINKING" "0 < ph_ideas (dn_phil s ! i)" "s' = go_to i P_FOOTMAN s"
  | "i < N" "at_place s i = THINKING" "ph_ideas (dn_phil s ! i) = 0" "s' = go_to i OUT s"
  | "i < N" "at_place s i = P_FOOTMAN" "1 \<le> dn_footman s" "s' = go_to i P_OWN (s\<lparr>dn_footman := dn_footman s - 1\<rparr>)"
  | "i < N" "at_place s i = P_OWN" "1 \<le> dn_fork s ! i" "s' = go_to i P_NBR (set_fork i (dn_fork s ! i - 1) s)"
  | "i < N" "at_place s i = P_NBR" "1 \<le> dn_fork s ! nbr N i"
      "s' = go_to i EATING (set_fork (nbr N i) (dn_fork s ! nbr N i - 1) s)"
  | "i < N" "at_place s i = EATING" "s' = go_to i V_OWN (set_fork (nbr N i) (dn_fork s ! nbr N i + 1) s)"
  | "i < N" "at_place s i = V_OWN" "s' = go_to i V_FOOTMAN (set_fork i (dn_fork s ! i + 1) s)"
  | "i < N" "at_place s i = V_FOOTMAN"
      "s' = go_to i THINKING (set_ideas i (ph_ideas (dn_phil s ! i) - 1) (s\<lparr>dn_footman := dn_footman s + 1\<rparr>))"
  using assms by (cases "at_place s i")
    (auto simp: dine_step_def Let_def at_place_def P_sem_def Option.bind_eq_Some_conv word_gt_0 split: if_splits)

lemma dine_step_Some:
  assumes "dine_step N I i s = Some s'" "length (dn_phil s) = N" "length (dn_fork s) = N"
  shows "i < N" "length (dn_phil s') = N" "length (dn_fork s') = N"
    and "j \<noteq> i \<Longrightarrow> at_place s' j = at_place s j"
    and "at_place s i \<noteq> OUT" "at_place s' i \<noteq> START"
  using assms(2,3) by (cases rule: dine_step_cases [OF assms(1)]; simp)+

lemma dine_step_footman:
  assumes "dine_step N I i s = Some s'" "length (dn_phil s) = N" "0 \<le> dn_footman s"
  shows "0 \<le> dn_footman s'"
    "dn_footman s' + of_bool (seated (at_place s' i)) = dn_footman s + of_bool (seated (at_place s i))"
  using assms(2,3) by (cases rule: dine_step_cases [OF assms(1)]; simp add: seated_def)+

text \<open>What the step of philosopher \<open>i\<close> does to the forks.\<close>

lemma dine_step_forks:
  assumes "dine_step N I i s = Some s'" "length (dn_phil s) = N" "length (dn_fork s) = N" "k < N"
    "at_place s i = START \<longrightarrow> dn_fork s ! i = 0" "0 \<le> dn_fork s ! k"
  shows "0 \<le> dn_fork s' ! k \<and> dn_fork s' ! k = dn_fork s ! k
    + of_bool (k = i) * (of_bool (at_place s i = START) + of_bool (holds_own (at_place s i)) - of_bool (holds_own (at_place s' i)))
    + of_bool (k = nbr N i) * (of_bool (at_place s i = EATING) - of_bool (at_place s' i = EATING))"
  using assms(2-6) by (cases rule: dine_step_cases [OF assms(1)]; auto simp: holds_own_def nth_list_update)

lemma nbr_onto:
  assumes "k < N"
  obtains i where "i < N" "nbr N i = k"
proof
  show "(k + N - 1) mod N < N" using assms by simp
  have "Suc ((k + N - 1) mod N) mod N = (k + N) mod N" using assms by (subst mod_Suc_eq) simp
  then show "nbr N ((k + N - 1) mod N) = k" using assms by (simp add: nbr_def)
qed

lemma dine_step_ok:
  assumes "dine_ok N s" "dine_step N I i s = Some s'"
  shows "dine_ok N s'"
proof -
  have len: "length (dn_phil s) = N" "length (dn_fork s) = N" and foot: "0 \<le> dn_footman s"
    and fork: "\<And>j. j < N \<Longrightarrow> fork_ok N s j" and seats: "dn_footman s + (\<Sum>i<N. of_bool (seated (at_place s i))) = int N - 1"
    using assms(1) by (simp_all add: dine_ok_def)
  note st = dine_step_Some [OF assms(2) len] and f = dine_step_footman [OF assms(2) len(1) foot]
  obtain p where p: "p < N" "nbr N p = i" using nbr_onto [OF st(1)] .
  have start: "at_place s i = START \<longrightarrow> dn_fork s ! i = 0" using fork [OF p(1)] p(2)
    by (cases "at_place s p = EATING") (auto simp: fork_ok_def holds_own_def)
  have "fork_ok N s' j" if j: "j < N" for j
  proof -
    have pos: "0 \<le> dn_fork s ! nbr N j" using fork [OF j] by (simp add: fork_ok_def)
    note e = dine_step_forks [OF assms(2) len nbr_less [OF j] start pos] and fj = fork [OF j, unfolded fork_ok_def]
    have "at_place s' j = (if j = i then at_place s' i else at_place s j)"
      "at_place s' (nbr N j) = (if nbr N j = i then at_place s' i else at_place s (nbr N j))"
      using st(4) by simp_all
    then show ?thesis using e fj st(6) nbr_inj [OF j st(1)] unfolding fork_ok_def
      by (cases "nbr N j = i"; cases "j = i") (auto simp: of_bool_def split: if_splits)
  qed
  moreover have "(\<Sum>j<N. of_bool (seated (at_place s' j))) =
      (\<Sum>j<N. of_bool (seated (at_place s j))) - of_bool (seated (at_place s i)) + (of_bool (seated (at_place s' i)) :: int)"
    by (rule sum_change) (use st(1,4) in simp_all)
  ultimately show ?thesis using st(2,3) f seats by (simp add: dine_ok_def)
qed

lemma dine0_ok:
  assumes "0 < N"
  shows "dine_ok N (dine0 N)"
  using assms by (simp add: dine_ok_def dine0_def at_place_def fork_ok_def seated_def holds_own_def)

section \<open>Nobody waits for ever\<close>

text \<open>Somebody who eats, or has not begun, or is giving back, can go on; so in a state where nobody can, the philosophers
  wait or have ended.\<close>

lemma stuck_place:
  assumes "i < N" "dine_step N I i s = None" "length (dn_phil s) = N"
  shows "at_place s i = OUT \<or> at_place s i = P_FOOTMAN \<and> dn_footman s < 1 \<or>
    at_place s i = P_OWN \<and> dn_fork s ! i < 1 \<or> at_place s i = P_NBR \<and> dn_fork s ! nbr N i < 1"
  using assms by (cases "at_place s i") (auto simp: dine_step_def Let_def at_place_def P_sem_def split: if_splits)

lemma stuck_all_out:
  assumes "dine_ok N s" "2 \<le> N" "\<forall>i<N. dine_step N I i s = None" "i < N"
  shows "at_place s i = OUT"
proof -
  have fork: "\<And>j. j < N \<Longrightarrow> fork_ok N s j" and seats: "dn_footman s + (\<Sum>i<N. of_bool (seated (at_place s i))) = int N - 1"
    and len: "length (dn_phil s) = N" and foot: "0 \<le> dn_footman s"
    using assms(1) by (simp_all add: dine_ok_def)
  have stuck: "at_place s j = OUT \<or> at_place s j = P_FOOTMAN \<and> dn_footman s < 1 \<or>
    at_place s j = P_OWN \<and> dn_fork s ! j < 1 \<or> at_place s j = P_NBR \<and> dn_fork s ! nbr N j < 1" if "j < N" for j
    using stuck_place [OF that _ len] assms(3) that by blast
  have own: "at_place s j \<noteq> P_OWN" if j: "j < N" for j
  proof
    assume a: "at_place s j = P_OWN"
    obtain p where p: "p < N" "nbr N p = j" using nbr_onto [OF j] .
    have "dn_fork s ! j < 1" using stuck [OF j] a by auto
    then have "at_place s p = EATING" using fork [OF p(1)] a p(2)
      by (cases "at_place s p = EATING") (auto simp: fork_ok_def holds_own_def)
    then show False using stuck [OF p(1)] by simp
  qed
  have next_waits: "at_place s (nbr N j) = P_NBR" if j: "j < N" "at_place s j = P_NBR" for j
  proof -
    have "dn_fork s ! nbr N j < 1" using stuck [OF j(1)] j(2) by auto
    then have "holds_own (at_place s (nbr N j)) \<or> at_place s (nbr N j) = START"
      using fork [OF j(1)] j(2) by (cases "holds_own (at_place s (nbr N j))") (auto simp: fork_ok_def)
    then show ?thesis using stuck [OF nbr_less [OF j(1)]] by (auto simp: holds_own_def)
  qed
  have nobody: "at_place s j \<noteq> P_NBR" if j: "j < N" for j
  proof
    assume a: "at_place s j = P_NBR"
    have "at_place s ((j + k) mod N) = P_NBR" for k
    proof (induction k)
      case (Suc k)
      have "nbr N ((j + k) mod N) = (j + Suc k) mod N" by (simp add: nbr_def mod_Suc_eq)
      then show ?case using next_waits [of "(j + k) mod N"] Suc j by auto
    qed (use a j in simp)
    from this [of "N - j + l" for l] have "at_place s l = P_NBR" if "l < N" for l
      using j that by (metis le_add_diff_inverse2 less_imp_le mod_add_self1 mod_less add.commute add.assoc)
    then have "(\<Sum>i<N. of_bool (seated (at_place s i))) = int N" by (simp add: seated_def)
    then show False using seats foot by simp
  qed
  have "\<not> seated (at_place s j)" if "j < N" for j
    using stuck [OF that] own [OF that] nobody [OF that] by (auto simp: seated_def)
  then have free: "(\<Sum>i<N. of_bool (seated (at_place s i))) = (0 :: int)" by simp
  then have "1 \<le> dn_footman s" using seats assms(2) by simp
  then show ?thesis using stuck [OF assms(4)] own nobody assms(4) by force
qed

section \<open>How many steps are left\<close>

fun left_steps :: "u32 \<Rightarrow> philo \<Rightarrow> nat" where
  "left_steps I ph = (case ph_at ph of
     START \<Rightarrow> 7 * unat I + 2 | THINKING \<Rightarrow> 7 * unat (ph_ideas ph) + 1
   | P_FOOTMAN \<Rightarrow> 7 * unat (ph_ideas ph) | P_OWN \<Rightarrow> 7 * unat (ph_ideas ph) - 1
   | P_NBR \<Rightarrow> 7 * unat (ph_ideas ph) - 2 | EATING \<Rightarrow> 7 * unat (ph_ideas ph) - 3
   | V_OWN \<Rightarrow> 7 * unat (ph_ideas ph) - 4 | V_FOOTMAN \<Rightarrow> 7 * unat (ph_ideas ph) - 5 | OUT \<Rightarrow> 0)"

definition busy :: "nat \<Rightarrow> dine \<Rightarrow> bool" where
  "busy N s \<longleftrightarrow> (\<forall>i<N. at_place s i \<notin> {START, THINKING, OUT} \<longrightarrow> 0 < ph_ideas (dn_phil s ! i))"

lemma dn_phil_simps [simp]:
  "dn_phil (go_to i l s) = (dn_phil s)[i := (dn_phil s ! i)\<lparr>ph_at := l\<rparr>]"
  "dn_phil (set_ideas i n s) = (dn_phil s)[i := (dn_phil s ! i)\<lparr>ph_ideas := n\<rparr>]"
  by (simp_all add: go_to_def set_ideas_def)

lemma dine_step_left:
  assumes "dine_step N I i s = Some s'" "length (dn_phil s) = N" "busy N s"
  shows "busy N s'" "left_steps I (dn_phil s' ! i) + 1 = left_steps I (dn_phil s ! i)"
    "j \<noteq> i \<Longrightarrow> dn_phil s' ! j = dn_phil s ! j"
proof -
  have b: "at_place s i \<notin> {START, THINKING, OUT} \<Longrightarrow> 1 \<le> unat (ph_ideas (dn_phil s ! i))" if "i < N"
    using assms(3) that by (auto simp: busy_def word_gt_0 unat_eq_zero Suc_le_eq unat_gt_0)
  have b1: "at_place s i \<notin> {START, THINKING, OUT} \<Longrightarrow>
      unat (ph_ideas (dn_phil s ! i) - 1) = unat (ph_ideas (dn_phil s ! i)) - 1" if "i < N"
    using assms(3) that by (intro unat_minus_one) (auto simp: busy_def word_gt_0)
  show "busy N s'"
    using assms(2,3) by (cases rule: dine_step_cases [OF assms(1)]) (auto simp: busy_def at_place_def nth_list_update)
  show "left_steps I (dn_phil s' ! i) + 1 = left_steps I (dn_phil s ! i)"
    using assms(2) b b1
    by (cases rule: dine_step_cases [OF assms(1)]) (auto simp: at_place_def word_gt_0)
  show "j \<noteq> i \<Longrightarrow> dn_phil s' ! j = dn_phil s ! j"
    using assms(2) by (cases rule: dine_step_cases [OF assms(1)]) simp_all
qed

definition dine_left :: "nat \<Rightarrow> u32 \<Rightarrow> dine \<Rightarrow> int" where
  "dine_left N I s = (\<Sum>i<N. int (left_steps I (dn_phil s ! i)))"

lemma dine_run:
  assumes "mfold (dine_step N I) is s = Some s'" "dine_ok N s" "busy N s"
  shows "dine_ok N s' \<and> busy N s' \<and> int (length is) + dine_left N I s' = dine_left N I s"
  using assms
proof (induction "is" arbitrary: s)
  case (Cons i "is")
  then obtain t where t: "dine_step N I i s = Some t" "mfold (dine_step N I) is t = Some s'"
    by (auto simp: Option.bind_eq_Some_conv)
  have len: "length (dn_phil s) = N" using Cons.prems(2) by (simp add: dine_ok_def)
  note l = dine_step_left [OF t(1) len Cons.prems(3)]
  have "i < N" using t(1) by (auto simp: dine_step_def Let_def split: if_splits)
  then have "dine_left N I t = dine_left N I s - int (left_steps I (dn_phil s ! i)) + int (left_steps I (dn_phil t ! i))"
    unfolding dine_left_def by (rule sum_change) (simp add: l(3))
  then have "dine_left N I t + 1 = dine_left N I s" using l(2) by linarith
  then show ?case using Cons.IH [OF t(2) dine_step_ok [OF Cons.prems(2) t(1)] l(1)] by simp
qed simp

lemma dine_run0:
  assumes "mfold (dine_step N I) is (dine0 N) = Some s" "0 < N"
  shows "dine_ok N s \<and> int (length is) + dine_left N I s = int (N * (7 * unat I + 2))"
proof -
  have "busy N (dine0 N)" by (simp add: busy_def dine0_def at_place_def)
  moreover have "dine_left N I (dine0 N) = int (N * (7 * unat I + 2))" 
    by (simp add: dine_left_def dine0_def algebra_simps)
  ultimately show ?thesis using dine_run [OF assms(1) dine0_ok [OF assms(2)]] by simp
qed

text \<open>Neighbours at the table never eat at the same time, whatever the order in which the processors run: the fork
  between them is in one hand at most, and at most \<open>PHILOS - 1\<close> philosophers are seated.\<close>

theorem dining_neighbours:
  assumes "mfold (dine_step N I) is (dine0 N) = Some s" "2 \<le> N" "i < N"
  shows "\<not> (at_place s i = EATING \<and> at_place s (nbr N i) = EATING) \<and>
    (at_place s i = EATING \<longrightarrow> \<not> holds_own (at_place s (nbr N i)) \<and> dn_fork s ! nbr N i = 0) \<and>
    card {j. j < N \<and> seated (at_place s j)} \<le> N - 1"
proof -
  have ok: "dine_ok N s" using dine_run0 [OF assms(1)] assms(2) by simp
  then have "fork_ok N s i" using assms(3) by (simp add: dine_ok_def)
  then have "at_place s i = EATING \<Longrightarrow> \<not> holds_own (at_place s (nbr N i)) \<and> dn_fork s ! nbr N i = 0"
    by (cases "holds_own (at_place s (nbr N i))"; cases "at_place s (nbr N i) = START") (auto simp: fork_ok_def)
  moreover have "(\<Sum>j<N. of_bool (seated (at_place s j)) :: int) = int (card {j. j < N \<and> seated (at_place s j)})"
    by (simp add: of_bool_def sum.If_cases Int_def lessThan_def conj_commute)
  then have "int (card {j. j < N \<and> seated (at_place s j)}) \<le> int N - 1" using ok by (simp add: dine_ok_def)
  ultimately show ?thesis by (auto simp: holds_own_def)
qed

text \<open>C15:
  The dinner ends: a run of the philosophers has at most \<open>PHILOS * (7 * IDEAS + 2)\<close> steps, and when nobody can do one
  any more it is because everybody has eaten \<open>IDEAS\<close> times and left. No order of the processors leads to a deadlock.\<close>

theorem dining_finishes:
  assumes "mfold (dine_step N I) is (dine0 N) = Some s" "2 \<le> N"
  shows "length is \<le> N * (7 * unat I + 2) \<and>
    ((\<forall>i<N. dine_step N I i s = None) \<longleftrightarrow> (\<forall>i<N. at_place s i = OUT)) \<and>
    ((\<forall>i<N. at_place s i = OUT) \<longrightarrow> length is = N * (7 * unat I + 2))"
proof -
  have r: "dine_ok N s" "int (length is) + dine_left N I s = int (N * (7 * unat I + 2))"
    using dine_run0 [OF assms(1)] assms(2) by auto
  have "0 \<le> dine_left N I s" by (simp add: dine_left_def sum_nonneg)
  then have "int (length is) \<le> int (N * (7 * unat I + 2))" using r(2) by linarith
  moreover have "dine_left N I s = 0" if "\<forall>i<N. at_place s i = OUT"
    using that by (auto simp: dine_left_def at_place_def intro!: sum.neutral)
  moreover have "dine_step N I i s = None" if "at_place s i = OUT" for i
    using that by (simp add: dine_step_def Let_def at_place_def)
  ultimately show ?thesis using r stuck_all_out [OF r(1) assms(2)] by (metis of_nat_eq_iff of_nat_le_iff add.right_neutral)
qed

text \<open>Two philosophers with one idea each; philosopher 1 waits for a seat while philosopher 0 eats.\<close>

theorem dining_neighbours_witness:
  "\<exists>s. mfold (dine_step 2 1) [1, 0, 0, 1, 0, 0, 0] (dine0 2) = Some s \<and> at_place s 0 = EATING \<and>
     at_place s 1 \<noteq> EATING \<and> dn_fork s ! 1 = 0"
proof -
  have "case mfold (dine_step 2 1) [1, 0, 0, 1, 0, 0, 0] (dine0 2) of None \<Rightarrow> False | Some s \<Rightarrow> at_place s 0 = EATING"
    by code_simp
  then obtain s where s: "mfold (dine_step 2 1) [1, 0, 0, 1, 0, 0, 0] (dine0 2) = Some s" "at_place s 0 = EATING"
    by (auto split: option.splits)
  have "nbr 2 0 = 1" by (simp add: nbr_def)
  with dining_neighbours [OF s(1), of 0] s show ?thesis by auto
qed

theorem dining_finishes_witness:
  "\<exists>s. mfold (dine_step 2 1) [1, 0, 0, 1, 0, 0, 0, 0, 0, 0, 0, 1, 1, 1, 1, 1, 1, 1] (dine0 2) = Some s \<and>
     at_place s 0 = OUT \<and> at_place s 1 = OUT \<and> dine_step 2 1 0 s = None"
proof -
  let ?is = "[1, 0, 0, 1, 0, 0, 0, 0, 0, 0, 0, 1, 1, 1, 1, 1, 1, 1]"
  have "case mfold (dine_step 2 1) ?is (dine0 2) of None \<Rightarrow> False | Some s \<Rightarrow> at_place s 0 = OUT \<and> at_place s 1 = OUT"
    by code_simp
  then obtain s where s: "mfold (dine_step 2 1) ?is (dine0 2) = Some s" "at_place s 0 = OUT" "at_place s 1 = OUT"
    by (auto split: option.splits)
  have "\<forall>i<2. at_place s i = OUT" using s(2,3) by (simp add: less_2_cases_iff)
  with dining_finishes [OF s(1)] s show ?thesis by simp
qed

text \<open>The program accepts \<open>PHILOS = 1\<close>, although the footman then lets nobody sit down: the philosopher
  waits for ever.\<close>

lemma dining_alone_waits:
  assumes "0 < I" "mfold (dine_step 1 I) is (dine0 1) = Some s"
  shows "at_place s 0 \<in> {START, THINKING, P_FOOTMAN}"
proof -
  have "dn_footman s = 0 \<and> length (dn_phil s) = 1 \<and> at_place s 0 \<in> {START, THINKING, P_FOOTMAN} \<and>
      (at_place s 0 \<noteq> START \<longrightarrow> 0 < ph_ideas (dn_phil s ! 0))"
    using assms(2)
  proof (rule mfold_invariant)
    fix i t t' assume t: "dn_footman t = 0 \<and> length (dn_phil t) = 1 \<and> at_place t 0 \<in> {START, THINKING, P_FOOTMAN} \<and>
      (at_place t 0 \<noteq> START \<longrightarrow> 0 < ph_ideas (dn_phil t ! 0))" "dine_step 1 I i t = Some t'"
    from t(2) show "dn_footman t' = 0 \<and> length (dn_phil t') = 1 \<and> at_place t' 0 \<in> {START, THINKING, P_FOOTMAN} \<and>
      (at_place t' 0 \<noteq> START \<longrightarrow> 0 < ph_ideas (dn_phil t' ! 0))"
      by (cases rule: dine_step_cases) (use t(1) assms(1) in \<open>auto\<close>)
  qed (simp add: dine0_def at_place_def)
  then show ?thesis by simp
qed

end
