(* ===== verification/ProdCons.thy ===== *)
theory ProdCons
  imports Sem Ring
begin

text \<open>
  The producer and the consumers of the examples (examples/src/producer-consumer.c): processor 0
  produces, the others consume, through a ring buffer guarded by the semaphore \<open>lock\<close>, with
  the semaphores \<open>full\<close> and \<open>empty\<close> to wait on. Every access of the shared variables is between
  \<open>Sem_P(&lock)\<close> and \<open>Sem_V(&lock)\<close>, so a step is one call of \<open>Sem_P\<close> or \<open>Sem_V\<close> or the code between two of
  them. The macros \<open>MAXELEM\<close> and \<open>MAXVAL\<close> are the parameters \<open>M\<close> and \<open>V\<close>.
\<close>

section \<open>The shared variables\<close>

datatype flag = SUCCESS | EMPTY | FULL | END

datatype pplace =
    PR_LOOP | PR_LOCK | PR_PUT | PR_WAKE | PR_UNLOCK | PR_WAIT | PR_LOCK2 | PR_PUT2 | PR_UNLOCK2
  | PR_END_LOCK | PR_END | PR_WAKE_ALL | PR_END_UNLOCK | PR_DONE

datatype cplace = CO_LOOP | CO_LOCK | CO_GET | CO_WAKE | CO_UNLOCK | CO_WAIT | CO_DONE

record consumer =
  co_at :: cplace
  co_flag :: flag

text \<open>\<open>pc_got\<close> is the sequence of the items that the consumers have taken.\<close>

record prodcons =
  pc_ct :: int
  pc_hd :: nat
  pc_tl :: nat
  pc_buf :: "int list"
  pc_nempty :: int
  pc_nfull :: int
  pc_producing :: bool
  pc_lock :: int
  pc_full :: int
  pc_empty :: int
  pc_at :: pplace
  pc_i :: int
  pc_flag :: flag
  pc_cons :: "consumer list"
  pc_got :: "int list"

definition pc0 :: "nat \<Rightarrow> nat \<Rightarrow> prodcons" where
  "pc0 M C = \<lparr>pc_ct = 0, pc_hd = 0, pc_tl = 0, pc_buf = replicate M 0, pc_nempty = 0, pc_nfull = 0, pc_producing = True,
     pc_lock = 1, pc_full = 0, pc_empty = 0, pc_at = PR_LOOP, pc_i = 0, pc_flag = SUCCESS,
     pc_cons = replicate C \<lparr>co_at = CO_LOOP, co_flag = SUCCESS\<rparr>, pc_got = []\<rparr>"

definition enqueue :: "nat \<Rightarrow> int \<Rightarrow> prodcons \<Rightarrow> prodcons" where
  "enqueue M item s = s\<lparr>pc_buf := (pc_buf s)[pc_tl s := item], pc_tl := (pc_tl s + 1) AND (M - 1), pc_ct := pc_ct s + 1\<rparr>"

definition dequeue :: "nat \<Rightarrow> prodcons \<Rightarrow> int \<times> prodcons" where
  "dequeue M s = (pc_buf s ! pc_hd s, s\<lparr>pc_hd := (pc_hd s + 1) AND (M - 1), pc_ct := pc_ct s - 1\<rparr>)"

section \<open>The producer\<close>

definition prod_step :: "nat \<Rightarrow> int \<Rightarrow> prodcons \<Rightarrow> prodcons option" where
  "prod_step M V s = (case pc_at s of
     PR_LOOP \<Rightarrow> Some (s\<lparr>pc_at := if pc_i s < V then PR_LOCK else PR_END_LOCK\<rparr>)
   | PR_LOCK \<Rightarrow> do { v \<leftarrow> P_sem (pc_lock s); Some (s\<lparr>pc_lock := v, pc_at := PR_PUT\<rparr>) }
   | PR_PUT \<Rightarrow> Some (if pc_ct s < int M
       then (enqueue M (pc_i s) s)\<lparr>pc_flag := SUCCESS, pc_at := if pc_nempty s > 0 then PR_WAKE else PR_UNLOCK\<rparr>
       else s\<lparr>pc_nfull := 1, pc_flag := FULL, pc_at := PR_UNLOCK\<rparr>)
   | PR_WAKE \<Rightarrow> Some (s\<lparr>pc_empty := pc_empty s + 1, pc_nempty := pc_nempty s - 1, pc_at := PR_UNLOCK\<rparr>)
   | PR_UNLOCK \<Rightarrow> Some (if pc_flag s = FULL then s\<lparr>pc_lock := pc_lock s + 1, pc_at := PR_WAIT\<rparr>
       else s\<lparr>pc_lock := pc_lock s + 1, pc_i := pc_i s + 1, pc_at := PR_LOOP\<rparr>)
   | PR_WAIT \<Rightarrow> do { v \<leftarrow> P_sem (pc_full s); Some (s\<lparr>pc_full := v, pc_at := PR_LOCK2\<rparr>) }
   | PR_LOCK2 \<Rightarrow> do { v \<leftarrow> P_sem (pc_lock s); Some (s\<lparr>pc_lock := v, pc_at := PR_PUT2\<rparr>) }
   | PR_PUT2 \<Rightarrow> Some ((enqueue M (pc_i s) s)\<lparr>pc_at := PR_UNLOCK2\<rparr>)
   | PR_UNLOCK2 \<Rightarrow> Some (s\<lparr>pc_lock := pc_lock s + 1, pc_i := pc_i s + 1, pc_at := PR_LOOP\<rparr>)
   | PR_END_LOCK \<Rightarrow> do { v \<leftarrow> P_sem (pc_lock s); Some (s\<lparr>pc_lock := v, pc_at := PR_END\<rparr>) }
   | PR_END \<Rightarrow> Some (s\<lparr>pc_producing := False, pc_at := PR_WAKE_ALL\<rparr>)
   | PR_WAKE_ALL \<Rightarrow> Some (if pc_nempty s > 0 then s\<lparr>pc_empty := pc_empty s + 1, pc_nempty := pc_nempty s - 1\<rparr>
       else s\<lparr>pc_at := PR_END_UNLOCK\<rparr>)
   | PR_END_UNLOCK \<Rightarrow> Some (s\<lparr>pc_lock := pc_lock s + 1, pc_at := PR_DONE\<rparr>)
   | PR_DONE \<Rightarrow> None)"

section \<open>The consumers\<close>

definition con_to :: "nat \<Rightarrow> cplace \<Rightarrow> flag \<Rightarrow> prodcons \<Rightarrow> prodcons" where
  "con_to j l f s = s\<lparr>pc_cons := (pc_cons s)[j := \<lparr>co_at = l, co_flag = f\<rparr>]\<rparr>"

definition con_step :: "nat \<Rightarrow> nat \<Rightarrow> prodcons \<Rightarrow> prodcons option" where
  "con_step M j s = (if j \<ge> length (pc_cons s) then None else let f = co_flag (pc_cons s ! j) in
     case co_at (pc_cons s ! j) of
       CO_LOOP \<Rightarrow> Some (con_to j (if f \<noteq> END then CO_LOCK else CO_DONE) f s)
     | CO_LOCK \<Rightarrow> do { v \<leftarrow> P_sem (pc_lock s); Some (con_to j CO_GET f (s\<lparr>pc_lock := v\<rparr>)) }
     | CO_GET \<Rightarrow> Some (
         if pc_ct s > 0 then
           let (item, s1) = dequeue M s; s2 = s1\<lparr>pc_got := pc_got s1 @ [item]\<rparr> in
           con_to j (if pc_nfull s2 \<noteq> 0 then CO_WAKE else CO_UNLOCK) SUCCESS s2
         else if \<not> pc_producing s then con_to j CO_UNLOCK END s
         else con_to j CO_UNLOCK EMPTY (s\<lparr>pc_nempty := pc_nempty s + 1\<rparr>))
     | CO_WAKE \<Rightarrow> Some (con_to j CO_UNLOCK f (s\<lparr>pc_full := pc_full s + 1, pc_nfull := 0\<rparr>))
     | CO_UNLOCK \<Rightarrow> Some (con_to j (if f = EMPTY then CO_WAIT else CO_LOOP) f (s\<lparr>pc_lock := pc_lock s + 1\<rparr>))
     | CO_WAIT \<Rightarrow> do { v \<leftarrow> P_sem (pc_empty s); Some (con_to j CO_LOOP f (s\<lparr>pc_empty := v\<rparr>)) }
     | CO_DONE \<Rightarrow> None)"

text \<open>A step of processor \<open>id\<close>.\<close>

definition pc_step :: "nat \<Rightarrow> int \<Rightarrow> nat \<Rightarrow> prodcons \<Rightarrow> prodcons option" where
  "pc_step M V pid s = (if pid = 0 then prod_step M V s else con_step M (pid - 1) s)"

lemma dequeue_parts [simp]:
  "fst (dequeue M s) = pc_buf s ! pc_hd s" "pc_got (snd (dequeue M s)) = pc_got s"
  "pc_nfull (snd (dequeue M s)) = pc_nfull s" "pc_lock (snd (dequeue M s)) = pc_lock s"
  "pc_full (snd (dequeue M s)) = pc_full s" "pc_empty (snd (dequeue M s)) = pc_empty s"
  "pc_nempty (snd (dequeue M s)) = pc_nempty s" "pc_at (snd (dequeue M s)) = pc_at s"
  "pc_flag (snd (dequeue M s)) = pc_flag s" "pc_i (snd (dequeue M s)) = pc_i s"
  "pc_producing (snd (dequeue M s)) = pc_producing s" "pc_cons (snd (dequeue M s)) = pc_cons s"
  "pc_ct (snd (dequeue M s)) = pc_ct s - 1" "pc_buf (snd (dequeue M s)) = pc_buf s" "pc_tl (snd (dequeue M s)) = pc_tl s"
  by (simp_all add: dequeue_def)

lemma enqueue_parts [simp]:
  "pc_got (enqueue M x s) = pc_got s" "pc_nfull (enqueue M x s) = pc_nfull s" "pc_lock (enqueue M x s) = pc_lock s"
  "pc_full (enqueue M x s) = pc_full s" "pc_empty (enqueue M x s) = pc_empty s"
  "pc_nempty (enqueue M x s) = pc_nempty s" "pc_at (enqueue M x s) = pc_at s"
  "pc_flag (enqueue M x s) = pc_flag s" "pc_i (enqueue M x s) = pc_i s"
  "pc_producing (enqueue M x s) = pc_producing s" "pc_cons (enqueue M x s) = pc_cons s"
  "pc_ct (enqueue M x s) = pc_ct s + 1" "pc_hd (enqueue M x s) = pc_hd s" "pc_buf (enqueue M x s) = (pc_buf s)[pc_tl s := x]"
  by (simp_all add: enqueue_def)

lemma con_to_parts [simp]:
  "pc_got (con_to j l f s) = pc_got s" "pc_nfull (con_to j l f s) = pc_nfull s" "pc_lock (con_to j l f s) = pc_lock s"
  "pc_full (con_to j l f s) = pc_full s" "pc_empty (con_to j l f s) = pc_empty s"
  "pc_nempty (con_to j l f s) = pc_nempty s" "pc_at (con_to j l f s) = pc_at s"
  "pc_flag (con_to j l f s) = pc_flag s" "pc_i (con_to j l f s) = pc_i s"
  "pc_producing (con_to j l f s) = pc_producing s" "pc_ct (con_to j l f s) = pc_ct s"
  "pc_hd (con_to j l f s) = pc_hd s" "pc_tl (con_to j l f s) = pc_tl s" "pc_buf (con_to j l f s) = pc_buf s"
  "pc_cons (con_to j l f s) = (pc_cons s)[j := \<lparr>co_at = l, co_flag = f\<rparr>]"
  by (simp_all add: con_to_def)

text \<open>The same steps as relations, one rule for each way a step can go.\<close>

inductive prod_move :: "nat \<Rightarrow> int \<Rightarrow> prodcons \<Rightarrow> prodcons \<Rightarrow> bool" for M V s where
  loop: "pc_at s = PR_LOOP \<Longrightarrow> pc_i s < V \<Longrightarrow> prod_move M V s (s\<lparr>pc_at := PR_LOCK\<rparr>)"
| stop: "pc_at s = PR_LOOP \<Longrightarrow> \<not> pc_i s < V \<Longrightarrow> prod_move M V s (s\<lparr>pc_at := PR_END_LOCK\<rparr>)"
| lock: "pc_at s = PR_LOCK \<Longrightarrow> 1 \<le> pc_lock s \<Longrightarrow> prod_move M V s (s\<lparr>pc_lock := pc_lock s - 1, pc_at := PR_PUT\<rparr>)"
| put: "pc_at s = PR_PUT \<Longrightarrow> pc_ct s < int M \<Longrightarrow> pc_nempty s \<le> 0 \<Longrightarrow>
    prod_move M V s ((enqueue M (pc_i s) s)\<lparr>pc_flag := SUCCESS, pc_at := PR_UNLOCK\<rparr>)"
| put_wake: "pc_at s = PR_PUT \<Longrightarrow> pc_ct s < int M \<Longrightarrow> 0 < pc_nempty s \<Longrightarrow>
    prod_move M V s ((enqueue M (pc_i s) s)\<lparr>pc_flag := SUCCESS, pc_at := PR_WAKE\<rparr>)"
| full: "pc_at s = PR_PUT \<Longrightarrow> int M \<le> pc_ct s \<Longrightarrow>
    prod_move M V s (s\<lparr>pc_nfull := 1, pc_flag := FULL, pc_at := PR_UNLOCK\<rparr>)"
| wake: "pc_at s = PR_WAKE \<Longrightarrow>
    prod_move M V s (s\<lparr>pc_empty := pc_empty s + 1, pc_nempty := pc_nempty s - 1, pc_at := PR_UNLOCK\<rparr>)"
| unlock_full: "pc_at s = PR_UNLOCK \<Longrightarrow> pc_flag s = FULL \<Longrightarrow>
    prod_move M V s (s\<lparr>pc_lock := pc_lock s + 1, pc_at := PR_WAIT\<rparr>)"
| unlock: "pc_at s = PR_UNLOCK \<Longrightarrow> pc_flag s \<noteq> FULL \<Longrightarrow>
    prod_move M V s (s\<lparr>pc_lock := pc_lock s + 1, pc_i := pc_i s + 1, pc_at := PR_LOOP\<rparr>)"
| wait: "pc_at s = PR_WAIT \<Longrightarrow> 1 \<le> pc_full s \<Longrightarrow> prod_move M V s (s\<lparr>pc_full := pc_full s - 1, pc_at := PR_LOCK2\<rparr>)"
| lock2: "pc_at s = PR_LOCK2 \<Longrightarrow> 1 \<le> pc_lock s \<Longrightarrow> prod_move M V s (s\<lparr>pc_lock := pc_lock s - 1, pc_at := PR_PUT2\<rparr>)"
| put2: "pc_at s = PR_PUT2 \<Longrightarrow> prod_move M V s ((enqueue M (pc_i s) s)\<lparr>pc_at := PR_UNLOCK2\<rparr>)"
| unlock2: "pc_at s = PR_UNLOCK2 \<Longrightarrow>
    prod_move M V s (s\<lparr>pc_lock := pc_lock s + 1, pc_i := pc_i s + 1, pc_at := PR_LOOP\<rparr>)"
| end_lock: "pc_at s = PR_END_LOCK \<Longrightarrow> 1 \<le> pc_lock s \<Longrightarrow> prod_move M V s (s\<lparr>pc_lock := pc_lock s - 1, pc_at := PR_END\<rparr>)"
| end_prod: "pc_at s = PR_END \<Longrightarrow> prod_move M V s (s\<lparr>pc_producing := False, pc_at := PR_WAKE_ALL\<rparr>)"
| wake_all: "pc_at s = PR_WAKE_ALL \<Longrightarrow> 0 < pc_nempty s \<Longrightarrow>
    prod_move M V s (s\<lparr>pc_empty := pc_empty s + 1, pc_nempty := pc_nempty s - 1\<rparr>)"
| woken_all: "pc_at s = PR_WAKE_ALL \<Longrightarrow> pc_nempty s \<le> 0 \<Longrightarrow> prod_move M V s (s\<lparr>pc_at := PR_END_UNLOCK\<rparr>)"
| end_unlock: "pc_at s = PR_END_UNLOCK \<Longrightarrow> prod_move M V s (s\<lparr>pc_lock := pc_lock s + 1, pc_at := PR_DONE\<rparr>)"

lemma prod_step_move: "prod_step M V s = Some s' \<Longrightarrow> prod_move M V s s'"
  by (cases "pc_at s") (auto simp: prod_step_def Option.bind_eq_Some_conv not_less
      intro: prod_move.intros split: if_splits)

inductive con_move :: "nat \<Rightarrow> nat \<Rightarrow> prodcons \<Rightarrow> prodcons \<Rightarrow> bool" for M j s where
  loop: "con_move M j s (con_to j CO_LOCK f s)" if "pc_cons s ! j = \<lparr>co_at = CO_LOOP, co_flag = f\<rparr>" "f \<noteq> END"
| stop: "con_move M j s (con_to j CO_DONE END s)" if "pc_cons s ! j = \<lparr>co_at = CO_LOOP, co_flag = END\<rparr>"
| lock: "con_move M j s (con_to j CO_GET f (s\<lparr>pc_lock := pc_lock s - 1\<rparr>))"
    if "pc_cons s ! j = \<lparr>co_at = CO_LOCK, co_flag = f\<rparr>" "1 \<le> pc_lock s"
| get: "con_move M j s (con_to j CO_UNLOCK SUCCESS ((snd (dequeue M s))\<lparr>pc_got := pc_got s @ [pc_buf s ! pc_hd s]\<rparr>))"
    if "pc_cons s ! j = \<lparr>co_at = CO_GET, co_flag = f\<rparr>" "0 < pc_ct s" "pc_nfull s = 0"
| get_wake: "con_move M j s (con_to j CO_WAKE SUCCESS ((snd (dequeue M s))\<lparr>pc_got := pc_got s @ [pc_buf s ! pc_hd s]\<rparr>))"
    if "pc_cons s ! j = \<lparr>co_at = CO_GET, co_flag = f\<rparr>" "0 < pc_ct s" "pc_nfull s \<noteq> 0"
| finish: "con_move M j s (con_to j CO_UNLOCK END s)"
    if "pc_cons s ! j = \<lparr>co_at = CO_GET, co_flag = f\<rparr>" "pc_ct s \<le> 0" "\<not> pc_producing s"
| empty: "con_move M j s (con_to j CO_UNLOCK EMPTY (s\<lparr>pc_nempty := pc_nempty s + 1\<rparr>))"
    if "pc_cons s ! j = \<lparr>co_at = CO_GET, co_flag = f\<rparr>" "pc_ct s \<le> 0" "pc_producing s"
| wake: "con_move M j s (con_to j CO_UNLOCK f (s\<lparr>pc_full := pc_full s + 1, pc_nfull := 0\<rparr>))"
    if "pc_cons s ! j = \<lparr>co_at = CO_WAKE, co_flag = f\<rparr>"
| unlock_empty: "con_move M j s (con_to j CO_WAIT EMPTY (s\<lparr>pc_lock := pc_lock s + 1\<rparr>))"
    if "pc_cons s ! j = \<lparr>co_at = CO_UNLOCK, co_flag = EMPTY\<rparr>"
| unlock: "con_move M j s (con_to j CO_LOOP f (s\<lparr>pc_lock := pc_lock s + 1\<rparr>))"
    if "pc_cons s ! j = \<lparr>co_at = CO_UNLOCK, co_flag = f\<rparr>" "f \<noteq> EMPTY"
| wait: "con_move M j s (con_to j CO_LOOP f (s\<lparr>pc_empty := pc_empty s - 1\<rparr>))"
    if "pc_cons s ! j = \<lparr>co_at = CO_WAIT, co_flag = f\<rparr>" "1 \<le> pc_empty s"

lemma con_step_move:
  assumes "con_step M j s = Some s'"
  shows "j < length (pc_cons s)" "con_move M j s s'"
proof -
  show "j < length (pc_cons s)" using assms by (auto simp: con_step_def split: if_splits)
  have c: "\<exists>l f. pc_cons s ! j = \<lparr>co_at = l, co_flag = f\<rparr>" by (metis consumer.surjective unit.exhaust)
  then obtain l f where "pc_cons s ! j = \<lparr>co_at = l, co_flag = f\<rparr>" by blast
  then show "con_move M j s s'" using assms
    by (cases l) (auto simp: con_step_def Let_def split_def Option.bind_eq_Some_conv not_less not_le
        intro: con_move.intros split: if_splits)
qed

end
