(* ===== verification/ProdConsInv.thy ===== *)
theory ProdConsInv
  imports ProdCons
begin

text \<open>
  The correctness of the producer and the consumers: the invariants that every step keeps (the lock is held by at
  most one processor, the two signals count who waits, the ring is a queue), the absence of deadlock, and a
  measure that every step decreases. Together: every run ends, with all items delivered once and in order.
\<close>

section \<open>The semaphores\<close>

definition in_section :: "pplace \<Rightarrow> bool" where
  "in_section l \<longleftrightarrow> l \<in> {PR_PUT, PR_WAKE, PR_UNLOCK, PR_PUT2, PR_UNLOCK2, PR_END, PR_WAKE_ALL, PR_END_UNLOCK}"

definition con_in_section :: "consumer \<Rightarrow> bool" where
  "con_in_section c \<longleftrightarrow> co_at c \<in> {CO_GET, CO_WAKE, CO_UNLOCK}"

text \<open>A consumer that found nothing, up to its call of \<open>Sem_P(&empty)\<close>.\<close>

definition con_waits :: "consumer \<Rightarrow> bool" where
  "con_waits c \<longleftrightarrow> co_at c = CO_WAIT \<or> co_at c = CO_UNLOCK \<and> co_flag c = EMPTY"

definition con_wakes :: "consumer \<Rightarrow> bool" where
  "con_wakes c \<longleftrightarrow> co_at c = CO_WAKE"

text \<open>The producer that found no room, up to its call of \<open>Sem_P(&full)\<close>.\<close>

definition prod_waits :: "prodcons \<Rightarrow> bool" where
  "prod_waits s \<longleftrightarrow> pc_at s = PR_WAIT \<or> pc_at s = PR_UNLOCK \<and> pc_flag s = FULL"

definition lock_ok :: "prodcons \<Rightarrow> bool" where
  "lock_ok s \<longleftrightarrow> 0 \<le> pc_lock s \<and> pc_lock s + of_bool (in_section (pc_at s)) + cnt con_in_section (pc_cons s) = 1"

definition empty_ok :: "prodcons \<Rightarrow> bool" where
  "empty_ok s \<longleftrightarrow> 0 \<le> pc_nempty s \<and> 0 \<le> pc_empty s \<and> (pc_at s = PR_WAKE \<longrightarrow> 1 \<le> pc_nempty s) \<and>
     pc_nempty s + pc_empty s = cnt con_waits (pc_cons s)"

definition full_ok :: "nat \<Rightarrow> prodcons \<Rightarrow> bool" where
  "full_ok M s \<longleftrightarrow> (pc_at s = PR_WAKE \<longrightarrow> pc_flag s = SUCCESS) \<and> 0 \<le> pc_nfull s \<and> 0 \<le> pc_full s \<and> pc_nfull s + pc_full s = of_bool (prod_waits s) \<and>
     (1 \<le> cnt con_wakes (pc_cons s) \<longrightarrow> pc_nfull s = 1 \<and> pc_ct s < int M) \<and>
     (pc_nfull s = 1 \<and> cnt con_wakes (pc_cons s) = 0 \<longrightarrow> pc_ct s = int M) \<and>
     (pc_at s = PR_LOCK2 \<or> pc_at s = PR_PUT2 \<or> prod_waits s \<and> pc_nfull s = 0 \<longrightarrow> pc_ct s < int M)"

text \<open>What a consumer remembers at each place.\<close>

definition con_ok :: "consumer \<Rightarrow> bool" where
  "con_ok c \<longleftrightarrow> co_flag c \<noteq> FULL \<and> (co_at c = CO_WAKE \<longrightarrow> co_flag c = SUCCESS) \<and> (co_at c = CO_WAIT \<longrightarrow> co_flag c = EMPTY) \<and>
     (co_at c = CO_DONE \<longrightarrow> co_flag c = END) \<and> (co_flag c = END \<longrightarrow> co_at c \<in> {CO_UNLOCK, CO_LOOP, CO_DONE})"

definition cons_ok :: "prodcons \<Rightarrow> bool" where
  "cons_ok s \<longleftrightarrow> (\<forall>c\<in>set (pc_cons s). con_ok c)"

lemmas prod_places = in_section_def prod_waits_def
lemmas con_places = con_in_section_def con_waits_def con_wakes_def con_ok_def

lemma con_move_cons:
  assumes "con_move M j s s'"
  shows "\<exists>c. pc_cons s' = (pc_cons s)[j := c] \<and> (con_ok (pc_cons s ! j) \<longrightarrow> con_ok c)"
  using assms by cases (auto simp: con_ok_def)

lemma cons_ok_step:
  assumes "cons_ok s"
  shows "prod_move M V s s' \<Longrightarrow> cons_ok s'" "con_move M j s s' \<Longrightarrow> j < length (pc_cons s) \<Longrightarrow> cons_ok s'"
proof -
  show "cons_ok s'" if "prod_move M V s s'"
    using that assms by cases (simp_all add: cons_ok_def)
  show "cons_ok s'" if "con_move M j s s'" "j < length (pc_cons s)"
    using con_move_cons [OF that(1)] that(2) assms
    by (auto simp: cons_ok_def dest!: subsetD [OF set_update_subset_insert])
qed

lemma lock_ok_step:
  assumes "lock_ok s"
  shows "prod_move M V s s' \<Longrightarrow> lock_ok s'" "con_move M j s s' \<Longrightarrow> j < length (pc_cons s) \<Longrightarrow> lock_ok s'"
proof -
  show "lock_ok s'" if "prod_move M V s s'"
    using that assms by cases (simp_all add: lock_ok_def prod_places)
  show "lock_ok s'" if "con_move M j s s'" "j < length (pc_cons s)"
    using that assms by cases (simp_all add: lock_ok_def con_places)
qed

text \<open>Who is in the section is there alone.\<close>

lemma alone:
  assumes "lock_ok s"
  shows "in_section (pc_at s) \<Longrightarrow> pc_lock s = 0 \<and> cnt con_in_section (pc_cons s) = 0"
    and "j < length (pc_cons s) \<Longrightarrow> con_in_section (pc_cons s ! j) \<Longrightarrow>
      pc_lock s = 0 \<and> \<not> in_section (pc_at s) \<and> cnt con_in_section (pc_cons s) = 1"
  using assms cnt_bounds [of con_in_section "pc_cons s"] cnt_pos [of j "pc_cons s" con_in_section]
  by (cases "in_section (pc_at s)"; force simp: lock_ok_def)+

lemma empty_ok_step:
  assumes "empty_ok s" "lock_ok s" "cons_ok s"
  shows "prod_move M V s s' \<Longrightarrow> empty_ok s'" "con_move M j s s' \<Longrightarrow> j < length (pc_cons s) \<Longrightarrow> empty_ok s'"
proof -
  show "empty_ok s'" if "prod_move M V s s'"
    using that assms(1) by cases (simp_all add: empty_ok_def)
  assume j: "j < length (pc_cons s)"
  have c: "con_ok (pc_cons s ! j)" "con_in_section (pc_cons s ! j) \<longrightarrow> pc_at s \<noteq> PR_WAKE"
    using assms(3) j alone(2) [OF assms(2) j] by (auto simp: in_section_def cons_ok_def)
  show "empty_ok s'" if "con_move M j s s'"
    using that assms(1) j c by cases (auto simp: empty_ok_def con_places)
qed

lemma wakes_in: "con_wakes c \<Longrightarrow> con_in_section c"
  by (simp add: con_wakes_def con_in_section_def)

lemma full_ok_step:
  assumes "full_ok M s" "lock_ok s" "cons_ok s" "pc_ct s \<le> int M"
  shows "prod_move M V s s' \<Longrightarrow> full_ok M s'" "con_move M j s s' \<Longrightarrow> j < length (pc_cons s) \<Longrightarrow> full_ok M s'"
proof -
  have le: "cnt con_wakes (pc_cons s) \<le> cnt con_in_section (pc_cons s)"
    by (rule cnt_le) (rule wakes_in)
  note b = cnt_bounds(1) [of con_wakes "pc_cons s"]
  { assume "prod_move M V s s'"
    then show "full_ok M s'"
      using assms(1,4) le b alone(1) [OF assms(2)] by cases (auto simp: full_ok_def prod_places) }
  assume j: "j < length (pc_cons s)"
  have c: "con_ok (pc_cons s ! j)" "con_in_section (pc_cons s ! j) \<Longrightarrow> \<not> in_section (pc_at s)"
    using assms(3) j alone(2) [OF assms(2) j] by (auto simp: cons_ok_def)
  have w: "con_in_section (pc_cons s ! j) \<Longrightarrow> cnt con_wakes (pc_cons s) = of_bool (con_wakes (pc_cons s ! j))"
    using alone(2) [OF assms(2) j] cnt_others [OF j, of con_in_section con_wakes] wakes_in le b cnt_pos [OF j, of con_wakes]
    by (cases "con_wakes (pc_cons s ! j)") auto
  have nf: "pc_nfull s \<le> 1" using assms(1) by (auto simp: full_ok_def of_bool_def split: if_splits)
  show "full_ok M s'" if "con_move M j s s'"
    using that assms(1,4) j c w nf cnt_pos [OF j, of con_wakes]
    by cases (auto simp: full_ok_def con_places prod_waits_def in_section_def)
qed

section \<open>The ring\<close>

text \<open>How many items the producer has put into the ring.\<close>

definition has_put :: "prodcons \<Rightarrow> int" where
  "has_put s = pc_i s + of_bool (pc_at s = PR_WAKE \<or> pc_at s = PR_UNLOCK2 \<or> pc_at s = PR_UNLOCK \<and> pc_flag s \<noteq> FULL)"

definition ring_ok :: "nat \<Rightarrow> prodcons \<Rightarrow> bool" where
  "ring_ok M s \<longleftrightarrow> 0 \<le> pc_ct s \<and> pc_ct s \<le> int M \<and> length (pc_buf s) = M \<and> pc_hd s < M \<and>
     pc_tl s = (pc_hd s + nat (pc_ct s)) mod M \<and> 
     pc_got s @ ring_list M (pc_buf s) (pc_hd s) (nat (pc_ct s)) = [0..has_put s - 1] \<and> 0 \<le> pc_i s"

definition ring_of :: "prodcons \<Rightarrow> ring" where
  "ring_of s = \<lparr>rg_ct = pc_ct s, rg_hd = pc_hd s, rg_tl = pc_tl s, rg_buf = pc_buf s\<rparr>"

lemma ring_of_ops:
  "ring_of (enqueue M x s) = d_enqueue M x (ring_of s)" "ring_of (snd (dequeue M s)) = snd (d_dequeue M (ring_of s))"
  "fst (d_dequeue M (ring_of s)) = pc_buf s ! pc_hd s"
  "ring_items M (ring_of s) = ring_list M (pc_buf s) (pc_hd s) (nat (pc_ct s))"
  by (simp_all add: ring_of_def enqueue_def dequeue_def d_enqueue_def d_dequeue_def ring_items_def)

lemma ring_ok_iff:
  assumes "pow2 M"
  shows "ring_ok M s \<longleftrightarrow> ring_wf M (ring_of s) \<and> pc_got s @ ring_items M (ring_of s) = [0..has_put s - 1] \<and> 0 \<le> pc_i s"
  using assms by (simp add: ring_ok_def ring_wf_def ring_of_ops) (auto simp: ring_of_def)

lemma ring_ok_put:
  assumes "ring_ok M s" "pow2 M" "pc_ct s < int M" "has_put s = pc_i s"
  shows "ring_wf M (ring_of (enqueue M (pc_i s) s))"
    "pc_got s @ ring_items M (ring_of (enqueue M (pc_i s) s)) = [0..pc_i s]"
proof -
  have wf: "ring_wf M (ring_of s)" "pc_got s @ ring_items M (ring_of s) = [0..pc_i s - 1]" "0 \<le> pc_i s"
    using assms by (simp_all add: ring_ok_iff)
  have "rg_ct (ring_of s) < int M" using assms(3) by (simp add: ring_of_def)
  then have room: "length (ring_items M (ring_of s)) < M" using wf(1) by (auto simp: length_ring_items ring_wf_def)
  show "ring_wf M (ring_of (enqueue M (pc_i s) s))" using rq.put [OF wf(1) room] by (simp add: ring_of_ops(1))
  show "pc_got s @ ring_items M (ring_of (enqueue M (pc_i s) s)) = [0..pc_i s]"
    using rq.order_put [OF wf(1) room wf(2)] upto_rec2 [of 0 "pc_i s"] wf(3) by (simp add: ring_of_ops(1))
qed

lemma ring_ok_take:
  assumes "ring_ok M s" "pow2 M" "0 < pc_ct s"
  shows "ring_wf M (ring_of (snd (dequeue M s)))"
    "(pc_got s @ [pc_buf s ! pc_hd s]) @ ring_items M (ring_of (snd (dequeue M s))) = [0..has_put s - 1]"
proof -
  have wf: "ring_wf M (ring_of s)" "pc_got s @ ring_items M (ring_of s) = [0..has_put s - 1]"
    using assms by (simp_all add: ring_ok_iff)
  have "length (ring_items M (ring_of s)) \<noteq> 0" using assms(3) by (simp add: length_ring_items ring_of_def)
  then have some: "ring_items M (ring_of s) \<noteq> []" by simp
  show "ring_wf M (ring_of (snd (dequeue M s)))" using rq.get [OF wf(1) some] by (simp add: ring_of_ops(2))
  show "(pc_got s @ [pc_buf s ! pc_hd s]) @ ring_items M (ring_of (snd (dequeue M s))) = [0..has_put s - 1]"
    using rq.order_get [OF wf(1) some wf(2)] by (simp only: ring_of_ops(2,3))
qed

lemma ring_ok_step:
  assumes "ring_ok M s" "pow2 M" "full_ok M s"
  shows "prod_move M V s s' \<Longrightarrow> ring_ok M s'" "con_move M j s s' \<Longrightarrow> ring_ok M s'"
proof -
  note take = ring_ok_take [OF assms(1,2)] and iff = ring_ok_iff [OF assms(2)] has_put_def ring_of_def
  have f: "pc_at s = PR_WAKE \<Longrightarrow> pc_flag s = SUCCESS" "pc_at s = PR_PUT2 \<Longrightarrow> pc_ct s < int M"
    using assms(3) by (auto simp: full_ok_def)
  show "ring_ok M s'" if "prod_move M V s s'"
    using that
  proof cases
    case put
    then show ?thesis using assms(1) ring_ok_put [OF assms(1,2) \<open>pc_ct s < int M\<close>] by (simp add: iff)
  next
    case put_wake
    then show ?thesis using assms(1) ring_ok_put [OF assms(1,2) \<open>pc_ct s < int M\<close>] by (simp add: iff)
  next
    case put2
    then show ?thesis using assms(1) f(2) ring_ok_put [OF assms(1,2)] by (simp add: iff)
  next
    case full
    then show ?thesis using assms(1) by (auto simp: ring_ok_def has_put_def)
  qed (use assms(1) f(1) in \<open>simp_all add: ring_ok_def has_put_def\<close>)
  show "ring_ok M s'" if "con_move M j s s'"
    using that by cases (use assms(1) take in \<open>simp_all add: iff\<close>)
qed

section \<open>The end of the production\<close>

definition ending :: "pplace \<Rightarrow> bool" where
  "ending l \<longleftrightarrow> l \<in> {PR_END_LOCK, PR_END, PR_WAKE_ALL, PR_END_UNLOCK, PR_DONE}"

definition end_ok :: "int \<Rightarrow> prodcons \<Rightarrow> bool" where
  "end_ok V s \<longleftrightarrow> (pc_producing s \<longleftrightarrow> pc_at s \<notin> {PR_WAKE_ALL, PR_END_UNLOCK, PR_DONE}) \<and>
     (pc_at s = PR_END_UNLOCK \<or> pc_at s = PR_DONE \<longrightarrow> pc_nempty s = 0) \<and>
     pc_i s \<le> V \<and> (ending (pc_at s) \<longrightarrow> pc_i s = V) \<and> (\<not> ending (pc_at s) \<and> pc_at s \<noteq> PR_LOOP \<longrightarrow> pc_i s < V)"

definition flags_ok :: "prodcons \<Rightarrow> bool" where
  "flags_ok s \<longleftrightarrow> (\<forall>c\<in>set (pc_cons s). co_flag c = END \<longrightarrow> \<not> pc_producing s \<and> pc_ct s \<le> 0)"

lemma end_ok_step:
  assumes "end_ok V s" "empty_ok s"
  shows "prod_move M V s s' \<Longrightarrow> end_ok V s'" "con_move M j s s' \<Longrightarrow> end_ok V s'"
proof -
  have n: "0 \<le> pc_nempty s" using assms(2) by (simp add: empty_ok_def)
  show "end_ok V s'" if "prod_move M V s s'"
    using that assms(1) n by cases (simp_all add: end_ok_def ending_def)
  show "end_ok V s'" if "con_move M j s s'"
    using that assms(1) by cases (auto simp: end_ok_def)
qed

lemma con_move_flags:
  assumes "con_move M j s s'"
  shows "\<exists>c. pc_cons s' = (pc_cons s)[j := c] \<and> (co_flag c = END \<longrightarrow> co_flag (pc_cons s ! j) = END \<or> \<not> pc_producing s \<and> pc_ct s \<le> 0)"
    "pc_producing s' = pc_producing s" "pc_ct s' \<le> pc_ct s"
  using assms by (cases; auto)+

lemma flags_ok_step:
  assumes "flags_ok s" "end_ok V s"
  shows "prod_move M V s s' \<Longrightarrow> flags_ok s'" "con_move M j s s' \<Longrightarrow> j < length (pc_cons s) \<Longrightarrow> flags_ok s'"
proof -
  show "flags_ok s'" if "prod_move M V s s'"
    using that assms by cases (auto simp: flags_ok_def end_ok_def)
  assume m: "con_move M j s s'" and j: "j < length (pc_cons s)"
  obtain c where "pc_cons s' = (pc_cons s)[j := c]"
    "co_flag c = END \<longrightarrow> co_flag (pc_cons s ! j) = END \<or> \<not> pc_producing s \<and> pc_ct s \<le> 0"
    using con_move_flags(1) [OF m] by blast
  then show "flags_ok s'" using assms(1) con_move_flags(2,3) [OF m] nth_mem [OF j] unfolding flags_ok_def
    by (auto dest!: subsetD [OF set_update_subset_insert])
qed

text \<open>When every consumer waits and none has been called, the ring is empty, or it holds the one item
  that the producer put in after it had been waiting, and then the producer is on its way to the next item.\<close>

definition wait_ok :: "prodcons \<Rightarrow> bool" where
  "wait_ok s \<longleftrightarrow> (pc_nempty s = int (length (pc_cons s)) \<longrightarrow> pc_at s = PR_WAKE \<or> pc_ct s \<le> 0 \<or>
     pc_ct s \<le> 1 \<and> \<not> prod_waits s \<and> pc_at s \<noteq> PR_LOCK2 \<and> pc_at s \<noteq> PR_PUT2)"

lemma wait_ok_step:
  assumes "wait_ok s" "empty_ok s" "2 \<le> M" "pc_cons s \<noteq> []"
  shows "prod_move M V s s' \<Longrightarrow> wait_ok s'" "con_move M j s s' \<Longrightarrow> j < length (pc_cons s) \<Longrightarrow> wait_ok s'"
proof -
  have n: "pc_nempty s \<le> int (length (pc_cons s))" "0 < int (length (pc_cons s))"
    using assms(2,4) cnt_bounds(2) [of con_waits "pc_cons s"] by (auto simp: empty_ok_def)
  show "wait_ok s'" if "prod_move M V s s'"
    using that assms(1,3) n by cases (auto simp: wait_ok_def prod_waits_def)
  show "wait_ok s'" if "con_move M j s s'" "j < length (pc_cons s)"
    using that assms(1) by cases (auto simp: wait_ok_def prod_waits_def)
qed

section \<open>The invariant of the program\<close>

definition pc_ok :: "nat \<Rightarrow> int \<Rightarrow> nat \<Rightarrow> prodcons \<Rightarrow> bool" where
  "pc_ok M V C s \<longleftrightarrow> length (pc_cons s) = C \<and> cons_ok s \<and> lock_ok s \<and> empty_ok s \<and> full_ok M s \<and> ring_ok M s \<and>
     end_ok V s \<and> flags_ok s \<and> wait_ok s"

lemma pc_okD:
  assumes "pc_ok M V C s"
  shows "length (pc_cons s) = C" "cons_ok s" "lock_ok s" "empty_ok s" "full_ok M s" "ring_ok M s" "end_ok V s" "flags_ok s"
    "wait_ok s" "pc_ct s \<le> int M"
  using assms by (simp_all add: pc_ok_def ring_ok_def)

lemma pc_step_moves:
  assumes "pc_step M V k s = Some s'"
  obtains "prod_move M V s s'" | j where "con_move M j s s'" "j < length (pc_cons s)"
  using assms by (auto simp: pc_step_def split: if_splits dest: prod_step_move con_step_move)

lemma pc_ok_step:
  assumes "pc_ok M V C s" "pc_step M V k s = Some s'" "pow2 M" "2 \<le> M" "0 < C"
  shows "pc_ok M V C s'"
proof -
  note ok = pc_okD [OF assms(1)]
  have ne: "pc_cons s \<noteq> []" using ok(1) assms(5) by auto
  note steps = cons_ok_step [OF ok(2)] lock_ok_step [OF ok(3)] empty_ok_step [OF ok(4,3,2)]
    full_ok_step [OF ok(5,3,2,10)] ring_ok_step [OF ok(6) assms(3) ok(5)] end_ok_step [OF ok(7,4)]
    flags_ok_step [OF ok(8,7)] wait_ok_step [OF ok(9,4) assms(4) ne]
  show ?thesis
  proof (cases rule: pc_step_moves [OF assms(2)])
    case 1
    have "length (pc_cons s') = C" using 1 ok(1) by cases simp_all
    then show ?thesis using steps(1,3,5,7,9,11,13,15) [OF 1] by (simp add: pc_ok_def)
  next
    case (2 j)
    have "length (pc_cons s') = C" using con_move_cons [OF 2(1)] ok(1) by auto
    then show ?thesis using steps(2,4,6,8,14,16) [OF 2] steps(10,12) [OF 2(1)] by (simp add: pc_ok_def)
  qed
qed

lemma pc0_ok:
  assumes "2 \<le> M" "0 \<le> V" "0 < C"
  shows "pc_ok M V C (pc0 M C)"
proof -
  have c: "cnt con_in_section (pc_cons (pc0 M C)) = 0" "cnt con_waits (pc_cons (pc0 M C)) = 0"
    "cnt con_wakes (pc_cons (pc0 M C)) = 0"
    by (simp_all add: pc0_def cnt_replicate con_places)
  show ?thesis using assms unfolding pc_ok_def lock_ok_def empty_ok_def full_ok_def c
    by (auto simp: pc0_def cons_ok_def ring_ok_def ring_list_def has_put_def end_ok_def ending_def flags_ok_def wait_ok_def
        prod_places con_ok_def)
qed

section \<open>No deadlock\<close>

lemma con_stuck:
  assumes "con_step M j s = None" "j < length (pc_cons s)"
  shows "co_at (pc_cons s ! j) = CO_DONE \<or> co_at (pc_cons s ! j) = CO_LOCK \<and> pc_lock s < 1 \<or>
    co_at (pc_cons s ! j) = CO_WAIT \<and> pc_empty s < 1"
  using assms by (cases "co_at (pc_cons s ! j)") (auto simp: con_step_def Let_def split_def P_sem_def split: if_splits)

lemma prod_stuck:
  assumes "prod_step M V s = None"
  shows "pc_at s = PR_DONE \<or> pc_at s \<in> {PR_LOCK, PR_LOCK2, PR_END_LOCK} \<and> pc_lock s < 1 \<or> pc_at s = PR_WAIT \<and> pc_full s < 1"
  using assms by (cases "pc_at s") (auto simp: prod_step_def P_sem_def split: if_splits)

definition all_done :: "prodcons \<Rightarrow> bool" where
  "all_done s \<longleftrightarrow> pc_at s = PR_DONE \<and> (\<forall>c\<in>set (pc_cons s). co_at c = CO_DONE)"

lemma stuck_done:
  assumes "pc_ok M V C s" "0 < M" "0 < C" "\<forall>k\<le>C. pc_step M V k s = None"
  shows "all_done s"
proof -
  note ok = pc_okD [OF assms(1)]
  let ?at = "\<lambda>j. co_at (pc_cons s ! j)"
  have "prod_step M V s = None" using assms(4) by (auto simp: pc_step_def)
  note prod = prod_stuck [OF this]
  have con: "?at j = CO_DONE \<or> ?at j = CO_LOCK \<and> pc_lock s < 1 \<or> ?at j = CO_WAIT \<and> pc_empty s < 1" if "j < C" for j
    using con_stuck [of M j s] assms(4) [rule_format, of "Suc j"] that ok(1) by (simp add: pc_step_def)
  have "\<not> con_in_section (pc_cons s ! j) \<and> \<not> con_wakes (pc_cons s ! j)" if "j < length (pc_cons s)" for j
    using con [of j] that ok(1) by (auto simp: con_in_section_def con_wakes_def)
  then have none: "cnt con_in_section (pc_cons s) = 0" and wakes: "cnt con_wakes (pc_cons s) = 0"
    by (simp_all add: cnt_none)
  have "\<not> in_section (pc_at s)" using prod by (auto simp: in_section_def)
  then have lock: "pc_lock s = 1" using ok(3) none by (simp add: lock_ok_def)
  have con: "?at j = CO_DONE \<or> ?at j = CO_WAIT \<and> pc_empty s = 0" if "j < C" for j
    using con [OF that] lock ok(4) by (auto simp: empty_ok_def)
  have cok: "con_ok (pc_cons s ! j)" if "j < C" for j using ok(1,2) that by (simp add: cons_ok_def)
  from prod lock consider "pc_at s = PR_DONE" | "pc_at s = PR_WAIT" "pc_full s < 1" by auto
  then show ?thesis
  proof cases
    case 1
    have "?at j = CO_DONE" if j: "j < C" for j
    proof (rule ccontr)
      assume "?at j \<noteq> CO_DONE"
      then have w: "?at j = CO_WAIT" "pc_empty s = 0" using con [OF j] by auto
      then have "1 \<le> cnt con_waits (pc_cons s)" using j ok(1) by (intro cnt_pos [of j]) (auto simp: con_waits_def)
      then show False using ok(4,7) 1 w(2) by (auto simp: empty_ok_def end_ok_def)
    qed
    then show ?thesis using 1 ok(1) by (auto simp: all_done_def in_set_conv_nth)
  next
    case 2
    have prodg: "pc_producing s" using ok(7) 2 by (simp add: end_ok_def)
    have w: "?at j = CO_WAIT \<and> pc_empty s = 0" if j: "j < C" for j
      using con [OF j] cok [OF j] ok(1,8) prodg nth_mem [of j "pc_cons s"] j by (auto simp: con_ok_def flags_ok_def)
    then have "cnt con_waits (pc_cons s) = int C" using ok(1) cnt_all [of "pc_cons s" con_waits] by (simp add: con_waits_def)
    then have "pc_nempty s = int (length (pc_cons s))" using ok(1,4) w [of 0] assms(3) by (simp add: empty_ok_def)
    then have "pc_ct s \<le> 0" using ok(9) 2 by (auto simp: wait_ok_def prod_waits_def)
    moreover have "pc_ct s = int M" using ok(5) 2 wakes by (auto simp: full_ok_def prod_waits_def)
    ultimately show ?thesis using assms(2) by simp
  qed
qed

section \<open>How long it takes\<close>

fun place_left :: "cplace \<Rightarrow> flag \<Rightarrow> int" where
  "place_left CO_LOOP f = (if f = END then 2 else 6)" | "place_left CO_LOCK f = 5" | "place_left CO_GET f = 4"
| "place_left CO_WAKE f = 8" | "place_left CO_UNLOCK f = (if f = EMPTY \<or> f = END then 3 else 7)"
| "place_left CO_WAIT f = 1" | "place_left CO_DONE f = 0"

definition cons_left :: "consumer list \<Rightarrow> int" where
  "cons_left cs = (\<Sum>j<length cs. place_left (co_at (cs ! j)) (co_flag (cs ! j)))"

fun prod_left :: "pplace \<Rightarrow> int" where
  "prod_left PR_LOOP = 11" | "prod_left PR_LOCK = 10" | "prod_left PR_PUT = 9" | "prod_left PR_WAKE = 8"
| "prod_left PR_UNLOCK = 7" | "prod_left PR_WAIT = 6" | "prod_left PR_LOCK2 = 5" | "prod_left PR_PUT2 = 4"
| "prod_left PR_UNLOCK2 = 3" | "prod_left PR_END_LOCK = 10" | "prod_left PR_END = 9" | "prod_left PR_WAKE_ALL = 8"
| "prod_left PR_END_UNLOCK = 7" | "prod_left PR_DONE = 6"

text \<open>How often a waiting consumer can still be called: the signals that are there, one for each item that is not
  in the ring yet, and at the end one for each consumer.\<close>

definition calls_left :: "int \<Rightarrow> prodcons \<Rightarrow> int" where
  "calls_left V s = pc_empty s + (V - has_put s) + of_bool (pc_at s = PR_WAKE) +
     (if pc_producing s then int (length (pc_cons s)) else pc_nempty s)"

definition pc_left :: "int \<Rightarrow> prodcons \<Rightarrow> int" where
  "pc_left V s = 12 * (V - pc_i s) + prod_left (pc_at s) +
     (if pc_producing s then int (length (pc_cons s)) else pc_nempty s) + 6 * calls_left V s +
     6 * (V - int (length (pc_got s))) + cons_left (pc_cons s)"

lemma cons_left_update [simp]:
  "j < length cs \<Longrightarrow> cons_left (cs[j := c]) =
     cons_left cs - place_left (co_at (cs ! j)) (co_flag (cs ! j)) + place_left (co_at c) (co_flag c)"
  unfolding cons_left_def length_list_update
  by (subst sum_change [of j _ _ "\<lambda>k. place_left (co_at (cs ! k)) (co_flag (cs ! k))"]) auto

lemma pc_left_step:
  assumes "pc_ok M V C s" "pc_step M V k s = Some s'"
  shows "pc_left V s' < pc_left V s"
proof -
  note ok = pc_okD [OF assms(1)]
  have n: "0 \<le> pc_nempty s" "pc_nempty s \<le> int (length (pc_cons s))"
    using ok(4) cnt_bounds(2) [of con_waits "pc_cons s"] by (auto simp: empty_ok_def)
  have f: "pc_at s = PR_WAKE \<Longrightarrow> pc_flag s = SUCCESS" using ok(5) by (simp add: full_ok_def)
  have p: "pc_producing s \<longleftrightarrow> pc_at s \<notin> {PR_WAKE_ALL, PR_END_UNLOCK, PR_DONE}" using ok(7) by (simp add: end_ok_def)
  show ?thesis
  proof (cases rule: pc_step_moves [OF assms(2)])
    case 1
    then show ?thesis using n f p by cases (simp_all add: pc_left_def calls_left_def has_put_def)
  next
    case (2 j)
    have c: "con_ok (pc_cons s ! j)" using ok(2) 2(2) by (simp add: cons_ok_def)
    show ?thesis using 2(1) 2(2) c by cases
        (simp_all add: pc_left_def calls_left_def has_put_def con_ok_def)
  qed
qed

lemma has_put_le:
  assumes "end_ok V s"
  shows "has_put s \<le> V" "pc_i s \<le> V"
  using assms by (cases "pc_at s"; simp add: end_ok_def ending_def has_put_def)+

lemma pc_left_nonneg:
  assumes "pc_ok M V C s"
  shows "0 \<le> pc_left V s"
proof -
  note ok = pc_okD [OF assms]
  note put = has_put_le [OF ok(7)]
  have e: "0 \<le> pc_nempty s" "0 \<le> pc_empty s" using ok(4) by (simp_all add: empty_ok_def)
  have "int (length (pc_got s)) + int (length (ring_list M (pc_buf s) (pc_hd s) (nat (pc_ct s)))) = int (length [0..has_put s - 1])"
    using ok(6) unfolding ring_ok_def by (metis length_append of_nat_add)
  moreover have "0 \<le> has_put s" using ok(6) by (simp add: ring_ok_def has_put_def)
  ultimately have "int (length (pc_got s)) \<le> V" using put(1) by simp
  moreover have "0 \<le> prod_left (pc_at s)" by (cases "pc_at s") simp_all
  moreover have "0 \<le> place_left l f" for l f by (cases l) simp_all
  then have "0 \<le> cons_left (pc_cons s)" by (simp add: cons_left_def sum_nonneg)
  ultimately show ?thesis using put e by (simp add: pc_left_def calls_left_def)
qed

lemma pc_run:
  assumes "mfold (pc_step M V) is s = Some s'" "pc_ok M V C s" "pow2 M" "2 \<le> M" "0 < C"
  shows "pc_ok M V C s' \<and> int (length is) + pc_left V s' \<le> pc_left V s"
  using assms(1,2)
proof (induction "is" arbitrary: s)
  case (Cons k "is")
  then obtain t where t: "pc_step M V k s = Some t" "mfold (pc_step M V) is t = Some s'"
    by (auto simp: Option.bind_eq_Some_conv)
  show ?case
    using Cons.IH [OF t(2) pc_ok_step [OF Cons.prems(2) t(1) assms(3-5)]] pc_left_step [OF Cons.prems(2) t(1)] by simp
qed simp

lemma pc0_left: "0 \<le> V \<Longrightarrow> pc_left V (pc0 M C) = 24 * V + 13 * int C + 11"
  by (simp add: pc_left_def calls_left_def has_put_def pc0_def cons_left_def)

text \<open>The ring is a first-in first-out channel between the processors: in every interleaving, what the consumers have
  taken, followed by what is in the ring, is what the producer has put in so far, in that order and each item
  once; and the ring never holds more than \<open>MAXELEM\<close> items.\<close>

theorem prodcons_in_order:
  assumes "mfold (pc_step M V) is (pc0 M C) = Some s" "pow2 M" "2 \<le> M" "0 < C" "0 \<le> V"
  shows "pc_got s @ ring_list M (pc_buf s) (pc_hd s) (nat (pc_ct s)) = [0..has_put s - 1] \<and>
    0 \<le> pc_ct s \<and> pc_ct s \<le> int M \<and> has_put s \<le> V"
proof -
  have "pc_ok M V C s" using pc_run [OF assms(1) pc0_ok [OF assms(3,5,4)] assms(2-4)] by simp
  from pc_okD(6) [OF this] has_put_le [OF pc_okD(7) [OF this]] show ?thesis by (simp add: ring_ok_def)
qed

text \<open>C14:
  The program comes to an end, whatever the order in which the processors run: no run is longer than
  \<open>24 * MAXVAL + 13 * NCONSUMERS + 11\<close> steps, and a state in which no processor can do a step is one where
  all of them have returned, no item is left and the consumers have taken \<open>0\<close> to \<open>MAXVAL - 1\<close>.\<close>

theorem prodcons_finishes:
  assumes "mfold (pc_step M V) is (pc0 M C) = Some s" "pow2 M" "2 \<le> M" "0 < C" "0 \<le> V"
  shows "int (length is) \<le> 24 * V + 13 * int C + 11 \<and>
    ((\<forall>k\<le>C. pc_step M V k s = None) \<longrightarrow> all_done s \<and> pc_ct s = 0 \<and> pc_got s = [0..V - 1])"
proof -
  have r: "pc_ok M V C s" "int (length is) + pc_left V s \<le> pc_left V (pc0 M C)"
    using pc_run [OF assms(1) pc0_ok [OF assms(3,5,4)] assms(2-4)] by simp_all
  note ok = pc_okD [OF r(1)]
  have "pc_ct s = 0 \<and> pc_got s = [0..V - 1]" if d: "all_done s"
  proof -
    have at: "pc_at s = PR_DONE" and 0: "co_at (pc_cons s ! 0) = CO_DONE" "pc_cons s ! 0 \<in> set (pc_cons s)"
      using d ok(1) assms(4) by (auto simp: all_done_def)
    then have "co_flag (pc_cons s ! 0) = END" using ok(2) by (simp add: cons_ok_def con_ok_def)
    then have ct: "pc_ct s = 0" using ok(6,8) 0(2) by (auto simp: flags_ok_def ring_ok_def)
    have "has_put s = V" using ok(7) at by (simp add: end_ok_def ending_def has_put_def)
    with ok(6) ct show ?thesis by (simp add: ring_ok_def ring_list_def)
  qed
  then show ?thesis
    using stuck_done [OF r(1) _ assms(4)] pc_left_nonneg [OF r(1)] r(2) pc0_left [OF assms(5), of M C] assms(3) by simp
qed

text \<open>A run with room for two items, three items and one consumer; the producer has to wait once.\<close>

definition pc_schedule :: "nat list" where
  "pc_schedule = [0, 0, 0, 0, 0, 0, 0, 0, 0, 0, 0, 0, 1, 1, 1, 1, 0, 1, 0, 0, 0, 0, 0, 0, 0, 0] @ replicate 13 1"

theorem prodcons_in_order_witness:
  "\<exists>s. mfold (pc_step 2 3) (take 16 pc_schedule) (pc0 2 1) = Some s \<and> pc_got s = [0] \<and>
     [0] @ ring_list 2 (pc_buf s) (pc_hd s) (nat (pc_ct s)) = [0..has_put s - 1]"
proof -
  have "map_option pc_got (mfold (pc_step 2 3) (take 16 pc_schedule) (pc0 2 1)) = Some [0]" by code_simp
  then obtain s where s: "mfold (pc_step 2 3) (take 16 pc_schedule) (pc0 2 1) = Some s" "pc_got s = [0]" by auto
  have "pow2 2" unfolding pow2_def by (rule exI [of _ 1]) simp
  from prodcons_in_order [OF s(1) this] s show ?thesis by auto
qed

theorem prodcons_finishes_witness:
  "\<exists>s. mfold (pc_step 2 3) pc_schedule (pc0 2 1) = Some s \<and> all_done s \<and> pc_got s = [0, 1, 2]"
proof -
  have "case mfold (pc_step 2 3) pc_schedule (pc0 2 1) of None \<Rightarrow> False
      | Some s \<Rightarrow> pc_step 2 3 0 s = None \<and> pc_step 2 3 1 s = None" by code_simp
  then obtain s where s: "mfold (pc_step 2 3) pc_schedule (pc0 2 1) = Some s"
    "pc_step 2 3 0 s = None" "pc_step 2 3 1 s = None" by (auto split: option.splits)
  have p: "pow2 2" unfolding pow2_def by (rule exI [of _ 1]) simp
  have "\<forall>k\<le>1. pc_step 2 3 k s = None" using s(2,3) by (simp add: le_Suc_eq)
  then have "all_done s \<and> pc_got s = [0..3 - 1]" using prodcons_finishes [OF s(1) p] by simp
  moreover have "[0..3 - 1] = [0, 1, 2 :: int]" by code_simp
  ultimately show ?thesis using s(1) by auto
qed

text \<open>The check of \<open>MAXELEM\<close> at the beginning of the file reads \<open>MAXELEM & 2 != 0\<close>, that is \<open>MAXELEM & 1\<close>: it lets
  any even number pass. With 6 the mask is no modulus, and the consumer gets some items twice and others never.\<close>

lemma prodcons_loses_items:
  "map_option pc_got (mfold (pc_step 6 5) (replicate 25 0 @ replicate 25 1) (pc0 6 1)) = Some [4, 3, 4, 3, 4]"
  by code_simp

end
