(* ===== verification/ProdCons2.thy ===== *)
theory ProdCons2
  imports ProdCons Count
begin

text \<open>
  Two producers and the consumers on shared memory (examples/src/producer-consumerv2.c). As in theory ProdCons a step
  is one call of \<open>Sem_P\<close> or \<open>Sem_V\<close> or the code between two of them, and the macros \<open>MAXELEM\<close> and
  \<open>MAXVAL\<close> are the parameters \<open>M\<close> and \<open>V\<close>. The producers are the processors 0 and 3; producer \<open>p\<close> is the
  one with \<open>pid & 1 = p\<close>.
\<close>

section \<open>The shared variables\<close>

datatype qplace =
    Q_LOOP | Q_LOCK | Q_PUT | Q_WAKE | Q_UNLOCK | Q_WAIT | Q_END_LOCK | Q_END | Q_WAKE_ALL | Q_END_UNLOCK | Q_DONE

record producer =
  pr_at :: qplace
  pr_val :: int
  pr_flag :: flag

text \<open>\<open>pq_put\<close>, \<open>pq_skip\<close> and \<open>pq_got\<close> record the items that went into the ring, the items of the producers that
  found it full, and the items that the consumers took.\<close>

record prodcons2 =
  pq_ring :: ring
  pq_nempty :: int
  pq_nfull :: int
  pq_producing :: "bool list"
  pq_lock :: int
  pq_full :: int
  pq_empty :: int
  pq_prod :: "producer list"
  pq_cons :: "consumer list"
  pq_put :: "int list"
  pq_skip :: "int list"
  pq_got :: "int list"

definition pq0 :: "nat \<Rightarrow> nat \<Rightarrow> prodcons2" where
  "pq0 M C = \<lparr>pq_ring = ring0 M, pq_nempty = 0, pq_nfull = 0, pq_producing = [True, True], pq_lock = 1, pq_full = 0,
     pq_empty = 0, pq_prod = [\<lparr>pr_at = Q_LOOP, pr_val = 0, pr_flag = SUCCESS\<rparr>, \<lparr>pr_at = Q_LOOP, pr_val = 1, pr_flag = SUCCESS\<rparr>],
     pq_cons = replicate C \<lparr>co_at = CO_LOOP, co_flag = SUCCESS\<rparr>, pq_put = [], pq_skip = [], pq_got = []\<rparr>"

definition set_prod :: "nat \<Rightarrow> producer \<Rightarrow> prodcons2 \<Rightarrow> prodcons2" where
  "set_prod p r s = s\<lparr>pq_prod := (pq_prod s)[p := r]\<rparr>"

definition set_cons :: "nat \<Rightarrow> cplace \<Rightarrow> flag \<Rightarrow> prodcons2 \<Rightarrow> prodcons2" where
  "set_cons j l f s = s\<lparr>pq_cons := (pq_cons s)[j := \<lparr>co_at = l, co_flag = f\<rparr>]\<rparr>"

section \<open>The producers\<close>

definition prod2_step :: "nat \<Rightarrow> int \<Rightarrow> nat \<Rightarrow> prodcons2 \<Rightarrow> prodcons2 option" where
  "prod2_step M V p s = (if p \<ge> length (pq_prod s) then None else let r = pq_prod s ! p in case pr_at r of
     Q_LOOP \<Rightarrow> Some (set_prod p (r\<lparr>pr_at := if pr_val r < V then Q_LOCK else Q_END_LOCK\<rparr>) s)
   | Q_LOCK \<Rightarrow> do { v \<leftarrow> P_sem (pq_lock s); Some (set_prod p (r\<lparr>pr_at := Q_PUT\<rparr>) (s\<lparr>pq_lock := v\<rparr>)) }
   | Q_PUT \<Rightarrow> Some (if rg_ct (pq_ring s) < int M
       then set_prod p (r\<lparr>pr_flag := SUCCESS, pr_at := if pq_nempty s > 0 then Q_WAKE else Q_UNLOCK\<rparr>)
         (s\<lparr>pq_ring := d_enqueue M (pr_val r) (pq_ring s), pq_put := pq_put s @ [pr_val r]\<rparr>)
       else set_prod p (r\<lparr>pr_flag := FULL, pr_at := Q_UNLOCK\<rparr>)
         (s\<lparr>pq_nfull := pq_nfull s + 1, pq_skip := pq_skip s @ [pr_val r]\<rparr>))
   | Q_WAKE \<Rightarrow> Some (set_prod p (r\<lparr>pr_at := Q_UNLOCK\<rparr>) (s\<lparr>pq_empty := pq_empty s + 1, pq_nempty := pq_nempty s - 1\<rparr>))
   | Q_UNLOCK \<Rightarrow> Some (set_prod p (if pr_flag r = FULL then r\<lparr>pr_at := Q_WAIT\<rparr> else r\<lparr>pr_val := pr_val r + 2, pr_at := Q_LOOP\<rparr>)
       (s\<lparr>pq_lock := pq_lock s + 1\<rparr>))
   | Q_WAIT \<Rightarrow> do { v \<leftarrow> P_sem (pq_full s);
       Some (set_prod p (r\<lparr>pr_val := pr_val r + 2, pr_at := Q_LOOP\<rparr>) (s\<lparr>pq_full := v\<rparr>)) }
   | Q_END_LOCK \<Rightarrow> do { v \<leftarrow> P_sem (pq_lock s); Some (set_prod p (r\<lparr>pr_at := Q_END\<rparr>) (s\<lparr>pq_lock := v\<rparr>)) }
   | Q_END \<Rightarrow> Some (set_prod p (r\<lparr>pr_at := Q_WAKE_ALL\<rparr>) (s\<lparr>pq_producing := (pq_producing s)[p := False]\<rparr>))
   | Q_WAKE_ALL \<Rightarrow> Some (if pq_nempty s > 0 then s\<lparr>pq_empty := pq_empty s + 1, pq_nempty := pq_nempty s - 1\<rparr>
       else set_prod p (r\<lparr>pr_at := Q_END_UNLOCK\<rparr>) s)
   | Q_END_UNLOCK \<Rightarrow> Some (set_prod p (r\<lparr>pr_at := Q_DONE\<rparr>) (s\<lparr>pq_lock := pq_lock s + 1\<rparr>))
   | Q_DONE \<Rightarrow> None)"

section \<open>The consumers\<close>

definition con2_step :: "nat \<Rightarrow> nat \<Rightarrow> prodcons2 \<Rightarrow> prodcons2 option" where
  "con2_step M j s = (if j \<ge> length (pq_cons s) then None else let f = co_flag (pq_cons s ! j) in
     case co_at (pq_cons s ! j) of
       CO_LOOP \<Rightarrow> Some (set_cons j (if f \<noteq> END then CO_LOCK else CO_DONE) f s)
     | CO_LOCK \<Rightarrow> do { v \<leftarrow> P_sem (pq_lock s); Some (set_cons j CO_GET f (s\<lparr>pq_lock := v\<rparr>)) }
     | CO_GET \<Rightarrow> Some (
         if rg_ct (pq_ring s) > 0 then
           let (item, r) = d_dequeue M (pq_ring s) in
           set_cons j (if pq_nfull s > 0 then CO_WAKE else CO_UNLOCK) SUCCESS (s\<lparr>pq_ring := r, pq_got := pq_got s @ [item]\<rparr>)
         else if \<not> pq_producing s ! 0 \<and> \<not> pq_producing s ! 1 then set_cons j CO_UNLOCK END s
         else set_cons j CO_UNLOCK EMPTY (s\<lparr>pq_nempty := pq_nempty s + 1\<rparr>))
     | CO_WAKE \<Rightarrow> Some (set_cons j CO_UNLOCK f (s\<lparr>pq_full := pq_full s + 1, pq_nfull := pq_nfull s - 1\<rparr>))
     | CO_UNLOCK \<Rightarrow> Some (set_cons j (if f = EMPTY then CO_WAIT else CO_LOOP) f (s\<lparr>pq_lock := pq_lock s + 1\<rparr>))
     | CO_WAIT \<Rightarrow> do { v \<leftarrow> P_sem (pq_empty s); Some (set_cons j CO_LOOP f (s\<lparr>pq_empty := v\<rparr>)) }
     | CO_DONE \<Rightarrow> None)"

text \<open>A step of processor \<open>pid\<close>.\<close>

definition pq_step :: "nat \<Rightarrow> int \<Rightarrow> nat \<Rightarrow> prodcons2 \<Rightarrow> prodcons2 option" where
  "pq_step M V pid s =
     (if pid = 0 \<or> pid = 3 then prod2_step M V (pid mod 2) s else con2_step M (if pid < 3 then pid - 1 else pid - 2) s)"

end
