(* ===== verification/ProdCons2Inv.thy ===== *)
theory ProdCons2Inv
  imports ProdCons2 ProdConsInv "HOL-Library.Multiset"
begin

text \<open>
  What the program of theory ProdCons2 delivers: one processor at a time uses the ring, the consumers take the items
  in the order in which they were put in, and the items that no consumer gets are those of the producers that found the
  ring full.
\<close>

section \<open>The steps as relations\<close>

lemma pq_parts [simp]:
  "pq_ring (set_prod p r s) = pq_ring s" "pq_nempty (set_prod p r s) = pq_nempty s" "pq_nfull (set_prod p r s) = pq_nfull s"
  "pq_producing (set_prod p r s) = pq_producing s" "pq_lock (set_prod p r s) = pq_lock s" "pq_full (set_prod p r s) = pq_full s"
  "pq_empty (set_prod p r s) = pq_empty s" "pq_prod (set_prod p r s) = (pq_prod s)[p := r]" "pq_cons (set_prod p r s) = pq_cons s"
  "pq_put (set_prod p r s) = pq_put s" "pq_skip (set_prod p r s) = pq_skip s" "pq_got (set_prod p r s) = pq_got s"
  "pq_ring (set_cons j l f s) = pq_ring s" "pq_nempty (set_cons j l f s) = pq_nempty s" "pq_nfull (set_cons j l f s) = pq_nfull s"
  "pq_producing (set_cons j l f s) = pq_producing s" "pq_lock (set_cons j l f s) = pq_lock s" "pq_full (set_cons j l f s) = pq_full s"
  "pq_empty (set_cons j l f s) = pq_empty s" "pq_prod (set_cons j l f s) = pq_prod s"
  "pq_cons (set_cons j l f s) = (pq_cons s)[j := \<lparr>co_at = l, co_flag = f\<rparr>]"
  "pq_put (set_cons j l f s) = pq_put s" "pq_skip (set_cons j l f s) = pq_skip s" "pq_got (set_cons j l f s) = pq_got s"
  by (simp_all add: set_prod_def set_cons_def)

inductive prod2_move :: "nat \<Rightarrow> int \<Rightarrow> nat \<Rightarrow> prodcons2 \<Rightarrow> prodcons2 \<Rightarrow> bool" for M V p s where
  loop: "prod2_move M V p s (set_prod p (r\<lparr>pr_at := Q_LOCK\<rparr>) s)" if "pq_prod s ! p = r" "pr_at r = Q_LOOP" "pr_val r < V"
| stop: "prod2_move M V p s (set_prod p (r\<lparr>pr_at := Q_END_LOCK\<rparr>) s)" if "pq_prod s ! p = r" "pr_at r = Q_LOOP" "V \<le> pr_val r"
| lock: "prod2_move M V p s (set_prod p (r\<lparr>pr_at := Q_PUT\<rparr>) (s\<lparr>pq_lock := pq_lock s - 1\<rparr>))"
    if "pq_prod s ! p = r" "pr_at r = Q_LOCK" "1 \<le> pq_lock s"
| put: "prod2_move M V p s (set_prod p (r\<lparr>pr_flag := SUCCESS, pr_at := l\<rparr>)
      (s\<lparr>pq_ring := d_enqueue M (pr_val r) (pq_ring s), pq_put := pq_put s @ [pr_val r]\<rparr>))"
    if "pq_prod s ! p = r" "pr_at r = Q_PUT" "rg_ct (pq_ring s) < int M" "l = (if pq_nempty s > 0 then Q_WAKE else Q_UNLOCK)"
| full: "prod2_move M V p s (set_prod p (r\<lparr>pr_flag := FULL, pr_at := Q_UNLOCK\<rparr>)
      (s\<lparr>pq_nfull := pq_nfull s + 1, pq_skip := pq_skip s @ [pr_val r]\<rparr>))"
    if "pq_prod s ! p = r" "pr_at r = Q_PUT" "int M \<le> rg_ct (pq_ring s)"
| wake: "prod2_move M V p s (set_prod p (r\<lparr>pr_at := Q_UNLOCK\<rparr>) (s\<lparr>pq_empty := pq_empty s + 1, pq_nempty := pq_nempty s - 1\<rparr>))"
    if "pq_prod s ! p = r" "pr_at r = Q_WAKE"
| unlock_full: "prod2_move M V p s (set_prod p (r\<lparr>pr_at := Q_WAIT\<rparr>) (s\<lparr>pq_lock := pq_lock s + 1\<rparr>))"
    if "pq_prod s ! p = r" "pr_at r = Q_UNLOCK" "pr_flag r = FULL"
| unlock: "prod2_move M V p s (set_prod p (r\<lparr>pr_val := pr_val r + 2, pr_at := Q_LOOP\<rparr>) (s\<lparr>pq_lock := pq_lock s + 1\<rparr>))"
    if "pq_prod s ! p = r" "pr_at r = Q_UNLOCK" "pr_flag r \<noteq> FULL"
| wait: "prod2_move M V p s (set_prod p (r\<lparr>pr_val := pr_val r + 2, pr_at := Q_LOOP\<rparr>) (s\<lparr>pq_full := pq_full s - 1\<rparr>))"
    if "pq_prod s ! p = r" "pr_at r = Q_WAIT" "1 \<le> pq_full s"
| end_lock: "prod2_move M V p s (set_prod p (r\<lparr>pr_at := Q_END\<rparr>) (s\<lparr>pq_lock := pq_lock s - 1\<rparr>))"
    if "pq_prod s ! p = r" "pr_at r = Q_END_LOCK" "1 \<le> pq_lock s"
| end_prod: "prod2_move M V p s (set_prod p (r\<lparr>pr_at := Q_WAKE_ALL\<rparr>) (s\<lparr>pq_producing := (pq_producing s)[p := False]\<rparr>))"
    if "pq_prod s ! p = r" "pr_at r = Q_END"
| wake_all: "prod2_move M V p s (s\<lparr>pq_empty := pq_empty s + 1, pq_nempty := pq_nempty s - 1\<rparr>)"
    if "pq_prod s ! p = r" "pr_at r = Q_WAKE_ALL" "0 < pq_nempty s"
| woken_all: "prod2_move M V p s (set_prod p (r\<lparr>pr_at := Q_END_UNLOCK\<rparr>) s)"
    if "pq_prod s ! p = r" "pr_at r = Q_WAKE_ALL" "pq_nempty s \<le> 0"
| end_unlock: "prod2_move M V p s (set_prod p (r\<lparr>pr_at := Q_DONE\<rparr>) (s\<lparr>pq_lock := pq_lock s + 1\<rparr>))"
    if "pq_prod s ! p = r" "pr_at r = Q_END_UNLOCK"

lemma prod2_step_move:
  assumes "prod2_step M V p s = Some s'"
  shows "p < length (pq_prod s)" "prod2_move M V p s s'"
proof -
  show "p < length (pq_prod s)" using assms by (auto simp: prod2_step_def split: if_splits)
  show "prod2_move M V p s s'" using assms
    by (cases "pr_at (pq_prod s ! p)")
      (auto simp: prod2_step_def Let_def Option.bind_eq_Some_conv not_less not_le intro: prod2_move.intros [OF refl] split: if_splits)
qed

inductive con2_move :: "nat \<Rightarrow> nat \<Rightarrow> prodcons2 \<Rightarrow> prodcons2 \<Rightarrow> bool" for M j s where
  loop: "con2_move M j s (set_cons j CO_LOCK f s)" if "pq_cons s ! j = \<lparr>co_at = CO_LOOP, co_flag = f\<rparr>" "f \<noteq> END"
| stop: "con2_move M j s (set_cons j CO_DONE END s)" if "pq_cons s ! j = \<lparr>co_at = CO_LOOP, co_flag = END\<rparr>"
| lock: "con2_move M j s (set_cons j CO_GET f (s\<lparr>pq_lock := pq_lock s - 1\<rparr>))"
    if "pq_cons s ! j = \<lparr>co_at = CO_LOCK, co_flag = f\<rparr>" "1 \<le> pq_lock s"
| get: "con2_move M j s (set_cons j l SUCCESS (s\<lparr>pq_ring := snd (d_dequeue M (pq_ring s)),
      pq_got := pq_got s @ [fst (d_dequeue M (pq_ring s))]\<rparr>))"
    if "pq_cons s ! j = \<lparr>co_at = CO_GET, co_flag = f\<rparr>" "0 < rg_ct (pq_ring s)" "l = (if 0 < pq_nfull s then CO_WAKE else CO_UNLOCK)"
| finish: "con2_move M j s (set_cons j CO_UNLOCK END s)"
    if "pq_cons s ! j = \<lparr>co_at = CO_GET, co_flag = f\<rparr>" "rg_ct (pq_ring s) \<le> 0" "\<not> pq_producing s ! 0" "\<not> pq_producing s ! 1"
| empty: "con2_move M j s (set_cons j CO_UNLOCK EMPTY (s\<lparr>pq_nempty := pq_nempty s + 1\<rparr>))"
    if "pq_cons s ! j = \<lparr>co_at = CO_GET, co_flag = f\<rparr>" "rg_ct (pq_ring s) \<le> 0" "pq_producing s ! 0 \<or> pq_producing s ! 1"
| wake: "con2_move M j s (set_cons j CO_UNLOCK f (s\<lparr>pq_full := pq_full s + 1, pq_nfull := pq_nfull s - 1\<rparr>))"
    if "pq_cons s ! j = \<lparr>co_at = CO_WAKE, co_flag = f\<rparr>"
| unlock_empty: "con2_move M j s (set_cons j CO_WAIT EMPTY (s\<lparr>pq_lock := pq_lock s + 1\<rparr>))"
    if "pq_cons s ! j = \<lparr>co_at = CO_UNLOCK, co_flag = EMPTY\<rparr>"
| unlock: "con2_move M j s (set_cons j CO_LOOP f (s\<lparr>pq_lock := pq_lock s + 1\<rparr>))"
    if "pq_cons s ! j = \<lparr>co_at = CO_UNLOCK, co_flag = f\<rparr>" "f \<noteq> EMPTY"
| wait: "con2_move M j s (set_cons j CO_LOOP f (s\<lparr>pq_empty := pq_empty s - 1\<rparr>))"
    if "pq_cons s ! j = \<lparr>co_at = CO_WAIT, co_flag = f\<rparr>" "1 \<le> pq_empty s"

lemma con2_step_move:
  assumes "con2_step M j s = Some s'"
  shows "j < length (pq_cons s)" "con2_move M j s s'"
proof -
  show "j < length (pq_cons s)" using assms by (auto simp: con2_step_def split: if_splits)
  obtain l f where "pq_cons s ! j = \<lparr>co_at = l, co_flag = f\<rparr>" by (metis consumer.surjective unit.exhaust)
  then show "con2_move M j s s'" using assms
    by (cases l) (auto simp: con2_step_def Let_def split_def Option.bind_eq_Some_conv not_less not_le
        intro: con2_move.intros split: if_splits)
qed

section \<open>The invariant\<close>

definition prod_in_section :: "producer \<Rightarrow> bool" where
  "prod_in_section r \<longleftrightarrow> pr_at r \<in> {Q_PUT, Q_WAKE, Q_UNLOCK, Q_END, Q_WAKE_ALL, Q_END_UNLOCK}"

definition lock2_ok :: "prodcons2 \<Rightarrow> bool" where
  "lock2_ok s \<longleftrightarrow> 0 \<le> pq_lock s \<and> pq_lock s + cnt prod_in_section (pq_prod s) + cnt con_in_section (pq_cons s) = 1"

definition ring2_ok :: "nat \<Rightarrow> prodcons2 \<Rightarrow> bool" where
  "ring2_ok M s \<longleftrightarrow> ring_wf M (pq_ring s) \<and> pq_got s @ ring_items M (pq_ring s) = pq_put s"

text \<open>The numbers of producer \<open>p\<close> below \<open>v\<close>, and the first one that it has not tried yet to put in.\<close>

definition below :: "nat \<Rightarrow> int \<Rightarrow> int list" where
  "below p v = filter (\<lambda>x. x mod 2 = int p) [0..v - 1]"

definition next_val :: "producer \<Rightarrow> int" where
  "next_val r = (if pr_at r \<in> {Q_WAKE, Q_UNLOCK, Q_WAIT} then pr_val r + 2 else pr_val r)"

definition prod2_ok :: "int \<Rightarrow> nat \<Rightarrow> producer \<Rightarrow> bool" where
  "prod2_ok V p r \<longleftrightarrow> (pr_at r = Q_WAKE \<longrightarrow> pr_flag r = SUCCESS) \<and> 0 \<le> pr_val r \<and> pr_val r mod 2 = int p \<and> pr_val r \<le> V + 1 \<and>
     (pr_at r \<in> {Q_LOCK, Q_PUT, Q_WAKE, Q_UNLOCK, Q_WAIT} \<longrightarrow> pr_val r < V) \<and>
     (pr_at r \<in> {Q_END_LOCK, Q_END, Q_WAKE_ALL, Q_END_UNLOCK, Q_DONE} \<longrightarrow> V \<le> pr_val r)"

definition items2_ok :: "int \<Rightarrow> prodcons2 \<Rightarrow> bool" where
  "items2_ok V s \<longleftrightarrow> length (pq_prod s) = 2 \<and> (\<forall>p<2. prod2_ok V p (pq_prod s ! p)) \<and>
     mset (pq_put s @ pq_skip s) = mset (below 0 (next_val (pq_prod s ! 0)) @ below 1 (next_val (pq_prod s ! 1)))"

lemma below_next:
  assumes "0 \<le> v" "v mod 2 = int p" "p < 2"
  shows "below p (v + 2) = below p v @ [v]"
proof -
  have "[0..1 + v] = [0..v - 1] @ [v, v + 1]" using upto_split1 [of 0 v "v + 1"] assms(1) by (simp add: upto_rec1 add.commute)
  moreover have "(v + 1) mod 2 \<noteq> int p" using assms(2) by presburger
  ultimately show ?thesis using assms(2) by (simp add: below_def)
qed

lemma below_end:
  assumes "V \<le> v" "v \<le> V + 1" "v mod 2 = int p" "p < 2"
  shows "below p v = below p V"
proof (cases "v = V")
  case False
  then have v: "v = V + 1" using assms by simp
  then have "V mod 2 \<noteq> int p" using assms(3) by presburger
  moreover have "0 \<le> V \<Longrightarrow> [0..V] = [0..V - 1] @ [V]" by (rule upto_rec2)
  ultimately show ?thesis by (cases "0 \<le> V") (simp_all add: below_def v)
qed simp

lemma below_all: "mset (below 0 V @ below 1 V) = mset [0..V - 1]"
proof -
  have "filter (\<lambda>x. x mod 2 = 1) [0..V - 1] = filter (\<lambda>x. \<not> x mod 2 = 0) [0..V - 1]"
    by (rule filter_cong) auto
  then show ?thesis using multiset_partition [of "mset [0..V - 1]" "\<lambda>x. x mod 2 = 0"] by (simp add: below_def)
qed

lemma lock2_ok_step:
  assumes "lock2_ok s"
  shows "prod2_move M V p s s' \<Longrightarrow> p < length (pq_prod s) \<Longrightarrow> lock2_ok s'"
    "con2_move M j s s' \<Longrightarrow> j < length (pq_cons s) \<Longrightarrow> lock2_ok s'"
proof -
  show "lock2_ok s'" if "prod2_move M V p s s'" "p < length (pq_prod s)"
    using that assms by cases (auto simp: lock2_ok_def prod_in_section_def)
  show "lock2_ok s'" if "con2_move M j s s'" "j < length (pq_cons s)"
    using that assms by cases (auto simp: lock2_ok_def con_places)
qed

lemma ring2_ok_step:
  assumes "ring2_ok M s"
  shows "prod2_move M V p s s' \<Longrightarrow> ring2_ok M s'" "con2_move M j s s' \<Longrightarrow> ring2_ok M s'"
proof -
  have wf: "ring_wf M (pq_ring s)" and ord: "pq_got s @ ring_items M (pq_ring s) = pq_put s"
    using assms by (simp_all add: ring2_ok_def)
  have room: "length (ring_items M (pq_ring s)) < M" if "rg_ct (pq_ring s) < int M"
    using wf that by (auto simp: length_ring_items ring_wf_def)
  have some: "ring_items M (pq_ring s) \<noteq> []" if "0 < rg_ct (pq_ring s)"
    using that length_ring_items [of M "pq_ring s"] by auto
  show "ring2_ok M s'" if "prod2_move M V p s s'"
    using that
  proof cases
    case (put r l)
    then show ?thesis using rq.put [OF wf room] rq.order_put [OF wf room ord] by (simp add: ring2_ok_def)
  qed (use assms in \<open>simp_all add: ring2_ok_def\<close>)
  show "ring2_ok M s'" if "con2_move M j s s'"
    using that
  proof cases
    case (get f l)
    then show ?thesis using rq.get [OF wf some] rq.order_get [OF wf some ord] by (simp add: ring2_ok_def)
  qed (use assms in \<open>simp_all add: ring2_ok_def\<close>)
qed


lemma prod2_other:
  assumes "prod2_move M V p s s'" "q \<noteq> p"
  shows "pq_prod s' ! q = pq_prod s ! q"
  using assms by cases simp_all

lemma prod2_ok_step:
  assumes "prod2_move M V p s s'" "prod2_ok V p (pq_prod s ! p)" "p < length (pq_prod s)"
  shows "prod2_ok V p (pq_prod s' ! p)"
  using assms(1) by cases (use assms(2,3) in \<open>auto simp: prod2_ok_def\<close>)

text \<open>A step moves the item of the producer, or leaves the recorded items as they are.\<close>

lemma items2_step:
  assumes "prod2_move M V p s s'" "p < length (pq_prod s)" "prod2_ok V p (pq_prod s ! p)" "p < 2"
  shows "mset (pq_put s' @ pq_skip s') + mset (below p (next_val (pq_prod s ! p))) =
    mset (pq_put s @ pq_skip s) + mset (below p (next_val (pq_prod s' ! p)))"
  using assms(1) by cases (use assms(2-4) in \<open>auto simp: next_val_def prod2_ok_def below_next\<close>)

lemma mset_shift: "a' + x = a + x' \<Longrightarrow> a = x + y \<Longrightarrow> a' = x' + y" for a :: "'a multiset"
  by (simp add: ac_simps)

lemma items2_ok_step:
  assumes "items2_ok V s"
  shows "prod2_move M V p s s' \<Longrightarrow> p < length (pq_prod s) \<Longrightarrow> items2_ok V s'" "con2_move M j s s' \<Longrightarrow> items2_ok V s'"
proof -
  show "items2_ok V s'" if m: "prod2_move M V p s s'" "p < length (pq_prod s)"
  proof -
    have p: "p < 2" "prod2_ok V p (pq_prod s ! p)" using assms m(2) by (auto simp: items2_ok_def)
    have "length (pq_prod s') = 2" using m(1) assms by cases (simp_all add: items2_ok_def)
    moreover have "prod2_ok V q (pq_prod s' ! q)" if "q < 2" for q
      using prod2_ok_step [OF m(1) p(2) m(2)] prod2_other [OF m(1)] assms that by (cases "q = p") (auto simp: items2_ok_def)
    moreover have "mset (pq_put s' @ pq_skip s') =
        mset (below 0 (next_val (pq_prod s' ! 0)) @ below 1 (next_val (pq_prod s' ! 1)))"
      using assms p(1) prod2_other [OF m(1), of "1 - p"]
        mset_shift [OF items2_step [OF m p(2,1)], of "mset (below (1 - p) (next_val (pq_prod s ! (1 - p))))"]
      by (auto simp: items2_ok_def less_2_cases_iff add.commute)
    ultimately show ?thesis by (simp add: items2_ok_def)
  qed
  show "items2_ok V s'" if "con2_move M j s s'"
    using that by cases (use assms in \<open>simp_all add: items2_ok_def\<close>)
qed

end
