(* ===== verification/ProdCons2End.thy ===== *)
theory ProdCons2End
  imports ProdCons2Inv
begin

text \<open>
  The end of the program of theory ProdCons2: the signals count who waits, nobody waits for ever, and a
  measure that every step decreases; then the properties of whole runs.
\<close>

section \<open>The signals\<close>

definition prod2_waits :: "producer \<Rightarrow> bool" where
  "prod2_waits r \<longleftrightarrow> pr_at r = Q_WAIT \<or> pr_at r = Q_UNLOCK \<and> pr_flag r = FULL"

definition at_wake :: "producer \<Rightarrow> bool" where
  "at_wake r \<longleftrightarrow> pr_at r = Q_WAKE"

definition at_wake_all :: "producer \<Rightarrow> bool" where
  "at_wake_all r \<longleftrightarrow> pr_at r = Q_WAKE_ALL"

definition produces :: "producer \<Rightarrow> bool" where
  "produces r \<longleftrightarrow> pr_at r \<notin> {Q_WAKE_ALL, Q_END_UNLOCK, Q_DONE}"

lemmas prod2_places = prod_in_section_def prod2_waits_def at_wake_def at_wake_all_def produces_def

definition empty2_ok :: "prodcons2 \<Rightarrow> bool" where
  "empty2_ok s \<longleftrightarrow> 0 \<le> pq_nempty s \<and> 0 \<le> pq_empty s \<and> cnt at_wake (pq_prod s) \<le> pq_nempty s \<and>
     pq_nempty s + pq_empty s = cnt con_waits (pq_cons s)"

text \<open>The producers that wait for room and have not been called: as many as that have been taken since, the
  ring was full.\<close>

definition full2_ok :: "nat \<Rightarrow> prodcons2 \<Rightarrow> bool" where
  "full2_ok M s \<longleftrightarrow> 0 \<le> pq_full s \<and>
     pq_nfull s + pq_full s = cnt prod2_waits (pq_prod s) \<and> cnt con_wakes (pq_cons s) \<le> pq_nfull s \<and>
     (cnt con_wakes (pq_cons s) < pq_nfull s \<longrightarrow> int M - 2 + (pq_nfull s - cnt con_wakes (pq_cons s)) \<le> rg_ct (pq_ring s))"

text \<open>Who still produces, and that nobody waits for a producer that has ended.\<close>

definition end2_ok :: "prodcons2 \<Rightarrow> bool" where
  "end2_ok s \<longleftrightarrow> length (pq_producing s) = 2 \<and> (\<forall>p<2. pq_producing s ! p = produces (pq_prod s ! p)) \<and>
     (cnt produces (pq_prod s) = 0 \<and> cnt at_wake_all (pq_prod s) = 0 \<longrightarrow> pq_nempty s = 0)"

text \<open>What the consumers remember.\<close>

definition cons2_ok :: "prodcons2 \<Rightarrow> bool" where
  "cons2_ok s \<longleftrightarrow> (\<forall>c\<in>set (pq_cons s). con_ok c \<and> (co_flag c = END \<longrightarrow> cnt produces (pq_prod s) = 0 \<and> rg_ct (pq_ring s) \<le> 0))"

definition wait2_ok :: "prodcons2 \<Rightarrow> bool" where
  "wait2_ok s \<longleftrightarrow> (pq_nempty s = int (length (pq_cons s)) \<longrightarrow> 0 < cnt at_wake (pq_prod s) \<or> rg_ct (pq_ring s) \<le> 0)"

text \<open>Who is in the section is there alone.\<close>

lemma prod2_alone:
  assumes "lock2_ok s" "p < length (pq_prod s)" "prod_in_section (pq_prod s ! p)"
  shows "cnt con_in_section (pq_cons s) = 0" "cnt prod_in_section (pq_prod s) = 1" "pq_lock s = 0"
  using assms(1) cnt_bounds(1) [of con_in_section "pq_cons s"] cnt_pos [OF assms(2), of prod_in_section] assms(3)
  by (auto simp: lock2_ok_def)

lemma con2_alone:
  assumes "lock2_ok s" "j < length (pq_cons s)" "con_in_section (pq_cons s ! j)"
  shows "cnt con_in_section (pq_cons s) = 1" "cnt prod_in_section (pq_prod s) = 0" "pq_lock s = 0"
  using assms(1) cnt_bounds(1) [of prod_in_section "pq_prod s"] cnt_pos [OF assms(2), of con_in_section] assms(3)
  by (auto simp: lock2_ok_def)

lemma wake_in: "at_wake r \<Longrightarrow> prod_in_section r" "at_wake_all r \<Longrightarrow> prod_in_section r"
  by (auto simp: prod2_places)

lemma no_wakers:
  assumes "lock2_ok s"
  shows "\<lbrakk>j < length (pq_cons s); con_in_section (pq_cons s ! j)\<rbrakk> \<Longrightarrow> cnt at_wake (pq_prod s) = 0"
    "\<lbrakk>j < length (pq_cons s); con_in_section (pq_cons s ! j)\<rbrakk> \<Longrightarrow> cnt at_wake_all (pq_prod s) = 0"
    "\<lbrakk>p < length (pq_prod s); prod_in_section (pq_prod s ! p); \<not> at_wake (pq_prod s ! p)\<rbrakk> \<Longrightarrow> cnt at_wake (pq_prod s) = 0"
    "\<lbrakk>p < length (pq_prod s); prod_in_section (pq_prod s ! p); \<not> at_wake_all (pq_prod s ! p)\<rbrakk> \<Longrightarrow> cnt at_wake_all (pq_prod s) = 0"
    "\<lbrakk>p < length (pq_prod s); prod_in_section (pq_prod s ! p)\<rbrakk> \<Longrightarrow> cnt con_wakes (pq_cons s) = 0"
proof -
  have le: "cnt at_wake (pq_prod s) \<le> cnt prod_in_section (pq_prod s)" "cnt at_wake_all (pq_prod s) \<le> cnt prod_in_section (pq_prod s)"
    "cnt con_wakes (pq_cons s) \<le> cnt con_in_section (pq_cons s)"
    "0 \<le> cnt at_wake (pq_prod s)" "0 \<le> cnt at_wake_all (pq_prod s)" "0 \<le> cnt con_wakes (pq_cons s)"
    using wake_in wakes_in by (auto intro!: cnt_le cnt_bounds(1))
  {
    assume j: "j < length (pq_cons s)" "con_in_section (pq_cons s ! j)"
    show "cnt at_wake (pq_prod s) = 0" "cnt at_wake_all (pq_prod s) = 0" using con2_alone [OF assms j] le by simp_all
  next
    assume p: "p < length (pq_prod s)" "prod_in_section (pq_prod s ! p)"
    show "cnt con_wakes (pq_cons s) = 0" using prod2_alone [OF assms p] le by simp
    show "\<not> at_wake (pq_prod s ! p) \<Longrightarrow> cnt at_wake (pq_prod s) = 0"
      using prod2_alone(2) [OF assms p] cnt_others [of p _ prod_in_section at_wake, OF p] wake_in le by fastforce
    show "\<not> at_wake_all (pq_prod s ! p) \<Longrightarrow> cnt at_wake_all (pq_prod s) = 0"
      using prod2_alone(2) [OF assms p] cnt_others [of p _ prod_in_section at_wake_all, OF p] wake_in le by fastforce
  }
qed

section \<open>Every step keeps the signals\<close>

lemma empty2_ok_step:
  assumes "empty2_ok s" "lock2_ok s" "\<forall>c\<in>set (pq_cons s). con_ok c"
  shows "prod2_move M V p s s' \<Longrightarrow> p < length (pq_prod s) \<Longrightarrow> empty2_ok s'"
    "con2_move M j s s' \<Longrightarrow> j < length (pq_cons s) \<Longrightarrow> empty2_ok s'"
proof -
  show "empty2_ok s'" if m: "prod2_move M V p s s'" and p: "p < length (pq_prod s)"
  proof -
    note no = no_wakers(3) [OF assms(2) p] and pos = cnt_pos [OF p, of at_wake]
    show ?thesis using m
      by cases (use assms(1) p no pos in \<open>auto simp: empty2_ok_def prod2_places\<close>)
  qed
  show "empty2_ok s'" if m: "con2_move M j s s'" and j: "j < length (pq_cons s)"
  proof -
    note no = no_wakers(1) [OF assms(2) j]
    have c: "con_ok (pq_cons s ! j)" using assms(3) j by simp
    show ?thesis using m
      by cases (use assms(1) j no c in \<open>auto simp: empty2_ok_def con_places\<close>)
  qed
qed


lemma full2_ok_step:
  assumes "full2_ok M s" "lock2_ok s" "cons2_ok s" "items2_ok V s"
  shows "prod2_move M V p s s' \<Longrightarrow> p < length (pq_prod s) \<Longrightarrow> full2_ok M s'"
    "con2_move M j s s' \<Longrightarrow> j < length (pq_cons s) \<Longrightarrow> full2_ok M s'"
proof -
  show "full2_ok M s'" if m: "prod2_move M V p s s'" and p: "p < length (pq_prod s)"
  proof -
    note no = no_wakers(5) [OF assms(2) p]
    have fl: "pr_at (pq_prod s ! p) = Q_WAKE \<longrightarrow> pr_flag (pq_prod s ! p) = SUCCESS"
      using assms(4) p by (auto simp: items2_ok_def prod2_ok_def)
    have room: "cnt prod2_waits (pq_prod s) \<le> 1" if "\<not> prod2_waits (pq_prod s ! p)"
    proof -
      have "cnt prod2_waits (pq_prod s) + 1 \<le> cnt (\<lambda>r. True) (pq_prod s)" using that by (intro cnt_others [OF p]) auto
      then show ?thesis using cnt_bounds(2) [of "\<lambda>r. True" "pq_prod s"] assms(4) by (simp add: items2_ok_def)
    qed
    show ?thesis using m
      by cases (use assms(1) p no fl room in \<open>auto simp: full2_ok_def prod2_places\<close>)
  qed
  show "full2_ok M s'" if m: "con2_move M j s s'" and j: "j < length (pq_cons s)"
  proof -
    have c: "con_ok (pq_cons s ! j)" using assms(3) j by (simp add: cons2_ok_def)
    have no: "cnt con_wakes (pq_cons s) = 0" if "con_in_section (pq_cons s ! j)" "\<not> con_wakes (pq_cons s ! j)"
      using cnt_others [of j _ con_in_section con_wakes, OF j that wakes_in] con2_alone(1) [OF assms(2) j that(1)]
        cnt_bounds(1) [of con_wakes "pq_cons s"] by simp
    show ?thesis using m
      by cases (use assms(1) j no c in \<open>auto simp: full2_ok_def con_places\<close>)
  qed
qed

lemma prod2_move_end:
  assumes "prod2_move M V p s s'" "p < length (pq_prod s)"
  shows "pq_cons s' = pq_cons s" "cnt produces (pq_prod s') \<le> cnt produces (pq_prod s)"
    "cnt produces (pq_prod s) = 0 \<Longrightarrow> rg_ct (pq_ring s') = rg_ct (pq_ring s)"
  using assms(1) by (cases; use assms(2) cnt_pos [OF assms(2), of produces] in \<open>auto simp: produces_def\<close>)+

lemma con2_move_end:
  assumes "con2_move M j s s'"
  shows "\<exists>c. pq_cons s' = (pq_cons s)[j := c] \<and> (con_ok (pq_cons s ! j) \<longrightarrow> con_ok c) \<and>
      (co_flag c = END \<longrightarrow> co_flag (pq_cons s ! j) = END \<or> \<not> pq_producing s ! 0 \<and> \<not> pq_producing s ! 1 \<and> rg_ct (pq_ring s) \<le> 0)"
    "pq_prod s' = pq_prod s" "pq_producing s' = pq_producing s" "rg_ct (pq_ring s') \<le> rg_ct (pq_ring s)"
  using assms by (cases; auto simp: con_ok_def)+

lemma no_producing:
  assumes "end2_ok s" "length (pq_prod s) = 2" "\<not> pq_producing s ! 0" "\<not> pq_producing s ! 1"
  shows "cnt produces (pq_prod s) = 0"
  using assms by (intro cnt_none) (auto simp: end2_ok_def less_2_cases_iff)

lemma cons2_ok_step:
  assumes "cons2_ok s" "end2_ok s" "length (pq_prod s) = 2"
  shows "prod2_move M V p s s' \<Longrightarrow> p < length (pq_prod s) \<Longrightarrow> cons2_ok s'"
    "con2_move M j s s' \<Longrightarrow> j < length (pq_cons s) \<Longrightarrow> cons2_ok s'"
proof -
  show "cons2_ok s'" if m: "prod2_move M V p s s'" "p < length (pq_prod s)"
    using prod2_move_end [OF m] assms(1) cnt_bounds(1) [of produces "pq_prod s'"] by (auto simp: cons2_ok_def)
  show "cons2_ok s'" if m: "con2_move M j s s'" "j < length (pq_cons s)"
  proof -
    obtain c where c: "pq_cons s' = (pq_cons s)[j := c]" "con_ok (pq_cons s ! j) \<longrightarrow> con_ok c"
      "co_flag c = END \<longrightarrow> co_flag (pq_cons s ! j) = END \<or> \<not> pq_producing s ! 0 \<and> \<not> pq_producing s ! 1 \<and> rg_ct (pq_ring s) \<le> 0"
      using con2_move_end(1) [OF m(1)] by blast
    have old: "\<forall>c\<in>set (pq_cons s). con_ok c \<and> (co_flag c = END \<longrightarrow> cnt produces (pq_prod s') = 0 \<and> rg_ct (pq_ring s') \<le> 0)"
      using assms(1) con2_move_end(2-4) [OF m(1)] by (auto simp: cons2_ok_def)
    have "con_ok c \<and> (co_flag c = END \<longrightarrow> cnt produces (pq_prod s') = 0 \<and> rg_ct (pq_ring s') \<le> 0)"
      using old c(2,3) nth_mem [OF m(2)] no_producing [OF assms(2,3)] con2_move_end(2,4) [OF m(1)] by auto
    then show ?thesis using old set_update_subset_insert [of "pq_cons s" j c] unfolding cons2_ok_def c(1) by blast
  qed
qed

lemma end2_ok_step:
  assumes "end2_ok s" "lock2_ok s" "empty2_ok s" "length (pq_prod s) = 2"
  shows "prod2_move M V p s s' \<Longrightarrow> p < length (pq_prod s) \<Longrightarrow> end2_ok s'"
    "con2_move M j s s' \<Longrightarrow> j < length (pq_cons s) \<Longrightarrow> end2_ok s'"
proof -
  show "end2_ok s'" if m: "prod2_move M V p s s'" and p: "p < length (pq_prod s)"
  proof -
    note no = no_wakers(3,4) [OF assms(2) p] and pos = cnt_pos [OF p, of produces] cnt_pos [OF p, of at_wake_all]
    have n: "0 \<le> pq_nempty s" "cnt at_wake (pq_prod s) \<le> pq_nempty s" using assms(3) by (simp_all add: empty2_ok_def)
    show ?thesis using m
      by cases (use assms(1,4) p no pos n in \<open>auto simp: end2_ok_def prod2_places nth_list_update\<close>)
  qed
  show "end2_ok s'" if m: "con2_move M j s s'" and j: "j < length (pq_cons s)"
  proof -
    have some: "cnt produces (pq_prod s) \<noteq> 0" if "pq_producing s ! 0 \<or> pq_producing s ! 1"
      using that assms(1,4) cnt_pos [of 0 "pq_prod s" produces] cnt_pos [of 1 "pq_prod s" produces] by (auto simp: end2_ok_def)
    show ?thesis using m
      by cases (use assms(1,4) some in \<open>simp_all add: end2_ok_def\<close>)
  qed
qed

lemma wait2_ok_step:
  assumes "wait2_ok s" "lock2_ok s" "empty2_ok s" "pq_cons s \<noteq> []"
  shows "prod2_move M V p s s' \<Longrightarrow> p < length (pq_prod s) \<Longrightarrow> wait2_ok s'"
    "con2_move M j s s' \<Longrightarrow> j < length (pq_cons s) \<Longrightarrow> wait2_ok s'"
proof -
  have n: "pq_nempty s \<le> int (length (pq_cons s))" "0 < int (length (pq_cons s))"
    using assms(3,4) cnt_bounds(2) [of con_waits "pq_cons s"] by (auto simp: empty2_ok_def)
  show "wait2_ok s'" if m: "prod2_move M V p s s'" and p: "p < length (pq_prod s)"
  proof -
    note pos = cnt_pos [OF p, of at_wake] cnt_bounds(1) [of at_wake "pq_prod s"]
    show ?thesis using m
      by cases (use assms(1) p n pos in \<open>auto simp: wait2_ok_def prod2_places\<close>)
  qed
  show "wait2_ok s'" if m: "con2_move M j s s'" and j: "j < length (pq_cons s)"
    using m by cases (use assms(1) j in \<open>auto simp: wait2_ok_def\<close>)
qed


section \<open>The invariant of the program\<close>

definition pq_ok :: "nat \<Rightarrow> int \<Rightarrow> nat \<Rightarrow> prodcons2 \<Rightarrow> bool" where
  "pq_ok M V C s \<longleftrightarrow> length (pq_cons s) = C \<and> lock2_ok s \<and> ring2_ok M s \<and> items2_ok V s \<and> empty2_ok s \<and> full2_ok M s \<and>
     end2_ok s \<and> cons2_ok s \<and> wait2_ok s"

lemma pq_okD:
  assumes "pq_ok M V C s"
  shows "length (pq_cons s) = C" "lock2_ok s" "ring2_ok M s" "items2_ok V s" "empty2_ok s" "full2_ok M s" "end2_ok s"
    "cons2_ok s" "wait2_ok s" "\<forall>c\<in>set (pq_cons s). con_ok c" "length (pq_prod s) = 2"
  using assms by (simp_all add: pq_ok_def cons2_ok_def items2_ok_def)

lemma pq_step_moves:
  assumes "pq_step M V k s = Some s'"
  obtains p where "prod2_move M V p s s'" "p < length (pq_prod s)" | j where "con2_move M j s s'" "j < length (pq_cons s)"
  using assms by (auto simp: pq_step_def split: if_splits dest: prod2_step_move con2_step_move)

lemma pq_ok_step:
  assumes "pq_ok M V C s" "pq_step M V k s = Some s'" "0 < C"
  shows "pq_ok M V C s'"
proof -
  note ok = pq_okD [OF assms(1)]
  have ne: "pq_cons s \<noteq> []" using ok(1) assms(3) by auto
  note steps = lock2_ok_step [OF ok(2)] empty2_ok_step [OF ok(5,2,10)] full2_ok_step [OF ok(6,2,8,4)]
    end2_ok_step [OF ok(7,2,5,11)] cons2_ok_step [OF ok(8,7,11)] wait2_ok_step [OF ok(9,2,5) ne]
  show ?thesis
  proof (cases rule: pq_step_moves [OF assms(2)])
    case (1 p)
    have "length (pq_cons s') = C" using prod2_move_end(1) [OF 1] ok(1) by simp
    then show ?thesis
      using steps(1,3,5,7,9,11) [OF 1] ring2_ok_step(1) [OF ok(3) 1(1)] items2_ok_step(1) [OF ok(4) 1] by (simp add: pq_ok_def)
  next
    case (2 j)
    have "length (pq_cons s') = C" using con2_move_end(1) [OF 2(1)] ok(1) by auto
    then show ?thesis
      using steps(2,4,6,8,10,12) [OF 2] ring2_ok_step(2) [OF ok(3) 2(1)] items2_ok_step(2) [OF ok(4) 2(1)] by (simp add: pq_ok_def)
  qed
qed

lemma pq0_ok:
  assumes "pow2 M" "0 \<le> V" "0 < C"
  shows "pq_ok M V C (pq0 M C)"
proof -
  let ?s = "pq0 M C"
  have con: "cnt f (pq_cons ?s) = 0" if "\<not> f \<lparr>co_at = CO_LOOP, co_flag = SUCCESS\<rparr>" for f
    using that by (simp add: pq0_def cnt_replicate)
  have prod: "cnt f (pq_prod ?s) = of_bool (f (pq_prod ?s ! 0)) + of_bool (f (pq_prod ?s ! 1))" for f
    by (simp add: cnt_def pq0_def lessThan_Suc)
  have c: "cnt con_in_section (pq_cons ?s) = 0" "cnt con_waits (pq_cons ?s) = 0" "cnt con_wakes (pq_cons ?s) = 0"
    by (simp_all add: con con_places)
  show ?thesis using assms ring0_wf(1) [OF assms(1)] ring0_wf(2) [of M]
    unfolding pq_ok_def lock2_ok_def empty2_ok_def full2_ok_def end2_ok_def wait2_ok_def prod c
    by (auto simp: pq0_def prod2_places ring2_ok_def items2_ok_def prod2_ok_def next_val_def below_def cons2_ok_def con_ok_def
        less_2_cases_iff ring0_def)
qed

section \<open>No deadlock\<close>

lemma con2_stuck:
  assumes "con2_step M j s = None" "j < length (pq_cons s)"
  shows "co_at (pq_cons s ! j) = CO_DONE \<or> co_at (pq_cons s ! j) = CO_LOCK \<and> pq_lock s < 1 \<or>
    co_at (pq_cons s ! j) = CO_WAIT \<and> pq_empty s < 1"
  using assms by (cases "co_at (pq_cons s ! j)") (auto simp: con2_step_def Let_def split_def P_sem_def split: if_splits)

lemma prod2_stuck:
  assumes "prod2_step M V p s = None" "p < length (pq_prod s)"
  shows "pr_at (pq_prod s ! p) = Q_DONE \<or> pr_at (pq_prod s ! p) \<in> {Q_LOCK, Q_END_LOCK} \<and> pq_lock s < 1 \<or>
    pr_at (pq_prod s ! p) = Q_WAIT \<and> pq_full s < 1"
  using assms by (cases "pr_at (pq_prod s ! p)") (auto simp: prod2_step_def Let_def P_sem_def split: if_splits)

definition all2_done :: "prodcons2 \<Rightarrow> bool" where
  "all2_done s \<longleftrightarrow> (\<forall>r\<in>set (pq_prod s). pr_at r = Q_DONE) \<and> (\<forall>c\<in>set (pq_cons s). co_at c = CO_DONE)"

lemma pq_steps_stuck:
  assumes "\<forall>k. pq_step M V k s = None" "length (pq_prod s) = 2"
  shows "p < 2 \<Longrightarrow> prod2_step M V p s = None" "con2_step M j s = None"
proof -
  show "prod2_step M V p s = None" if "p < 2"
    using assms(1) [rule_format, of "if p = 0 then 0 else 3"] that by (auto simp: pq_step_def less_2_cases_iff)
  show "con2_step M j s = None"
    using assms(1) [rule_format, of "if j < 2 then j + 1 else j + 2"] by (auto simp: pq_step_def split: if_splits)
qed

lemma stuck2_done:
  assumes "pq_ok M V C s" "2 \<le> M" "0 < C" "\<forall>k. pq_step M V k s = None"
  shows "all2_done s"
proof -
  note ok = pq_okD [OF assms(1)]
  let ?at = "\<lambda>j. co_at (pq_cons s ! j)" and ?pr = "\<lambda>p. pr_at (pq_prod s ! p)"
  have prod: "?pr p = Q_DONE \<or> ?pr p \<in> {Q_LOCK, Q_END_LOCK} \<and> pq_lock s < 1 \<or> ?pr p = Q_WAIT \<and> pq_full s < 1" if "p < 2" for p
    using prod2_stuck pq_steps_stuck(1) [OF assms(4) ok(11) that] ok(11) that by simp
  have con: "?at j = CO_DONE \<or> ?at j = CO_LOCK \<and> pq_lock s < 1 \<or> ?at j = CO_WAIT \<and> pq_empty s < 1" if "j < C" for j
    using con2_stuck pq_steps_stuck(2) [OF assms(4) ok(11)] ok(1) that by blast
  have "cnt con_in_section (pq_cons s) = 0" and wakes: "cnt con_wakes (pq_cons s) = 0"
    using con ok(1) by (intro cnt_none; force simp: con_in_section_def con_wakes_def)+
  moreover have "cnt prod_in_section (pq_prod s) = 0" "cnt at_wake (pq_prod s) = 0" "cnt at_wake_all (pq_prod s) = 0"
    using prod ok(11) by (intro cnt_none; force simp: prod2_places)+
  ultimately have lock: "pq_lock s = 1" and nw: "cnt at_wake (pq_prod s) = 0" "cnt at_wake_all (pq_prod s) = 0"
    using ok(2) by (simp_all add: lock2_ok_def)
  have prod: "?pr p = Q_DONE \<or> ?pr p = Q_WAIT \<and> pq_full s = 0" if "p < 2" for p
    using prod [OF that] lock ok(6) by (auto simp: full2_ok_def)
  have con: "?at j = CO_DONE \<or> ?at j = CO_WAIT \<and> pq_empty s = 0" if "j < C" for j
    using con [OF that] lock ok(5) by (auto simp: empty2_ok_def)
  have pdone: "?pr p = Q_DONE" if p: "p < 2" for p
  proof (rule ccontr)
    assume "?pr p \<noteq> Q_DONE"
    then have w: "?pr p = Q_WAIT" "pq_full s = 0" using prod [OF p] by auto
    then have "1 \<le> cnt prod2_waits (pq_prod s)" "cnt produces (pq_prod s) \<noteq> 0"
      using p ok(11) cnt_pos [of p "pq_prod s" prod2_waits] cnt_pos [of p "pq_prod s" produces] by (auto simp: prod2_places)
    then have ct: "0 < rg_ct (pq_ring s)" and some: "cnt produces (pq_prod s) \<noteq> 0" using ok(6) wakes w(2) assms(2)
      by (auto simp: full2_ok_def)
    have "con_waits (pq_cons s ! j) \<and> pq_empty s = 0" if j: "j < C" for j
      using con [OF j] ok(1,8) some nth_mem [of j "pq_cons s"] j by (auto simp: cons2_ok_def con_ok_def con_waits_def)
    then have "cnt con_waits (pq_cons s) = int C" "pq_empty s = 0"
      using ok(1) cnt_all [of "pq_cons s" con_waits] assms(3) by auto
    then show False using ok(1,5,9) nw(1) ct by (simp add: empty2_ok_def wait2_ok_def)
  qed
  have "cnt produces (pq_prod s) = 0" using pdone ok(11) by (intro cnt_none) (simp add: produces_def)
  then have n: "pq_nempty s = 0" using ok(7) nw(2) by (simp add: end2_ok_def)
  have "?at j = CO_DONE" if j: "j < C" for j
  proof (rule ccontr)
    assume "?at j \<noteq> CO_DONE"
    then have w: "?at j = CO_WAIT" "pq_empty s = 0" using con [OF j] by auto
    then have "1 \<le> cnt con_waits (pq_cons s)" using j ok(1) by (intro cnt_pos [of j]) (auto simp: con_waits_def)
    then show False using ok(5) n w(2) by (simp add: empty2_ok_def)
  qed
  then show ?thesis using pdone ok(1,11) by (auto simp: all2_done_def in_set_conv_nth)
qed


section \<open>How long it takes\<close>

fun prod2_left :: "qplace \<Rightarrow> int" where
  "prod2_left Q_LOOP = 7" | "prod2_left Q_LOCK = 6" | "prod2_left Q_PUT = 5" | "prod2_left Q_WAKE = 4"
| "prod2_left Q_UNLOCK = 3" | "prod2_left Q_WAIT = 2" | "prod2_left Q_END_LOCK = 6" | "prod2_left Q_END = 5"
| "prod2_left Q_WAKE_ALL = 4" | "prod2_left Q_END_UNLOCK = 3" | "prod2_left Q_DONE = 2"

text \<open>What producer \<open>r\<close> can still cause: its own steps, the turns of the consumers for the items it still has to try,
  and the calls of waiting consumers, of whom \<open>n\<close> are left while it calls them all.\<close>

definition producer_left :: "int \<Rightarrow> int \<Rightarrow> int \<Rightarrow> producer \<Rightarrow> int" where
  "producer_left V C n r = 4 * (V + 1 - pr_val r) + prod2_left (pr_at r) + 6 * (V + 1 - next_val r) + 6 * of_bool (at_wake r) +
     7 * (if produces r then C else if at_wake_all r then n else 0)"

definition pq_left :: "int \<Rightarrow> prodcons2 \<Rightarrow> int" where
  "pq_left V s = producer_left V (int (length (pq_cons s))) (pq_nempty s) (pq_prod s ! 0) +
     producer_left V (int (length (pq_cons s))) (pq_nempty s) (pq_prod s ! 1) +
     6 * pq_empty s + 6 * rg_ct (pq_ring s) + cons_left (pq_cons s)"

lemma producer_left_others: "\<not> at_wake_all r \<Longrightarrow> producer_left V C n r = producer_left V C m r"
  by (simp add: producer_left_def)

lemma producer_left_step:
  assumes "prod2_move M V p s s'" "p < length (pq_prod s)" "empty2_ok s" "prod2_ok V p (pq_prod s ! p)"
  shows "producer_left V (int (length (pq_cons s'))) (pq_nempty s') (pq_prod s' ! p) + 6 * pq_empty s' + 6 * rg_ct (pq_ring s') <
    producer_left V (int (length (pq_cons s))) (pq_nempty s) (pq_prod s ! p) + 6 * pq_empty s + 6 * rg_ct (pq_ring s)"
proof -
  have n: "0 \<le> pq_nempty s" "pq_nempty s \<le> int (length (pq_cons s))"
    using assms(3) cnt_bounds(2) [of con_waits "pq_cons s"] by (auto simp: empty2_ok_def)
  show ?thesis using assms(1)
    by cases (use assms(2,4) n in \<open>auto simp: producer_left_def prod2_places next_val_def prod2_ok_def\<close>)
qed

lemma cnt_two: "length rs = 2 \<Longrightarrow> cnt f rs = of_bool (f (rs ! 0)) + of_bool (f (rs ! 1))"
  by (simp add: cnt_def numeral_2_eq_2 lessThan_Suc)

lemma pq_left_step:
  assumes "pq_ok M V C s" "pq_step M V k s = Some s'"
  shows "pq_left V s' < pq_left V s"
proof -
  note ok = pq_okD [OF assms(1)]
  show ?thesis
  proof (cases rule: pq_step_moves [OF assms(2)])
    case (1 p)
    have p: "p < 2" "1 - p \<noteq> p" "prod2_ok V p (pq_prod s ! p)"
      using 1(2) ok(4,11) by (simp_all add: items2_ok_def) presburger
    have other: "producer_left V C n (pq_prod s' ! (1 - p)) = producer_left V C m (pq_prod s ! (1 - p))"
      if "pq_nempty s' = n" "pq_nempty s = m" for C n m
    proof (cases "n = m")
      case False
      have "prod_in_section (pq_prod s ! p)" using 1(1) False that by cases (auto simp: prod2_places)
      moreover from this have "\<not> at_wake_all (pq_prod s ! (1 - p))"
        using prod2_alone(2) [OF ok(2) 1(2)] wake_in(2) [of "pq_prod s ! (1 - p)"] cnt_two [OF ok(11), of prod_in_section] p(1)
        by (auto simp: less_2_cases_iff)
      ultimately show ?thesis using prod2_other [OF 1(1) p(2)] producer_left_others by metis
    qed (use prod2_other [OF 1(1) p(2)] in simp)
    have "pq_left V s' < pq_left V s" if "p = 0"
      using producer_left_step [OF 1 ok(5) p(3)] other [OF refl refl] prod2_move_end(1) [OF 1] that by (simp add: pq_left_def)
    moreover have "pq_left V s' < pq_left V s" if "p = 1"
      using producer_left_step [OF 1 ok(5) p(3)] other [OF refl refl] prod2_move_end(1) [OF 1] that by (simp add: pq_left_def)
    ultimately show ?thesis using p(1) by (auto simp: less_2_cases_iff)
  next
    case (2 j)
    have c: "con_ok (pq_cons s ! j)" using ok(10) 2(2) by simp
    have len: "length (pq_cons s') = length (pq_cons s)" using con2_move_end(1) [OF 2(1)] by auto
    have same: "producer_left V D (pq_nempty s') (pq_prod s' ! q) = producer_left V D (pq_nempty s) (pq_prod s ! q)"
      if q: "q < 2" for D q
    proof (cases "pq_nempty s' = pq_nempty s")
      case False
      have "con_in_section (pq_cons s ! j)" using 2(1) False by cases (auto simp: con_in_section_def)
      from no_wakers(2) [OF ok(2) 2(2) this] have "\<not> at_wake_all (pq_prod s ! q)" using q ok(11) by (auto simp: cnt_0)
      then show ?thesis using con2_move_end(2) [OF 2(1)] producer_left_others by metis
    qed (simp add: con2_move_end(2) [OF 2(1)])
    have "6 * pq_empty s' + 6 * rg_ct (pq_ring s') + cons_left (pq_cons s') < 6 * pq_empty s + 6 * rg_ct (pq_ring s) + cons_left (pq_cons s)"
      using 2(1) by cases (use 2(2) c in \<open>auto simp: con_ok_def\<close>)
    then show ?thesis using same [of 0] same [of 1] len by (simp add: pq_left_def)
  qed
qed


lemma pq_left_nonneg:
  assumes "pq_ok M V C s"
  shows "0 \<le> pq_left V s"
proof -
  note ok = pq_okD [OF assms]
  have e: "0 \<le> pq_nempty s" "0 \<le> pq_empty s" "0 \<le> rg_ct (pq_ring s)"
    using ok(3,5) by (simp_all add: empty2_ok_def ring2_ok_def ring_wf_def)
  have "0 \<le> producer_left V (int (length (pq_cons s))) (pq_nempty s) (pq_prod s ! q)" if "q < 2" for q
  proof -
    have "prod2_ok V q (pq_prod s ! q)" using ok(4) that by (simp add: items2_ok_def)
    then show ?thesis using e(1) by (cases "pr_at (pq_prod s ! q)") (simp_all add: producer_left_def prod2_ok_def next_val_def prod2_places)
  qed
  from this [of 0] this [of 1] have "0 \<le> producer_left V (int (length (pq_cons s))) (pq_nempty s) (pq_prod s ! 0)"
    "0 \<le> producer_left V (int (length (pq_cons s))) (pq_nempty s) (pq_prod s ! 1)" by simp_all
  moreover have "0 \<le> place_left l f" for l f by (cases l) simp_all
  then have "0 \<le> cons_left (pq_cons s)" by (simp add: cons_left_def sum_nonneg)
  ultimately show ?thesis using e by (simp add: pq_left_def)
qed

lemma pq_run:
  assumes "mfold (pq_step M V) is s = Some s'" "pq_ok M V C s" "0 < C"
  shows "pq_ok M V C s' \<and> int (length is) + pq_left V s' \<le> pq_left V s"
  using assms(1,2)
proof (induction "is" arbitrary: s)
  case (Cons k "is")
  then obtain t where t: "pq_step M V k s = Some t" "mfold (pq_step M V) is t = Some s'"
    by (auto simp: Option.bind_eq_Some_conv)
  show ?case using Cons.IH [OF t(2) pq_ok_step [OF Cons.prems(2) t(1) assms(3)]] pq_left_step [OF Cons.prems(2) t(1)] by simp
qed simp

lemma pq0_left: "pq_left V (pq0 M C) = 20 * V + 20 * int C + 24"
  by (simp add: pq_left_def producer_left_def prod2_places next_val_def pq0_def cons_left_def ring0_def)

section \<open>The properties\<close>

text \<open>C16: no deadlock and an end, and what is delivered. Every schedule of the two producers and the consumers ends
  within \<open>20 * MAXVAL + 20 * NCONSUMERS + 24\<close> steps; the items taken are those put into the ring, in that order;
  and when no processor can go on, all have returned and each number below \<open>MAXVAL\<close> was either taken by one
  consumer, once, or is one that a producer lost because it found the ring full.\<close>

theorem prodcons2_delivers_or_skips:
  assumes "mfold (pq_step M V) is (pq0 M C) = Some s" "pow2 M" "2 \<le> M" "0 < C" "0 \<le> V"
  shows "int (length is) \<le> 20 * V + 20 * int C + 24 \<and> pq_got s @ ring_items M (pq_ring s) = pq_put s \<and>
    ((\<forall>k. pq_step M V k s = None) \<longrightarrow> all2_done s \<and> mset (pq_got s) + mset (pq_skip s) = mset [0..V - 1])"
proof -
  have r: "pq_ok M V C s" "int (length is) + pq_left V s \<le> pq_left V (pq0 M C)"
    using pq_run [OF assms(1) pq0_ok [OF assms(2,5,4)] assms(4)] by simp_all
  note ok = pq_okD [OF r(1)]
  have "mset (pq_got s) + mset (pq_skip s) = mset [0..V - 1]" if d: "all2_done s"
  proof -
    have at: "pr_at (pq_prod s ! p) = Q_DONE" if "p < 2" for p using d ok(11) that by (simp add: all2_done_def)
    have "co_at (pq_cons s ! 0) = CO_DONE" "pq_cons s ! 0 \<in> set (pq_cons s)" using d ok(1) assms(4) by (auto simp: all2_done_def)
    then have "rg_ct (pq_ring s) \<le> 0" using ok(8) by (auto simp: cons2_ok_def con_ok_def)
    then have "ring_items M (pq_ring s) = []" using length_ring_items [of M "pq_ring s"] by simp
    then have got: "pq_got s = pq_put s" using ok(3) by (simp add: ring2_ok_def)
    have "below p (next_val (pq_prod s ! p)) = below p V" if "p < 2" for p
    proof -
      have "prod2_ok V p (pq_prod s ! p)" using ok(4) that by (simp add: items2_ok_def)
      then show ?thesis using at [OF that] that by (intro below_end) (simp_all add: prod2_ok_def next_val_def)
    qed
    then show ?thesis using ok(4) got below_all [of V] by (simp add: items2_ok_def)
  qed
  then show ?thesis
    using stuck2_done [OF r(1) assms(3,4)] pq_left_nonneg [OF r(1)] r(2) pq0_left [of V M C] ok(3) by (simp add: ring2_ok_def)
qed

text \<open>Room for two items and six numbers: each producer finds the ring full once, so 4 and 3 are lost.\<close>

definition pq_schedule :: "nat list" where
  "pq_schedule = replicate 12 0 @ replicate 5 1 @ replicate 6 0 @ replicate 8 3 @ replicate 5 1 @ replicate 10 3 @ replicate 13 1"

theorem prodcons2_delivers_or_skips_witness:
  "\<exists>s. mfold (pq_step 2 6) pq_schedule (pq0 2 1) = Some s \<and> all2_done s \<and> pq_got s = [0, 2, 1, 5] \<and> pq_skip s = [4, 3] \<and>
     mset (pq_got s) + mset (pq_skip s) = mset [0..5]"
proof -
  have "case mfold (pq_step 2 6) pq_schedule (pq0 2 1) of None \<Rightarrow> False
      | Some s \<Rightarrow> pq_got s = [0, 2, 1, 5] \<and> pq_skip s = [4, 3] \<and> list_all (\<lambda>k. pq_step 2 6 k s = None) [0, 1, 3] \<and> length (pq_cons s) = 1"
    by code_simp
  then obtain s where s: "mfold (pq_step 2 6) pq_schedule (pq0 2 1) = Some s" "pq_got s = [0, 2, 1, 5]" "pq_skip s = [4, 3]"
    "pq_step 2 6 0 s = None" "pq_step 2 6 1 s = None" "pq_step 2 6 3 s = None" "length (pq_cons s) = 1"
    by (auto split: option.splits)
  have p: "pow2 2" unfolding pow2_def by (rule exI [of _ 1]) simp
  have "pq_step 2 6 k s = None" for k
  proof (cases "k = 0 \<or> k = 1 \<or> k = 3")
    case False
    then show ?thesis using s(7) by (auto simp: pq_step_def con2_step_def)
  qed (use s(4-6) in auto)
  then have "all2_done s \<and> mset (pq_got s) + mset (pq_skip s) = mset [0..6 - 1]"
    using prodcons2_delivers_or_skips [OF s(1) p] by simp
  then show ?thesis using s(1-3) by simp
qed

end
