(* ===== verification/DDining.thy ===== *)
theory DDining
  imports Dining
begin

text \<open>
  The dining philosophers by messages (examples/src/d_dining-philosophers.c): the footman and the five forks are
  processes of their own, which the philosophers talk to with \<open>C2_output\<close>. An output and the alternative or input
  that takes it are one step, the rendezvous that the network gives (theory Rendezvous): the sender goes on when
  the receiver has the message, and a receiver that is not ready for it lets the sender wait.
\<close>

section \<open>Nodes and messages\<close>

datatype actions = SITDOWN | GETUP | PICKUP | PUTDOWN | DONE

definition PHILOS :: nat where "PHILOS = 5"

definition philos :: "int list" where "philos = [0, 1, 3, 4, 5]"

definition forks :: "int list" where "forks = [6, 7, 9, 10, 11]"

definition FOOTMAN :: int where "FOOTMAN = 2"

text \<open>\<open>find\<close>: the index of an element among the first ones of an array, or -1.\<close>

fun find_from :: "nat \<Rightarrow> int list \<Rightarrow> nat \<Rightarrow> int \<Rightarrow> int" where
  "find_from i arr 0 e = -1"
| "find_from i arr (Suc n) e = (if arr ! i = e then int i else find_from (i + 1) arr n e)"

definition find_elem :: "int list \<Rightarrow> nat \<Rightarrow> int \<Rightarrow> int" where
  "find_elem arr n e = find_from 0 arr n e"

section \<open>The footman\<close>

record table =
  tb_seated :: nat
  tb_arr :: "int list"
  tb_np :: nat

definition sitdown :: "int \<Rightarrow> table \<Rightarrow> table" where
  "sitdown new t = t\<lparr>tb_arr := (tb_arr t)[tb_seated t := new], tb_seated := tb_seated t + 1\<rparr>"

definition getup :: "int \<Rightarrow> table \<Rightarrow> table" where
  "getup exiting t = (let i = find_elem (tb_arr t) (PHILOS - 1) exiting in
     if i < 0 then t
     else t\<lparr>tb_arr := (tb_arr t)[nat i := tb_arr t ! (tb_seated t - 1)], tb_seated := tb_seated t - 1\<rparr>)"

text \<open>The clauses of the alternative that \<open>footman\<close> waits in, and what it does with a message.\<close>

definition footman_clauses :: "table \<Rightarrow> int list" where
  "footman_clauses t = (if tb_np t = 0 then []
     else if tb_seated t = PHILOS - 1 then take (tb_seated t) (tb_arr t) else philos)"

definition footman_gets :: "int \<Rightarrow> actions \<Rightarrow> table \<Rightarrow> table" where
  "footman_gets ret a t =
     (if tb_seated t = PHILOS - 1 then (if a = GETUP then getup ret t else t)
      else case a of SITDOWN \<Rightarrow> sitdown ret t | GETUP \<Rightarrow> getup ret t | DONE \<Rightarrow> t\<lparr>tb_np := tb_np t - 1\<rparr> | _ \<Rightarrow> t)"

section \<open>The forks\<close>

text \<open>\<open>ct_ret\<close> is the philosopher that has the fork, while the inner loop waits for \<open>PUTDOWN\<close>.\<close>

record cutlery =
  ct_ret :: "int option"
  ct_np :: nat

definition allowed :: "nat \<Rightarrow> int list" where
  "allowed i = [philos ! i, if i = 0 then philos ! (PHILOS - 1) else philos ! (i - 1)]"

definition cutlery_clauses :: "nat \<Rightarrow> cutlery \<Rightarrow> int list" where
  "cutlery_clauses i c = (case ct_ret c of Some ret \<Rightarrow> [ret] | None \<Rightarrow> if ct_np c = 0 then [] else allowed i)"

definition cutlery_gets :: "int \<Rightarrow> actions \<Rightarrow> cutlery \<Rightarrow> cutlery" where
  "cutlery_gets ret a c = (case ct_ret c of
     Some r \<Rightarrow> if a = PUTDOWN then c\<lparr>ct_ret := None\<rparr> else c
   | None \<Rightarrow> (case a of PICKUP \<Rightarrow> c\<lparr>ct_ret := Some ret\<rparr> | DONE \<Rightarrow> c\<lparr>ct_np := ct_np c - 1\<rparr> | _ \<Rightarrow> c))"

section \<open>The philosophers\<close>

datatype dplace =
    D_THINK | D_SITDOWN | D_PICK_OWN | D_PICK_NBR | D_PUT_NBR | D_PUT_OWN | D_GETUP
  | D_DONE_OWN | D_DONE_NBR | D_DONE_FOOTMAN | D_OUT

record dphilo =
  dp_at :: dplace
  dp_ideas :: int

record ddine =
  dd_table :: table
  dd_forks :: "cutlery list"
  dd_phil :: "dphilo list"

definition ddine0 :: "int \<Rightarrow> ddine" where
  "ddine0 I = \<lparr>dd_table = \<lparr>tb_seated = 0, tb_arr = replicate (PHILOS - 1) 0, tb_np = PHILOS\<rparr>,
     dd_forks = replicate PHILOS \<lparr>ct_ret = None, ct_np = 2\<rparr>,
     dd_phil = replicate PHILOS \<lparr>dp_at = D_THINK, dp_ideas = I\<rparr>\<rparr>"

definition dd_go :: "nat \<Rightarrow> dplace \<Rightarrow> ddine \<Rightarrow> ddine" where
  "dd_go i l s = s\<lparr>dd_phil := (dd_phil s)[i := (dd_phil s ! i)\<lparr>dp_at := l\<rparr>]\<rparr>"

text \<open>\<open>C2_output\<close> of philosopher \<open>i\<close> to the footman or to fork \<open>k\<close>; \<open>None\<close> while the receiver is not ready.\<close>

definition to_footman :: "nat \<Rightarrow> actions \<Rightarrow> ddine \<Rightarrow> ddine option" where
  "to_footman i a s = (if philos ! i \<in> set (footman_clauses (dd_table s))
     then Some (s\<lparr>dd_table := footman_gets (philos ! i) a (dd_table s)\<rparr>) else None)"

definition to_fork :: "nat \<Rightarrow> nat \<Rightarrow> actions \<Rightarrow> ddine \<Rightarrow> ddine option" where
  "to_fork i k a s = (if philos ! i \<in> set (cutlery_clauses k (dd_forks s ! k))
     then Some (s\<lparr>dd_forks := (dd_forks s)[k := cutlery_gets (philos ! i) a (dd_forks s ! k)]\<rparr>) else None)"

definition ddine_step :: "nat \<Rightarrow> ddine \<Rightarrow> ddine option" where
  "ddine_step i s = (let own = i; nb = nbr PHILOS i; n = dp_ideas (dd_phil s ! i) in
     if i \<ge> PHILOS then None
     else case dp_at (dd_phil s ! i) of
       D_THINK \<Rightarrow> Some (dd_go i (if n > 0 then D_SITDOWN else D_DONE_OWN) s)
     | D_SITDOWN \<Rightarrow> map_option (dd_go i D_PICK_OWN) (to_footman i SITDOWN s)
     | D_PICK_OWN \<Rightarrow> map_option (dd_go i D_PICK_NBR) (to_fork i own PICKUP s)
     | D_PICK_NBR \<Rightarrow> map_option (dd_go i D_PUT_NBR) (to_fork i nb PICKUP s)
     | D_PUT_NBR \<Rightarrow> map_option (dd_go i D_PUT_OWN) (to_fork i nb PUTDOWN s)
     | D_PUT_OWN \<Rightarrow> map_option (dd_go i D_GETUP) (to_fork i own PUTDOWN s)
     | D_GETUP \<Rightarrow> map_option (\<lambda>s. s\<lparr>dd_phil := (dd_phil s)[i := \<lparr>dp_at = D_THINK, dp_ideas = n - 1\<rparr>]\<rparr>)
         (to_footman i GETUP s)
     | D_DONE_OWN \<Rightarrow> map_option (dd_go i D_DONE_NBR) (to_fork i own DONE s)
     | D_DONE_NBR \<Rightarrow> map_option (dd_go i D_DONE_FOOTMAN) (to_fork i nb DONE s)
     | D_DONE_FOOTMAN \<Rightarrow> map_option (dd_go i D_OUT) (to_footman i DONE s)
     | D_OUT \<Rightarrow> None)"

section \<open>The processes\<close>

text \<open>\<open>main\<close>: what each processor runs, by its number; a processor of another number returns at once.\<close>

datatype process = Philosopher int | Footman | Cutlery int | Idle

definition dd_main :: "int \<Rightarrow> process" where
  "dd_main node =
     (if node \<in> set philos then Philosopher (find_elem philos 5 node)
      else if node = FOOTMAN then Footman
      else if node \<in> set forks then Cutlery (find_elem forks 5 node)
      else Idle)"

lemma dd_main_nodes:
  "map dd_main (philos @ FOOTMAN # forks) = map Philosopher [0, 1, 2, 3, 4] @ Footman # map Cutlery [0, 1, 2, 3, 4]"
  "distinct (philos @ FOOTMAN # forks)" "dd_main 8 = Idle"
  by code_simp+

section \<open>The abstraction to the program with semaphores\<close>

definition abs_place :: "dplace \<Rightarrow> place" where
  "abs_place l = (case l of D_THINK \<Rightarrow> THINKING | D_SITDOWN \<Rightarrow> P_FOOTMAN | D_PICK_OWN \<Rightarrow> P_OWN | D_PICK_NBR \<Rightarrow> P_NBR
     | D_PUT_NBR \<Rightarrow> EATING | D_PUT_OWN \<Rightarrow> V_OWN | D_GETUP \<Rightarrow> V_FOOTMAN | _ \<Rightarrow> OUT)"

definition abs_fork :: "cutlery \<Rightarrow> int" where
  "abs_fork c = (if ct_ret c = None then 1 else 0)"

definition abs_phil :: "dphilo \<Rightarrow> philo" where
  "abs_phil p = \<lparr>ph_at = abs_place (dp_at p), ph_ideas = word_of_int (dp_ideas p)\<rparr>"

definition abs_dine :: "ddine \<Rightarrow> dine" where
  "abs_dine s = \<lparr>dn_footman = int (PHILOS - 1) - int (tb_seated (dd_table s)), dn_fork = map abs_fork (dd_forks s),
     dn_phil = map abs_phil (dd_phil s)\<rparr>"

section \<open>The table\<close>

text \<open>The first \<open>seated\<close> entries of the array are the seated philosophers, each once.\<close>

definition at_table :: "table \<Rightarrow> int list" where
  "at_table t = take (tb_seated t) (tb_arr t)"

definition table_ok :: "table \<Rightarrow> bool" where
  "table_ok t \<longleftrightarrow> length (tb_arr t) = PHILOS - 1 \<and> tb_seated t \<le> PHILOS - 1 \<and> distinct (at_table t)"

lemma find_from_less:
  "(find_from i arr n e = -1 \<longleftrightarrow> (\<forall>k<n. arr ! (i + k) \<noteq> e)) \<and>
   (find_from i arr n e \<noteq> -1 \<longrightarrow> (\<exists>k<n. find_from i arr n e = int (i + k) \<and> arr ! (i + k) = e \<and> (\<forall>l<k. arr ! (i + l) \<noteq> e)))"
proof (induction n arbitrary: i)
  case (Suc n)
  show ?case
  proof (cases "arr ! i = e")
    case True
    then show ?thesis by (auto intro!: exI [of _ 0])
  next
    case False
    have all: "(\<forall>k<Suc n. arr ! (i + k) \<noteq> e) \<longleftrightarrow> (\<forall>k<n. arr ! (i + 1 + k) \<noteq> e)"
      using False by (auto simp: All_less_Suc2)
    have ex: "\<exists>k<Suc n. x = int (i + k) \<and> arr ! (i + k) = e \<and> (\<forall>l<k. arr ! (i + l) \<noteq> e)"
      if x: "\<exists>k<n. x = int (i + 1 + k) \<and> arr ! (i + 1 + k) = e \<and> (\<forall>l<k. arr ! (i + 1 + l) \<noteq> e)" for x
    proof -
      obtain k where "k < n" "x = int (i + 1 + k)" "arr ! (i + 1 + k) = e" "\<forall>l<k. arr ! (i + 1 + l) \<noteq> e" using x by blast
      then show ?thesis using False by (intro exI [of _ "Suc k"]) (auto simp: All_less_Suc2)
    qed
    show ?thesis using Suc.IH [of "i + 1"] False ex all by simp
  qed
qed simp

lemma find_elem_at_table:
  assumes "table_ok t" "e \<in> set (at_table t)"
  obtains k where "find_elem (tb_arr t) (PHILOS - 1) e = int k" "k < tb_seated t" "tb_arr t ! k = e"
proof -
  obtain j where j: "j < tb_seated t" "tb_arr t ! j = e"
    using assms by (auto simp: table_ok_def at_table_def in_set_conv_nth)
  then have "j < PHILOS - 1" using assms(1) by (simp add: table_ok_def)
  with j find_from_less [of 0 "tb_arr t" "PHILOS - 1" e] obtain k where
    "find_elem (tb_arr t) (PHILOS - 1) e = int k" "tb_arr t ! k = e" "\<forall>l<k. tb_arr t ! l \<noteq> e"
    by (auto simp: find_elem_def)
  moreover from this j have "k \<le> j" by (meson not_le)
  ultimately show ?thesis using that j(1) by simp
qed

lemma getup_at_table:
  assumes "table_ok t" "e \<in> set (at_table t)"
  shows "table_ok (getup e t)" "set (at_table (getup e t)) = set (at_table t) - {e}"
    "tb_seated (getup e t) = tb_seated t - 1" "0 < tb_seated t" "tb_np (getup e t) = tb_np t"
proof -
  obtain k where k: "find_elem (tb_arr t) (PHILOS - 1) e = int k" "k < tb_seated t" "tb_arr t ! k = e"
    using find_elem_at_table [OF assms] .
  obtain m where m: "tb_seated t = Suc m" using k(2) by (cases "tb_seated t") auto
  have len: "length (tb_arr t) = PHILOS - 1" "Suc m \<le> PHILOS - 1" "distinct (take (Suc m) (tb_arr t))"
    using assms(1) m by (simp_all add: table_ok_def at_table_def)
  then have lt: "m < length (tb_arr t)" by simp
  have g: "getup e t = t\<lparr>tb_arr := (tb_arr t)[k := tb_arr t ! m], tb_seated := m\<rparr>"
    using k(1) m by (simp add: getup_def)
  have take: "take (Suc m) (tb_arr t) = take m (tb_arr t) @ [tb_arr t ! m]" using lt by (rule take_Suc_conv_app_nth)
  have at: "at_table (getup e t) = (take m (tb_arr t))[k := tb_arr t ! m]" by (simp add: g at_table_def take_update_swap)
  have "distinct (at_table (getup e t)) \<and> set (at_table (getup e t)) = set (at_table t) - {e}"
  proof (cases "k = m")
    case True
    then show ?thesis using len(3) k(3) unfolding at by (auto simp: at_table_def m take list_update_beyond)
  next
    case False
    then have km: "k < m" using k(2) m by simp
    have d: "distinct (take m (tb_arr t))" "tb_arr t ! m \<notin> set (take m (tb_arr t))" using len(3) unfolding take by auto
    have "take m (tb_arr t) ! k = e" using k(3) km by simp
    then have "set ((take m (tb_arr t))[k := tb_arr t ! m]) = insert (tb_arr t ! m) (set (take m (tb_arr t)) - {e})"
      using set_update_distinct [OF d(1), of k] km lt by simp
    moreover have "e \<noteq> tb_arr t ! m" using d(2) km k(3) lt by (metis in_set_conv_nth length_take min.absorb4 nth_take)
    ultimately show ?thesis using d distinct_list_update [OF d(1), of "tb_arr t ! m" k] unfolding at
      by (auto simp: at_table_def m take)
  qed
  then show "table_ok (getup e t)" "set (at_table (getup e t)) = set (at_table t) - {e}"
    using len lt by (simp_all add: table_ok_def g)
  show "tb_seated (getup e t) = tb_seated t - 1" "0 < tb_seated t" "tb_np (getup e t) = tb_np t" by (simp_all add: g m)
qed

lemma sitdown_at_table:
  assumes "table_ok t" "tb_seated t < PHILOS - 1" "e \<notin> set (at_table t)"
  shows "table_ok (sitdown e t)" "set (at_table (sitdown e t)) = insert e (set (at_table t))"
proof -
  have "at_table (sitdown e t) = at_table t @ [e]"
    using assms(1,2) by (simp add: at_table_def sitdown_def table_ok_def take_Suc_conv_app_nth)
  then show "table_ok (sitdown e t)" "set (at_table (sitdown e t)) = insert e (set (at_table t))"
    using assms by (auto simp: table_ok_def) (simp_all add: sitdown_def)
qed

end
