(* ===== verification/DDiningInv.thy ===== *)
theory DDiningInv
  imports DDining
begin

text \<open>
  The program of theory DDining refines the one of theory Dining: the invariant of the footman's table and of
  the forks, and the step of \<open>dine_step\<close> that each message makes.
\<close>

section \<open>The invariant\<close>

definition sits :: "dplace \<Rightarrow> bool" where
  "sits l \<longleftrightarrow> seated (abs_place l)"

text \<open>Who sits is at the table; who has a fork is the one that the fork waits for; the counters say how many
  have not said \<open>DONE\<close> yet.\<close>

definition seats_ok :: "ddine \<Rightarrow> bool" where
  "seats_ok s \<longleftrightarrow> table_ok (dd_table s) \<and>
     set (at_table (dd_table s)) = {philos ! i | i. i < PHILOS \<and> sits (dp_at (dd_phil s ! i))}"

definition hands_ok :: "ddine \<Rightarrow> nat \<Rightarrow> bool" where
  "hands_ok s i \<longleftrightarrow> (holds_own (abs_place (dp_at (dd_phil s ! i))) \<longrightarrow> ct_ret (dd_forks s ! i) = Some (philos ! i)) \<and>
     (dp_at (dd_phil s ! i) = D_PUT_NBR \<longrightarrow> ct_ret (dd_forks s ! nbr PHILOS i) = Some (philos ! i))"

definition np_ok :: "ddine \<Rightarrow> bool" where
  "np_ok s \<longleftrightarrow> int (tb_np (dd_table s)) = (\<Sum>i<PHILOS. of_bool (dp_at (dd_phil s ! i) \<noteq> D_OUT)) \<and>
     (\<forall>i<PHILOS. int (ct_np (dd_forks s ! nbr PHILOS i)) =
        of_bool (dp_at (dd_phil s ! nbr PHILOS i) \<notin> {D_DONE_NBR, D_DONE_FOOTMAN, D_OUT}) +
        of_bool (dp_at (dd_phil s ! i) \<notin> {D_DONE_FOOTMAN, D_OUT}))"

definition idea_ok :: "int \<Rightarrow> dphilo \<Rightarrow> bool" where
  "idea_ok I p \<longleftrightarrow> 0 \<le> dp_ideas p \<and> dp_ideas p \<le> I \<and>
     (dp_at p \<in> {D_SITDOWN, D_PICK_OWN, D_PICK_NBR, D_PUT_NBR, D_PUT_OWN, D_GETUP} \<longrightarrow> 0 < dp_ideas p)"

definition ideas_ok :: "int \<Rightarrow> ddine \<Rightarrow> bool" where
  "ideas_ok I s \<longleftrightarrow> (\<forall>i<PHILOS. idea_ok I (dd_phil s ! i))"

definition lens_ok :: "ddine \<Rightarrow> bool" where
  "lens_ok s \<longleftrightarrow> length (dd_phil s) = PHILOS \<and> length (dd_forks s) = PHILOS"

lemma philo_inj: "i < PHILOS \<Longrightarrow> j < PHILOS \<Longrightarrow> philos ! i = philos ! j \<longleftrightarrow> i = j"
proof -
  have "distinct philos" "length philos = PHILOS" by (simp_all add: philos_def PHILOS_def)
  then show "i < PHILOS \<Longrightarrow> j < PHILOS \<Longrightarrow> philos ! i = philos ! j \<longleftrightarrow> i = j" by (simp add: nth_eq_iff_index_eq)
qed

lemma PHILOS_less: "i < PHILOS \<longleftrightarrow> i = 0 \<or> i = 1 \<or> i = 2 \<or> i = 3 \<or> i = 4"
  by (auto simp: PHILOS_def)

lemma philo_allowed: "i < PHILOS \<Longrightarrow> k < PHILOS \<Longrightarrow> philos ! i \<in> set (allowed k) \<longleftrightarrow> k = i \<or> k = nbr PHILOS i"
  unfolding PHILOS_less by (elim disjE; simp add: allowed_def philos_def nbr_def PHILOS_def)

lemma nbr_neq: "i < PHILOS \<Longrightarrow> nbr PHILOS i \<noteq> i"
  unfolding PHILOS_less by (elim disjE; simp add: nbr_def PHILOS_def)

text \<open>One rule for each way a step can go.\<close>

inductive dd_move :: "nat \<Rightarrow> ddine \<Rightarrow> ddine \<Rightarrow> bool" for i s where
  hungry: "dp_at (dd_phil s ! i) = D_THINK \<Longrightarrow> 0 < dp_ideas (dd_phil s ! i) \<Longrightarrow> dd_move i s (dd_go i D_SITDOWN s)"
| leave: "dp_at (dd_phil s ! i) = D_THINK \<Longrightarrow> dp_ideas (dd_phil s ! i) \<le> 0 \<Longrightarrow> dd_move i s (dd_go i D_DONE_OWN s)"
| sitdown: "dp_at (dd_phil s ! i) = D_SITDOWN \<Longrightarrow> to_footman i SITDOWN s = Some t \<Longrightarrow> dd_move i s (dd_go i D_PICK_OWN t)"
| pick_own: "dp_at (dd_phil s ! i) = D_PICK_OWN \<Longrightarrow> to_fork i i PICKUP s = Some t \<Longrightarrow> dd_move i s (dd_go i D_PICK_NBR t)"
| pick_nbr: "dp_at (dd_phil s ! i) = D_PICK_NBR \<Longrightarrow> to_fork i (nbr PHILOS i) PICKUP s = Some t \<Longrightarrow>
    dd_move i s (dd_go i D_PUT_NBR t)"
| put_nbr: "dp_at (dd_phil s ! i) = D_PUT_NBR \<Longrightarrow> to_fork i (nbr PHILOS i) PUTDOWN s = Some t \<Longrightarrow>
    dd_move i s (dd_go i D_PUT_OWN t)"
| put_own: "dp_at (dd_phil s ! i) = D_PUT_OWN \<Longrightarrow> to_fork i i PUTDOWN s = Some t \<Longrightarrow> dd_move i s (dd_go i D_GETUP t)"
| getup: "dp_at (dd_phil s ! i) = D_GETUP \<Longrightarrow> to_footman i GETUP s = Some t \<Longrightarrow>
    dd_move i s (t\<lparr>dd_phil := (dd_phil t)[i := \<lparr>dp_at = D_THINK, dp_ideas = dp_ideas (dd_phil s ! i) - 1\<rparr>]\<rparr>)"
| done_own: "dp_at (dd_phil s ! i) = D_DONE_OWN \<Longrightarrow> to_fork i i DONE s = Some t \<Longrightarrow> dd_move i s (dd_go i D_DONE_NBR t)"
| done_nbr: "dp_at (dd_phil s ! i) = D_DONE_NBR \<Longrightarrow> to_fork i (nbr PHILOS i) DONE s = Some t \<Longrightarrow>
    dd_move i s (dd_go i D_DONE_FOOTMAN t)"
| done_footman: "dp_at (dd_phil s ! i) = D_DONE_FOOTMAN \<Longrightarrow> to_footman i DONE s = Some t \<Longrightarrow> dd_move i s (dd_go i D_OUT t)"

lemma ddine_step_move:
  assumes "ddine_step i s = Some s'"
  shows "i < PHILOS" "dd_move i s s'"
proof -
  show "i < PHILOS" using assms by (auto simp: ddine_step_def Let_def split: if_splits)
  then show "dd_move i s s'" using assms
    by (cases "dp_at (dd_phil s ! i)") (auto simp: ddine_step_def Let_def not_less intro: dd_move.intros split: if_splits)
qed

lemma dd_parts [simp]:
  "dd_table (dd_go i l s) = dd_table s" "dd_forks (dd_go i l s) = dd_forks s"
  "dd_phil (dd_go i l s) = (dd_phil s)[i := (dd_phil s ! i)\<lparr>dp_at := l\<rparr>]"
  by (simp_all add: dd_go_def)

lemma to_footmanD:
  assumes "to_footman i a s = Some t"
  shows "philos ! i \<in> set (footman_clauses (dd_table s))" "t = s\<lparr>dd_table := footman_gets (philos ! i) a (dd_table s)\<rparr>"
  using assms by (auto simp: to_footman_def split: if_splits)

lemma to_forkD:
  assumes "to_fork i k a s = Some t"
  shows "philos ! i \<in> set (cutlery_clauses k (dd_forks s ! k))"
    "t = s\<lparr>dd_forks := (dd_forks s)[k := cutlery_gets (philos ! i) a (dd_forks s ! k)]\<rparr>"
  using assms by (auto simp: to_fork_def split: if_splits)

lemma to_fork_Some:
  "to_fork i k a s = Some t \<longleftrightarrow> philos ! i \<in> set (cutlery_clauses k (dd_forks s ! k)) \<and>
    t = s\<lparr>dd_forks := (dd_forks s)[k := cutlery_gets (philos ! i) a (dd_forks s ! k)]\<rparr>"
  by (auto simp: to_fork_def)

text \<open>What the footman does with the messages that he gets.\<close>

lemma footman_sitdown:
  assumes "table_ok t" "e \<in> set (footman_clauses t)" "e \<notin> set (at_table t)"
  shows "tb_seated t < PHILOS - 1" "footman_gets e SITDOWN t = sitdown e t"
  using assms by (auto simp: footman_clauses_def at_table_def footman_gets_def table_ok_def split: if_splits)

lemma footman_getup: "footman_gets e GETUP t = getup e t"
  by (simp add: footman_gets_def)

lemma footman_done:
  assumes "table_ok t" "e \<in> set (footman_clauses t)" "e \<notin> set (at_table t)"
  shows "footman_gets e DONE t = t\<lparr>tb_np := tb_np t - 1\<rparr>" "0 < tb_np t"
  using assms by (auto simp: footman_clauses_def at_table_def footman_gets_def table_ok_def split: if_splits)

lemma sits_def': "sits l \<longleftrightarrow> l \<in> {D_PICK_OWN, D_PICK_NBR, D_PUT_NBR, D_PUT_OWN, D_GETUP}"
  by (cases l) (simp_all add: sits_def abs_place_def seated_def)

lemma owns_def': "holds_own (abs_place l) \<longleftrightarrow> l \<in> {D_PICK_NBR, D_PUT_NBR, D_PUT_OWN}"
  by (cases l) (simp_all add: abs_place_def holds_own_def)

lemma sits_simps [simp]:
  "sits D_PICK_OWN" "sits D_PICK_NBR" "sits D_PUT_NBR" "sits D_PUT_OWN" "sits D_GETUP" "\<not> sits D_THINK"
  "\<not> sits D_SITDOWN" "\<not> sits D_DONE_OWN" "\<not> sits D_DONE_NBR" "\<not> sits D_DONE_FOOTMAN" "\<not> sits D_OUT"
  by (simp_all add: sits_def')

lemma lens_ok_step:
  assumes "lens_ok s" "dd_move i s s'"
  shows "lens_ok s'"
  using assms(2,1) by cases (auto simp: lens_ok_def dest!: to_footmanD(2) to_forkD(2))

lemma seats_ok_step:
  assumes "seats_ok s" "lens_ok s" "dd_move i s s'" "i < PHILOS"
  shows "seats_ok s'"
proof -
  have tb: "table_ok (dd_table s)" "set (at_table (dd_table s)) = {philos ! i | i. i < PHILOS \<and> sits (dp_at (dd_phil s ! i))}"
    and len: "length (dd_phil s) = PHILOS" using assms(1,2) by (simp_all add: seats_ok_def lens_ok_def)
  have mem: "philos ! i \<in> set (at_table (dd_table s)) \<longleftrightarrow> sits (dp_at (dd_phil s ! i))"
    unfolding tb(2) using philo_inj assms(4) by auto
  have same: "{philos ! j | j. j < PHILOS \<and> sits (dp_at ((dd_phil s)[i := p] ! j))} =
      (if sits (dp_at p) then insert (philos ! i) (set (at_table (dd_table s)))
       else set (at_table (dd_table s)) - {philos ! i})" for p
    unfolding tb(2) using philo_inj assms(4) len by (auto simp: nth_list_update)
  show ?thesis using assms(3)
  proof cases
    case (sitdown t)
    note t = to_footmanD [OF sitdown(3)]
    have "philos ! i \<notin> set (at_table (dd_table s))" using mem sitdown(2) by simp
    with sitdown_at_table [OF tb(1) _ this] footman_sitdown [OF tb(1) t(1) this] show ?thesis
      unfolding seats_ok_def sitdown(1) t(2) by (simp add: same)
  next
    case (getup t)
    note t = to_footmanD [OF getup(3)]
    have "philos ! i \<in> set (at_table (dd_table s))" using mem getup(2) by simp
    with getup_at_table [OF tb(1) this] show ?thesis
      unfolding seats_ok_def getup(1) t(2) footman_getup by (simp add: same)
  next
    case (done_footman t)
    note t = to_footmanD [OF done_footman(3)]
    have n: "philos ! i \<notin> set (at_table (dd_table s))" using mem done_footman(2) by simp
    with footman_done(1) [OF tb(1) t(1) this] tb(1) show ?thesis
      unfolding seats_ok_def done_footman(1) t(2) by (simp add: same at_table_def table_ok_def)
  qed (use tb(1) mem in \<open>simp_all add: seats_ok_def same insert_absorb to_fork_Some\<close>)
qed

lemma ct_ret_kept:
  assumes "to_fork i k a s = Some t" "ct_ret (dd_forks s ! l) = Some (philos ! j)" "i < PHILOS" "j < PHILOS" "j \<noteq> i"
  shows "ct_ret (dd_forks t ! l) = Some (philos ! j)"
  using assms philo_inj [OF assms(4,3)]
  by (cases "l = k"; cases "k < length (dd_forks s)") (auto simp: to_fork_Some cutlery_clauses_def)

lemma dd_move_phil:
  assumes "dd_move i s s'" "lens_ok s" "i < PHILOS"
  shows "j \<noteq> i \<Longrightarrow> dd_phil s' ! j = dd_phil s ! j" "idea_ok I (dd_phil s ! i) \<Longrightarrow> idea_ok I (dd_phil s' ! i)"
proof -
  show "j \<noteq> i \<Longrightarrow> dd_phil s' ! j = dd_phil s ! j"
    using assms(1) by cases (auto simp: to_fork_Some dest!: to_footmanD(2))
  show "idea_ok I (dd_phil s ! i) \<Longrightarrow> idea_ok I (dd_phil s' ! i)"
    using assms(1) by cases (use assms(2,3) in \<open>auto simp: idea_ok_def lens_ok_def to_fork_Some dest!: to_footmanD(2)\<close>)
qed

lemma hands_ok_step:
  assumes "\<forall>j<PHILOS. hands_ok s j" "lens_ok s" "dd_move i s s'" "i < PHILOS" "j < PHILOS"
  shows "hands_ok s' j"
proof -
  have len: "length (dd_phil s) = PHILOS" "length (dd_forks s) = PHILOS" using assms(2) by (simp_all add: lens_ok_def)
  have h: "hands_ok s i" "hands_ok s j" using assms(1,4,5) by simp_all
  show ?thesis
  proof (cases "j = i")
    case True
    show ?thesis using assms(3) h(1) len assms(4) nbr_neq [OF assms(4)] unfolding True
      by cases (auto simp: hands_ok_def owns_def' to_fork_Some cutlery_gets_def cutlery_clauses_def
          dest!: to_footmanD(2) split: option.splits)
  next
    case False
    have "ct_ret (dd_forks s' ! l) = Some (philos ! j)" if "ct_ret (dd_forks s ! l) = Some (philos ! j)" for l
      using assms(3) by cases (use ct_ret_kept [OF _ that assms(4,5) False] that in \<open>auto dest!: to_footmanD(2)\<close>)
    moreover have "dd_phil s' ! j = dd_phil s ! j" using dd_move_phil(1) [OF assms(3,2,4) False] .
    ultimately show ?thesis using h(2) by (simp add: hands_ok_def)
  qed
qed

lemma ideas_ok_step:
  assumes "ideas_ok I s" "lens_ok s" "dd_move i s s'" "i < PHILOS"
  shows "ideas_ok I s'"
  using assms(1) dd_move_phil [OF assms(3,2,4)] assms(4) unfolding ideas_ok_def by metis

section \<open>The refinement\<close>

lemma abs_parts [simp]:
  "dn_footman (abs_dine s) = int (PHILOS - 1) - int (tb_seated (dd_table s))"
  "dn_fork (abs_dine s) = map abs_fork (dd_forks s)" "dn_phil (abs_dine s) = map abs_phil (dd_phil s)"
  "k < length (dd_phil s) \<Longrightarrow> at_place (abs_dine s) k = abs_place (dp_at (dd_phil s ! k))"
  by (simp_all add: abs_dine_def at_place_def abs_phil_def)

lemma fork_free:
  assumes "dine_ok PHILOS (abs_dine s)" "\<forall>j<PHILOS. hands_ok s j" "lens_ok s" "i < PHILOS"
    "philos ! i \<in> set (cutlery_clauses k (dd_forks s ! k))"
    "k = i \<and> \<not> holds_own (abs_place (dp_at (dd_phil s ! i))) \<or> k = nbr PHILOS i \<and> dp_at (dd_phil s ! i) \<noteq> D_PUT_NBR"
  shows "ct_ret (dd_forks s ! k) = None"
proof (rule ccontr)
  assume taken: "ct_ret (dd_forks s ! k) \<noteq> None"
  then have mine: "ct_ret (dd_forks s ! k) = Some (philos ! i)" using assms(5) by (auto simp: cutlery_clauses_def)
  have len: "length (dd_phil s) = PHILOS" "length (dd_forks s) = PHILOS" using assms(3) by (simp_all add: lens_ok_def)
  have k: "k < PHILOS" using assms(4,6) by auto
  obtain p where p: "p < PHILOS" "nbr PHILOS p = k" using nbr_onto [OF k] .
  have "fork_ok PHILOS (abs_dine s) p" using assms(1) p(1) by (simp add: dine_ok_def)
  then have "holds_own (abs_place (dp_at (dd_phil s ! k))) \<or> abs_place (dp_at (dd_phil s ! p)) = EATING \<or>
      abs_place (dp_at (dd_phil s ! k)) = START"
    using taken k p len unfolding fork_ok_def p(2) by (cases "abs_place (dp_at (dd_phil s ! p)) = EATING") (auto simp: abs_fork_def)
  moreover have "abs_place l \<noteq> START" "abs_place l = EATING \<longleftrightarrow> l = D_PUT_NBR" for l by (cases l; simp add: abs_place_def)+
  ultimately consider "holds_own (abs_place (dp_at (dd_phil s ! k)))" | "dp_at (dd_phil s ! p) = D_PUT_NBR" by blast
  then show False
  proof cases
    case 1
    then have "philos ! k = philos ! i" using assms(2) k mine by (simp add: hands_ok_def)
    then show False using 1 assms(6) philo_inj [OF k assms(4)] nbr_neq [OF assms(4)] by auto
  next
    case 2
    then have "philos ! p = philos ! i" using assms(2) p mine by (auto simp: hands_ok_def)
    then have "p = i" using philo_inj [OF p(1) assms(4)] by simp
    then show False using 2 assms(6) p(2) nbr_neq [OF assms(4)] by auto
  qed
qed

definition dd_inv :: "int \<Rightarrow> ddine \<Rightarrow> bool" where
  "dd_inv I s \<longleftrightarrow> dine_ok PHILOS (abs_dine s) \<and> lens_ok s \<and> seats_ok s \<and> (\<forall>j<PHILOS. hands_ok s j) \<and> ideas_ok I s"

lemma dd_invD:
  assumes "dd_inv I s" "i < PHILOS"
  shows "length (dd_phil s) = PHILOS" "length (dd_forks s) = PHILOS" "table_ok (dd_table s)"
    "philos ! i \<in> set (at_table (dd_table s)) \<longleftrightarrow> sits (dp_at (dd_phil s ! i))" "hands_ok s i" "idea_ok I (dd_phil s ! i)"
  using assms philo_inj [OF assms(2)]
  by (auto simp: dd_inv_def lens_ok_def seats_ok_def ideas_ok_def)

lemma word_ideas:
  assumes "0 \<le> n" "n < 2 ^ 31"
  shows "(word_of_int n :: u32) = 0 \<longleftrightarrow> n = 0"
proof -
  have "uint (word_of_int n :: u32) = n" using assms by (simp add: uint_word_of_int mod_pos_pos_trivial)
  then show ?thesis by (metis uint_0_iff)
qed

text \<open>A step of a philosopher is the step of the philosopher of the program with semaphores, but for its last
  messages, which change nothing there.\<close>

text \<open>What a fork knows of the philosopher who sends to it.\<close>

lemma fork_holder:
  assumes "dd_inv I s" "i < PHILOS" "to_fork i k a s = Some t"
  shows "dp_at (dd_phil s ! i) \<in> {D_PICK_OWN, D_DONE_OWN} \<Longrightarrow> k = i \<Longrightarrow> ct_ret (dd_forks s ! k) = None"
    "dp_at (dd_phil s ! i) \<in> {D_PICK_NBR, D_DONE_NBR} \<Longrightarrow> k = nbr PHILOS i \<Longrightarrow> ct_ret (dd_forks s ! k) = None"
    "dp_at (dd_phil s ! i) = D_PUT_NBR \<Longrightarrow> k = nbr PHILOS i \<Longrightarrow> ct_ret (dd_forks s ! k) = Some (philos ! i)"
    "dp_at (dd_phil s ! i) = D_PUT_OWN \<Longrightarrow> k = i \<Longrightarrow> ct_ret (dd_forks s ! k) = Some (philos ! i)"
proof -
  have ok: "dine_ok PHILOS (abs_dine s)" "lens_ok s" "\<forall>j<PHILOS. hands_ok s j" using assms(1) by (simp_all add: dd_inv_def)
  note free = fork_free [OF ok(1,3,2) assms(2)] and hands = ok(3) [rule_format, OF assms(2)]
  have nb: "nbr PHILOS i < PHILOS" using assms(2) by simp
  show "dp_at (dd_phil s ! i) \<in> {D_PICK_OWN, D_DONE_OWN} \<Longrightarrow> k = i \<Longrightarrow> ct_ret (dd_forks s ! k) = None"
    using free [of i] assms(3) by (auto simp: to_fork_Some owns_def')
  show "dp_at (dd_phil s ! i) \<in> {D_PICK_NBR, D_DONE_NBR} \<Longrightarrow> k = nbr PHILOS i \<Longrightarrow> ct_ret (dd_forks s ! k) = None"
    using free [of "nbr PHILOS i"] assms(3) by (auto simp: to_fork_Some)
  show "dp_at (dd_phil s ! i) = D_PUT_NBR \<Longrightarrow> k = nbr PHILOS i \<Longrightarrow> ct_ret (dd_forks s ! k) = Some (philos ! i)"
    "dp_at (dd_phil s ! i) = D_PUT_OWN \<Longrightarrow> k = i \<Longrightarrow> ct_ret (dd_forks s ! k) = Some (philos ! i)"
    using hands by (simp_all add: hands_ok_def owns_def')
qed

lemma ddine_refines_step:
  assumes "dd_inv I s" "dd_move i s s'" "i < PHILOS" "I < 2 ^ 31"
  shows "dine_step PHILOS J i (abs_dine s) = Some (abs_dine s') \<or> abs_dine s' = abs_dine s"
proof -
  note inv = dd_invD [OF assms(1,3)] and fork = fork_holder [OF assms(1,3)]
  have nb: "nbr PHILOS i < PHILOS" using assms(3) by simp
  note defs = dine_step_def abs_dine_def abs_phil_def go_to_def set_fork_def set_ideas_def map_update abs_place_def P_sem_def
  show ?thesis using assms(2)
  proof cases
    case hungry
    then show ?thesis using inv assms(3,4) word_ideas [of "dp_ideas (dd_phil s ! i)"]
      by (auto simp: defs idea_ok_def word_gt_0)
  next
    case leave
    then show ?thesis using inv assms(3) by (auto simp: defs idea_ok_def)
  next
    case (sitdown t)
    note t = to_footmanD [OF sitdown(3)]
    have "philos ! i \<notin> set (at_table (dd_table s))" using inv(4) sitdown(2) by simp
    from footman_sitdown [OF inv(3) t(1) this] show ?thesis using inv(1) sitdown(2) assms(3)
      unfolding sitdown(1) t(2) by (auto simp: defs DDining.sitdown_def PHILOS_def)
  next
    case (getup t)
    note t = to_footmanD [OF getup(3)]
    have "philos ! i \<in> set (at_table (dd_table s))" using inv(4) getup(2) by simp
    from getup_at_table(3,4) [OF inv(3) this] show ?thesis using inv(1) getup(2) assms(3)
      unfolding getup(1) t(2) footman_getup by (auto simp: defs of_nat_diff)
  next
    case (done_footman t)
    note t = to_footmanD [OF done_footman(3)]
    have "philos ! i \<notin> set (at_table (dd_table s))" using inv(4) done_footman(2) by simp
    from footman_done [OF inv(3) t(1) this] show ?thesis using inv(1) done_footman(2) assms(3)
      unfolding done_footman(1) t(2) by (auto simp: defs list_update_same_conv)
  qed (use fork inv(1,2) assms(3) nb in
      \<open>force simp: defs to_fork_Some cutlery_gets_def abs_fork_def list_update_same_conv\<close>)+
qed

end
