(* ===== verification/DDiningEnd.thy ===== *)
theory DDiningEnd
  imports DDiningInv
begin

text \<open>
  The end of the program of theory DDining: how many processes have still to say \<open>DONE\<close>, why nobody waits for
  ever, and the properties of whole runs.
\<close>

section \<open>Who has said DONE\<close>

lemma keep_np [simp]: "tb_np (getup e t) = tb_np t" "tb_np (sitdown e t) = tb_np t"
  by (simp_all add: getup_def sitdown_def Let_def)

lemma ct_np_step:
  assumes "dd_inv I s" "dd_move i s s'" "i < PHILOS" "k < PHILOS"
  shows "ct_np (dd_forks s' ! k) = ct_np (dd_forks s ! k)
    - of_bool (k = i \<and> dp_at (dd_phil s ! i) = D_DONE_OWN) - of_bool (k = nbr PHILOS i \<and> dp_at (dd_phil s ! i) = D_DONE_NBR)"
proof -
  have len: "length (dd_forks s) = PHILOS" using dd_invD(2) [OF assms(1,3)] .
  have ok: "dine_ok PHILOS (abs_dine s)" "lens_ok s" "\<forall>j<PHILOS. hands_ok s j" using assms(1) by (simp_all add: dd_inv_def)
  note free = fork_free [OF ok(1,3,2) assms(3)]
  show ?thesis using assms(2)
  proof cases
    case (done_own t)
    then have "ct_ret (dd_forks s ! i) = None" using free [of i] by (simp add: to_fork_Some owns_def')
    then show ?thesis using done_own len assms(3,4) by (auto simp: to_fork_Some cutlery_gets_def nth_list_update)
  next
    case (done_nbr t)
    then have "ct_ret (dd_forks s ! nbr PHILOS i) = None" using free [of "nbr PHILOS i"] by (simp add: to_fork_Some)
    then show ?thesis using done_nbr len assms(3,4) by (auto simp: to_fork_Some cutlery_gets_def nth_list_update)
  qed (use len assms(3,4) in \<open>auto simp: to_fork_Some cutlery_gets_def nth_list_update dest!: to_footmanD(2)
    split: option.splits\<close>)
qed

lemma tb_np_step:
  assumes "dd_inv I s" "dd_move i s s'" "i < PHILOS"
  shows "tb_np (dd_table s') = tb_np (dd_table s) - of_bool (dp_at (dd_phil s ! i) = D_DONE_FOOTMAN)"
    "dp_at (dd_phil s ! i) = D_DONE_FOOTMAN \<Longrightarrow> 0 < tb_np (dd_table s)"
proof -
  note inv = dd_invD [OF assms(1,3)]
  show "tb_np (dd_table s') = tb_np (dd_table s) - of_bool (dp_at (dd_phil s ! i) = D_DONE_FOOTMAN)"
    using assms(2)
  proof cases
    case (done_footman t)
    note t = to_footmanD [OF done_footman(3)]
    have "philos ! i \<notin> set (at_table (dd_table s))" using inv(4) done_footman(2) by simp
    from footman_done [OF inv(3) t(1) this] show ?thesis using done_footman(2) unfolding done_footman(1) t(2) by simp
  next
    case (sitdown t)
    note t = to_footmanD [OF sitdown(3)]
    have "philos ! i \<notin> set (at_table (dd_table s))" using inv(4) sitdown(2) by simp
    from footman_sitdown [OF inv(3) t(1) this] show ?thesis using sitdown(2) unfolding sitdown(1) t(2) by simp
  qed (auto simp: to_fork_Some footman_getup dest!: to_footmanD(2))
  assume d: "dp_at (dd_phil s ! i) = D_DONE_FOOTMAN"
  show "0 < tb_np (dd_table s)" using assms(2)
  proof cases
    case (done_footman t)
    have "philos ! i \<notin> set (at_table (dd_table s))" using inv(4) d by simp
    then show ?thesis using footman_done(2) [OF inv(3) to_footmanD(1) [OF done_footman(3)]] by simp
  qed (use d in simp_all)
qed

text \<open>The places of the messages in the life of a philosopher.\<close>

fun dd_left :: "dphilo \<Rightarrow> nat" where
  "dd_left p = (case dp_at p of
     D_THINK \<Rightarrow> 7 * nat (dp_ideas p) + 4 | D_SITDOWN \<Rightarrow> 7 * nat (dp_ideas p) + 3
   | D_PICK_OWN \<Rightarrow> 7 * nat (dp_ideas p) + 2 | D_PICK_NBR \<Rightarrow> 7 * nat (dp_ideas p) + 1
   | D_PUT_NBR \<Rightarrow> 7 * nat (dp_ideas p) | D_PUT_OWN \<Rightarrow> 7 * nat (dp_ideas p) - 1 | D_GETUP \<Rightarrow> 7 * nat (dp_ideas p) - 2
   | D_DONE_OWN \<Rightarrow> 3 | D_DONE_NBR \<Rightarrow> 2 | D_DONE_FOOTMAN \<Rightarrow> 1 | D_OUT \<Rightarrow> 0)"

lemma dd_left_step:
  assumes "dd_inv I s" "dd_move i s s'" "i < PHILOS"
  shows "dd_left (dd_phil s' ! i) + 1 = dd_left (dd_phil s ! i)"
proof -
  note inv = dd_invD [OF assms(1,3)]
  have n: "dp_at (dd_phil s ! i) \<in> {D_SITDOWN, D_PICK_OWN, D_PICK_NBR, D_PUT_NBR, D_PUT_OWN, D_GETUP} \<Longrightarrow>
      nat (dp_ideas (dd_phil s ! i)) = Suc (nat (dp_ideas (dd_phil s ! i) - 1))"
    using inv(6) by (auto simp: idea_ok_def)
  show ?thesis using assms(2)
    by cases (use inv(1,6) assms(3) n in \<open>auto simp: idea_ok_def to_fork_Some dest!: to_footmanD(2)\<close>)
qed

lemma dd_after:
  assumes "dd_move i s s'" "lens_ok s" "i < PHILOS"
  shows "dp_at (dd_phil s ! i) \<noteq> D_OUT"
    "dp_at (dd_phil s' ! i) = D_OUT \<longleftrightarrow> dp_at (dd_phil s ! i) = D_DONE_FOOTMAN"
    "dp_at (dd_phil s' ! i) \<in> {D_DONE_FOOTMAN, D_OUT} \<longleftrightarrow> dp_at (dd_phil s ! i) \<in> {D_DONE_NBR, D_DONE_FOOTMAN}"
    "dp_at (dd_phil s' ! i) \<in> {D_DONE_NBR, D_DONE_FOOTMAN, D_OUT} \<longleftrightarrow>
      dp_at (dd_phil s ! i) \<in> {D_DONE_OWN, D_DONE_NBR, D_DONE_FOOTMAN}"
  using assms(1) by (cases; use assms(2,3) in \<open>auto simp: lens_ok_def to_fork_Some dest!: to_footmanD(2)\<close>)+

lemma np_ok_step:
  assumes "np_ok s" "dd_inv I s" "dd_move i s s'" "i < PHILOS"
  shows "np_ok s'"
proof -
  have lens: "lens_ok s" using assms(2) by (simp add: dd_inv_def)
  let ?at = "\<lambda>s i. dp_at (dd_phil s ! i)"
  note same = dd_move_phil(1) [OF assms(3) lens assms(4)] and after = dd_after [OF assms(3) lens assms(4)]
  note tb = tb_np_step [OF assms(2-4)]
  have "(\<Sum>j<PHILOS. of_bool (?at s' j \<noteq> D_OUT)) =
      (\<Sum>j<PHILOS. of_bool (?at s j \<noteq> D_OUT)) - of_bool (?at s i \<noteq> D_OUT) + (of_bool (?at s' i \<noteq> D_OUT) :: int)"
    by (rule sum_change) (use assms(4) same in simp_all)
  then have table: "int (tb_np (dd_table s')) = (\<Sum>j<PHILOS. of_bool (?at s' j \<noteq> D_OUT))"
    using assms(1) tb after(1,2) by (cases "?at s i = D_DONE_FOOTMAN") (auto simp: np_ok_def of_nat_diff)
  have "int (ct_np (dd_forks s' ! nbr PHILOS j)) = of_bool (?at s' (nbr PHILOS j) \<notin> {D_DONE_NBR, D_DONE_FOOTMAN, D_OUT}) +
      of_bool (?at s' j \<notin> {D_DONE_FOOTMAN, D_OUT})" if j: "j < PHILOS" for j
  proof -
    have k: "nbr PHILOS j < PHILOS" using j by simp
    have old: "int (ct_np (dd_forks s ! nbr PHILOS j)) = of_bool (?at s (nbr PHILOS j) \<notin> {D_DONE_NBR, D_DONE_FOOTMAN, D_OUT}) +
        of_bool (?at s j \<notin> {D_DONE_FOOTMAN, D_OUT})" using assms(1) j by (simp add: np_ok_def)
    note np = ct_np_step [OF assms(2-4) k]
    consider "i = nbr PHILOS j" "i \<noteq> j" | "i = j" "i \<noteq> nbr PHILOS j" | "i \<noteq> j" "i \<noteq> nbr PHILOS j"
      using nbr_neq [OF j] by metis
    then show ?thesis
    proof cases
      case 1
      have "nbr PHILOS i \<noteq> i" using nbr_neq [OF assms(4)] .
      then show ?thesis using 1 old np same [of j] after(1,4) by (cases "?at s i = D_DONE_OWN") auto
    next
      case 2
      then have "nbr PHILOS j \<noteq> i" by simp
      from same [OF this] show ?thesis using 2 old np after(1,3) by (cases "?at s i = D_DONE_NBR") auto
    next
      case 3
      then have "nbr PHILOS j \<noteq> nbr PHILOS i" using nbr_inj [OF j assms(4)] by simp
      then show ?thesis using 3 old np same [of j] same [of "nbr PHILOS j"] by simp
    qed
  qed
  with table show ?thesis by (simp add: np_ok_def)
qed

definition ddine_ok :: "int \<Rightarrow> ddine \<Rightarrow> bool" where
  "ddine_ok I s \<longleftrightarrow> dd_inv I s \<and> np_ok s"

lemma ddine_ok_step:
  assumes "ddine_ok I s" "ddine_step i s = Some s'" "I < 2 ^ 31"
  shows "ddine_ok I s'" "i < PHILOS" "dd_move i s s'"
    "dine_step PHILOS J i (abs_dine s) = Some (abs_dine s') \<or> abs_dine s' = abs_dine s"
proof -
  note m = ddine_step_move [OF assms(2)]
  have s: "dd_inv I s" "lens_ok s" "seats_ok s" "\<forall>j<PHILOS. hands_ok s j" "ideas_ok I s" "np_ok s" "dine_ok PHILOS (abs_dine s)"
    using assms(1) by (simp_all add: ddine_ok_def dd_inv_def)
  show ref: "dine_step PHILOS J i (abs_dine s) = Some (abs_dine s') \<or> abs_dine s' = abs_dine s" for J
    by (rule ddine_refines_step [OF s(1) m(2,1) assms(3)])
  have "dine_ok PHILOS (abs_dine s')" using ref [of 0] s(7) dine_step_ok by metis
  then have "dd_inv I s'" unfolding dd_inv_def
    using lens_ok_step [OF s(2) m(2)] seats_ok_step [OF s(3,2) m(2,1)] hands_ok_step [OF s(4,2) m(2,1)]
      ideas_ok_step [OF s(5,2) m(2,1)] by simp
  then show "ddine_ok I s'" using np_ok_step [OF s(6,1) m(2,1)] by (simp add: ddine_ok_def)
  show "i < PHILOS" "dd_move i s s'" by (rule m)+
qed

lemma ddine0_ok:
  assumes "0 \<le> I" "I < 2 ^ 31"
  shows "ddine_ok I (ddine0 I)"
proof -
  have at: "i < PHILOS \<Longrightarrow> dd_phil (ddine0 I) ! i = \<lparr>dp_at = D_THINK, dp_ideas = I\<rparr>"
    "i < PHILOS \<Longrightarrow> dd_forks (ddine0 I) ! i = \<lparr>ct_ret = None, ct_np = 2\<rparr>" for i
    by (simp_all add: ddine0_def)
  have len: "lens_ok (ddine0 I)" by (simp add: lens_ok_def ddine0_def)
  have abs: "i < PHILOS \<Longrightarrow> at_place (abs_dine (ddine0 I)) i = THINKING" "i < PHILOS \<Longrightarrow> dn_fork (abs_dine (ddine0 I)) ! i = 1" for i
    using len at by (simp_all add: lens_ok_def abs_place_def abs_fork_def)
  have "dine_ok PHILOS (abs_dine (ddine0 I))"
    using len abs unfolding dine_ok_def fork_ok_def
    by (auto simp: lens_ok_def seated_def holds_own_def) (simp_all add: ddine0_def PHILOS_def)
  moreover have "seats_ok (ddine0 I)" using at unfolding seats_ok_def
    by (auto simp: table_ok_def at_table_def) (simp_all add: ddine0_def)
  moreover have "np_ok (ddine0 I)" using at by (simp add: np_ok_def) (simp add: ddine0_def)
  ultimately show ?thesis using len at assms by (simp add: ddine_ok_def dd_inv_def hands_ok_def owns_def' ideas_ok_def idea_ok_def)
qed

section \<open>Nobody waits for ever\<close>

definition all_out :: "ddine \<Rightarrow> bool" where
  "all_out s \<longleftrightarrow> (\<forall>i<PHILOS. dp_at (dd_phil s ! i) = D_OUT) \<and> tb_np (dd_table s) = 0 \<and>
     (\<forall>k<PHILOS. cutlery_clauses k (dd_forks s ! k) = [])"

text \<open>A receiver that a philosopher needs is ready for it when the semaphore of the other program is free.\<close>

lemma footman_ready:
  assumes "ddine_ok I s" "i < PHILOS" "dp_at (dd_phil s ! i) \<noteq> D_OUT"
    "tb_seated (dd_table s) < PHILOS - 1 \<or> sits (dp_at (dd_phil s ! i))"
  shows "philos ! i \<in> set (footman_clauses (dd_table s))"
proof -
  note inv = dd_invD [of I s, OF _ assms(2)]
  have inv: "table_ok (dd_table s)" "philos ! i \<in> set (at_table (dd_table s)) \<longleftrightarrow> sits (dp_at (dd_phil s ! i))"
    using inv(3,4) assms(1) by (simp_all add: ddine_ok_def)
  have "(1 :: int) \<le> (\<Sum>j<PHILOS. of_bool (dp_at (dd_phil s ! j) \<noteq> D_OUT))"
    using member_le_sum [of i "{..<PHILOS}" "\<lambda>j. of_bool (dp_at (dd_phil s ! j) \<noteq> D_OUT) :: int"] assms(2,3) by simp
  then have "tb_np (dd_table s) \<noteq> 0" using assms(1) by (auto simp: ddine_ok_def np_ok_def)
  moreover have "philos ! i \<in> set philos" using assms(2) by (intro nth_mem) (simp add: philos_def PHILOS_def)
  ultimately show ?thesis using inv assms(4) by (auto simp: footman_clauses_def at_table_def)
qed

lemma fork_ready:
  assumes "ddine_ok I s" "i < PHILOS" "k = i \<and> dp_at (dd_phil s ! i) \<notin> {D_DONE_NBR, D_DONE_FOOTMAN, D_OUT} \<or>
      k = nbr PHILOS i \<and> dp_at (dd_phil s ! i) \<notin> {D_DONE_FOOTMAN, D_OUT}"
    "ct_ret (dd_forks s ! k) = None \<or> ct_ret (dd_forks s ! k) = Some (philos ! i)"
  shows "philos ! i \<in> set (cutlery_clauses k (dd_forks s ! k))"
proof -
  have k: "k < PHILOS" using assms(2,3) by auto
  obtain p where p: "p < PHILOS" "nbr PHILOS p = k" using nbr_onto [OF k] .
  have "p = i" if "k = nbr PHILOS i" using nbr_inj [OF p(1) assms(2)] p(2) that by simp
  moreover have "int (ct_np (dd_forks s ! k)) = of_bool (dp_at (dd_phil s ! k) \<notin> {D_DONE_NBR, D_DONE_FOOTMAN, D_OUT}) +
      of_bool (dp_at (dd_phil s ! p) \<notin> {D_DONE_FOOTMAN, D_OUT})"
    using assms(1) p by (auto simp: ddine_ok_def np_ok_def)
  ultimately have "int (ct_np (dd_forks s ! k)) \<noteq> 0" using assms(3) by (auto simp: of_bool_def split: if_splits)
  then have "ct_np (dd_forks s ! k) \<noteq> 0" by simp
  then show ?thesis using assms(4) philo_allowed [OF assms(2) k] assms(3) by (auto simp: cutlery_clauses_def)
qed

lemma ready_step:
  assumes "ddine_ok I s" "i < PHILOS" "dine_step PHILOS J i (abs_dine s) \<noteq> None"
  shows "ddine_step i s \<noteq> None"
proof -
  have inv: "length (dd_phil s) = PHILOS" "length (dd_forks s) = PHILOS" "hands_ok s i"
    using dd_invD [of I s i] assms(1,2) by (simp_all add: ddine_ok_def)
  have nb: "nbr PHILOS i < PHILOS" using assms(2) by simp
  note fr = fork_ready [OF assms(1,2)] and tr = footman_ready [OF assms(1,2)]
  have free: "abs_fork c = 1 \<longleftrightarrow> ct_ret c = None" "abs_fork c < 1 \<longleftrightarrow> ct_ret c \<noteq> None" for c by (auto simp: abs_fork_def)
  note defs = dine_step_def ddine_step_def Let_def abs_phil_def abs_place_def to_fork_def to_footman_def P_sem_def
  show ?thesis
  proof (cases "dp_at (dd_phil s ! i)")
    case D_SITDOWN
    then have "tb_seated (dd_table s) < PHILOS - 1" using assms(2,3) inv(1) by (auto simp: defs split: if_splits)
    then show ?thesis using tr D_SITDOWN assms(2) by (simp add: defs)
  next
    case D_PICK_OWN
    then have "ct_ret (dd_forks s ! i) = None" using assms(2,3) inv(1,2) by (auto simp: defs abs_fork_def split: if_splits)
    then show ?thesis using fr [of i] D_PICK_OWN assms(2) by (simp add: defs)
  next
    case D_PICK_NBR
    then have "ct_ret (dd_forks s ! nbr PHILOS i) = None"
      using assms(2,3) inv(1,2) nb by (auto simp: defs abs_fork_def split: if_splits)
    then show ?thesis using fr [of "nbr PHILOS i"] D_PICK_NBR assms(2) by (simp add: defs)
  next
    case D_PUT_NBR
    then show ?thesis using fr [of "nbr PHILOS i"] inv(3) assms(2) by (simp add: defs hands_ok_def)
  next
    case D_PUT_OWN
    then show ?thesis using fr [of i] inv(3) assms(2) by (simp add: defs hands_ok_def owns_def' holds_own_def)
  next
    case D_GETUP
    then show ?thesis using tr assms(2) by (simp add: defs)
  qed (use assms(2,3) inv(1) in \<open>simp_all add: defs\<close>)
qed

lemma ddine_stuck:
  assumes "ddine_ok I s" "\<forall>i<PHILOS. ddine_step i s = None"
  shows "all_out s"
proof -
  have ok: "dine_ok PHILOS (abs_dine s)" and len: "length (dd_phil s) = PHILOS" "length (dd_forks s) = PHILOS"
    and tab: "table_ok (dd_table s)" and np: "np_ok s"
    and seats: "set (at_table (dd_table s)) = {philos ! i | i. i < PHILOS \<and> sits (dp_at (dd_phil s ! i))}"
    using assms(1) by (simp_all add: ddine_ok_def dd_inv_def lens_ok_def seats_ok_def)
  have "\<forall>i<PHILOS. dine_step PHILOS 0 i (abs_dine s) = None" using ready_step [OF assms(1)] assms(2) by blast
  then have "abs_place (dp_at (dd_phil s ! i)) = OUT" if "i < PHILOS" for i
    using stuck_all_out [OF ok _ _ that] len(1) that by (simp add: PHILOS_def)
  then have last: "dp_at (dd_phil s ! i) \<in> {D_DONE_OWN, D_DONE_NBR, D_DONE_FOOTMAN, D_OUT}" if "i < PHILOS" for i
    using that by (cases "dp_at (dd_phil s ! i)") (force simp: abs_place_def)+
  have free: "ct_ret (dd_forks s ! k) = None" if k: "k < PHILOS" for k
  proof -
    obtain p where p: "p < PHILOS" "nbr PHILOS p = k" using nbr_onto [OF k] .
    have "fork_ok PHILOS (abs_dine s) p" using ok p(1) by (simp add: dine_ok_def)
    then show ?thesis using last [OF k] last [OF p(1)] len k p unfolding fork_ok_def p(2)
      by (auto simp: abs_place_def holds_own_def abs_fork_def split: if_splits)
  qed
  have "{philos ! i | i. i < PHILOS \<and> sits (dp_at (dd_phil s ! i))} = {}" using last by fastforce
  with seats have "set (at_table (dd_table s)) = {}" by (rule trans)
  then have "at_table (dd_table s) = []" by simp
  then have "tb_seated (dd_table s) = 0" using tab by (auto simp: at_table_def table_ok_def PHILOS_def)
  then have table: "tb_seated (dd_table s) < PHILOS - 1" by (simp add: PHILOS_def)
  have out: "dp_at (dd_phil s ! i) = D_OUT" if i: "i < PHILOS" for i
  proof (rule ccontr)
    assume "dp_at (dd_phil s ! i) \<noteq> D_OUT"
    moreover have "nbr PHILOS i < PHILOS" using i by simp
    moreover have "ddine_step i s = None" using assms(2) i by simp
    ultimately show False
      using last [OF i] fork_ready [OF assms(1) i, of i] fork_ready [OF assms(1) i, of "nbr PHILOS i"]
        footman_ready [OF assms(1) i] free i table
      by (auto simp: ddine_step_def Let_def to_fork_def to_footman_def split: if_splits)
  qed
  have "ct_np (dd_forks s ! k) = 0" if k: "k < PHILOS" for k
  proof -
    obtain p where "p < PHILOS" "nbr PHILOS p = k" using nbr_onto [OF k] .
    then show ?thesis using np out k by (auto simp: np_ok_def)
  qed
  then show ?thesis using out free np by (simp add: all_out_def cutlery_clauses_def np_ok_def)
qed


section \<open>Whole runs\<close>

definition dd_total :: "ddine \<Rightarrow> nat" where
  "dd_total s = (\<Sum>i<PHILOS. dd_left (dd_phil s ! i))"

lemma dd_total_step:
  assumes "dd_inv I s" "dd_move i s s'" "i < PHILOS"
  shows "dd_total s' + 1 = dd_total s"
proof -
  have lens: "lens_ok s" using assms(1) by (simp add: dd_inv_def)
  have "(\<Sum>j<PHILOS. int (dd_left (dd_phil s' ! j))) = (\<Sum>j<PHILOS. int (dd_left (dd_phil s ! j)))
      - int (dd_left (dd_phil s ! i)) + int (dd_left (dd_phil s' ! i))"
    by (rule sum_change) (use assms(3) dd_move_phil(1) [OF assms(2) lens assms(3)] in simp_all)
  then have "int (dd_total s') = int (dd_total s) - int (dd_left (dd_phil s ! i)) + int (dd_left (dd_phil s' ! i))"
    by (simp add: dd_total_def)
  then show ?thesis using dd_left_step [OF assms] by linarith
qed

lemma ddine_run:
  assumes "mfold ddine_step is s = Some s'" "ddine_ok I s" "I < 2 ^ 31"
  shows "ddine_ok I s' \<and> length is + dd_total s' = dd_total s \<and>
    (\<exists>js. mfold (dine_step PHILOS J) js (abs_dine s) = Some (abs_dine s'))"
  using assms(1,2)
proof (induction "is" arbitrary: s)
  case Nil
  then show ?case by (auto intro: exI [of _ "[]"])
next
  case (Cons i "is")
  then obtain t where t: "ddine_step i s = Some t" "mfold ddine_step is t = Some s'"
    by (auto split: option.splits simp: Option.bind_eq_Some_conv)
  note st = ddine_ok_step [OF Cons.prems(2) t(1) assms(3)]
  from Cons.IH [OF t(2) st(1)] obtain js where rest: "ddine_ok I s'" "length is + dd_total s' = dd_total t"
    "mfold (dine_step PHILOS J) js (abs_dine t) = Some (abs_dine s')" by blast
  have "length (i # is) + dd_total s' = dd_total s"
    using rest(2) dd_total_step [of I, OF _ st(3,2)] Cons.prems(2) by (simp add: ddine_ok_def)
  moreover have "\<exists>js. mfold (dine_step PHILOS J) js (abs_dine s) = Some (abs_dine s')"
    using st(4) [of J]
  proof
    assume "dine_step PHILOS J i (abs_dine s) = Some (abs_dine t)"
    then show ?thesis using rest(3) by (intro exI [of _ "i # js"]) simp
  next
    assume "abs_dine t = abs_dine s"
    then show ?thesis using rest(3) by (intro exI [of _ js]) simp
  qed
  ultimately show ?case using rest(1) by simp
qed

text \<open>The program with semaphores starts with \<open>THINKING\<close> philosophers after one step of each.\<close>

lemma dine_started:
  assumes "0 \<le> I" "I < 2 ^ 31"
  shows "mfold (dine_step PHILOS (word_of_int I)) [0..<PHILOS] (dine0 PHILOS) = Some (abs_dine (ddine0 I))"
  by (simp add: PHILOS_def upt_rec [of 0] upt_rec [of "Suc _"] dine_step_def dine0_def ddine0_def abs_dine_def abs_phil_def
      abs_place_def abs_fork_def Let_def numeral_eq_Suc)

lemma ddine_run0:
  assumes "mfold ddine_step is (ddine0 I) = Some s" "0 \<le> I" "I < 2 ^ 31"
  shows "ddine_ok I s" "length is + dd_total s = PHILOS * (7 * nat I + 4)"
    "\<exists>js. mfold (dine_step PHILOS (word_of_int I)) js (abs_dine (ddine0 I)) = Some (abs_dine s)"
proof -
  have "dd_total (ddine0 I) = PHILOS * (7 * nat I + 4)" by (simp add: dd_total_def ddine0_def)
  with ddine_run [OF assms(1) ddine0_ok [OF assms(2,3)] assms(3)]
  show "ddine_ok I s" "length is + dd_total s = PHILOS * (7 * nat I + 4)"
    "\<exists>js. mfold (dine_step PHILOS (word_of_int I)) js (abs_dine (ddine0 I)) = Some (abs_dine s)" by auto
qed

section \<open>The properties\<close>

text \<open>C17: the program with messages does what the program with semaphores does: every run of the twelve processes
  leads to a state that the semaphores program reaches, where the footman's seats and the forks are its semaphores.\<close>

theorem ddine_refines:
  assumes "mfold ddine_step is (ddine0 I) = Some s" "0 \<le> I" "I < 2 ^ 31"
  shows "\<exists>js. mfold (dine_step PHILOS (word_of_int I)) ([0..<PHILOS] @ js) (dine0 PHILOS) = Some (abs_dine s)"
proof -
  obtain js where "mfold (dine_step PHILOS (word_of_int I)) js (abs_dine (ddine0 I)) = Some (abs_dine s)"
    using ddine_run0(3) [OF assms] by blast
  then show ?thesis using dine_started [OF assms(2,3)] by (intro exI [of _ js]) (simp add: mfold_append)
qed

text \<open>C18: it ends. No order of the processes makes more than \<open>7 * IDEAS + 4\<close> steps of each philosopher, and whenever
  no process can go on, every philosopher has left and the footman and all forks have heard \<open>DONE\<close> from each.\<close>

theorem ddine_finishes:
  assumes "mfold ddine_step is (ddine0 I) = Some s" "0 \<le> I" "I < 2 ^ 31"
  shows "length is \<le> PHILOS * (7 * nat I + 4) \<and> ((\<forall>i<PHILOS. ddine_step i s = None) \<longleftrightarrow> all_out s)"
proof -
  note r = ddine_run0 [OF assms]
  have "ddine_step i s = None" if "all_out s" "i < PHILOS" for i
    using that by (simp add: all_out_def ddine_step_def Let_def)
  then show ?thesis using r(1,2) ddine_stuck [OF r(1)] by auto
qed


text \<open>One idea each; the philosophers take turns after the first has a fork, and then one by one.\<close>

theorem ddine_refines_witness:
  "\<exists>s js. mfold ddine_step [0, 0, 0, 1, 1, 0] (ddine0 1) = Some s \<and> dp_at (dd_phil s ! 0) = D_PUT_NBR \<and>
     mfold (dine_step PHILOS 1) ([0..<PHILOS] @ js) (dine0 PHILOS) = Some (abs_dine s)"
proof -
  have "case mfold ddine_step [0, 0, 0, 1, 1, 0] (ddine0 1) of None \<Rightarrow> False | Some s \<Rightarrow> dp_at (dd_phil s ! 0) = D_PUT_NBR"
    by code_simp
  then obtain s where s: "mfold ddine_step [0, 0, 0, 1, 1, 0] (ddine0 1) = Some s" "dp_at (dd_phil s ! 0) = D_PUT_NBR"
    by (auto split: option.splits)
  with ddine_refines [OF s(1)] show ?thesis by auto
qed

theorem ddine_finishes_witness:
  "\<exists>s. mfold ddine_step ([1, 1, 2, 2, 2] @ concat (map (replicate 11) [0, 3, 4]) @ replicate 8 2 @ replicate 9 1) (ddine0 1) =
     Some s \<and> all_out s \<and> ddine_step 0 s = None"
proof -
  let ?is = "[1, 1, 2, 2, 2] @ concat (map (replicate 11) [0, 3, 4]) @ replicate 8 2 @ replicate 9 1"
  have "case mfold ddine_step ?is (ddine0 1) of None \<Rightarrow> False | Some s \<Rightarrow> list_all (\<lambda>i. ddine_step i s = None) [0..<PHILOS]"
    by code_simp
  then obtain s where s: "mfold ddine_step ?is (ddine0 1) = Some s" "\<forall>i<PHILOS. ddine_step i s = None"
    by (auto split: option.splits simp: list_all_iff)
  with ddine_finishes [OF s(1)] have "all_out s" by simp
  then show ?thesis using s by (auto simp: PHILOS_def)
qed

end
