(* ===== verification/DProdCons.thy ===== *)
theory DProdCons
  imports Sem Ring
begin

text \<open>
  Producers and consumers that talk to a buffer process by messages: examples/src/d_producer-consumer.c, with one
  producer, and examples/src/d_producer-consumerv2.c, with two. An output and the input or alternative that
  takes it are one step, the rendezvous of the network (theory Rendezvous). The macros \<open>MAXELEM\<close>, \<open>MAXVAL\<close> and
  \<open>NCONSUMERS\<close> are the parameters \<open>M\<close>, \<open>V\<close> and \<open>C\<close>.
\<close>

section \<open>The processes\<close>

text \<open>Where the buffer process waits: the input from the producers, the alternative with the default clause, and the
  alternatives of the loops at \<open>REMITEMS\<close>; after each alternative comes the output to the chosen consumer.\<close>

datatype bplace =
    B_IN | B_ALT | B_GIVE nat | R_ALT | R_GIVE nat | E_ALT | E_GIVE nat | B_DONE

datatype kplace = K_ASK | K_GET | K_DONE

text \<open>The steps: a message from a producer or a consumer to the buffer, the default clause of the alternative, which
  may be chosen before the message of a consumer arrives, and the message of the buffer to the consumer.\<close>

datatype event = Put nat | Ask nat | Default | Give

text \<open>\<open>db_prod\<close> are the producers' \<open>i\<close> (\<open>None\<close> after the last message); \<open>db_in\<close> and \<open>db_got\<close> record the items that
  the producers have sent and that the consumers have received.\<close>

record dbuf =
  db_ring :: ring
  db_at :: bplace
  db_np :: nat
  db_nc :: nat
  db_prod :: "int option list"
  db_cons :: "kplace list"
  db_in :: "int list"
  db_got :: "int list"

definition db_go :: "bplace \<Rightarrow> dbuf \<Rightarrow> dbuf" where
  "db_go l s = s\<lparr>db_at := l\<rparr>"

definition d_producer :: "int \<Rightarrow> int \<Rightarrow> nat \<Rightarrow> dbuf \<Rightarrow> (int \<times> dbuf) option" where
  "d_producer inc V p s = (if p \<ge> length (db_prod s) then None else case db_prod s ! p of
     None \<Rightarrow> None
   | Some i \<Rightarrow> Some (if i < V then (i, s\<lparr>db_prod := (db_prod s)[p := Some (i + inc)], db_in := db_in s @ [i]\<rparr>)
       else (-1, s\<lparr>db_prod := (db_prod s)[p := None]\<rparr>)))"

text \<open>The loop of a consumer: ask the buffer, then get an item, until it is negative.\<close>

definition d_ask :: "nat \<Rightarrow> dbuf \<Rightarrow> dbuf option" where
  "d_ask c s = (if c < length (db_cons s) \<and> db_cons s ! c = K_ASK
     then Some (s\<lparr>db_cons := (db_cons s)[c := K_GET]\<rparr>) else None)"

definition d_get :: "nat \<Rightarrow> int \<Rightarrow> dbuf \<Rightarrow> dbuf option" where
  "d_get c item s = (if db_cons s ! c = K_GET
     then Some (s\<lparr>db_cons := (db_cons s)[c := if item \<ge> 0 then K_ASK else K_DONE],
       db_got := db_got s @ (if item \<ge> 0 then [item] else [])\<rparr>) else None)"

definition give_item :: "nat \<Rightarrow> nat \<Rightarrow> dbuf \<Rightarrow> dbuf option" where
  "give_item M c s = (let (item, r) = d_dequeue M (db_ring s) in d_get c item (s\<lparr>db_ring := r\<rparr>))"

section \<open>The buffer process\<close>

text \<open>The heads of the loops, which send the process to its next wait.\<close>

definition feed_loop :: "nat \<Rightarrow> dbuf \<Rightarrow> dbuf" where
  "feed_loop M s = db_go (if rg_ct (db_ring s) < int M then B_IN else B_ALT) s"

definition end_loop :: "dbuf \<Rightarrow> dbuf" where
  "end_loop s = db_go (if db_nc s > 0 then E_ALT else B_DONE) s"

definition rem_loop :: "dbuf \<Rightarrow> dbuf" where
  "rem_loop s = (if rg_ct (db_ring s) > 0 then db_go R_ALT s else end_loop s)"

definition rem_step :: "nat \<Rightarrow> event \<Rightarrow> dbuf \<Rightarrow> dbuf option" where
  "rem_step M e s = (case (db_at s, e) of
     (R_ALT, Ask c) \<Rightarrow> map_option (db_go (R_GIVE c)) (d_ask c s)
   | (R_GIVE c, Give) \<Rightarrow> map_option rem_loop (give_item M c s)
   | (E_ALT, Ask c) \<Rightarrow> map_option (db_go (E_GIVE c)) (d_ask c s)
   | (E_GIVE c, Give) \<Rightarrow> map_option (\<lambda>s. end_loop (s\<lparr>db_nc := db_nc s - 1\<rparr>)) (d_get c (-1) s)
   | _ \<Rightarrow> None)"

definition buf_step :: "nat \<Rightarrow> int \<Rightarrow> event \<Rightarrow> dbuf \<Rightarrow> dbuf option" where
  "buf_step M V e s = (case (db_at s, e) of
     (B_IN, Put p) \<Rightarrow> map_option (\<lambda>(data, s). if data < 0 then rem_loop s
         else db_go B_ALT (s\<lparr>db_ring := d_enqueue M data (db_ring s)\<rparr>)) (d_producer 1 V p s)
   | (B_ALT, Ask c) \<Rightarrow> map_option (db_go (B_GIVE c)) (d_ask c s)
   | (B_ALT, Default) \<Rightarrow> Some (feed_loop M s)
   | (B_GIVE c, Give) \<Rightarrow> map_option (feed_loop M) (give_item M c s)
   | _ \<Rightarrow> rem_step M e s)"

definition buf0 :: "nat \<Rightarrow> nat \<Rightarrow> dbuf" where
  "buf0 M C = feed_loop M \<lparr>db_ring = ring0 M, db_at = B_IN, db_np = 1, db_nc = C, db_prod = [Some 0],
     db_cons = replicate C K_ASK, db_in = [], db_got = []\<rparr>"

section \<open>Two producers\<close>

definition d2_producer :: "int \<Rightarrow> nat \<Rightarrow> dbuf \<Rightarrow> (int \<times> dbuf) option" where
  "d2_producer V p s = d_producer 2 V p s"

definition feed_loop2 :: "nat \<Rightarrow> dbuf \<Rightarrow> dbuf" where
  "feed_loop2 M s = (if db_np s > 0 then feed_loop M s else rem_loop s)"

definition buf2_step :: "nat \<Rightarrow> int \<Rightarrow> event \<Rightarrow> dbuf \<Rightarrow> dbuf option" where
  "buf2_step M V e s = (case (db_at s, e) of
     (B_IN, Put p) \<Rightarrow> map_option (\<lambda>(data, s). db_go B_ALT (if data < 0 then s\<lparr>db_np := db_np s - 1\<rparr>
         else s\<lparr>db_ring := d_enqueue M data (db_ring s)\<rparr>)) (d2_producer V p s)
   | (B_ALT, Ask c) \<Rightarrow> map_option (db_go (B_GIVE c)) (d_ask c s)
   | (B_ALT, Default) \<Rightarrow> Some (feed_loop2 M s)
   | (B_GIVE c, Give) \<Rightarrow> map_option (feed_loop2 M) (give_item M c s)
   | _ \<Rightarrow> rem_step M e s)"

definition buf2_0 :: "nat \<Rightarrow> nat \<Rightarrow> dbuf" where
  "buf2_0 M C = feed_loop2 M \<lparr>db_ring = ring0 M, db_at = B_IN, db_np = 2, db_nc = C, db_prod = [Some 0, Some 1],
     db_cons = replicate C K_ASK, db_in = [], db_got = []\<rparr>"

section \<open>The processors\<close>

text \<open>\<open>main\<close>: what each processor runs. The buffer process gets the array \<open>consumers\<close> with the numbers of the consumers
  and the default clause; consumer \<open>c\<close> of the model is its entry \<open>c\<close>. With two producers their numbers are macros.\<close>

datatype d_process = Producer | Buffer "int list" | Consumer

definition d_main :: "nat \<Rightarrow> nat \<Rightarrow> d_process" where
  "d_main C node = (if node = 0 then Producer
     else if node = 1 then Buffer (map int [2..<C + 2] @ [-1]) else Consumer)"

text \<open>The loop of \<open>main\<close> writes the numbers one after the other and the default clause to its place; \<open>None\<close> when it
  writes behind the array.\<close>

definition d2_consumers :: "nat \<Rightarrow> nat \<Rightarrow> nat \<Rightarrow> int list option" where
  "d2_consumers P0 P1 C = (let cs = map int (filter (\<lambda>c. c \<noteq> P0 \<and> c \<noteq> P1 \<and> c \<noteq> 1) [0..<C + 2 + 1]) in
     if length cs \<le> C + 1 then Some ((cs @ replicate (C + 1 - length cs) 0)[C := -1]) else None)"

definition d2_main :: "nat \<Rightarrow> nat \<Rightarrow> nat \<Rightarrow> nat \<Rightarrow> d_process option" where
  "d2_main P0 P1 C node = (if node = P0 \<or> node = P1 then Some Producer
     else if node = 1 then map_option Buffer (d2_consumers P0 P1 C) else Some Consumer)"

text \<open>All consumers are in the array when the two producers are different processors of the first
  \<open>NCONSUMERS + 3\<close> ones; otherwise the default clause takes the place of the last consumer.\<close>

lemma d2_consumers_fit:
  assumes "P0 \<noteq> P1" "P0 \<noteq> 1" "P1 \<noteq> 1" "P0 < C + 3" "P1 < C + 3"
  shows "d2_consumers P0 P1 C = Some (map int (filter (\<lambda>c. c \<noteq> P0 \<and> c \<noteq> P1 \<and> c \<noteq> 1) [0..<C + 3]) @ [-1])"
proof -
  let ?cs = "filter (\<lambda>c. c \<noteq> P0 \<and> c \<noteq> P1 \<and> c \<noteq> 1) [0..<C + 2 + 1]"
  have "card (set ?cs) = length ?cs" by (intro distinct_card distinct_filter distinct_upt)
  moreover have "set ?cs = {0..<C + 3} - {P0, P1, 1}" by (simp only: set_filter set_upt) auto
  moreover have "card ({0..<C + 3} - {P0, P1, 1}) = card {0..<C + 3} - card {P0, P1, 1}"
    by (intro card_Diff_subset) (use assms in simp_all)
  moreover have "card {P0, P1, 1} = 3" using assms(1-3) by simp
  ultimately have len: "length (map int ?cs) = C" by simp
  have upd: "(xs @ replicate (C + 1 - length xs) 0)[C := -1] = xs @ [-1]" if "length xs = C" for xs :: "int list"
    using that by (simp add: list_update_append)
  have "[0..<C + 2 + 1] = [0..<C + 3]" by (rule arg_cong) simp
  with len upd [OF len] show ?thesis by (simp only: d2_consumers_def Let_def) simp
qed

lemma d2_consumers_outside: "d2_consumers 0 9 2 = Some [2, 3, -1]"
  by code_simp

end
