(* ===== verification/DProdConsInv.thy ===== *)
theory DProdConsInv
  imports DProdCons
begin

text \<open>
  The buffer process of d_producer-consumer.c delivers every item once and in order, and the program ends; with the
  two producers of d_producer-consumerv2.c it does not: an empty ring is read.
\<close>

section \<open>The steps as a relation\<close>

definition cons_to :: "nat \<Rightarrow> kplace \<Rightarrow> dbuf \<Rightarrow> dbuf" where
  "cons_to c k s = s\<lparr>db_cons := (db_cons s)[c := k]\<rparr>"

definition item_to :: "nat \<Rightarrow> nat \<Rightarrow> dbuf \<Rightarrow> dbuf" where
  "item_to M c s = s\<lparr>db_ring := snd (d_dequeue M (db_ring s)), db_cons := (db_cons s)[c := K_ASK],
     db_got := db_got s @ [fst (d_dequeue M (db_ring s))]\<rparr>"

definition asks :: "nat \<Rightarrow> dbuf \<Rightarrow> bool" where
  "asks c s \<longleftrightarrow> c < length (db_cons s) \<and> db_cons s ! c = K_ASK"

definition gets :: "nat \<Rightarrow> dbuf \<Rightarrow> bool" where
  "gets c s \<longleftrightarrow> db_cons s ! c = K_GET"

lemma buf_parts [simp]:
  "db_ring (db_go l s) = db_ring s" "db_at (db_go l s) = l" "db_nc (db_go l s) = db_nc s"
  "db_prod (db_go l s) = db_prod s" "db_cons (db_go l s) = db_cons s" "db_in (db_go l s) = db_in s" "db_got (db_go l s) = db_got s"
  "db_ring (cons_to c k s) = db_ring s" "db_at (cons_to c k s) = db_at s" "db_nc (cons_to c k s) = db_nc s"
  "db_prod (cons_to c k s) = db_prod s" "db_cons (cons_to c k s) = (db_cons s)[c := k]" "db_in (cons_to c k s) = db_in s"
  "db_got (cons_to c k s) = db_got s"
  by (simp_all add: db_go_def cons_to_def)

lemma loop_parts [simp]:
  "db_ring (end_loop s) = db_ring s" "db_nc (end_loop s) = db_nc s" "db_prod (end_loop s) = db_prod s"
  "db_cons (end_loop s) = db_cons s" "db_in (end_loop s) = db_in s" "db_got (end_loop s) = db_got s"
  "db_ring (rem_loop s) = db_ring s" "db_nc (rem_loop s) = db_nc s" "db_prod (rem_loop s) = db_prod s"
  "db_cons (rem_loop s) = db_cons s" "db_in (rem_loop s) = db_in s" "db_got (rem_loop s) = db_got s"
  "db_ring (feed_loop M s) = db_ring s" "db_nc (feed_loop M s) = db_nc s" "db_prod (feed_loop M s) = db_prod s"
  "db_cons (feed_loop M s) = db_cons s" "db_in (feed_loop M s) = db_in s" "db_got (feed_loop M s) = db_got s"
  "db_at (end_loop s) = (if 0 < db_nc s then E_ALT else B_DONE)"
  "db_at (rem_loop s) = (if 0 < rg_ct (db_ring s) then R_ALT else if 0 < db_nc s then E_ALT else B_DONE)"
  "db_at (feed_loop M s) = (if rg_ct (db_ring s) < int M then B_IN else B_ALT)"
  by (simp_all add: end_loop_def rem_loop_def feed_loop_def)

inductive buf_move :: "nat \<Rightarrow> int \<Rightarrow> dbuf \<Rightarrow> event \<Rightarrow> dbuf \<Rightarrow> bool" for M V s where
  put: "buf_move M V s (Put 0) (db_go B_ALT (s\<lparr>db_prod := [Some (i + 1)], db_in := db_in s @ [i],
      db_ring := d_enqueue M i (db_ring s)\<rparr>))" if "db_at s = B_IN" "db_prod s = [Some i]" "i < V"
| last: "buf_move M V s (Put 0) (rem_loop (s\<lparr>db_prod := [None]\<rparr>))" if "db_at s = B_IN" "db_prod s = [Some i]" "V \<le> i"
| ask: "buf_move M V s (Ask c) (db_go (B_GIVE c) (cons_to c K_GET s))" if "db_at s = B_ALT" "asks c s"
| default: "buf_move M V s Default (feed_loop M s)" if "db_at s = B_ALT"
| give: "buf_move M V s Give (feed_loop M (item_to M c s))" if "db_at s = B_GIVE c" "gets c s"
| rem_ask: "buf_move M V s (Ask c) (db_go (R_GIVE c) (cons_to c K_GET s))" if "db_at s = R_ALT" "asks c s"
| rem_give: "buf_move M V s Give (rem_loop (item_to M c s))" if "db_at s = R_GIVE c" "gets c s"
| end_ask: "buf_move M V s (Ask c) (db_go (E_GIVE c) (cons_to c K_GET s))" if "db_at s = E_ALT" "asks c s"
| end_give: "buf_move M V s Give (end_loop ((cons_to c K_DONE s)\<lparr>db_nc := db_nc s - 1\<rparr>))" if "db_at s = E_GIVE c" "gets c s"

section \<open>The invariant\<close>

text \<open>The producer has sent \<open>0\<close> to \<open>i - 1\<close>, all items when it has ended.\<close>

definition prod_ok :: "int \<Rightarrow> dbuf \<Rightarrow> bool" where
  "prod_ok V s \<longleftrightarrow> (\<exists>i. 0 \<le> i \<and> i \<le> V \<and> db_in s = [0..i - 1] \<and> db_prod s \<in> {[Some i], [None]} \<and>
     (db_prod s = [None] \<longrightarrow> i = V))"

definition feeding :: "bplace \<Rightarrow> bool" where
  "feeding l \<longleftrightarrow> (case l of B_IN \<Rightarrow> True | B_ALT \<Rightarrow> True | B_GIVE _ \<Rightarrow> True | _ \<Rightarrow> False)"

definition finishing :: "bplace \<Rightarrow> bool" where
  "finishing l \<longleftrightarrow> (case l of E_ALT \<Rightarrow> True | E_GIVE _ \<Rightarrow> True | B_DONE \<Rightarrow> True | _ \<Rightarrow> False)"

definition serving :: "bplace \<Rightarrow> nat option" where
  "serving l = (case l of B_GIVE c \<Rightarrow> Some c | R_GIVE c \<Rightarrow> Some c | E_GIVE c \<Rightarrow> Some c | _ \<Rightarrow> None)"

text \<open>One consumer at most is being serving, and \<open>nc\<close> counts those that have not been told to stop.\<close>

abbreviation not_done :: "kplace list \<Rightarrow> int" where
  "not_done \<equiv> cnt (\<lambda>k. k \<noteq> K_DONE)"

definition clients_ok :: "nat \<Rightarrow> dbuf \<Rightarrow> bool" where
  "clients_ok C s \<longleftrightarrow> length (db_cons s) = C \<and> (\<forall>c<C. db_cons s ! c = K_GET \<longleftrightarrow> serving (db_at s) = Some c) \<and>
     (\<forall>c. serving (db_at s) = Some c \<longrightarrow> c < C) \<and> 
     int (db_nc s) = not_done (db_cons s) \<and> (\<not> finishing (db_at s) \<longrightarrow> db_nc s = C)"

definition place_ok :: "nat \<Rightarrow> dbuf \<Rightarrow> bool" where
  "place_ok M s \<longleftrightarrow> (db_prod s = [None] \<longleftrightarrow> \<not> feeding (db_at s)) \<and> (db_at s = B_IN \<longrightarrow> rg_ct (db_ring s) < int M) \<and>
     (db_at s \<noteq> B_IN \<longrightarrow> (0 < rg_ct (db_ring s) \<longleftrightarrow> \<not> finishing (db_at s))) \<and> (db_at s = B_DONE \<longleftrightarrow> db_nc s = 0) "

definition buf_ok :: "nat \<Rightarrow> int \<Rightarrow> nat \<Rightarrow> dbuf \<Rightarrow> bool" where
  "buf_ok M V C s \<longleftrightarrow> ring_wf M (db_ring s) \<and> db_got s @ ring_items M (db_ring s) = db_in s \<and> prod_ok V s \<and> clients_ok C s \<and>
     place_ok M s"

lemmas place_defs = feeding_def finishing_def serving_def

lemma got_nonneg:
  assumes "buf_ok M V C s" "0 < rg_ct (db_ring s)"
  shows "0 \<le> fst (d_dequeue M (db_ring s))"
proof -
  have "ring_items M (db_ring s) \<noteq> []" using assms(2) length_ring_items [of M "db_ring s"] by auto
  then have "fst (d_dequeue M (db_ring s)) \<in> set (db_in s)"
    by (rule rq.get_sent [rotated, where got = "db_got s"]) (use assms(1) in \<open>simp_all add: buf_ok_def\<close>)
  then show ?thesis using assms(1) by (auto simp: buf_ok_def prod_ok_def)
qed

lemma buf_moveI: "buf_move M V s e t \<Longrightarrow> s' = t \<Longrightarrow> buf_move M V s e s'"
  by simp

lemma d_producer_one:
  assumes "db_prod s = [Some i]"
  shows "d_producer inc V p s = (if p = 0 then Some (if i < V then (i, s\<lparr>db_prod := [Some (i + inc)], db_in := db_in s @ [i]\<rparr>)
      else (-1, s\<lparr>db_prod := [None]\<rparr>)) else None)"
  using assms by (cases p) (simp_all add: d_producer_def)

lemma buf_step_move:
  assumes "buf_ok M V C s" "buf_step M V e s = Some s'"
  shows "buf_move M V s e s'"
proof -
  have prod: "\<exists>i. 0 \<le> i \<and> db_prod s = [Some i]" if "db_at s = B_IN"
    using assms(1) that by (auto simp: buf_ok_def prod_ok_def place_ok_def place_defs)
  have item: "0 \<le> fst (d_dequeue M (db_ring s))" if "db_at s = B_GIVE c \<or> db_at s = R_GIVE c" for c
    by (rule got_nonneg [OF assms(1)]) (use assms(1) that in \<open>auto simp: buf_ok_def place_ok_def place_defs\<close>)
  note defs = buf_step_def rem_step_def d_ask_def d_get_def give_item_def asks_def gets_def
  show ?thesis
  proof (cases "db_at s")
    case B_IN
    then obtain i where i: "0 \<le> i" "db_prod s = [Some i]" using prod by auto
    show ?thesis using assms(2) B_IN i
      by (cases e) (auto simp: buf_step_def rem_step_def d_producer_one not_less db_go_def split: if_splits
        intro: buf_moveI [OF buf_move.put] buf_moveI [OF buf_move.last])
  next
    case (B_GIVE c)
    then show ?thesis using assms(2) item [of c]
      by (cases e) (auto simp: defs split_def Let_def item_to_def cons_to_def split: if_splits intro!: buf_moveI [OF buf_move.give])
  next
    case (R_GIVE c)
    then show ?thesis using assms(2) item [of c]
      by (cases e) (auto simp: defs split_def Let_def item_to_def cons_to_def split: if_splits intro!: buf_moveI [OF buf_move.rem_give])
  next
    case B_ALT
    then show ?thesis using assms(2)
      by (cases e) (auto simp: defs cons_to_def split: if_splits intro: buf_moveI [OF buf_move.ask] buf_moveI [OF buf_move.default])
  next
    case R_ALT
    then show ?thesis using assms(2)
      by (cases e) (auto simp: defs cons_to_def split: if_splits intro: buf_moveI [OF buf_move.rem_ask])
  next
    case E_ALT
    then show ?thesis using assms(2)
      by (cases e) (auto simp: defs cons_to_def split: if_splits intro: buf_moveI [OF buf_move.end_ask])
  next
    case (E_GIVE c)
    then show ?thesis using assms(2)
      by (cases e) (auto simp: defs cons_to_def split: if_splits intro!: buf_moveI [OF buf_move.end_give])
  qed (use assms(2) in \<open>cases e; simp add: defs\<close>)
qed


section \<open>Every step keeps the invariant\<close>

lemma ring_step:
  assumes "buf_ok M V C s" "buf_move M V s e s'"
  shows "ring_wf M (db_ring s') \<and> db_got s' @ ring_items M (db_ring s') = db_in s'"
proof -
  have wf: "ring_wf M (db_ring s)" and ord: "db_got s @ ring_items M (db_ring s) = db_in s" and pl: "place_ok M s"
    using assms(1) by (simp_all add: buf_ok_def)
  have room: "length (ring_items M (db_ring s)) < M" if "db_at s = B_IN"
    using wf pl that by (auto simp: length_ring_items ring_wf_def place_ok_def)
  have some: "ring_items M (db_ring s) \<noteq> []" if "0 < rg_ct (db_ring s)"
    using that length_ring_items [of M "db_ring s"] by auto
  have pos: "0 < rg_ct (db_ring s)" if "db_at s = B_GIVE c \<or> db_at s = R_GIVE c" for c
    using pl that by (auto simp: place_ok_def place_defs)
  show ?thesis using assms(2)
  proof cases
    case (put i)
    then show ?thesis using rq.put [OF wf room] rq.order_put [OF wf room ord] by simp
  next
    case (give c)
    then show ?thesis using rq.get [OF wf some] rq.order_get [OF wf some ord] pos [of c] by (simp add: item_to_def)
  next
    case (rem_give c)
    then show ?thesis using rq.get [OF wf some] rq.order_get [OF wf some ord] pos [of c] by (simp add: item_to_def)
  qed (use wf ord in simp_all)
qed

lemma prod_ok_step:
  assumes "prod_ok V s" "buf_move M V s e s'"
  shows "prod_ok V s'"
proof -
  obtain i where i: "0 \<le> i" "i \<le> V" "db_in s = [0..i - 1]" "db_prod s \<in> {[Some i], [None]}" "db_prod s = [None] \<longrightarrow> i = V"
    using assms(1) unfolding prod_ok_def by blast
  show ?thesis using assms(2)
  proof cases
    case (put j)
    then show ?thesis using i upto_rec2 [of 0 i] by (auto simp: prod_ok_def intro!: exI [of _ "i + 1"])
  next
    case (last j)
    then show ?thesis using i by (auto simp: prod_ok_def intro!: exI [of _ i])
  qed (use assms(1) in \<open>simp_all add: prod_ok_def item_to_def\<close>)
qed

lemma item_to_parts [simp]:
  "db_cons (item_to M c s) = (db_cons s)[c := K_ASK]" "db_ring (item_to M c s) = snd (d_dequeue M (db_ring s))"
  "db_nc (item_to M c s) = db_nc s" "db_prod (item_to M c s) = db_prod s" "db_in (item_to M c s) = db_in s"
  "db_got (item_to M c s) = db_got s @ [fst (d_dequeue M (db_ring s))]"
  by (simp_all add: item_to_def)

lemma place_ok_step:
  assumes "buf_ok M V C s" "buf_move M V s e s'" "0 < M" "0 < C"
  shows "place_ok M s'"
proof -
  have wf: "0 \<le> rg_ct (db_ring s)" "rg_ct (db_ring s) \<le> int M" and pl: "place_ok M s" and co: "clients_ok C s"
    using assms(1) by (simp_all add: buf_ok_def ring_wf_def)
  show ?thesis using assms(2)
    by cases (use wf pl co assms(3,4) in \<open>auto simp: place_ok_def place_defs clients_ok_def\<close>)
qed

lemma clients_ok_step:
  assumes "buf_ok M V C s" "buf_move M V s e s'"
  shows "clients_ok C s'"
proof -
  have pl: "place_ok M s" and co: "clients_ok C s" using assms(1) by (simp_all add: buf_ok_def)
  have len: "length (db_cons s) = C" using co by (simp add: clients_ok_def)
  have cs: "\<And>c. c < C \<Longrightarrow> db_cons s ! c = K_GET \<longleftrightarrow> serving (db_at s) = Some c" "\<And>c. serving (db_at s) = Some c \<Longrightarrow> c < C"
    "int (db_nc s) = not_done (db_cons s)" "\<not> finishing (db_at s) \<longrightarrow> db_nc s = C"
    "\<And>c. gets c s \<Longrightarrow> db_cons s ! c \<noteq> K_DONE"
    using co by (auto simp: clients_ok_def gets_def)
  show ?thesis using assms(2)
    by cases (use pl cs len in \<open>auto simp: clients_ok_def place_ok_def place_defs asks_def nth_list_update
        split: if_splits\<close>)
qed


lemma buf_ok_step:
  assumes "buf_ok M V C s" "buf_step M V e s = Some s'" "0 < M" "0 < C"
  shows "buf_ok M V C s'" "buf_move M V s e s'"
proof -
  show m: "buf_move M V s e s'" by (rule buf_step_move [OF assms(1,2)])
  show "buf_ok M V C s'" unfolding buf_ok_def
    using ring_step [OF assms(1) m] prod_ok_step [OF _ m] place_ok_step [OF assms(1) m assms(3,4)] clients_ok_step [OF assms(1) m]
      assms(1) by (simp add: buf_ok_def)
qed

lemma buf0_ok:
  assumes "pow2 M" "0 \<le> V" "0 < C"
  shows "buf_ok M V C (buf0 M C)"
proof -
  have "0 < M" using assms(1) by (auto simp: pow2_def)
  then have "db_at (buf0 M C) = B_IN" by (simp add: buf0_def ring0_def)
  then show ?thesis using ring0_wf(1) [OF assms(1)] ring0_wf(2) [of M] assms \<open>0 < M\<close>
    by (auto simp: buf_ok_def prod_ok_def clients_ok_def place_ok_def place_defs cnt_def buf0_def ring0_def
        intro!: exI [of _ 0])
qed

section \<open>How many messages\<close>

definition to_send :: "int \<Rightarrow> dbuf \<Rightarrow> int" where
  "to_send V s = (case db_prod s of [Some i] \<Rightarrow> V - i + 1 | _ \<Rightarrow> 0)"

definition messages_left :: "int \<Rightarrow> dbuf \<Rightarrow> int" where
  "messages_left V s = to_send V s + 2 * (V - int (length (db_got s))) + 2 * int (db_nc s) - of_bool (serving (db_at s) \<noteq> None)"

lemma messages_left_step:
  assumes "buf_ok M V C s" "buf_move M V s e s'"
  shows "messages_left V s' = messages_left V s - of_bool (e \<noteq> Default)"
proof -
  have pl: "place_ok M s" using assms(1) by (simp add: buf_ok_def)
  have i: "i \<le> V" if "db_prod s = [Some i]" for i using assms(1) that by (auto simp: buf_ok_def prod_ok_def)
  show ?thesis using assms(2)
    by cases (use pl i in \<open>auto simp: messages_left_def to_send_def place_defs place_ok_def of_nat_diff\<close>)
qed

lemma messages_left_nonneg:
  assumes "buf_ok M V C s"
  shows "0 \<le> messages_left V s"
proof -
  obtain i where i: "0 \<le> i" "i \<le> V" "db_in s = [0..i - 1]" "db_prod s \<in> {[Some i], [None]}"
    using assms unfolding buf_ok_def prod_ok_def by blast
  have "length (db_got s) + length (ring_items M (db_ring s)) = length (db_in s)"
    using assms by (metis buf_ok_def length_append)
  then have "int (length (db_got s)) + int (nat (rg_ct (db_ring s))) = i" using i(1,3) by (simp add: length_ring_items del: int_nat_eq flip: of_nat_add)
  then have "int (length (db_got s)) \<le> i" by linarith
  moreover have "serving (db_at s) \<noteq> None \<Longrightarrow> 0 < db_nc s"
    using assms by (auto simp: buf_ok_def place_ok_def place_defs split: bplace.splits)
  ultimately show ?thesis using i(2,4) by (auto simp: messages_left_def to_send_def of_bool_def)
qed


section \<open>Nobody waits for ever\<close>

definition buf_ended :: "dbuf \<Rightarrow> bool" where
  "buf_ended s \<longleftrightarrow> db_at s = B_DONE \<and> db_prod s = [None] \<and> (\<forall>k\<in>set (db_cons s). k = K_DONE)"

lemma someone_asks:
  assumes "buf_ok M V C s" "serving (db_at s) = None" "0 < db_nc s"
  obtains c where "asks c s"
proof -
  have co: "length (db_cons s) = C" "\<forall>c<C. db_cons s ! c \<noteq> K_GET" "not_done (db_cons s) \<noteq> 0"
    using assms by (auto simp: buf_ok_def clients_ok_def)
  then obtain c where "c < C" "db_cons s ! c \<noteq> K_DONE" by (auto simp: cnt_0 in_set_conv_nth)
  with co have "asks c s" by (cases "db_cons s ! c") (auto simp: asks_def)
  then show ?thesis using that by blast
qed

lemma buf_stuck:
  assumes "buf_ok M V C s" "0 < C" "\<And>e. e \<noteq> Default \<Longrightarrow> buf_step M V e s = None"
  shows "buf_ended s"
proof -
  have pl: "place_ok M s" and pr: "prod_ok V s" and co: "clients_ok C s" using assms(1) by (simp_all add: buf_ok_def)
  have gets: "db_cons s ! c = K_GET" if "serving (db_at s) = Some c" for c using co that by (auto simp: clients_ok_def)
  have nc: "0 < db_nc s" if "db_at s \<noteq> B_DONE" using pl that by (simp add: place_ok_def)
  note defs = buf_step_def rem_step_def d_ask_def d_get_def give_item_def Let_def split_def
  have fin: "db_at s = B_DONE"
  proof (rule ccontr)
    assume n: "db_at s \<noteq> B_DONE"
    have "\<exists>e. e \<noteq> Default \<and> buf_step M V e s \<noteq> None"
    proof (cases "serving (db_at s)")
      case None
      show ?thesis
      proof (cases "db_at s = B_IN")
        case True
        then have "db_prod s \<noteq> [None]" using pl by (simp add: place_ok_def place_defs)
        then obtain i where "db_prod s = [Some i]" using pr by (auto simp: prod_ok_def)
        then show ?thesis using True by (intro exI [of _ "Put 0"]) (simp add: defs d_producer_one)
      next
        case False
        obtain c where "asks c s" using someone_asks [OF assms(1) None nc [OF n]] .
        then show ?thesis using False None n
          by (intro exI [of _ "Ask c"]) (cases "db_at s"; simp add: defs asks_def serving_def)
      qed
    next
      case (Some c)
      from gets [OF Some] Some show ?thesis
        by (intro exI [of _ Give]) (cases "db_at s"; simp add: defs serving_def)
    qed
    then obtain e where "e \<noteq> Default" "buf_step M V e s \<noteq> None" by auto
    then show False using assms(3) [of e] by simp
  qed
  then have "not_done (db_cons s) = 0" using pl co by (simp add: place_ok_def clients_ok_def)
  then have "\<forall>k\<in>set (db_cons s). k = K_DONE" by (simp add: cnt_0)
  moreover have "db_prod s = [None]" using pl fin by (simp add: place_ok_def feeding_def)
  ultimately show ?thesis using fin by (simp only: buf_ended_def simp_thms)
qed

lemma ended_got:
  assumes "buf_ok M V C s" "buf_ended s"
  shows "db_got s = [0..V - 1]"
proof -
  have "\<not> 0 < rg_ct (db_ring s)" "prod_ok V s" using assms by (simp_all add: buf_ok_def place_ok_def place_defs buf_ended_def)
  moreover from this have "ring_items M (db_ring s) = []" using length_ring_items [of M "db_ring s"] by simp
  ultimately show ?thesis using assms by (auto simp: buf_ok_def prod_ok_def buf_ended_def)
qed

lemma buf_run:
  assumes "mfold (buf_step M V) es s = Some s'" "buf_ok M V C s" "0 < M" "0 < C"
  shows "buf_ok M V C s' \<and> int (length (filter (\<lambda>e. e \<noteq> Default) es)) + messages_left V s' = messages_left V s"
  using assms(1,2)
proof (induction es arbitrary: s)
  case (Cons e es)
  then obtain t where t: "buf_step M V e s = Some t" "mfold (buf_step M V) es t = Some s'"
    by (auto simp: Option.bind_eq_Some_conv)
  note st = buf_ok_step [OF Cons.prems(2) t(1) assms(3,4)]
  show ?case using Cons.IH [OF t(2) st(1)] messages_left_step [OF Cons.prems(2) st(2)] by (cases "e = Default") auto
qed simp

section \<open>The properties\<close>

text \<open>C19: the buffer process is a first-in first-out channel that delivers each item once, and the program comes to an
  end. In every order of the messages, what the consumers have received, followed by the ring, is what the
  producer has sent, the numbers from 0; there are no more than \<open>3 * MAXVAL + 2 * NCONSUMERS + 1\<close> messages (the default
  clause is no message), and when no message can be sent any more, all processes have returned and the
  consumers have received all of \<open>0\<close> to \<open>MAXVAL - 1\<close>.\<close>

theorem d_prodcons_delivers:
  assumes "mfold (buf_step M V) es (buf0 M C) = Some s" "pow2 M" "0 < C" "0 \<le> V"
  shows "db_got s @ ring_items M (db_ring s) = [0..int (length (db_in s)) - 1] \<and>
    int (length (filter (\<lambda>e. e \<noteq> Default) es)) \<le> 3 * V + 2 * int C + 1 \<and>
    ((\<forall>e. e \<noteq> Default \<longrightarrow> buf_step M V e s = None) \<longrightarrow> buf_ended s \<and> db_got s = [0..V - 1])"
proof -
  have M: "0 < M" using assms(2) by (auto simp: pow2_def)
  have r: "buf_ok M V C s" "int (length (filter (\<lambda>e. e \<noteq> Default) es)) + messages_left V s = messages_left V (buf0 M C)"
    using buf_run [OF assms(1) buf0_ok [OF assms(2,4,3)] M assms(3)] by simp_all
  have "messages_left V (buf0 M C) = 3 * V + 2 * int C + 1"
    using M by (simp add: messages_left_def to_send_def buf0_def ring0_def serving_def)
  moreover have "db_in s = [0..int (length (db_in s)) - 1]" using r(1) by (auto simp: buf_ok_def prod_ok_def)
  moreover have "db_got s @ ring_items M (db_ring s) = db_in s" using r(1) by (simp add: buf_ok_def)
  ultimately show ?thesis
    using r messages_left_nonneg [OF r(1)] buf_stuck [OF r(1) assms(3)] ended_got [OF r(1)] by auto
qed

text \<open>Two places, three items, two consumers.\<close>

definition buf_schedule :: "event list" where
  "buf_schedule = [Put 0, Default, Put 0, Default, Ask 0, Give, Put 0, Default, Ask 1, Give, Put 0, Ask 0, Give, Ask 0, Give,
     Ask 1, Give]"

theorem d_prodcons_delivers_witness:
  "\<exists>s. mfold (buf_step 2 3) (take 10 buf_schedule) (buf0 2 2) = Some s \<and> db_got s = [0, 1] \<and>
     [0, 1] @ ring_items 2 (db_ring s) = [0..int (length (db_in s)) - 1] \<and> \<not> buf_ended s"
proof -
  have "case mfold (buf_step 2 3) (take 10 buf_schedule) (buf0 2 2) of None \<Rightarrow> False
      | Some s \<Rightarrow> db_got s = [0, 1] \<and> db_at s \<noteq> B_DONE" by code_simp
  then obtain s where s: "mfold (buf_step 2 3) (take 10 buf_schedule) (buf0 2 2) = Some s" "db_got s = [0, 1]" "db_at s \<noteq> B_DONE"
    by (auto split: option.splits)
  have "pow2 2" unfolding pow2_def by (rule exI [of _ 1]) simp
  from d_prodcons_delivers [OF s(1) this] s show ?thesis by (auto simp: buf_ended_def)
qed

lemma buf_schedule_ends: "case mfold (buf_step 2 3) buf_schedule (buf0 2 2) of None \<Rightarrow> False
    | Some s \<Rightarrow> db_at s = B_DONE \<and> db_got s = [0, 1, 2]"
  by code_simp

text \<open>with two producers the buffer does not deliver every item once. After a producer's last message
  the buffer process goes on to the alternative of the consumers, even when the ring is empty: a consumer that
  asks gets an old entry of the array, and \<open>ct\<close> is -1. In this run the producers send 1, 3, 0 and 2 and end, all
  consumers are told to stop, and what they received is 1, 3, 1 and 2.\<close>

theorem d_prodcons2_loses_items:
  "map_option (\<lambda>s. (db_in s, db_got s, db_at s, db_prod s, db_cons s))
     (mfold (buf2_step 2 4) [Put 1, Ask 0, Give, Put 1, Ask 0, Give, Put 1, Ask 0, Give, Put 0, Default, Put 0, Default, Put 0,
        Default, Ask 0, Give, Ask 0, Give] (buf2_0 2 1)) =
   Some ([1, 3, 0, 2], [1, 3, 1, 2], B_DONE, [None, None], [K_DONE])"
  by code_simp

end
