(* ===== verification/Comm.thy ===== *)
theory Comm
  imports Isa_Refine
begin

text \<open>
  The communication library of the example programs (libcomm/C2_output.s, C2_input.s and
  C2_alt.s): its machine code run by the processor, and how it meets the network: what a program
  hands to \<open>C2_output\<close> is what the partner's \<open>C2_input\<close> returns.
\<close>

section \<open>The coprocessor as the programs see it\<close>

text \<open>The enumerations of cop2.h, with the names that would clash prefixed.\<close>

datatype Cop2Op = op_MEMSZ | op_CT0 | op_INPUT | op_OUTPUT | op_ALT

primrec Cop2Op_val :: "Cop2Op \<Rightarrow> u32" where
  "Cop2Op_val op_MEMSZ = 0" | "Cop2Op_val op_CT0 = 1" | "Cop2Op_val op_INPUT = 2"
| "Cop2Op_val op_OUTPUT = 3" | "Cop2Op_val op_ALT = 4"

datatype Cop2Sel = sel_CORR | sel_DATA | sel_ST | sel_HOPS | sel_NMSG | sel_NCL

primrec Cop2Sel_val :: "Cop2Sel \<Rightarrow> u32" where
  "Cop2Sel_val sel_CORR = 0" | "Cop2Sel_val sel_DATA = 1" | "Cop2Sel_val sel_ST = 2"
| "Cop2Sel_val sel_HOPS = 3" | "Cop2Sel_val sel_NMSG = 4" | "Cop2Sel_val sel_NCL = 5"

text \<open>The numbers of the commands are those of the simulator.\<close>

lemma Cop2Op_agrees:
  "Cop2Op_val op_MEMSZ = cofun2_val MEMSZ" "Cop2Op_val op_CT0 = cofun2_val CT0" "Cop2Op_val op_INPUT = cofun2_val INPUT"
  "Cop2Op_val op_OUTPUT = cofun2_val OUTPUT" "Cop2Op_val op_ALT = cofun2_val ALT"
  by simp_all

text \<open>Those of the registers are not: the counters of hops and of messages are exchanged.\<close>

primrec sel_of :: "Cop2Sel \<Rightarrow> cop2_link_sel" where
  "sel_of sel_CORR = COP2_MSG_CORR" | "sel_of sel_DATA = COP2_MSG_DATA" | "sel_of sel_ST = COP2_MSG_ST"
| "sel_of sel_HOPS = COP2_MSG_HOPS" | "sel_of sel_NMSG = COP2_MSG_NMSG" | "sel_of sel_NCL = COP2_MSG_NCL"

lemma cop2_h_exchanges_counters:
  "Cop2Sel_val s = sel_val (sel_of s) \<longleftrightarrow> s \<notin> {sel_HOPS, sel_NMSG}"
  "CPU_mfc2 c 0 (Cop2Sel_val sel_HOPS) = Inr (link_reg c COP2_MSG_NMSG)"
  "CPU_mfc2 c 0 (Cop2Sel_val sel_NMSG) = Inr (link_reg c COP2_MSG_HOPS)"
proof -
  show "Cop2Sel_val s = sel_val (sel_of s) \<longleftrightarrow> s \<notin> {sel_HOPS, sel_NMSG}" by (cases s) simp_all
qed (simp_all add: CPU_mfc2_def COP2_NREG_def COP2_NSEL_def)

section \<open>Routines\<close>

definition NOP :: asm where "NOP = iSLL 0 0 0"

definition C2_output :: "asm list" where
  "C2_output = [iMTC2 4 0 0, iMTC2 5 0 1, iCOP2 OUTPUT, iJR 31, NOP]"

definition C2_input :: "asm list" where
  "C2_input = [iMTC2 4 0 0, iCOP2 INPUT, iMFC2 2 0 1, iJR 31, NOP]"

definition C2_alt :: "asm list" where
  "C2_alt = [iMTC2 4 0 0, iMTC2 5 0 5, iCOP2 ALT, iMFC2 8 0 1, iSW 8 6 0, iADDIU 2 27 0, iJR 31, NOP]"

text \<open>A routine in the memory of a processor.\<close>

primrec code_at :: "Mem \<Rightarrow> u64 \<Rightarrow> asm list \<Rightarrow> bool" where
  "code_at mem pc [] = True"
| "code_at mem pc (a # as) = (Mem_lw mem pc = Some (Inr (encode a)) \<and> code_at mem (pc + 4) as)"

text \<open>Cycles that succeed, one after the other.\<close>

primrec cycles :: "nat \<Rightarrow> machine \<Rightarrow> machine option" where
  "cycles 0 m = Some m"
| "cycles (Suc n) m = (case Datapath_execute m of
     Some (r, m') \<Rightarrow> if r = 0 then cycles n m' else None | None \<Rightarrow> None)"

text \<open>What of a machine a routine of the library works on.\<close>

definition goes :: "machine \<Rightarrow> nat \<Rightarrow> (reg \<Rightarrow> u32) \<Rightarrow> u64 \<Rightarrow> u32 list \<Rightarrow> machine \<Rightarrow> bool" where
  "goes m n R pc l m' \<longleftrightarrow> cycles n m = Some m' \<and> wf_machine m' \<and> cpu_running (m_cpu m') \<and>
     regs (m_cpu m') = R \<and> cpu_pc (m_cpu m') = pc \<and> cpu_cop2 (m_cpu m') ! 0 = l \<and>
     m_mem m' = m_mem m \<and> m_ctl m' = m_ctl m \<and> m_io m' = m_io m"

lemma cycles_add: "cycles (n + k) m = Option.bind (cycles n m) (cycles k)"
  by (induction n arbitrary: m) (auto split: option.splits)

lemma goes_trans:
  "goes m n R pc l m1 \<Longrightarrow> goes m1 k R' pc' l' m2 \<Longrightarrow> goes m (n + k) R' pc' l' m2"
  by (simp add: goes_def cycles_add)

section \<open>One cycle\<close>

lemma goes_one:
  assumes at: "at_instr m a" and h: "handler_of a (loaded (start_cycle m) (encode a)) = Some (OK, M)"
    and M: "cpu_running (m_cpu M)" "cpu_gpr (m_cpu M) = (cpu_gpr (m_cpu m))[0 := 0, unat r := v]"
      "m_mem M = m_mem m" "m_ctl M = m_ctl m" "m_io M = m_io m" "cpu_cop2 (m_cpu M) ! 0 = l"
    and R: "R = (if r = 0 then regs (m_cpu m) else (regs (m_cpu m))(r := v))"
    and pc: "cpu_pc (m_cpu (advance M)) = pc"
  shows "\<exists>m'. goes m 1 R pc l m'"
proof -
  have wf: "wf_machine m" using at by (simp add: at_instr_def)
  then have len: "length (cpu_gpr (m_cpu m)) = 32" using wf_cpuD(1) by (simp add: wf_machine_def)
  let ?m = "inc_cycle (advance M)"
  have e: "Datapath_execute m = Some (0, ?m)" using cycle_at [OF at] h by simp
  have "wf_machine ?m" using Datapath_wf [OF wf e] by simp
  then have "goes m 1 R pc l ?m"
    using e M pc regs_write [OF len, of "m_cpu ?m" r v] R by (simp add: goes_def)
  then show ?thesis ..
qed

lemma reg0_again: "length xs = 32 \<Longrightarrow> (xs :: u32 list)[0 := 0] = xs[0 := 0, unat (0 :: reg) := 0]"
  by simp

lemma ready_at:
  "goes m0 n R pc l m \<Longrightarrow> COP2_MSG_ST_OP (l ! 2) = 0 \<Longrightarrow> Mem_lw (m_mem m0) pc = Some (Inr (encode a)) \<Longrightarrow>
     at_instr m a"
  by (auto simp: goes_def at_instr_def link_op_def fetch_def)

lemma goes_refl:
  "wf_machine m \<Longrightarrow> cpu_running (m_cpu m) \<Longrightarrow> goes m 0 (regs (m_cpu m)) (cpu_pc (m_cpu m)) (cpu_cop2 (m_cpu m) ! 0) m"
  by (simp add: goes_def)

lemma take6_sel: "take_bit 6 (ucast sel :: u32) = ucast sel" for sel :: "3 word"
  by (rule bit_word_eqI) (auto simp: bit_simps dest: bit_word_le)

lemma unat_sel: "unat (ucast sel :: u32) = unat sel" for sel :: "3 word"
  by (simp add: unsigned_ucast_eq take_bit_nat_eq_self less_le_trans [OF unsigned_less])

text \<open>Moves to and from the coprocessor, and its commands.\<close>

lemma cop_operands:
  assumes "wf_machine m"
  shows "dec_rd (m_dec (loaded (start_cycle m) (encode (iMTC2 rt 0 sel)))) = 0"
    "dec_sel (m_dec (loaded (start_cycle m) (encode (iMTC2 rt 0 sel)))) = ucast sel"
    "gpr_rt (loaded (start_cycle m) (encode (iMTC2 rt 0 sel))) = regs (m_cpu m) rt"
    "dec_rd (m_dec (loaded (start_cycle m) (encode (iMFC2 rt 0 sel)))) = 0"
    "dec_sel (m_dec (loaded (start_cycle m) (encode (iMFC2 rt 0 sel)))) = ucast sel"
    "lrt (start_cycle m) (encode (iMFC2 rt 0 sel)) = unat rt"
proof -
  have rd: "lrd (start_cycle m) (encode (iMTC2 rt 0 sel)) = 0" "lrd (start_cycle m) (encode (iMFC2 rt 0 sel)) = 0"
    unfolding encode.simps encR_operands(3) [OF opc_small take6_sel] by simp_all
  then show "dec_rd (m_dec (loaded (start_cycle m) (encode (iMTC2 rt 0 sel)))) = 0"
    "dec_rd (m_dec (loaded (start_cycle m) (encode (iMFC2 rt 0 sel)))) = 0"
    by (simp_all only: word_unat_eq_iff unsigned_0)
  show "dec_sel (m_dec (loaded (start_cycle m) (encode (iMTC2 rt 0 sel)))) = ucast sel"
    "dec_sel (m_dec (loaded (start_cycle m) (encode (iMFC2 rt 0 sel)))) = ucast sel"
    unfolding encode.simps encR_operands(5) [OF opc_small take6_sel] by simp_all
  show "gpr_rt (loaded (start_cycle m) (encode (iMTC2 rt 0 sel))) = regs (m_cpu m) rt"
    unfolding encode.simps by (rule operands_encR(2) [OF assms opc_small take6_sel])
  show "lrt (start_cycle m) (encode (iMFC2 rt 0 sel)) = unat rt"
    unfolding encode.simps by (rule encR_operands(2) [OF opc_small take6_sel])
qed

lemma step_mtc2:
  assumes "at_instr m (iMTC2 rt 0 sel)" "unat sel < 6"
  shows "\<exists>m'. goes m 1 (regs (m_cpu m)) (cpu_pc (m_cpu m) + 4)
    ((cpu_cop2 (m_cpu m) ! 0)[unat sel := regs (m_cpu m) rt]) m'"
proof -
  have wf: "wf_machine m" "cpu_running (m_cpu m)" using assms(1) by (simp_all add: at_instr_def)
  then have c: "wf_cpu (m_cpu m)" by (simp add: wf_machine_def)
  let ?L = "loaded (start_cycle m) (encode (iMTC2 rt 0 sel))"
  let ?c = "snd (CPU_mtc2 (m_cpu ?L) 0 (ucast sel) (regs (m_cpu m) rt))"
  note nj = isjump_loaded [of "start_cycle m" "iMTC2 rt 0 sel"]
  show ?thesis
  proof (rule goes_one [OF assms(1), where r = 0 and v = 0])
    show "handler_of (iMTC2 rt 0 sel) ?L = Some (OK, ?L\<lparr>m_cpu := ?c\<rparr>)"
      using assms(2) unfolding handler_of.simps exec_MTC2_def cop_operands [OF wf(1)] unsigned_0
      by (simp add: CPU_mtc2_def COP2_NREG_def COP2_NSEL_def unat_sel case_prod_unfold)
  qed (use wf wf_cpuD(1,2) [OF c] assms(2) nj in
    \<open>auto simp: CPU_mtc2_def COP2_NREG_def COP2_NSEL_def unat_sel advance_def\<close>)
qed

lemma step_mfc2:
  assumes "at_instr m (iMFC2 rt 0 sel)" "unat sel < 6" "rt \<noteq> 0"
  shows "\<exists>m'. goes m 1 ((regs (m_cpu m))(rt := cpu_cop2 (m_cpu m) ! 0 ! unat sel)) (cpu_pc (m_cpu m) + 4)
    (cpu_cop2 (m_cpu m) ! 0) m'"
proof -
  have wf: "wf_machine m" "cpu_running (m_cpu m)" using assms(1) by (simp_all add: at_instr_def)
  let ?L = "loaded (start_cycle m) (encode (iMFC2 rt 0 sel))" and ?v = "cpu_cop2 (m_cpu m) ! 0 ! unat sel"
  note nj = isjump_loaded [of "start_cycle m" "iMFC2 rt 0 sel"]
  show ?thesis
  proof (rule goes_one [OF assms(1), where r = rt and v = ?v])
    show "handler_of (iMFC2 rt 0 sel) ?L = Some (OK, set_gpr (unat rt) ?v ?L)"
      using assms(2) unfolding handler_of.simps exec_MFC2_def cop_operands [OF wf(1)] unsigned_0 set_rt_def
      by (simp add: CPU_mfc2_def COP2_NREG_def COP2_NSEL_def unat_sel)
  qed (use wf assms(3) nj in \<open>auto simp: advance_def set_gpr_def\<close>)
qed

definition cop2_cmd :: "cofun2 \<Rightarrow> cop2_link_op \<Rightarrow> bool" where
  "cop2_cmd f opn \<longleftrightarrow> f = INPUT \<and> opn = COP2_MSG_OP_IN \<or> f = OUTPUT \<and> opn = COP2_MSG_OP_OUT \<or>
     f = ALT \<and> opn = COP2_MSG_OP_ALT"

lemma cofun_encoded: "COFUN (encode (iCOP2 f)) = cofun2_val f"
  unfolding encode.simps encJ_fields(6) [OF opc_small] by (cases f; hypsubst; code_simp)

lemma step_cop2:
  assumes "at_instr m (iCOP2 f)" "cop2_cmd f opn"
  shows "\<exists>m'. goes m 1 (regs (m_cpu m)) (cpu_pc (m_cpu m) + 4) ((cpu_cop2 (m_cpu m) ! 0)[2 := op_val opn]) m'"
proof -
  have wf: "wf_machine m" "cpu_running (m_cpu m)" using assms(1) by (simp_all add: at_instr_def)
  then have c: "wf_cpu (m_cpu m)" by (simp add: wf_machine_def)
  let ?L = "loaded (start_cycle m) (encode (iCOP2 f))"
  obtain u w where h: "handler_of (iCOP2 f) ?L = Some (OK, perf_inc u (perf_inc w (set_link_op opn ?L)))"
  proof -
    have "COFUN (dec_raw (m_dec ?L)) = cofun2_val f" by (simp add: cofun_encoded del: encode.simps)
    then show thesis using assms(2) that unfolding handler_of.simps exec_COP2_def Let_def cop2_cmd_def
      by (elim disjE conjE) simp_all
  qed
  note nj = isjump_loaded [of "start_cycle m" "iCOP2 f"]
  show ?thesis
    by (rule goes_one [OF assms(1) h, where r = 0 and v = 0])
      (use wf wf_cpuD(1,2) [OF c] nj in
        \<open>auto simp: set_link_op_def perf_inc_def CPU_mtc2_def COP2_NREG_def COP2_NSEL_def advance_def\<close>)
qed

text \<open>Instructions that compute or branch.\<close>

lemma step_isa:
  assumes "at_instr m a" "computes a" "conforms a (regs (m_cpu m)) (ucast (cpu_pc (m_cpu m)))"
  shows "\<exists>m'. goes m 1 (isa_regs a (regs (m_cpu m)) (cpu_hilo (m_cpu m)) (ucast (cpu_pc (m_cpu m))))
      (case isa_target a (regs (m_cpu m)) (ucast (cpu_pc (m_cpu m))) of
        None \<Rightarrow> cpu_pc (m_cpu m) + 4 | Some t \<Rightarrow> ucast t) (cpu_cop2 (m_cpu m) ! 0) m' \<and>
    cpu_hilo (m_cpu m') = isa_hilo a (regs (m_cpu m)) (cpu_hilo (m_cpu m))"
proof -
  let ?R = "regs (m_cpu m)" and ?pc = "ucast (cpu_pc (m_cpu m)) :: u32" and ?L = "loaded (start_cycle m) (encode a)"
  have wf: "wf_machine m" "cpu_running (m_cpu m)" using assms(1) by (simp_all add: at_instr_def)
  then have len: "length (cpu_gpr (m_cpu m)) = 32" using wf_cpuD(1) by (simp add: wf_machine_def)
  obtain M where M: "handler_of a ?L = Some (OK, M)" and eff: "isa_effect a ?R ?L M"
    using effect_encode [OF wf(1) assms(2,3)] by blast
  obtain r v where rv: "cpu_gpr (m_cpu M) = (cpu_gpr (m_cpu m))[0 := 0, unat r := v]"
    "isa_regs a ?R (cpu_hilo (m_cpu m)) ?pc = (if r = 0 then ?R else ?R(r := v))"
  proof (cases "isa_reg a ?R (cpu_hilo (m_cpu m)) ?pc")
    case None
    then show thesis using that [of 0 0] eff len by (simp add: isa_effect_def isa_regs_def)
  next
    case (Some q)
    then show thesis using that [of "fst q" "snd q"] eff by (auto simp: isa_effect_def isa_regs_def split: prod.splits)
  qed
  have pc: "cpu_pc (m_cpu (advance M)) = (case isa_target a ?R ?pc of None \<Rightarrow> cpu_pc (m_cpu m) + 4 | Some t \<Rightarrow> ucast t)"
    using eff by (auto simp: isa_effect_def advance_def split: option.splits if_splits)
  obtain m' where g: "goes m 1 (isa_regs a ?R (cpu_hilo (m_cpu m)) ?pc)
      (case isa_target a ?R ?pc of None \<Rightarrow> cpu_pc (m_cpu m) + 4 | Some t \<Rightarrow> ucast t) (cpu_cop2 (m_cpu m) ! 0) m'"
    using goes_one [OF assms(1) M _ rv(1) _ _ _ _ rv(2) pc] eff wf(2) by (auto simp: isa_effect_def)
  have "m' = inc_cycle (advance M)" using g cycle_at [OF assms(1)] M by (auto simp: goes_def)
  then have "cpu_hilo (m_cpu m') = isa_hilo a ?R (cpu_hilo (m_cpu m))" using eff by (simp add: isa_effect_def)
  with g show ?thesis by blast
qed

lemma step_jr:
  assumes "at_instr m (iJR rs)"
  shows "\<exists>m'. goes m 1 (regs (m_cpu m)) (ucast (regs (m_cpu m) rs)) (cpu_cop2 (m_cpu m) ! 0) m'"
  using step_isa [OF assms] by (auto simp: isa_regs_def)

text \<open>A processor that waits.\<close>

lemma step_wait:
  assumes "wf_machine m" "cpu_running (m_cpu m)" "link_op m \<noteq> 0"
  shows "\<exists>m'. goes m 1 (regs (m_cpu m)) (cpu_pc (m_cpu m)) (cpu_cop2 (m_cpu m) ! 0) m'"
proof -
  have len: "length (cpu_gpr (m_cpu m)) = 32" using assms(1) wf_cpuD(1) by (simp add: wf_machine_def)
  define f :: "(u64 \<Rightarrow> u64) \<Rightarrow> perfct \<Rightarrow> perfct"
    where "f = (if link_op m = 1 then pf_waitin_update else if link_op m = 2 then pf_waitout_update else pf_waitalt_update)"
  have "link_op m = 1 \<or> link_op m = 2 \<or> link_op m = 3" using link_op_cases assms(3) by blast
  then have e: "Datapath_execute m = Some (0, inc_cycle (perf_inc f (start_cycle m)))"
    unfolding Datapath_execute_eq Let_def f_def by (elim disjE) (simp_all add: assms(2))
  let ?m = "inc_cycle (perf_inc f (start_cycle m))"
  have "wf_machine ?m" using Datapath_wf [OF assms(1) e] by simp
  moreover have "regs (m_cpu ?m) = regs (m_cpu m)"
    by (rule regs_clear0 [OF len]) (simp add: perf_inc_def)
  ultimately have "goes m 1 (regs (m_cpu m)) (cpu_pc (m_cpu m)) (cpu_cop2 (m_cpu m) ! 0) ?m"
    using e assms(2) by (simp add: goes_def perf_inc_def)
  then show ?thesis ..
qed

section \<open>The routines\<close>

text \<open>A processor about to run a routine: it is not in the middle of a command.\<close>

definition enters :: "machine \<Rightarrow> asm list \<Rightarrow> bool" where
  "enters m prog \<longleftrightarrow> wf_machine m \<and> cpu_running (m_cpu m) \<and> link_op m = 0 \<and>
     code_at (m_mem m) (cpu_pc (m_cpu m)) prog"

lemma goesD:
  assumes "goes m0 n R pc l m"
  shows "cycles n m0 = Some m" "wf_machine m" "cpu_running (m_cpu m)" "regs (m_cpu m) = R" "cpu_pc (m_cpu m) = pc"
    "cpu_cop2 (m_cpu m) ! 0 = l" "m_mem m = m_mem m0" "length l = 6"
  using assms wf_cpuD(3) [of "m_cpu m"] by (auto simp: goes_def wf_machine_def)

text \<open>The first instruction of a routine, after what went before.\<close>

lemma goes_next:
  assumes "goes m0 n R pc l m" "COP2_MSG_ST_OP (l ! 2) = 0" "Mem_lw (m_mem m0) pc = Some (Inr (encode a))"
    and "\<And>m. at_instr m a \<Longrightarrow> regs (m_cpu m) = R \<Longrightarrow> cpu_pc (m_cpu m) = pc \<Longrightarrow> cpu_cop2 (m_cpu m) ! 0 = l \<Longrightarrow>
      \<exists>m'. goes m 1 R' pc' l' m'"
  shows "\<exists>m'. goes m0 (n + 1) R' pc' l' m'"
  using assms(4) [OF ready_at [OF assms(1-3)]] goesD [OF assms(1)] goes_trans [OF assms(1)] by blast

lemma goes_isa:
  assumes "goes m0 n R pc l m" "COP2_MSG_ST_OP (l ! 2) = 0" "Mem_lw (m_mem m0) pc = Some (Inr (encode a))"
    and "computes a" "conforms a R (ucast pc)" "\<And>hl. isa_regs a R hl (ucast pc) = R'"
    and "(case isa_target a R (ucast pc) of None \<Rightarrow> pc + 4 | Some t \<Rightarrow> ucast t) = pc'" and "k = n + 1"
  shows "\<exists>m'. goes m0 k R' pc' l m'"
  unfolding assms(8)
proof (rule goes_next [OF assms(1-3)])
  fix m assume "at_instr m a" "regs (m_cpu m) = R" "cpu_pc (m_cpu m) = pc" "cpu_cop2 (m_cpu m) ! 0 = l"
  then show "\<exists>m'. goes m 1 R' pc' l m'"
    using step_isa [of m a] assms(4-7) by auto
qed

lemma op_val_st: "COP2_MSG_ST_OP (op_val opn) = op_val opn"
  by (cases opn) (simp_all add: COP2_MSG_ST_OP_def)

text \<open>C2_output and C2_alt up to their wait: both arguments of the caller are in the coprocessor.\<close>

lemma code_at_append: "code_at mem pc (as @ bs) \<Longrightarrow> code_at mem pc as"
  by (induction as arbitrary: pc) simp_all

lemma asks_with_two:
  assumes "enters m ([iMTC2 4 0 0, iMTC2 5 0 sel, iCOP2 f] @ rest)" "unat sel = n" "n < 6" "n \<noteq> 2" "cop2_cmd f opn"
  shows "\<exists>m'. goes m 3 (regs (m_cpu m)) (cpu_pc (m_cpu m) + 12)
    ((cpu_cop2 (m_cpu m) ! 0)[0 := regs (m_cpu m) 4, n := regs (m_cpu m) 5, 2 := op_val opn]) m'"
proof -
  let ?R = "regs (m_cpu m)" and ?pc = "cpu_pc (m_cpu m)" and ?l = "cpu_cop2 (m_cpu m) ! 0"
  have code: "code_at (m_mem m) ?pc [iMTC2 4 0 0, iMTC2 5 0 sel, iCOP2 f]"
    by (rule code_at_append [of _ _ _ rest]) (use assms(1) in \<open>simp only: enters_def\<close>)
  then have e: "wf_machine m" "cpu_running (m_cpu m)" "COP2_MSG_ST_OP (?l ! 2) = 0"
    "Mem_lw (m_mem m) ?pc = Some (Inr (encode (iMTC2 4 0 0)))"
    "Mem_lw (m_mem m) (?pc + 4) = Some (Inr (encode (iMTC2 5 0 sel)))"
    "Mem_lw (m_mem m) (?pc + 8) = Some (Inr (encode (iCOP2 f)))"
    using assms(1) by (simp_all add: enters_def link_op_def add.assoc del: encode.simps)
  have "\<exists>m1. goes m (0 + 1) ?R (?pc + 4) (?l[0 := ?R 4]) m1"
    by (rule goes_next [OF goes_refl [OF e(1,2)] e(3,4)]) (use step_mtc2 [where sel = 0] in force)
  then obtain m1 where 1: "goes m 1 ?R (?pc + 4) (?l[0 := ?R 4]) m1" by auto
  have "\<exists>m2. goes m (1 + 1) ?R (?pc + 8) (?l[0 := ?R 4, n := ?R 5]) m2"
    by (rule goes_next [OF 1 _ e(5)])
      (use e(3) assms(2,3) step_mtc2 [where sel = sel and rt = 5] in \<open>force simp: add.assoc\<close>)+
  then obtain m2 where 2: "goes m 2 ?R (?pc + 8) (?l[0 := ?R 4, n := ?R 5]) m2" by (auto simp: numeral_2_eq_2)
  have "\<exists>m3. goes m (2 + 1) ?R (?pc + 12) (?l[0 := ?R 4, n := ?R 5, 2 := op_val opn]) m3"
    by (rule goes_next [OF 2 _ e(6)])
      (use e(3) assms(4) step_cop2 [OF _ assms(5)] in \<open>force simp: add.assoc\<close>)+
  then show ?thesis by simp
qed

lemma C2_output_asks:
  assumes "enters m C2_output"
  shows "\<exists>m'. goes m 3 (regs (m_cpu m)) (cpu_pc (m_cpu m) + 12)
    ((cpu_cop2 (m_cpu m) ! 0)[0 := regs (m_cpu m) 4, 1 := regs (m_cpu m) 5, 2 := op_val COP2_MSG_OP_OUT]) m'"
  by (rule asks_with_two [of m 1 OUTPUT "[iJR 31, NOP]"])
    (use assms in \<open>simp_all add: C2_output_def cop2_cmd_def\<close>)

lemma C2_alt_asks:
  assumes "enters m C2_alt"
  shows "\<exists>m'. goes m 3 (regs (m_cpu m)) (cpu_pc (m_cpu m) + 12)
    ((cpu_cop2 (m_cpu m) ! 0)[0 := regs (m_cpu m) 4, 5 := regs (m_cpu m) 5, 2 := op_val COP2_MSG_OP_ALT]) m'"
  by (rule asks_with_two [of m 5 ALT "[iMFC2 8 0 1, iSW 8 6 0, iADDIU 2 27 0, iJR 31, NOP]"])
    (use assms in \<open>simp_all add: C2_alt_def cop2_cmd_def\<close>)

text \<open>C2_input up to its wait, and from the end of the wait to the caller.\<close>

lemma C2_input_asks:
  assumes "enters m C2_input"
  shows "\<exists>m'. goes m 2 (regs (m_cpu m)) (cpu_pc (m_cpu m) + 8)
    ((cpu_cop2 (m_cpu m) ! 0)[0 := regs (m_cpu m) 4, 2 := op_val COP2_MSG_OP_IN]) m'"
proof -
  let ?R = "regs (m_cpu m)" and ?pc = "cpu_pc (m_cpu m)" and ?l = "cpu_cop2 (m_cpu m) ! 0"
  have e: "wf_machine m" "cpu_running (m_cpu m)" "COP2_MSG_ST_OP (?l ! 2) = 0"
    "Mem_lw (m_mem m) ?pc = Some (Inr (encode (iMTC2 4 0 0)))"
    "Mem_lw (m_mem m) (?pc + 4) = Some (Inr (encode (iCOP2 INPUT)))"
    using assms by (simp_all add: enters_def link_op_def C2_input_def)
  have "\<exists>m1. goes m (0 + 1) ?R (?pc + 4) (?l[0 := ?R 4]) m1"
    by (rule goes_next [OF goes_refl [OF e(1,2)] e(3,4)]) (use step_mtc2 [where sel = 0] in force)
  then obtain m1 where 1: "goes m 1 ?R (?pc + 4) (?l[0 := ?R 4]) m1" by auto
  have "\<exists>m2. goes m (1 + 1) ?R (?pc + 8) (?l[0 := ?R 4, 2 := op_val COP2_MSG_OP_IN]) m2"
    by (rule goes_next [OF 1 _ e(5)])
      (use e(3) step_cop2 [where f = INPUT and opn = COP2_MSG_OP_IN] in \<open>force simp: add.assoc cop2_cmd_def\<close>)+
  then show ?thesis by (simp add: numeral_2_eq_2)
qed

lemma C2_input_returns:
  assumes "code_at (m_mem m) pc C2_input" "cpu_pc (m_cpu m) = pc + 8"
    "wf_machine m" "cpu_running (m_cpu m)" "link_op m = 0"
  shows "\<exists>m'. goes m 2 ((regs (m_cpu m))(2 := link_reg (m_cpu m) COP2_MSG_DATA)) (ucast (regs (m_cpu m) 31))
    (cpu_cop2 (m_cpu m) ! 0) m'"
proof -
  let ?R = "regs (m_cpu m)" and ?l = "cpu_cop2 (m_cpu m) ! 0"
  have e: "COP2_MSG_ST_OP (?l ! 2) = 0" "Mem_lw (m_mem m) (pc + 8) = Some (Inr (encode (iMFC2 2 0 1)))"
    "Mem_lw (m_mem m) (pc + 12) = Some (Inr (encode (iJR 31)))"
    using assms(1,5) by (simp_all add: C2_input_def link_op_def add.assoc)
  have "\<exists>m1. goes m (0 + 1) (?R(2 := ?l ! 1)) (pc + 12) ?l m1"
    by (rule goes_next [OF goes_refl [OF assms(3,4)] e(1), unfolded assms(2), OF e(2)])
      (use step_mfc2 [where sel = 1 and rt = 2] in \<open>force simp: add.assoc\<close>)
  then obtain m1 where 1: "goes m 1 (?R(2 := ?l ! 1)) (pc + 12) ?l m1" by auto
  have "\<exists>m2. goes m (1 + 1) (?R(2 := ?l ! 1)) (ucast (?R 31)) ?l m2"
    by (rule goes_next [OF 1 e(1,3)]) (use step_jr [where rs = 31] in fastforce)
  then show ?thesis by (simp add: numeral_2_eq_2)
qed

text \<open>However long the network takes, a processor that waits stays where it is.\<close>

lemma waits_on:
  assumes "wf_machine m" "cpu_running (m_cpu m)" "link_op m \<noteq> 0"
  shows "\<exists>m'. goes m n (regs (m_cpu m)) (cpu_pc (m_cpu m)) (cpu_cop2 (m_cpu m) ! 0) m'"
proof (induction n)
  case 0
  show ?case using goes_refl [OF assms(1,2)] by blast
next
  case (Suc n)
  then obtain m1 where 1: "goes m n (regs (m_cpu m)) (cpu_pc (m_cpu m)) (cpu_cop2 (m_cpu m) ! 0) m1" by blast
  have "link_op m1 \<noteq> 0" using assms(3) goesD(6) [OF 1] by (simp add: link_op_def)
  from step_wait [OF goesD(2,3) [OF 1] this] show ?case
    using goes_trans [OF 1] goesD(4-6) [OF 1] by fastforce
qed

section \<open>Properties\<close>

text \<open>C23:
  A call of \<open>C2_output\<close>: three cycles hand the partner and the datum of the caller to the coprocessor, then the
  processor waits however long the network takes, and the cycle after the network has ended the operation
  returns to the caller with all registers as they were.\<close>

theorem C2_output_call:
  assumes "enters m C2_output"
  shows "\<exists>m1. goes m 3 (regs (m_cpu m)) (cpu_pc (m_cpu m) + 12)
      ((cpu_cop2 (m_cpu m) ! 0)[0 := regs (m_cpu m) 4, 1 := regs (m_cpu m) 5, 2 := op_val COP2_MSG_OP_OUT]) m1 \<and>
    (\<forall>n. \<exists>m2. goes m1 n (regs (m_cpu m)) (cpu_pc (m_cpu m) + 12) (cpu_cop2 (m_cpu m1) ! 0) m2) \<and>
    (\<forall>c m2. m2 = upd_cpu (\<lambda>p. p\<lparr>cpu_cop2 := c\<rparr>) m1 \<and> wf_machine m2 \<and> link_op m2 = op_val COP2_MSG_OP_NONE \<longrightarrow>
      (\<exists>m3. goes m2 1 (regs (m_cpu m)) (ucast (regs (m_cpu m) 31)) (c ! 0) m3))"
proof -
  obtain m1 where 1: "goes m 3 (regs (m_cpu m)) (cpu_pc (m_cpu m) + 12)
      ((cpu_cop2 (m_cpu m) ! 0)[0 := regs (m_cpu m) 4, 1 := regs (m_cpu m) 5, 2 := op_val COP2_MSG_OP_OUT]) m1"
    using C2_output_asks [OF assms] by blast
  note g = goesD [OF 1]
  have "link_op m1 = op_val COP2_MSG_OP_OUT"
    using g(6,8) op_val_st [of COP2_MSG_OP_OUT] by (simp add: link_op_def)
  then have "\<forall>n. \<exists>m2. goes m1 n (regs (m_cpu m)) (cpu_pc (m_cpu m) + 12) (cpu_cop2 (m_cpu m1) ! 0) m2"
    using waits_on [OF g(2,3)] g(4,5) by simp
  moreover have "\<exists>m3. goes m2 1 (regs (m_cpu m)) (ucast (regs (m_cpu m) 31)) (c ! 0) m3"
    if "m2 = upd_cpu (\<lambda>p. p\<lparr>cpu_cop2 := c\<rparr>) m1" "wf_machine m2" "link_op m2 = op_val COP2_MSG_OP_NONE" for c m2
  proof -
    have "code_at (m_mem m) (cpu_pc (m_cpu m)) C2_output" using assms by (simp add: enters_def)
    then have "at_instr m2 (iJR 31)"
      using that g(3,5,7) by (simp add: at_instr_def fetch_def C2_output_def add.assoc)
    moreover have "regs (m_cpu m2) = regs (m_cpu m1)" unfolding that(1) by (simp add: regs_def fun_eq_iff)
    ultimately show ?thesis using step_jr [of m2 31] that(1) g(4) by simp
  qed
  ultimately show ?thesis using 1 by blast
qed

text \<open>A processor at address 0 of a memory that starts with a program, with given registers.\<close>

definition boot_regs :: "u32 list \<Rightarrow> u32 list \<Rightarrow> machine" where
  "boot_regs g ws = (boot ws)\<lparr>m_cpu := cpu_zero\<lparr>cpu_running := True, cpu_gpr := g\<rparr>\<rparr>"

lemma nth_concat4:
  assumes "\<And>x. length (f x) = 4" "i < length xs" "j < 4"
  shows "concat (map f xs) ! (4 * i + j) = f (xs ! i) ! j"
  using assms(2)
proof (induction xs arbitrary: i)
  case (Cons x xs)
  then show ?case using assms(1,3) by (cases i) (simp_all add: nth_append)
qed simp

lemma boot_lw:
  assumes "i < length ws" "4 * length ws < 2 ^ 64"
  shows "Mem_lw (m_mem (boot ws)) (of_nat (4 * i)) = Some (Inr (ws ! i))"
proof -
  let ?f = "\<lambda>w. [byte_of 0 w, byte_of 1 w, byte_of 2 w, byte_of 3 w]" and ?bs = "mem_b (m_mem (boot ws))"
  have u: "unat (of_nat (4 * i) :: u64) = 4 * i" using assms by (simp only: unsigned_of_nat) (simp add: take_bit_nat_eq_self)
  have sz: "unat (of_nat (4 * length ws) :: u64) = 4 * length ws"
    using assms(2) by (simp only: unsigned_of_nat) (simp add: take_bit_nat_eq_self)
  have d: "unat (drop_bit 2 (of_nat (4 * i) :: u64)) = i"
    by (simp only: unat_drop_bit_eq u) (simp add: drop_bit_eq_div)
  have al: "(of_nat (4 * i) :: u64) AND 3 = 0"
  proof -
    have "(of_nat (4 * i) :: u64) AND 3 = take_bit 2 (of_nat (4 * i))"
      by (simp add: take_bit_eq_mask mask_eq_exp_minus_1)
    moreover have "unat (take_bit 2 (of_nat (4 * i) :: u64)) = 0"
      by (simp only: unsigned_take_bit_eq u) (simp add: take_bit_eq_mod)
    ultimately show ?thesis by (simp only: unat_eq_0)
  qed
  have b: "?bs = concat (map ?f ws)" by (simp add: boot_def)
  have n: "?bs ! (4 * i + j) = ?f (ws ! i) ! j" if "j < 4" for j
    unfolding b using nth_concat4 [OF _ assms(1) that, of ?f] by simp
  have "length ?bs = 4 * length ws" unfolding b by (rule length_concat4) simp
  then have "get_word ?bs i = Some (ws ! i)"
    using assms(1) n [of 0] n [of 1] n [of 2] n [of 3] word_of_byte_of [unfolded One_nat_def, of "ws ! i"] by (simp add: get_word_def)
  moreover have "\<not> of_nat (4 * i) \<ge> mem_size (m_mem (boot ws))"
    using assms(1) u sz by (simp add: boot_def word_le_nat_alt del: of_nat_mult)
  ultimately show ?thesis by (simp add: Mem_lw_def al d del: of_nat_mult)
qed

lemma code_at_boot:
  assumes "4 * length (us @ map encode prog @ rest) < 2 ^ 64"
  shows "code_at (m_mem (boot (us @ map encode prog @ rest))) (of_nat (4 * length us)) prog"
  using assms
proof (induction prog arbitrary: us)
  case (Cons a prog)
  from Cons.IH [of "us @ [encode a]"] Cons.prems
  have "code_at (m_mem (boot (us @ map encode (a # prog) @ rest))) (of_nat (4 * length us) + 4) prog"
    by (simp add: algebra_simps)
  then show ?case using boot_lw [of "length us" "us @ map encode (a # prog) @ rest"] Cons.prems by simp
qed simp

lemma enters_boot:
  assumes "4 * length (map encode prog @ rest) < 2 ^ 64" "length g = 32"
  shows "enters (boot_regs g (map encode prog @ rest)) prog"
  using code_at_boot [of "[]" prog rest] wf_boot [OF assms(1)] assms
  by (simp add: enters_def boot_regs_def wf_machine_def wf_cpu_def N_GPR_def)
    (simp add: boot_def cpu_zero_def perfct0_def link_op_def COP2_MSG_ST_OP_def COP2_NREG_def COP2_NSEL_def NCOUNTERS_def)

lemma boot_regs_parts [simp]:
  "regs (m_cpu (boot_regs g ws)) r = (if r = 0 then 0 else g ! unat r)"
  "cpu_pc (m_cpu (boot_regs g ws)) = 0" "cpu_cop2 (m_cpu (boot_regs g ws)) ! 0 = [0, 0, 0, 0, 0, 0]"
  "mem_size (m_mem (boot_regs g ws)) = of_nat (4 * length ws)"
  by (simp_all add: boot_regs_def boot_def regs_def cpu_zero_def COP2_NREG_def COP2_NSEL_def numeral_eq_Suc)

text \<open>The routines as the words of a program.\<close>

lemma routine_words:
  "map encode C2_output = [0x48840000, 0x48850001, 0x4A000003, 0x03E00008, 0]"
  "map encode C2_input = [0x48840000, 0x4A000002, 0x48020001, 0x03E00008, 0]"
  by code_simp+

theorem C2_output_call_witness:
  "\<exists>m1 R. R 4 = 1 \<and> R 5 = 7 \<and>
    goes (boot_regs ((replicate 32 0)[4 := 1, 5 := 7]) (map encode C2_output)) 3 R 12 [1, 7, 2, 0, 0, 0] m1"
proof -
  let ?m = "boot_regs ((replicate 32 0)[4 := 1, 5 := 7]) (map encode C2_output)"
  have "enters ?m C2_output" using enters_boot [of C2_output "[]"] by (simp add: C2_output_def)
  from C2_output_call [OF this] obtain m1 where "goes ?m 3 (regs (m_cpu ?m)) 12 [1, 7, 2, 0, 0, 0] m1" by auto
  moreover have "regs (m_cpu ?m) 4 = 1" "regs (m_cpu ?m) 5 = 7" by simp_all
  ultimately show ?thesis by blast
qed

end
