(* ===== verification/CommNet.thy ===== *)
theory CommNet
  imports Comm DstbNet BusUse
begin

text \<open>
  The communication library on the distributed system: what the network and the other nodes leave of a
  node that waits, the offer of a sender, and how the receiver that waits gets it.
\<close>

section \<open>What the network leaves of a node that waits\<close>

text \<open>The part of a node that its program sees, its coprocessor aside.\<close>

definition prog_same :: "Node \<Rightarrow> Node \<Rightarrow> bool" where
  "prog_same nd nd' \<longleftrightarrow> cpu_gpr (nd_cpu nd') = cpu_gpr (nd_cpu nd) \<and> cpu_pc (nd_cpu nd') = cpu_pc (nd_cpu nd) \<and>
     cpu_running (nd_cpu nd') = cpu_running (nd_cpu nd) \<and> nd_mem nd' = nd_mem nd"

lemma prog_same_refl [simp]: "prog_same nd nd"
  by (simp add: prog_same_def)

lemma prog_same_trans: "prog_same a b \<Longrightarrow> prog_same b c \<Longrightarrow> prog_same a c"
  by (simp add: prog_same_def)

lemma prog_same_local [simp]:
  "prog_same nd (set_sel s v nd')  \<longleftrightarrow> prog_same nd nd'" "prog_same nd (upd_link d n f nd') \<longleftrightarrow> prog_same nd nd'"
  "prog_same nd (count_link d n nd') \<longleftrightarrow> prog_same nd nd'" "prog_same nd (take_msg m nd') \<longleftrightarrow> prog_same nd nd'"
  "prog_same nd (nd'\<lparr>nd_mbox_new := b\<rparr>) \<longleftrightarrow> prog_same nd nd'"
  by (simp_all add: prog_same_def set_sel_def upd_link_def count_link_def take_msg_def Let_def)

text \<open>Moves of messages count them, and otherwise leave the program and its command alone.\<close>

lemma net_move_node:
  assumes "net_move (X * Y) net net'" "mesh X Y net"
  shows "prog_same (net_nd net ! j) (net_nd net' ! j)"
    and "s \<noteq> COP2_MSG_NMSG \<Longrightarrow> get_sel s (net_nd net' ! j) = get_sel s (net_nd net ! j)"
proof -
  note wf = mesh_node(1) [OF assms(2)] and len = meshD(7) [OF assms(2)]
  have "prog_same (net_nd net ! j) (net_nd net' ! j) \<and>
    (s \<noteq> COP2_MSG_NMSG \<longrightarrow> get_sel s (net_nd net' ! j) = get_sel s (net_nd net ! j))"
    using assms(1)
  proof cases
    case (deliver i n m q)
    then show ?thesis using len wf [OF deliver(2)] by (auto simp: pop_def tally_def net_simps)
  qed (use len in \<open>auto simp: push_def pop_def net_simps\<close>)
  then show "prog_same (net_nd net ! j) (net_nd net' ! j)"
    and "s \<noteq> COP2_MSG_NMSG \<Longrightarrow> get_sel s (net_nd net' ! j) = get_sel s (net_nd net ! j)" by blast+
qed

lemma net_moves_node:
  assumes "net_moves (X * Y) net net'" "net_ok X Y net"
  shows "prog_same (net_nd net ! j) (net_nd net' ! j)"
    and "s \<noteq> COP2_MSG_NMSG \<Longrightarrow> get_sel s (net_nd net' ! j) = get_sel s (net_nd net ! j)"
proof -
  have "net_ok X Y net' \<and> prog_same (net_nd net ! j) (net_nd net' ! j) \<and>
    (s \<noteq> COP2_MSG_NMSG \<longrightarrow> get_sel s (net_nd net' ! j) = get_sel s (net_nd net ! j))"
    using assms
  proof (induction rule: rtranclp_induct)
    case (step y z)
    then have ok: "net_ok X Y y" by simp
    then show ?case using step net_step_ok [OF move [OF step(2)] ok] net_move_node [OF step(2) net_okD(1) [OF ok]]
      by (auto intro: prog_same_trans)
  qed simp
  then show "prog_same (net_nd net ! j) (net_nd net' ! j)"
    and "s \<noteq> COP2_MSG_NMSG \<Longrightarrow> get_sel s (net_nd net' ! j) = get_sel s (net_nd net ! j)" by blast+
qed

text \<open>The operation of a node touches no other node, and fills no mailbox.\<close>

definition only :: "nat \<Rightarrow> Net \<Rightarrow> Net \<Rightarrow> bool" where
  "only j net net' \<longleftrightarrow> (\<forall>i. i \<noteq> j \<longrightarrow> net_nd net' ! i = net_nd net ! i) \<and> net_size net' = net_size net \<and>
     (\<forall>i k m. box net' i k = Some m \<longrightarrow> box net i k = Some m)"

lemma empties_box: "box (set_mbox i k None net) j l = Some m \<Longrightarrow> box net j l = Some m"
  unfolding box_def set_mbox_def mbox_index_def
  by (cases "i * unat (net_size net) + k < length (net_mbox net)") (auto simp: nth_list_update list_update_beyond not_less split: if_splits)

lemma only_rules:
  "only j net net" "only j net0 net \<Longrightarrow> only j net0 (upd_node j f net)"
  "only j net0 net \<Longrightarrow> only j net0 (set_mbox i k None net)"
  by (auto simp: only_def net_simps dest!: empties_box) (simp add: upd_node_def)

lemma only_trans: "only j a b \<Longrightarrow> only j b c \<Longrightarrow> only j a c"
  by (simp add: only_def)

lemma only_receive: "receive net k j m al = Some (r, net') \<Longrightarrow> only j net net'"
  by (auto simp: receive_def Let_def split: option.splits if_splits intro!: only_rules)

lemma only_operate: "operate net j al = Some (r, net') \<Longrightarrow> only j net net'"
proof -
  have "net_input net k j al = Some (r, net') \<Longrightarrow> only j net net'" for k
    by (auto simp: net_input_def split: option.splits dest: only_receive intro: only_rules)
  moreover have "net_output net k j al = Some (r, net') \<Longrightarrow> only j net net'" for k
    by (auto simp: net_output_def Let_def split: option.splits if_splits intro!: only_rules)
  moreover have "alt net b j al = Some (r, net') \<Longrightarrow> only j net net'" for b
    unfolding alt_def Let_def
    by (auto simp: Option.bind_eq_Some_conv split: if_splits intro!: only_rules
        dest!: only_receive intro: only_trans [rotated])
  ultimately show "operate net j al = Some (r, net') \<Longrightarrow> only j net net'"
    by (auto simp: operate_def Let_def split: if_splits intro: only_rules)
qed

lemma only_node: "only j net net' \<Longrightarrow> i \<noteq> j \<Longrightarrow> net_nd net' ! i = net_nd net ! i"
  by (simp add: only_def)

lemma only_box: "only j net net' \<Longrightarrow> box net' i k = Some m \<Longrightarrow> box net i k = Some m"
  by (simp add: only_def)

lemma only_operate_all: "operate_all js al net = Some (r, net') \<Longrightarrow> i \<notin> set js \<Longrightarrow> net_nd net' ! i = net_nd net ! i"
proof (induction js arbitrary: net)
  case (Cons j js)
  then show ?case by (auto split: option.splits if_splits dest!: only_operate only_node)
qed simp

section \<open>The offer of the sender\<close>

text \<open>Node \<open>k\<close> outputs \<open>w\<close> to node \<open>i\<close>, which has not taken it yet.\<close>

definition offers :: "nat \<Rightarrow> nat \<Rightarrow> u32 \<Rightarrow> Net \<Rightarrow> bool" where
  "offers k i w net \<longleftrightarrow> node_op net k = op_val COP2_MSG_OP_OUT \<and> node_corr net k = i \<and>
     get_sel COP2_MSG_DATA (net_nd net ! k) = w \<and> (\<forall>m\<in>#net_msgs net. concerns k i m \<longrightarrow> \<not> msg_ack m)"

lemma op_back:
  assumes "net_step (X * Y) net net'" "net_ok X Y net" "i < X * Y" "node_op net' i = op_val COP2_MSG_OP_IN"
  shows "node_op net i = op_val COP2_MSG_OP_IN"
  using net_step_same_command [OF assms(1) net_okD(1) [OF assms(2)] assms(3)] assms(4)
  by (auto simp: same_command_def node_op_def)

lemma offers_cong:
  assumes "offers k i w net" "\<And>s. s \<in> {COP2_MSG_CORR, COP2_MSG_DATA} \<Longrightarrow> get_sel s (net_nd net' ! k) = get_sel s (net_nd net ! k)"
    "node_op net' k = node_op net k" "\<And>m. m \<in># net_msgs net' \<Longrightarrow> m \<in># net_msgs net \<or> \<not> msg_ack m \<or> \<not> concerns k i m"
  shows "offers k i w net'"
  using assms by (auto simp: offers_def node_corr_def)

text \<open>While the offer stands its sender is not acknowledged.\<close>

lemma offerer_not_acknowledged:
  assumes "net_ok X Y net" "offers k i w net" "k < X * Y" "i < X * Y" "box net k i = Some m"
  shows "\<not> msg_ack m"
proof
  assume ack: "msg_ack m"
  have "strip m \<in># net_msgs net" by (rule box_in_net [OF net_okD(1) [OF assms(1)] assms(3-5)])
  moreover have "concerns k i (strip m)" "msg_ack (strip m)"
    using boxes_okD [OF net_okD(3) [OF assms(1)] assms(3-5)] ack by (auto simp: concerns_def strip_def)
  ultimately show False using assms(2) by (auto simp: offers_def)
qed

lemma net_step_offers:
  assumes "net_step (X * Y) net net'" "net_ok X Y net" "i < X * Y" "k < X * Y"
    "node_op net' i = op_val COP2_MSG_OP_IN" "offers k i w net"
  shows "offers k i w net'"
proof -
  note mesh = net_okD(1) [OF assms(2)] and in_i = op_back [OF assms(1,2,3,5)]
  note wf = mesh_node(1) [OF mesh] and len = meshD(7) [OF mesh]
  have out: "node_op net k = op_val COP2_MSG_OP_OUT" "node_corr net k = i" using assms(6) by (simp_all add: offers_def)
  show ?thesis using assms(1)
  proof cases
    case move
    then show ?thesis using net_move_node(2) [OF move mesh] net_move_msgs [OF move assms(2)]
      by (intro offers_cong [OF assms(6)]) (auto simp: node_op_def)
  next
    case (send j m n)
    have "net_msgs net' = add_mset (strip m) (net_msgs net)"
      unfolding send(1) by (rule sent_msgs [OF mesh send(2,8)])
    moreover have "\<not> msg_ack (strip m)" using send(6) by (simp add: strip_def)
    ultimately show ?thesis unfolding send(1) using send(2) len wf [OF send(2)]
      by (intro offers_cong [OF assms(6)]) (auto simp: node_op_def push_def net_simps wf_set_sel op_sent)
  next
    case (acknowledged j m)
    have sub: "a \<in># net_msgs net' \<Longrightarrow> a \<in># net_msgs net" for a
      unfolding acknowledged(1) acknowledged_msgs [OF mesh acknowledged(2)] net_msgs_take [OF mesh acknowledged(2,3,6)]
      by simp
    have "j \<noteq> k" using offerer_not_acknowledged [OF assms(2,6,4,3)] acknowledged(6,7) out(2) by auto
    then show ?thesis using sub acknowledged(1,2) len
      by (intro offers_cong [OF assms(6)]) (auto simp: node_op_def net_simps)
  next
    case (accept j l m n g)
    have "node_op net' j = op_val COP2_MSG_OP_NONE"
      unfolding accept(1) using accept(2) len wf [OF accept(2)] by (simp add: node_op_def push_def net_simps op_NONE)
    then have ij: "j \<noteq> i" "j \<noteq> k" using assms(5) accept(3) out(1) by auto
    have "net_msgs net' = add_mset (strip (answer_of j g m)) (net_msgs (set_mbox j l None net))"
      unfolding accept(1) by (rule accepted_msgs [OF mesh accept(2,7)])
    moreover have "j < 2 ^ 16" using accept(2) meshD(3) [OF mesh] by simp
    then have "\<not> concerns k i (strip (answer_of j g m))"
      using ij(1) by (simp add: concerns_def strip_def answer_of_def unsigned_of_nat take_bit_nat_eq_self)
    ultimately show ?thesis using ij(2) accept(2) len net_msgs_take [OF mesh accept(2,4,5)] unfolding accept(1)
      by (intro offers_cong [OF assms(6)]) (auto simp: node_op_def push_def net_simps)
  next
    case (private_step j f)
    then have "j \<noteq> k" using out by auto
    moreover have "net_msgs net' = net_msgs net"
      unfolding private_step(1) by (rule private_msgs [OF mesh private_step(2,4)])
    ultimately show ?thesis using private_step(1,2) len
      by (intro offers_cong [OF assms(6)]) (auto simp: node_op_def net_simps)
  qed
qed

lemma net_steps_offers:
  assumes "net_steps (X * Y) net net'" "net_ok X Y net" "i < X * Y" "k < X * Y"
    "offers k i w net" "node_op net' i = op_val COP2_MSG_OP_IN"
  shows "offers k i w net'"
proof -
  have "net_ok X Y net' \<and> (node_op net' i = op_val COP2_MSG_OP_IN \<longrightarrow> offers k i w net')"
    using assms(1,2,5)
    by (induction rule: rtranclp_induct) (auto intro: net_step_ok net_step_offers [OF _ _ assms(3,4)] dest: op_back [OF _ _ assms(3)])
  then show ?thesis using assms(6) by blast
qed

section \<open>The receiver gets it\<close>

text \<open>The operation of node \<open>i\<close> goes on as it was, or is over with \<open>w\<close> received; its program is as before.\<close>

definition heard :: "nat \<Rightarrow> nat \<Rightarrow> u32 \<Rightarrow> Net \<Rightarrow> Net \<Rightarrow> bool" where
  "heard i k w net net' \<longleftrightarrow> prog_same (net_nd net ! i) (net_nd net' ! i) \<and>
     (node_op net' i = op_val COP2_MSG_OP_IN \<and> node_corr net' i = k \<or>
      node_op net' i = op_val COP2_MSG_OP_NONE \<and> get_sel COP2_MSG_DATA (net_nd net' ! i) = w)"

lemma heard_trans:
  assumes "heard i k w net net'" "prog_same (net_nd net' ! i) (net_nd net2 ! i)"
    "\<And>s. s \<noteq> COP2_MSG_NMSG \<Longrightarrow> get_sel s (net_nd net2 ! i) = get_sel s (net_nd net' ! i)"
  shows "heard i k w net net2"
  using assms by (auto simp: heard_def node_op_def node_corr_def intro: prog_same_trans)

lemma heard_same:
  "heard i k w net1 net' \<Longrightarrow> net_nd net1 ! i = net_nd net ! i \<Longrightarrow> heard i k w net net'"
  "heard i k w net net1 \<Longrightarrow> net_nd net' ! i = net_nd net1 ! i \<Longrightarrow> heard i k w net net'"
  by (simp_all add: heard_def node_op_def node_corr_def)

lemma operate_hears:
  assumes "net_ok X Y net" "rendezvous (X * Y) net" "payload net" "i < X * Y" "k < X * Y" "i \<noteq> k"
    "node_op net i = op_val COP2_MSG_OP_IN" "node_corr net i = k" "offers k i w net"
    "operate net i al = Some (r, net')"
  shows "heard i k w net net'"
proof -
  note mesh = net_okD(1) [OF assms(1)]
  have out: "node_op net i \<noteq> op_val COP2_MSG_OP_OUT" using assms(7) by simp
  have op: "net_input net k i al = Some (r, net')"
    using assms(7,8,10) by (simp add: operate_def Let_def node_op_def node_corr_def)
  have stay: ?thesis if "net' = net" using that assms(7,8) by (simp add: heard_def)
  show ?thesis
  proof (cases "box net i k")
    case None
    then show ?thesis using op get_mbox_box [OF mesh assms(4,5)] by (intro stay) (simp add: net_input_def)
  next
    case (Some m)
    note b = boxes_okD [OF net_okD(3) [OF assms(1)] assms(4,5) Some]
    have rec: "receive net k i m al = Some (r, net')"
      using op get_mbox_box [OF mesh assms(4,5)] Some by (simp add: net_input_def)
    have mem: "strip m \<in># net_msgs net" by (rule box_in_net [OF mesh assms(4,5) Some])
    have "\<not> sending net i k" using out by (simp add: sending_def)
    then have "flight net i k = 0" using rendezvousD [OF assms(2,4,5,6)] by simp
    then have data: "\<not> msg_ack m" using flight_pos [OF mem, of i k] b by (auto simp: concerns_def strip_def)
    have w: "msg_data m = w" using payloadD [OF assms(3) mem data] b assms(9) by (simp add: offers_def)
    show ?thesis
    proof (cases rule: receive_steps [OF assms(1,4,5) Some out, of al])
      case (3 g)
      let ?p = "push i LINK_OUT (way net i (msg_from m)) (answer_of i g m) net"
      have "i < length (net_nd ?p)" "wf_cpu (nd_cpu (net_nd ?p ! i))" "prog_same (net_nd net ! i) (net_nd ?p ! i)"
        using meshD(7) [OF mesh] mesh_node(1) [OF mesh assms(4)] assms(4) by (simp_all add: push_def net_simps)
      then show ?thesis using 3 rec w by (auto simp: heard_def node_op_def net_simps op_NONE take_msg_def Let_def wf_set_sel)
    qed (use rec stay in auto)
  qed
qed

lemma operate_all_hears:
  assumes "operate_all js al net = Some (r, net')" "distinct js" "set js \<subseteq> {..<X * Y}"
    "net_ok X Y net" "commands_ok (X * Y) net" "rendezvous (X * Y) net" "payload net"
    "i < X * Y" "k < X * Y" "i \<noteq> k"
    "node_op net i = op_val COP2_MSG_OP_IN" "node_corr net i = k" "offers k i w net"
  shows "heard i k w net net'"
  using assms(1-7,11-)
proof (induction js arbitrary: net)
  case Nil
  then show ?case by (auto simp: heard_def)
next
  case (Cons j js)
  then have j: "j < X * Y" "j \<notin> set js" by auto
  obtain r1 net1 where o: "operate net j (al j) = Some (r1, net1)" "net_steps (X * Y) net net1"
    using operate_steps [OF Cons.prems(4) j(1) Cons.prems(5)] by blast
  have rest: "net' = net1 \<or> operate_all js al net1 = Some (r, net')"
    using Cons.prems(1) o(1) by (auto split: if_splits)
  show ?case
  proof (cases "j = i")
    case True
    then have "heard i k w net net1"
      using operate_hears [OF Cons.prems(4,6,7) assms(8-10) Cons.prems(8-10)] o(1) by blast
    moreover have "net_nd net' ! i = net_nd net1 ! i" using rest j(2) True only_operate_all by metis
    ultimately show ?thesis by (rule heard_same(2))
  next
    case False
    then have same: "net_nd net1 ! i = net_nd net ! i" using only_node [OF only_operate [OF o(1)]] by simp
    then have in1: "node_op net1 i = op_val COP2_MSG_OP_IN" "node_corr net1 i = k"
      using Cons.prems(8,9) by (simp_all add: node_op_def node_corr_def)
    note of1 = net_steps_offers [OF o(2) Cons.prems(4) assms(8,9) Cons.prems(10) in1(1)]
    note ok1 = net_steps_ok(1) [OF o(2) Cons.prems(4)] net_steps_ok(2) [OF o(2) Cons.prems(4,5)]
      net_steps_rendezvous [OF o(2) Cons.prems(4,6)] net_steps_payload [OF o(2) Cons.prems(4,6,7)]
    have "heard i k w net1 net'"
    proof (rule disjE [OF rest])
      assume "operate_all js al net1 = Some (r, net')"
      then show ?thesis using Cons.IH [OF _ _ _ ok1 in1 of1] Cons.prems(2,3) by simp
    qed (use in1 in \<open>simp add: heard_def\<close>)
    then show ?thesis using same by (rule heard_same(1))
  qed
qed

lemma Net_execute_hears:
  assumes "net_ok X Y net" "commands_ok (X * Y) net" "rendezvous (X * Y) net" "payload net"
    "i < X * Y" "k < X * Y" "i \<noteq> k"
    "node_op net i = op_val COP2_MSG_OP_IN" "node_corr net i = k" "offers k i w net"
    "Net_execute al net = Some (r, net')"
  shows "heard i k w net net'"
proof (rule Net_execute_phases [OF assms(1,2), of al])
  fix net1 q net2
  assume 1: "net_moves (X * Y) net net1" and 2: "operate_all [0..<X * Y] al net1 = Some (q, net2)" "net_steps (X * Y) net1 net2"
    and 3: "q = -1 \<Longrightarrow> Net_execute al net = Some (-1, net2)"
      "q \<noteq> -1 \<Longrightarrow> \<exists>net3. mfold (\<lambda>i. hop (of_nat i)) [0..<X * Y] net2 = Some net3 \<and> net_moves (X * Y) net2 net3 \<and>
       Net_execute al net = Some (0, net3)"
  note s1 = net_moves_steps [OF 1] and n1 = net_moves_node [OF 1 assms(1), where j = i]
  note ok1 = net_steps_ok(1) [OF s1 assms(1)] net_steps_ok(2) [OF s1 assms(1,2)]
    net_steps_rendezvous [OF s1 assms(1,3)] net_steps_payload [OF s1 assms(1,3,4)]
  have in1: "node_op net1 i = op_val COP2_MSG_OP_IN" "node_corr net1 i = k"
    using n1(2) assms(8,9) by (simp_all add: node_op_def node_corr_def)
  note of1 = net_steps_offers [OF s1 assms(1,5,6,10) in1(1)]
  have "heard i k w net1 net2"
    by (rule operate_all_hears [OF 2(1) _ _ ok1 assms(5-7) in1 of1]) auto
  then have h: "heard i k w net net2" using n1(1) by (auto simp: heard_def intro: prog_same_trans)
  show ?thesis
  proof (cases "q = -1")
    case True
    then show ?thesis using 3(1) h assms(11) by simp
  next
    case False
    then obtain net3 where "net_moves (X * Y) net2 net3" "net' = net3" using 3(2) assms(11) by auto
    then show ?thesis
      using heard_trans [OF h] net_moves_node [OF _ net_steps_ok(1) [OF 2(2) ok1(1)], where net' = net3 and j = i] by blast
  qed
qed

section \<open>Rounds\<close>

text \<open>What the program of a node sees of it, register 0 being 0.\<close>

definition same_view :: "machine \<Rightarrow> machine \<Rightarrow> bool" where
  "same_view m m' \<longleftrightarrow> regs (m_cpu m') = regs (m_cpu m) \<and> cpu_pc (m_cpu m') = cpu_pc (m_cpu m) \<and>
     cpu_running (m_cpu m') = cpu_running (m_cpu m) \<and> m_mem m' = m_mem m"

lemma same_view_refl [simp]: "same_view m m"
  by (simp add: same_view_def)

lemma same_view_trans: "same_view a b \<Longrightarrow> same_view b c \<Longrightarrow> same_view a c"
  by (simp add: same_view_def)

lemma prog_same_view: "prog_same (net_nd (ds_net s) ! i) (net_nd (ds_net s') ! i) \<Longrightarrow> same_view (dstb_machine s i) (dstb_machine s' i)"
  by (simp add: prog_same_def same_view_def dstb_machine_def regs_def fun_eq_iff)

lemma waiting_view:
  assumes "wf_machine m" "link_op m \<noteq> 0" "Datapath_execute m = Some (r, m')"
  shows "same_view m m'"
proof (cases "cpu_running (m_cpu m)")
  case True
  from step_wait [OF assms(1) this assms(2)] obtain m2 where "goes m 1 (regs (m_cpu m)) (cpu_pc (m_cpu m)) (cpu_cop2 (m_cpu m) ! 0) m2"
    by blast
  then show ?thesis using assms(3) True by (auto simp: goes_def same_view_def split: if_splits)
next
  case False
  then show ?thesis using Datapath_stopped [of m] assms(3) by simp
qed

text \<open>The processors take their turn: a node that waits sees nothing of it.\<close>

lemma turn_view:
  assumes "run_round dstb_step dstb_running (length (net_nd (ds_net s))) (s, nrun) = Some (s1, nrun1)" "dstb_wf s"
    "i < length (net_nd (ds_net s))" "link_op (dstb_machine s i) \<noteq> 0"
  shows "same_view (dstb_machine s i) (dstb_machine s1 i)"
proof -
  let ?Q = "\<lambda>t. same_view (dstb_machine s i) (dstb_machine t i) \<and> link_op (dstb_machine t i) \<noteq> 0 \<and>
    length (net_nd (ds_net t)) = length (net_nd (ds_net s))"
  have run: "run_round dstb_step dstb_running (length (net_nd (ds_net (fst (s, nrun))))) (s, nrun) = Some (s1, nrun1)"
    using assms(1) by simp
  have "?Q (fst (s1, nrun1))"
  proof (rule dstb.round_keeps [OF run, where Q = ?Q])
    fix j t r t'
    assume t: "j < length (net_nd (ds_net t))" "dstb_wf t" "?Q t" "dstb_step j t = Some (r, t')"
    obtain m where m: "Datapath_execute (dstb_machine t j) = Some (r, m)" "t' = dstb_put j m t"
      using t(4) by (rule dstb_step_Some)
    show "?Q t'"
    proof (cases "j = i")
      case True
      have "same_view (dstb_machine t i) m" "cpu_cop2 (m_cpu m) = cpu_cop2 (m_cpu (dstb_machine t i))"
        using waiting_view [OF dstb_wf_machine [OF t(2,1)]] waiting_cop2 [OF m(1)] m(1) t(3) True by auto
      moreover have "m_cpu (dstb_machine t' i) = m_cpu m" "m_mem (dstb_machine t' i) = m_mem m"
        using t(1) m(2) True by (simp_all add: dstb_machine_def put_cpu_def)
      ultimately show ?thesis using t(1,3) m(2) by (simp add: same_view_def link_op_def)
    next
      case False
      then have "net_nd (ds_net t') ! i = net_nd (ds_net t) ! i" using t(1) m(2) by simp
      then show ?thesis using t(3) m(2) by (simp add: same_view_def link_op_def dstb_machine_def)
    qed
  qed (use assms(2,4) in simp_all)
  then show ?thesis by simp
qed

text \<open>No instruction turns the private memories of the nodes into a shared one.\<close>

lemma turn_unshared:
  assumes "run_round dstb_step dstb_running (length (net_nd (ds_net s))) (s, nrun) = Some (s1, nrun1)" "dstb_wf s"
    "\<not> mc_shared (ds_ctl s)"
  shows "\<not> mc_shared (ds_ctl s1)"
proof -
  have closed: "ctl_closed (\<lambda>c. \<not> mc_shared c)" by (simp add: ctl_closed_def)
  have run: "run_round dstb_step dstb_running (length (net_nd (ds_net (fst (s, nrun))))) (s, nrun) = Some (s1, nrun1)"
    using assms(1) by simp
  have "\<not> mc_shared (ds_ctl (fst (s1, nrun1)))"
  proof (rule dstb.round_keeps [OF run, where Q = "\<lambda>t. \<not> mc_shared (ds_ctl t)"])
    show "\<not> mc_shared (ds_ctl t')" if "\<not> mc_shared (ds_ctl t)" "dstb_step j t = Some (r, t')" for j t r t'
      using that(2) by (rule dstb_step_Some)
        (use that(1) in \<open>auto simp: dstb_machine_def dest!: Datapath_keeps_ctl [OF closed]\<close>)
  qed (use assms(2,3) in simp_all)
  then show ?thesis by simp
qed

text \<open>A system that keeps the protocol, and programs that do: they ask for operations that exist and do
  not write the sent flag.\<close>

definition sound :: "nat \<Rightarrow> nat \<Rightarrow> dstb \<Rightarrow> bool" where
  "sound X Y s \<longleftrightarrow> dstb_wf s \<and> net_ok X Y (ds_net s) \<and> rendezvous (X * Y) (ds_net s) \<and> payload (ds_net s)"

definition obedient :: "nat \<Rightarrow> nat \<Rightarrow> dstb \<Rightarrow> bool" where
  "obedient X Y s \<longleftrightarrow> (\<forall>s1 nrun. run_round dstb_step dstb_running (X * Y) (s, net_nrun (ds_net s)) = Some (s1, nrun) \<longrightarrow>
     commands_ok (X * Y) (ds_net s1) \<and>
     (\<forall>i<X * Y. node_op (ds_net s) i = op_val COP2_MSG_OP_NONE \<longrightarrow> \<not> node_sent (ds_net s1) i))"

lemma node_link_op: "node_op (ds_net s) i = link_op (dstb_machine s i)"
  by (simp add: node_op_def link_op_def get_sel_link dstb_machine_def)

text \<open>Nodes that all wait for commands that exist keep to it.\<close>

lemma waiting_obedient:
  assumes "sound X Y s" "commands_ok (X * Y) (ds_net s)" "\<And>i. i < X * Y \<Longrightarrow> node_op (ds_net s) i \<noteq> 0"
  shows "obedient X Y s"
  unfolding obedient_def
proof (intro allI impI conjI)
  fix s1 nrun assume run: "run_round dstb_step dstb_running (X * Y) (s, net_nrun (ds_net s)) = Some (s1, nrun)"
  have s: "dstb_wf s" "length (net_nd (ds_net s)) = X * Y"
    using assms(1) meshD(7) [OF net_okD(1)] by (auto simp: sound_def)
  note turn = dstb_turn(1) [OF run [folded s(2)] s(1)]
  show "commands_ok (X * Y) (ds_net s1)"
  proof (rule same_commands_ok [OF assms(2)])
    fix i assume i: "i < X * Y"
    have "same_view (dstb_machine s i) (dstb_machine s1 i)"
      using turn_view [OF run [folded s(2)] s(1)] i s(2) assms(3) [OF i] by (simp add: node_link_op)
    then show "same_command (net_nd (ds_net s) ! i) (net_nd (ds_net s1) ! i)"
      using turn_node [OF turn] i s(2) assms(3) [OF i] by (simp add: same_command_def same_view_def dstb_machine_def)
  qed
qed (use assms(3) in simp_all)

text \<open>Node \<open>i\<close> inputs from node \<open>k\<close>, which offers it \<open>w\<close>.\<close>

definition meeting :: "nat \<Rightarrow> nat \<Rightarrow> nat \<Rightarrow> nat \<Rightarrow> u32 \<Rightarrow> dstb \<Rightarrow> bool" where
  "meeting X Y i k w s \<longleftrightarrow> sound X Y s \<and> i < X * Y \<and> k < X * Y \<and> i \<noteq> k \<and>
     node_op (ds_net s) i = op_val COP2_MSG_OP_IN \<and> node_corr (ds_net s) i = k \<and> offers k i w (ds_net s)"

lemma net_counts_sel:
  "node_op (net\<lparr>net_nrun := a\<rparr>) i = node_op net i" "node_op (net\<lparr>net_cycle := b\<rparr>) i = node_op net i"
  "node_corr (net\<lparr>net_nrun := a\<rparr>) i = node_corr net i" "node_corr (net\<lparr>net_cycle := b\<rparr>) i = node_corr net i"
  "offers k i w (net\<lparr>net_nrun := a\<rparr>) = offers k i w net" "offers k i w (net\<lparr>net_cycle := b\<rparr>) = offers k i w net"
  by (simp_all add: offers_def node_op_def node_corr_def net_msgs_def)

text \<open>A round taken apart: the turn of the processors up to \<open>s1\<close>, then a cycle of the network.\<close>

lemma round_parts:
  assumes "sound X Y s" "obedient X Y s" "dstb_round al s = Some (0, s')"
  obtains s1 :: dstb and nrun net where "turn_keeps (ds_net s) (ds_net s1)" "net_msgs ((ds_net s1)\<lparr>net_nrun := nrun\<rparr>) = net_msgs (ds_net s)"
    "net_ok X Y ((ds_net s1)\<lparr>net_nrun := nrun\<rparr>)" "commands_ok (X * Y) ((ds_net s1)\<lparr>net_nrun := nrun\<rparr>)"
    "rendezvous (X * Y) ((ds_net s1)\<lparr>net_nrun := nrun\<rparr>)" "payload ((ds_net s1)\<lparr>net_nrun := nrun\<rparr>)"
    "Net_execute (al (net_cycle (ds_net s1))) ((ds_net s1)\<lparr>net_nrun := nrun\<rparr>) = Some (0, net)"
    "net_steps (X * Y) ((ds_net s1)\<lparr>net_nrun := nrun\<rparr>) net"
    "s' = set_net (net\<lparr>net_cycle := net_cycle net + 1\<rparr>) s1" "sound X Y s'"
    "\<not> mc_shared (ds_ctl s) \<Longrightarrow> \<not> mc_shared (ds_ctl s')"
    "\<And>i. i < X * Y \<Longrightarrow> node_op (ds_net s) i \<noteq> 0 \<Longrightarrow> same_view (dstb_machine s i) (dstb_machine s1 i) \<and>
       (\<forall>t. get_sel t (net_nd (ds_net s1) ! i) = get_sel t (net_nd (ds_net s) ! i))"
proof -
  have s: "dstb_wf s" "net_ok X Y (ds_net s)" "rendezvous (X * Y) (ds_net s)" "payload (ds_net s)"
    using assms(1) by (simp_all add: sound_def)
  note len = meshD(7,9) [OF net_okD(1) [OF s(2)]]
  obtain s1 nrun where run: "run_round dstb_step dstb_running (X * Y) (s, net_nrun (ds_net s)) = Some (s1, nrun)"
    using assms(3) len(2) by (auto simp: dstb_round_def Option.bind_eq_Some_conv)
  from assms(2) run have ob: "commands_ok (X * Y) (ds_net s1)"
    "\<And>i. i < X * Y \<Longrightarrow> node_op (ds_net s) i = op_val COP2_MSG_OP_NONE \<Longrightarrow> \<not> node_sent (ds_net s1) i"
    by (simp_all add: obedient_def)
  let ?net1 = "(ds_net s1)\<lparr>net_nrun := nrun\<rparr>"
  obtain r net where n: "Net_execute (al (net_cycle (ds_net s1))) ?net1 = Some (r, net)"
    "turn_keeps (ds_net s) (ds_net s1)" "net_msgs ?net1 = net_msgs (ds_net s)" "dstb_wf s1"
    "net_ok X Y ?net1" "commands_ok (X * Y) ?net1" "rendezvous (X * Y) ?net1" "payload ?net1"
    "net_steps (X * Y) ?net1 net" "net_ok X Y net" "rendezvous (X * Y) net" "payload net"
    "dstb_round al s = Some (if r = 0 then (0, set_net (net\<lparr>net_cycle := net_cycle net + 1\<rparr>) s1) else (-1, set_net net s1))"
    by (rule dstb_round_steps [OF s run ob, of al])
  have s': "r = 0" "s' = set_net (net\<lparr>net_cycle := net_cycle net + 1\<rparr>) s1" using assms(3) n(13) by (simp_all split: if_splits)
  have "kept ?net1 net" by (rule kept_Net_execute [OF n(1)])
  then have "dstb_wf s'" using n(4) by (fastforce simp: kept_def node_kept_def dstb_wf_def s'(2) set_net_def in_set_conv_nth)
  then have snd: "sound X Y s'" using n(10-12) by (simp add: sound_def s'(2) set_net_def net_counts_irrelevant)
  have "same_view (dstb_machine s i) (dstb_machine s1 i) \<and>
      (\<forall>t. get_sel t (net_nd (ds_net s1) ! i) = get_sel t (net_nd (ds_net s) ! i))"
    if "i < X * Y" "node_op (ds_net s) i \<noteq> 0" for i
    using turn_view [OF run [folded len(1)] s(1)] turn_node [OF n(2)] that len(1) by (simp add: node_link_op)
  moreover have "\<not> mc_shared (ds_ctl s')" if "\<not> mc_shared (ds_ctl s)"
    using turn_unshared [OF run [folded len(1)] s(1) that] by (simp add: s'(2) set_net_def)
  ultimately show thesis using that n(1-3,5-9) s' snd by blast
qed

lemma round_meets:
  assumes "meeting X Y i k w s" "obedient X Y s" "dstb_round al s = Some (0, s')"
  shows "same_view (dstb_machine s i) (dstb_machine s' i) \<and> sound X Y s' \<and>
    (meeting X Y i k w s' \<or>
     node_op (ds_net s') i = op_val COP2_MSG_OP_NONE \<and> get_sel COP2_MSG_DATA (net_nd (ds_net s') ! i) = w)"
proof -
  have s: "sound X Y s" "i < X * Y" "k < X * Y" "i \<noteq> k" "node_op (ds_net s) i = op_val COP2_MSG_OP_IN" "node_corr (ds_net s) i = k"
    "offers k i w (ds_net s)" and out: "node_op (ds_net s) k \<noteq> 0"
    using assms(1) by (simp_all add: meeting_def offers_def)
  show ?thesis
  proof (rule round_parts [OF s(1) assms(2,3)])
    fix s1 :: dstb and nrun net
    let ?net1 = "(ds_net s1)\<lparr>net_nrun := nrun\<rparr>"
    assume n: "net_msgs ?net1 = net_msgs (ds_net s)" "net_ok X Y ?net1" "commands_ok (X * Y) ?net1" "rendezvous (X * Y) ?net1"
      "payload ?net1" "Net_execute (al (net_cycle (ds_net s1))) ?net1 = Some (0, net)" "net_steps (X * Y) ?net1 net"
      "s' = set_net (net\<lparr>net_cycle := net_cycle net + 1\<rparr>) s1" "sound X Y s'"
      and turn: "\<And>i. i < X * Y \<Longrightarrow> node_op (ds_net s) i \<noteq> 0 \<Longrightarrow> same_view (dstb_machine s i) (dstb_machine s1 i) \<and>
        (\<forall>t. get_sel t (net_nd (ds_net s1) ! i) = get_sel t (net_nd (ds_net s) ! i))"
    have v1: "same_view (dstb_machine s i) (dstb_machine s1 i)" using turn [OF s(2)] s(5) by simp
    have in1: "node_op ?net1 i = op_val COP2_MSG_OP_IN" "node_corr ?net1 i = k"
      using turn [OF s(2)] s(5,6) by (simp_all add: node_op_def node_corr_def)
    have of1: "offers k i w ?net1"
      using turn [OF s(3) out] n(1) by (intro offers_cong [OF s(7)]) (simp_all add: node_op_def)
    have h: "heard i k w ?net1 net" by (rule Net_execute_hears [OF n(2-5) s(2-4) in1 of1 n(6)])
    have v2: "same_view (dstb_machine s1 i) (dstb_machine s' i)"
      using h by (intro prog_same_view) (simp add: heard_def n(8) set_net_def)
    have "meeting X Y i k w s'" if "node_op net i = op_val COP2_MSG_OP_IN"
      using n(9) s(2-4) that h net_steps_offers [OF n(7,2) s(2,3) of1 that]
      by (auto simp: meeting_def heard_def n(8) set_net_def net_counts_sel)
    then show ?thesis using same_view_trans [OF v1 v2] n(9) h
      by (auto simp: heard_def n(8) set_net_def net_counts_sel)
  qed
qed

text \<open>The rounds that a node spends in its input.\<close>

inductive awaits :: "nat \<Rightarrow> nat \<Rightarrow> (u64 \<Rightarrow> nat \<Rightarrow> u32 option) \<Rightarrow> nat \<Rightarrow> dstb \<Rightarrow> dstb \<Rightarrow> bool" for X Y al i where
  over: "node_op (ds_net s) i \<noteq> op_val COP2_MSG_OP_IN \<Longrightarrow> awaits X Y al i s s"
| round: "\<lbrakk>node_op (ds_net s) i = op_val COP2_MSG_OP_IN; obedient X Y s; dstb_round al s = Some (0, s1);
     awaits X Y al i s1 s2\<rbrakk> \<Longrightarrow> awaits X Y al i s s2"

lemma awaits_meeting:
  assumes "awaits X Y al i s s'" "meeting X Y i k w s"
  shows "same_view (dstb_machine s i) (dstb_machine s' i) \<and> sound X Y s' \<and>
    node_op (ds_net s') i = op_val COP2_MSG_OP_NONE \<and> get_sel COP2_MSG_DATA (net_nd (ds_net s') ! i) = w"
  using assms
proof (induction rule: awaits.induct)
  case (over s)
  then show ?case by (simp add: meeting_def)
next
  case (round s s1 s2)
  from round_meets [OF round.prems round.hyps(2,3)]
  consider "same_view (dstb_machine s i) (dstb_machine s1 i)" "meeting X Y i k w s1"
    | "same_view (dstb_machine s i) (dstb_machine s1 i)" "sound X Y s1" "node_op (ds_net s1) i = op_val COP2_MSG_OP_NONE"
      "get_sel COP2_MSG_DATA (net_nd (ds_net s1) ! i) = w" by blast
  then show ?case
  proof cases
    case 1
    then show ?thesis using round.IH by (auto intro: same_view_trans)
  next
    case 2
    from round.hyps(4) 2(3) have "s2 = s1" by cases simp_all
    with 2 show ?thesis by simp
  qed
qed

end
