(* ===== verification/Letter.thy ===== *)
theory Letter
  imports CommNet
begin

text \<open>
  A system of two nodes on which the properties of the communication library are shown to apply: the
  first has called \<open>C2_output\<close> with 7 for the second, and its message has arrived; the second waits as
  its program says.
\<close>

section \<open>The first node\<close>

definition writer :: machine where
  "writer = boot_regs ((replicate 32 0)[4 := 1, 5 := 7]) [0x48840000, 0x48850001, 0x4A000003, 0x03E00008, 0]"

definition decoded_c2 :: "u32 \<Rightarrow> Decoder" where
  "decoded_c2 n = \<lparr>dec_raw = 0x4A000000 OR n, dec_sign = 0x4A000000, dec_imm = ucast n,
     dec_ismem = False, dec_isjump = False, dec_sa = 0, dec_rd = 0, dec_rs = 16, dec_rt = 0,
     dec_idx = 0x8000000 OR push_bit 2 n, dec_npc = 0, dec_stall = False, dec_rmwfail = False, dec_sel = n\<rparr>"

text \<open>When it has asked, with \<open>st\<close> in its status register.\<close>

definition written :: "u32 \<Rightarrow> machine" where
  "written st = writer\<lparr>m_cpu := cpu_zero\<lparr>cpu_running := True, cpu_pc := 12,
     cpu_gpr := (replicate 32 0)[4 := 1, 5 := 7], cpu_dec := decoded_c2 3, cpu_cop2 := [[1, 7, st, 0, 0, 0]],
     cpu_perfct := perfct0\<lparr>pf_cycle := 3, pf_nout := 1, pf_waitout := 1\<rparr>\<rparr>\<rparr>"

lemma cycles_writer: "cycles 3 writer = Some (written 2)"
  by code_simp

lemma enters_writer: "enters writer C2_output"
  unfolding writer_def routine_words [symmetric] using enters_boot [of C2_output "[]"] by (simp add: C2_output_def)

lemma wf_written: "wf_machine (written st)"
proof -
  have "whole_words (m_mem writer)" using enters_writer by (simp add: enters_def wf_machine_def)
  then show ?thesis
    by (simp add: wf_machine_def written_def wf_cpu_def cpu_zero_def perfct0_def COP2_NREG_def COP2_NSEL_def NCOUNTERS_def N_GPR_def)
      (simp add: writer_def boot_regs_def boot_def ctl_ok_def memctl0_def)
qed

section \<open>The system\<close>

lemma letter_net_nodes:
  "net_nd letter_net = [set_sel COP2_MSG_ST 6 (asking COP2_MSG_OP_OUT 1 7 0), asking COP2_MSG_OP_IN 0 0 0]"
  by (simp add: letter_net_def set_mbox_def upd_node_def pair_net_node)

text \<open>The second node without a request, and with the processor and the memory of \<open>m\<close>.\<close>

definition desk_net :: Net where
  "desk_net = upd_node 1 (set_sel COP2_MSG_ST 0) letter_net"

definition letter_with :: "machine \<Rightarrow> dstb" where
  "letter_with m = \<lparr>ds_net = upd_node 0 (put_cpu (written 6)) (upd_node 1 (put_cpu m) letter_net),
     ds_ctl = m_ctl m, ds_io = m_io m\<rparr>"

lemma two_nodes: "i < 1 * 2 \<longleftrightarrow> i = 0 \<or> i = 1" for i :: nat
  by auto

lemma letter_nodes:
  "net_nd (ds_net (letter_with m)) = [put_cpu (written 6) (net_nd letter_net ! 0), put_cpu m (net_nd letter_net ! 1)]"
  by (simp add: letter_with_def upd_node_def letter_net_nodes)

lemma letter_machine: "dstb_machine (letter_with m) 1 = m"
  by (simp add: dstb_machine_def letter_nodes put_cpu_def) (simp add: letter_with_def)

lemma letter_sender:
  "cpu_cop2 (nd_cpu (net_nd letter_net ! 0)) = [[1, 7, 6, 0, 0, 0]]" "wf_cpu (nd_cpu (net_nd letter_net ! 1))"
proof -
  have wf: "wf_cpu (nd_cpu (asking COP2_MSG_OP_OUT 1 7 0))" "wf_cpu (nd_cpu (asking COP2_MSG_OP_IN 0 0 0))"
    using quiet_asking by (simp_all add: quiet_node_def)
  then show "cpu_cop2 (nd_cpu (net_nd letter_net ! 0)) = [[1, 7, 6, 0, 0, 0]]" "wf_cpu (nd_cpu (net_nd letter_net ! 1))"
    by (simp_all add: letter_net_nodes asking_def set_sel_def CPU_mtc2_def COP2_NREG_def COP2_NSEL_def)
qed

lemma letter_ops:
  "node_op (ds_net (letter_with m)) 0 = op_val COP2_MSG_OP_OUT" "node_corr (ds_net (letter_with m)) 0 = 1"
  "node_op (ds_net (letter_with m)) 1 = link_op m"
  by (simp_all add: node_op_def node_corr_def get_sel_link letter_nodes put_cpu_def link_op_def)
    (simp_all add: written_def COP2_MSG_ST_OP_def)

lemma desk_net_ok:
  "net_ok 1 2 desk_net" "rendezvous (1 * 2) desk_net" "payload desk_net" "net_msgs desk_net = {#strip letter#}"
  "node_op desk_net 1 = op_val COP2_MSG_OP_NONE"
proof -
  have len: "1 < length (net_nd letter_net)" by (simp add: letter_net_nodes)
  have p: "private_change (1 * 2) (set_sel COP2_MSG_ST 0) (net_nd letter_net ! 1)"
    using letter_sender(2) net_ok_node(2) [OF letter_net_facts(1), of 1] by (auto simp: private_change_def net_simps wf_set_sel)
  have step: "net_step (1 * 2) letter_net desk_net" unfolding desk_net_def
    by (rule private_step [OF _ _ p]) (simp_all add: letter_net_facts(4) del: One_nat_def)
  note f = letter_net_facts
  show "net_ok 1 2 desk_net" by (rule net_step_ok [OF step f(1)])
  show "rendezvous (1 * 2) desk_net" by (rule net_step_rendezvous [OF step f(1,2)])
  show "payload desk_net" by (rule net_step_payload [OF step f(1-3)])
  show "net_msgs desk_net = {#strip letter#}"
    unfolding desk_net_def using private_msgs [OF net_okD(1) [OF f(1)] _ p] f(8) by simp
  show "node_op desk_net 1 = op_val COP2_MSG_OP_NONE"
    unfolding desk_net_def using len letter_sender(2) by (simp add: net_simps op_NONE del: One_nat_def)
qed

lemma letter_sound:
  assumes "wf_machine m" "link_op m \<noteq> op_val COP2_MSG_OP_OUT" "COP2_MSG_ST_SENT (link_reg (m_cpu m) COP2_MSG_ST) = 0"
  shows "sound 1 2 (letter_with m)" "net_msgs (ds_net (letter_with m)) = {#strip letter#}"
proof -
  let ?s = "letter_with m"
  have desk: "net_nd desk_net = [net_nd letter_net ! 0, set_sel COP2_MSG_ST 0 (net_nd letter_net ! 1)]"
    by (simp add: desk_net_def upd_node_def letter_net_nodes)
  have two: "i < length (net_nd desk_net) \<longleftrightarrow> i = 0 \<or> i = 1" for i by (auto simp: desk)
  have turn: "turn_keeps desk_net (ds_net ?s)" unfolding turn_keeps_def two
    using desk_net_ok(5) letter_sender(1)
    by (auto simp: letter_nodes desk put_cpu_def written_def net_simps) (simp_all add: letter_with_def desk_net_def upd_node_def letter_net_nodes)
  have wf: "dstb_wf ?s" using wf_written [of 6] assms(1)
    by (simp add: dstb_wf_def letter_nodes put_cpu_def wf_machine_def) (simp add: letter_with_def)
  have cpu: "wf_cpu (nd_cpu (net_nd (ds_net ?s) ! i))" if "i < 1 * 2" for i
    using wf_written [of 6] assms(1) that unfolding two_nodes by (auto simp: letter_nodes put_cpu_def wf_machine_def)
  note n = turn_net [OF turn desk_net_ok(1) cpu]
  have quiet: "\<not> node_sent (ds_net ?s) i" if "i < 1 * 2" "node_op desk_net i = op_val COP2_MSG_OP_NONE" for i
  proof -
    have "node_op desk_net 0 = op_val COP2_MSG_OP_OUT"
      by (simp add: node_op_def desk get_sel_link letter_sender(1) COP2_MSG_ST_OP_def)
    then have "i = 1" using that unfolding two_nodes by auto
    then show ?thesis using assms(3) by (simp add: node_sent_def get_sel_link letter_nodes put_cpu_def)
  qed
  note r = turn_rendezvous [OF turn desk_net_ok(1) n(2) desk_net_ok(2,3) quiet]
  show "sound 1 2 ?s" using wf n(1) r by (simp add: sound_def)
  show "net_msgs (ds_net ?s) = {#strip letter#}" using n(2) desk_net_ok(4) by simp
qed

text \<open>The first node waits for the acknowledgement.\<close>

lemma letter_obedient:
  assumes "sound 1 2 (letter_with m)" "link_op m \<noteq> 0" "link_op m = op_val COP2_MSG_OP_IN \<Longrightarrow> node_corr (ds_net (letter_with m)) 1 < 2"
    "link_op m \<noteq> op_val COP2_MSG_OP_OUT"
    "link_op m = op_val COP2_MSG_OP_ALT \<Longrightarrow> ready_clauses (ds_net (letter_with m)) (Mem_getptr (m_mem m) (link_reg (m_cpu m) COP2_MSG_CORR)) 1 \<noteq> None"
  shows "obedient 1 2 (letter_with m)"
proof (rule waiting_obedient [OF assms(1)])
  have "nd_mem (net_nd (ds_net (letter_with m)) ! 1) = m_mem m" "get_sel COP2_MSG_CORR (net_nd (ds_net (letter_with m)) ! 1) = link_reg (m_cpu m) COP2_MSG_CORR"
    by (simp_all add: letter_nodes put_cpu_def get_sel_link)
  then show "commands_ok (1 * 2) (ds_net (letter_with m))"
    using assms(3-5) letter_ops unfolding commands_ok_def two_nodes by auto
  show "node_op (ds_net (letter_with m)) i \<noteq> 0" if "i < 1 * 2" for i
    using letter_ops [of m] assms(2) that unfolding two_nodes by auto
qed

lemma letter_sender_waits: "m_ctl m = memctl0 \<Longrightarrow> m_io m = m_io writer \<Longrightarrow> dstb_machine (letter_with m) 0 = written 6"
  by (simp add: dstb_machine_def letter_nodes put_cpu_def)
    (simp add: letter_with_def written_def writer_def boot_regs_def boot_def)

end
