(* ===== verification/CommRun.thy ===== *)
theory CommRun
  imports Letter
begin

text \<open>
  Message passing from the machine code of one processor to the machine code of another one:
  what the caller of \<open>C2_output\<close> hands over, the caller of \<open>C2_input\<close> gets.
\<close>

section \<open>End to end\<close>

text \<open>A processor that goes on waiting as \<open>m\<close>, which has just asked, does: its program and its request
  are as they were.\<close>

definition still_waits :: "machine \<Rightarrow> machine \<Rightarrow> bool" where
  "still_waits m m' \<longleftrightarrow> same_view m m' \<and> link_op m' = link_op m \<and>
     link_reg (m_cpu m') COP2_MSG_CORR = link_reg (m_cpu m) COP2_MSG_CORR \<and>
     link_reg (m_cpu m') COP2_MSG_DATA = link_reg (m_cpu m) COP2_MSG_DATA \<and>
     link_reg (m_cpu m') COP2_MSG_NCL = link_reg (m_cpu m) COP2_MSG_NCL"

lemma node_corr_link: "node_corr (ds_net s) i = unat (link_reg (m_cpu (dstb_machine s i)) COP2_MSG_CORR)"
  by (simp add: node_corr_def get_sel_link dstb_machine_def)

text \<open>The request of each routine, as the network sees it.\<close>

lemma output_request:
  assumes "enters m C2_output" "cycles 3 m = Some m'" "still_waits m' (dstb_machine s k)"
  shows "node_op (ds_net s) k = op_val COP2_MSG_OP_OUT" "node_corr (ds_net s) k = unat (regs (m_cpu m) 4)"
    "get_sel COP2_MSG_DATA (net_nd (ds_net s) ! k) = regs (m_cpu m) 5"
proof -
  obtain m1 where "goes m 3 (regs (m_cpu m)) (cpu_pc (m_cpu m) + 12)
    ((cpu_cop2 (m_cpu m) ! 0)[0 := regs (m_cpu m) 4, 1 := regs (m_cpu m) 5, 2 := op_val COP2_MSG_OP_OUT]) m1"
    using C2_output_asks [OF assms(1)] by blast
  note g = goesD [OF this]
  have "m1 = m'" using g(1) assms(2) by simp
  then have "link_op m' = op_val COP2_MSG_OP_OUT" "link_reg (m_cpu m') COP2_MSG_CORR = regs (m_cpu m) 4"
    "link_reg (m_cpu m') COP2_MSG_DATA = regs (m_cpu m) 5"
    using g(6,8) op_val_st [of COP2_MSG_OP_OUT] by (simp_all add: link_op_def)
  then show "node_op (ds_net s) k = op_val COP2_MSG_OP_OUT" "node_corr (ds_net s) k = unat (regs (m_cpu m) 4)"
    "get_sel COP2_MSG_DATA (net_nd (ds_net s) ! k) = regs (m_cpu m) 5"
    using assms(3) by (simp_all add: still_waits_def node_link_op node_corr_link)
      (simp add: get_sel_link dstb_machine_def)
qed

lemma input_request:
  assumes "enters m C2_input" "cycles 2 m = Some m'" "still_waits m' (dstb_machine s i)"
  shows "node_op (ds_net s) i = op_val COP2_MSG_OP_IN" "node_corr (ds_net s) i = unat (regs (m_cpu m) 4)"
    "regs (m_cpu (dstb_machine s i)) = regs (m_cpu m)" "cpu_pc (m_cpu (dstb_machine s i)) = cpu_pc (m_cpu m) + 8"
    "cpu_running (m_cpu (dstb_machine s i))" "m_mem (dstb_machine s i) = m_mem m"
proof -
  obtain m1 where "goes m 2 (regs (m_cpu m)) (cpu_pc (m_cpu m) + 8)
    ((cpu_cop2 (m_cpu m) ! 0)[0 := regs (m_cpu m) 4, 2 := op_val COP2_MSG_OP_IN]) m1"
    using C2_input_asks [OF assms(1)] by blast
  note g = goesD [OF this]
  have m1: "m1 = m'" using g(1) assms(2) by simp
  then have "link_op m' = op_val COP2_MSG_OP_IN" "link_reg (m_cpu m') COP2_MSG_CORR = regs (m_cpu m) 4"
    using g(6,8) op_val_st [of COP2_MSG_OP_IN] by (simp_all add: link_op_def)
  then show "node_op (ds_net s) i = op_val COP2_MSG_OP_IN" "node_corr (ds_net s) i = unat (regs (m_cpu m) 4)"
    using assms(3) by (simp_all add: still_waits_def node_link_op node_corr_link)
  show "regs (m_cpu (dstb_machine s i)) = regs (m_cpu m)" "cpu_pc (m_cpu (dstb_machine s i)) = cpu_pc (m_cpu m) + 8"
    "cpu_running (m_cpu (dstb_machine s i))" "m_mem (dstb_machine s i) = m_mem m"
    using assms(3) g(3-5,7) m1 by (simp_all add: still_waits_def same_view_def)
qed

lemma node_number: "net_ok X Y net \<Longrightarrow> i < X * Y \<Longrightarrow> unat (of_nat i :: u32) = i"
  using meshD(3) [OF net_okD(1)] by (fastforce simp: unsigned_of_nat intro!: take_bit_nat_eq_self)

text \<open>C7:
  Message passing end to end, from machine code to machine code: one node has called \<open>C2_output\<close> for a second
  one with the datum in \<open>A1\<close>, the second one has called \<open>C2_input\<close> for the first, and both wait, the datum
  not being acknowledged yet. Then when the input is over, after any number of rounds in which the other
  nodes do what they like within the protocol, two more cycles of the second processor return to the
  caller of \<open>C2_input\<close> with that datum in \<open>V0\<close>, and all other registers as they were at the call.\<close>

theorem C2_input_returns_what_C2_output_sends:
  assumes "sound X Y s" and "i < X * Y" "k < X * Y" "i \<noteq> k"
    and "enters mk C2_output" "regs (m_cpu mk) 4 = of_nat i" "cycles 3 mk = Some mk'" "still_waits mk' (dstb_machine s k)"
    and "enters mi C2_input" "regs (m_cpu mi) 4 = of_nat k" "cycles 2 mi = Some mi'" "still_waits mi' (dstb_machine s i)"
    and "\<And>m. m \<in># net_msgs (ds_net s) \<Longrightarrow> concerns k i m \<Longrightarrow> \<not> msg_ack m"
    and "awaits X Y al i s s'"
  shows "\<exists>m' l. goes (dstb_machine s' i) 2 ((regs (m_cpu mi))(2 := regs (m_cpu mk) 5)) (ucast (regs (m_cpu mi) 31)) l m'"
proof -
  let ?M = "dstb_machine s' i" and ?w = "regs (m_cpu mk) 5"
  have ok: "net_ok X Y (ds_net s)" using assms(1) by (simp add: sound_def)
  note out = output_request [OF assms(5,7,8)] and inp = input_request [OF assms(9,11,12)]
  have "meeting X Y i k ?w s"
    using assms(1-4,13) out inp(1,2) unfolding meeting_def offers_def assms(6,10)
    by (simp add: node_number [OF ok])
  note a = awaits_meeting [OF assms(14) this]
  have v: "regs (m_cpu ?M) = regs (m_cpu mi)" "cpu_pc (m_cpu ?M) = cpu_pc (m_cpu mi) + 8" "cpu_running (m_cpu ?M)"
    "m_mem ?M = m_mem mi"
    using a inp(3-6) by (simp_all add: same_view_def)
  have "dstb_wf s'" "i < length (net_nd (ds_net s'))"
    using a assms(2) meshD(7) [OF net_okD(1)] by (fastforce simp: sound_def)+
  then have wf: "wf_machine ?M" by (rule dstb_wf_machine)
  have op: "link_op ?M = 0" and d: "link_reg (m_cpu ?M) COP2_MSG_DATA = ?w"
    using a by (simp_all add: node_link_op get_sel_link dstb_machine_def)
  have "code_at (m_mem ?M) (cpu_pc (m_cpu mi)) C2_input" using assms(9) v(4) by (simp add: enters_def)
  from C2_input_returns [OF this v(2) wf v(3) op] d v(1) show ?thesis by auto
qed

text \<open>In the system of Letter the second node has called \<open>C2_input\<close> for the first.\<close>

lemma writer_waits:
  assumes "m_ctl m = memctl0" "m_io m = m_io writer"
  shows "still_waits (written 2) (dstb_machine (letter_with m) 0)"
  unfolding letter_sender_waits [OF assms]
  by (simp add: still_waits_def same_view_def written_def regs_def fun_eq_iff) (simp add: link_op_def COP2_MSG_ST_OP_def)

lemma letter_not_acknowledged:
  "net_msgs net = {#strip letter#} \<Longrightarrow> m \<in># net_msgs net \<Longrightarrow> \<not> msg_ack m"
  by (simp add: strip_def letter_def)

definition reader :: machine where
  "reader = boot_regs (replicate 32 0) [0x48840000, 0x4A000002, 0x48020001, 0x03E00008, 0]"

definition asked :: machine where
  "asked = reader\<lparr>m_cpu := cpu_zero\<lparr>cpu_running := True, cpu_pc := 8, cpu_dec := decoded_c2 2,
     cpu_cop2 := [[0, 0, 1, 0, 0, 0]], cpu_perfct := perfct0\<lparr>pf_cycle := 2, pf_nin := 1, pf_waitin := 1\<rparr>\<rparr>\<rparr>"

lemma cycles_reader: "cycles 2 reader = Some asked"
  by code_simp

lemma reader_round:
  "map_option (\<lambda>(r, t). (r, node_op (ds_net t) 1)) (dstb_round (\<lambda>_ _. Some 5) (letter_with asked)) = Some (0, 0)"
  by code_simp

lemma enters_reader: "enters reader C2_input"
  unfolding reader_def routine_words [symmetric] using enters_boot [of C2_input "[]"] by (simp add: C2_input_def)

lemma wf_asked: "wf_machine asked"
proof -
  have "whole_words (m_mem reader)" using enters_reader by (simp add: enters_def wf_machine_def)
  then show ?thesis
    by (simp add: wf_machine_def asked_def wf_cpu_def cpu_zero_def perfct0_def COP2_NREG_def COP2_NSEL_def NCOUNTERS_def N_GPR_def)
      (simp add: reader_def boot_regs_def boot_def ctl_ok_def memctl0_def)
qed

lemma asked_parts:
  "link_op asked = op_val COP2_MSG_OP_IN" "COP2_MSG_ST_SENT (link_reg (m_cpu asked) COP2_MSG_ST) = 0"
  "link_reg (m_cpu asked) COP2_MSG_CORR = 0" "m_ctl asked = memctl0" "m_io asked = m_io writer"
  by (simp_all add: asked_def link_op_def COP2_MSG_ST_OP_def COP2_MSG_ST_SENT_def)
    (simp_all add: reader_def writer_def boot_regs_def boot_def)

theorem C2_input_returns_what_C2_output_sends_witness:
  "\<exists>s' m' l. goes (dstb_machine s' 1) 2 ((\<lambda>_. 0)(2 := 7)) 0 l m'"
proof -
  let ?s = "letter_with asked"
  have sound: "sound 1 2 ?s" "net_msgs (ds_net ?s) = {#strip letter#}"
    using letter_sound [OF wf_asked] asked_parts(1,2) by simp_all
  have op: "node_op (ds_net ?s) 1 = op_val COP2_MSG_OP_IN" "node_corr (ds_net ?s) 1 = 0"
    using asked_parts(1,3) by (simp_all only: letter_ops node_corr_link letter_machine unsigned_0)
  have "obedient 1 2 ?s" using letter_obedient [OF sound(1)] asked_parts(1) op(2) by simp
  moreover obtain s' where s': "dstb_round (\<lambda>_ _. Some 5) ?s = Some (0, s')" "node_op (ds_net s') 1 = 0"
    using reader_round by auto
  ultimately have wait: "awaits 1 2 (\<lambda>_ _. Some 5) 1 ?s s'"
    by (intro awaits.round [OF op(1) _ _ awaits.over]) simp_all
  have self: "still_waits asked (dstb_machine ?s 1)" by (simp only: letter_machine) (simp add: still_waits_def)
  have zero: "regs (m_cpu reader) = (\<lambda>_. 0)" using unat_reg_less by (simp add: reader_def fun_eq_iff)
  have data: "regs (m_cpu writer) 4 = of_nat 1" "regs (m_cpu writer) 5 = 7" "regs (m_cpu reader) 4 = of_nat 0"
    by (simp_all add: writer_def reader_def)
  show ?thesis
    using C2_input_returns_what_C2_output_sends [OF sound(1) _ _ _ enters_writer data(1) cycles_writer writer_waits [OF asked_parts(4,5)]
        enters_reader data(3) cycles_reader self letter_not_acknowledged [OF sound(2)] wait] data(2) zero
    by auto
qed

end
