(* ===== verification/CommAlt.thy ===== *)
theory CommAlt
  imports CommNet
begin

text \<open>
  A node that waits in an alternative: what a cycle of the network and a round of the system make of it.
  It goes on as it was, or the default clause or the message of a clause has ended it.
\<close>

section \<open>What an alternative takes\<close>

lemma prog_same_K1:
  "prog_same nd nd' \<Longrightarrow> prog_same (set_K1 v nd) (set_K1 v nd')"
  "prog_same (set_K1 w nd) nd' \<Longrightarrow> prog_same (set_K1 v nd) (set_K1 v nd')"
  "prog_same nd (nd'\<lparr>nd_mbox_start := b\<rparr>) = prog_same nd nd'"
  by (simp_all add: prog_same_def set_K1_def)

text \<open>The clauses that the alternative of a node names.\<close>

definition clauses_of :: "Net \<Rightarrow> nat \<Rightarrow> u32 list option" where
  "clauses_of net i =
     ready_clauses net (Mem_getptr (nd_mem (net_nd net ! i)) (get_sel COP2_MSG_CORR (net_nd net ! i))) i"

lemma clauses_of_same: "same_command (net_nd net ! i) (net_nd net' ! i) \<Longrightarrow> clauses_of net' i = clauses_of net i"
  unfolding clauses_of_def same_command_def by (metis ready_clauses_same)

lemma clauses_of_count: "clauses_of (net\<lparr>net_cycle := c\<rparr>) i = clauses_of net i"
  by (rule clauses_of_same) (simp add: same_command_def)

text \<open>The alternative is over: the default clause, or the message in the mailbox of a clause.\<close>

definition chose :: "nat \<Rightarrow> nat \<Rightarrow> u32 list \<Rightarrow> Net \<Rightarrow> Net \<Rightarrow> bool" where
  "chose N i cls net net' \<longleftrightarrow> node_op net' i = op_val COP2_MSG_OP_NONE \<and>
     (\<exists>v. prog_same (set_K1 v (net_nd net ! i)) (net_nd net' ! i) \<and>
       (v = -1 \<and> sint (last cls) < 0 \<or>
        (\<exists>k<N. \<exists>m. v = of_nat k \<and> candidate net i cls k \<and> box net i k = Some m \<and> \<not> msg_ack m \<and>
           get_sel COP2_MSG_DATA (net_nd net' ! i) = msg_data m)))"

text \<open>Or it goes on.\<close>

definition tries :: "nat \<Rightarrow> Net \<Rightarrow> Net \<Rightarrow> bool" where
  "tries i net net' \<longleftrightarrow> prog_same (net_nd net ! i) (net_nd net' ! i) \<and> node_op net' i = op_val COP2_MSG_OP_ALT"

lemma tries_or_chose_mono:
  assumes "tries i net1 net2 \<or> chose N i cls net1 net2" "net_nd net1 ! i = net_nd net ! i" "net_nd net' ! i = net_nd net2 ! i"
    "\<And>k m. box net1 i k = Some m \<Longrightarrow> box net i k = Some m"
  shows "tries i net net' \<or> chose N i cls net net'"
  using assms by (simp add: tries_def chose_def node_op_def candidate_def) blast

lemma not_acknowledged:
  assumes "net_ok X Y net" "rendezvous (X * Y) net" "i < X * Y" "k < X * Y" "node_op net i \<noteq> op_val COP2_MSG_OP_OUT"
    "box net i k = Some m"
  shows "\<not> msg_ack m" "i \<noteq> k"
proof -
  note b = boxes_okD [OF net_okD(3) [OF assms(1)] assms(3,4,6)]
  show ik: "i \<noteq> k" using b by (auto simp: msg_ok_def word_unat_eq_iff)
  have "\<not> sending net i k" using assms(5) by (simp add: sending_def)
  then have "flight net i k = 0" using rendezvousD [OF assms(2-4) ik] by simp
  then show "\<not> msg_ack m" using flight_pos [OF box_in_net [OF net_okD(1) [OF assms(1)] assms(3,4,6)], of i k] b
    by (auto simp: concerns_def strip_def)
qed

lemma prepared_node:
  assumes "mesh X Y net" "i < X * Y"
  shows "net_nd (turn_to i k (with_default i cls net)) ! i =
    (if sint (last cls) < 0 then default_change (net_nd net ! i) else net_nd net ! i)
      \<lparr>nd_mbox_start := of_nat ((k + 1) mod unat (net_size net))\<rparr>"
  using assms meshD(7) [OF assms(1)] by (simp add: turn_to_def with_default_def net_simps)

lemma operate_chooses:
  assumes "net_ok X Y net" "rendezvous (X * Y) net" "i < X * Y" "node_op net i = op_val COP2_MSG_OP_ALT"
    "clauses_of net i = Some cls" "operate net i al = Some (r, net')"
  shows "tries i net net' \<or> chose (X * Y) i cls net net'"
proof -
  note mesh = net_okD(1) [OF assms(1)]
  note wf = mesh_node(1) [OF mesh assms(3)]
  have out: "node_op net i \<noteq> op_val COP2_MSG_OP_OUT" using assms(4) by simp
  let ?base = "Mem_getptr (nd_mem (net_nd net ! i)) (get_sel COP2_MSG_CORR (net_nd net ! i))"
  define s where "s = unat (nd_mbox_start (net_nd net ! i))"
  have op: "alt net ?base i al = Some (r, net')"
    using assms(4,6) by (simp add: operate_def Let_def node_op_def)
  have cls: "ready_clauses net ?base i = Some cls" using assms(5) by (simp add: clauses_of_def)
  note op = op [unfolded alt_unfold [OF mesh assms(3)] cls Let_def option.case, folded s_def]
  have stay: ?thesis if "net' = net" using that assms(4) by (simp add: tries_def)
  have prep: ?thesis if "net' = turn_to i k (with_default i cls net)" for k
  proof (cases "sint (last cls) < 0")
    case True
    then show ?thesis unfolding that
      by (simp add: chose_def node_op_def prepared_node [OF mesh assms(3)] default_change_def prog_same_K1(3)
          net_simps wf wf_set_K1 op_NONE exI [where x = "- 1"])
  next
    case False
    then show ?thesis unfolding that using assms(4)
      by (simp add: tries_def node_op_def prepared_node [OF mesh assms(3)] prog_same_K1(3) net_simps)
  qed
  show ?thesis
  proof (cases "get_sel COP2_MSG_NCL (net_nd net ! i) = 0")
    case True
    then show ?thesis using op by (intro stay) simp
  next
    case ncl: False
    show ?thesis
    proof (cases "find (candidate net i cls) (round_robin (X * Y) s)")
      case None
      then show ?thesis using op ncl by (intro prep [of s]) simp
    next
      case (Some k)
      then have k: "k < X * Y" "candidate net i cls k"
        using set_round_robin [OF meshD(4) [OF mesh], of k s] by (auto simp: find_Some_iff)
      then obtain m where b: "box net i k = Some m" by (auto simp: candidate_def)
      let ?p = "turn_to i k (with_default i cls net)"
      note p = alt_prepare(2,3) [OF assms(1,3) out k(1), of cls]
      have b2: "box ?p i k = Some m" by (simp add: box_prepared b)
      show ?thesis
      proof (cases rule: receive_steps [OF p(1) assms(3) k(1) b2 p(2), of al])
        case (3 g)
        let ?q = "push i LINK_OUT (way ?p i (msg_from m)) (answer_of i g m) ?p"
        have N: "i < length (net_nd ?p)" using meshD(7) [OF net_okD(1) [OF p(1)]] assms(3) by simp
        have wfp: "wf_cpu (nd_cpu (net_nd ?p ! i))" by (rule mesh_node(1) [OF net_okD(1) [OF p(1)] assms(3)])
        have net': "net' = upd_node i (set_K1 (of_nat k)) (set_mbox i k None (upd_node i (take_msg m) ?q))"
          using op ncl Some b 3 by simp
        have nd: "net_nd net' ! i = set_K1 (of_nat k) (take_msg m (upd_link LINK_OUT (way ?p i (msg_from m)) (\<lambda>q. q @ [answer_of i g m]) (net_nd ?p ! i)))"
          unfolding net' using N by (simp add: push_def net_simps)
        have "prog_same (set_K1 (of_nat k) (net_nd net ! i)) (net_nd net' ! i)"
        proof (cases "sint (last cls) < 0")
          case True
          then show ?thesis unfolding nd prepared_node [OF mesh assms(3)]
            by (intro prog_same_K1(2) [where w = "- 1"]) (simp add: default_change_def prog_same_K1(3))
        next
          case False
          then show ?thesis unfolding nd prepared_node [OF mesh assms(3)]
            by (intro prog_same_K1(1)) (simp add: prog_same_K1(3))
        qed
        moreover have "node_op net' i = op_val COP2_MSG_OP_NONE" "get_sel COP2_MSG_DATA (net_nd net' ! i) = msg_data m"
          unfolding node_op_def nd using wfp by (simp_all add: net_simps op_NONE take_msg_def Let_def wf_set_sel)
        ultimately show ?thesis
          using k b not_acknowledged(1) [OF assms(1-3) k(1) out b] unfolding chose_def by blast
      qed (use op ncl Some b in \<open>auto intro!: prep\<close>)
    qed
  qed
qed

lemma operate_all_chooses:
  assumes "operate_all js al net = Some (r, net')" "distinct js" "set js \<subseteq> {..<X * Y}"
    "net_ok X Y net" "commands_ok (X * Y) net" "rendezvous (X * Y) net"
    "i < X * Y" "node_op net i = op_val COP2_MSG_OP_ALT" "clauses_of net i = Some cls"
  shows "tries i net net' \<or> chose (X * Y) i cls net net'"
  using assms(1-6,8-)
proof (induction js arbitrary: net)
  case Nil
  then show ?case by (simp add: tries_def)
next
  case (Cons j js)
  then have j: "j < X * Y" "j \<notin> set js" by auto
  obtain r1 net1 where o: "operate net j (al j) = Some (r1, net1)" "net_steps (X * Y) net net1"
    using operate_steps [OF Cons.prems(4) j(1) Cons.prems(5)] by blast
  have rest: "net' = net1 \<or> operate_all js al net1 = Some (r, net')"
    using Cons.prems(1) o(1) by (auto split: if_splits)
  show ?case
  proof (cases "j = i")
    case True
    have "tries i net net1 \<or> chose (X * Y) i cls net net1"
      using operate_chooses [OF Cons.prems(4,6) assms(7) Cons.prems(7,8)] o(1) True by blast
    moreover have "net_nd net' ! i = net_nd net1 ! i" using rest j(2) True only_operate_all by metis
    ultimately show ?thesis by - (rule tries_or_chose_mono [of i net net1], simp_all)
  next
    case False
    then have same: "net_nd net1 ! i = net_nd net ! i" using only_node [OF only_operate [OF o(1)]] by simp
    then have "clauses_of net1 i = clauses_of net i" by (intro clauses_of_same) simp
    then have alt1: "node_op net1 i = op_val COP2_MSG_OP_ALT" "clauses_of net1 i = Some cls"
      using Cons.prems(7,8) same by (simp_all add: node_op_def)
    note ok1 = net_steps_ok(1) [OF o(2) Cons.prems(4)] net_steps_ok(2) [OF o(2) Cons.prems(4,5)]
      net_steps_rendezvous [OF o(2) Cons.prems(4,6)]
    have "tries i net1 net' \<or> chose (X * Y) i cls net1 net'"
    proof (rule disjE [OF rest])
      assume "operate_all js al net1 = Some (r, net')"
      then show ?thesis using Cons.IH [OF _ _ _ ok1 alt1] Cons.prems(2,3) by simp
    qed (use alt1 in \<open>simp add: tries_def\<close>)
    then show ?thesis using same only_box [OF only_operate [OF o(1)]]
      by - (rule tries_or_chose_mono [of i net1 net'], simp_all)
  qed
qed

text \<open>A cycle of the network: the message that ends an alternative was on its way when the cycle began.\<close>

definition took :: "nat \<Rightarrow> nat \<Rightarrow> u32 list \<Rightarrow> Net \<Rightarrow> Net \<Rightarrow> bool" where
  "took N i cls net net' \<longleftrightarrow> node_op net' i = op_val COP2_MSG_OP_NONE \<and>
     (\<exists>v. prog_same (set_K1 v (net_nd net ! i)) (net_nd net' ! i) \<and>
       (v = -1 \<and> sint (last cls) < 0 \<or>
        (\<exists>k<N. \<exists>m. k \<noteq> i \<and> v = of_nat k \<and> k \<in> unat ` set cls \<and> strip m \<in># net_msgs net \<and> \<not> msg_ack m \<and>
           unat (msg_from m) = k \<and> unat (msg_to m) = i \<and> get_sel COP2_MSG_DATA (net_nd net' ! i) = msg_data m)))"

lemma chose_took:
  assumes "net_ok X Y net1" "rendezvous (X * Y) net1" "i < X * Y" "node_op net1 i \<noteq> op_val COP2_MSG_OP_OUT"
    "chose (X * Y) i cls net1 net'" "net_msgs net1 = net_msgs net" "prog_same (net_nd net ! i) (net_nd net1 ! i)"
  shows "took (X * Y) i cls net net'"
proof -
  obtain v where v: "node_op net' i = op_val COP2_MSG_OP_NONE" "prog_same (set_K1 v (net_nd net1 ! i)) (net_nd net' ! i)"
    "v = -1 \<and> sint (last cls) < 0 \<or>
        (\<exists>k<X * Y. \<exists>m. v = of_nat k \<and> candidate net1 i cls k \<and> box net1 i k = Some m \<and> \<not> msg_ack m \<and>
           get_sel COP2_MSG_DATA (net_nd net' ! i) = msg_data m)"
    using assms(5) unfolding chose_def by blast
  have p: "prog_same (set_K1 v (net_nd net ! i)) (net_nd net' ! i)"
    using prog_same_trans [OF prog_same_K1(1) [OF assms(7)] v(2)] .
  from v(3) show ?thesis
  proof (elim disjE exE conjE)
    fix k m assume k: "k < X * Y" "v = of_nat k" "candidate net1 i cls k" "box net1 i k = Some m" "\<not> msg_ack m"
      "get_sel COP2_MSG_DATA (net_nd net' ! i) = msg_data m"
    then have "k \<in> unat ` set cls" by (auto simp: candidate_def)
    moreover note not_acknowledged(2) [OF assms(1-3) k(1) assms(4) k(4)]
      boxes_okD(2,3) [OF net_okD(3) [OF assms(1)] assms(3) k(1,4)]
      box_in_net [OF net_okD(1) [OF assms(1)] assms(3) k(1,4)]
    ultimately show ?thesis using v(1) p k assms(6) unfolding took_def by metis
  qed (use v(1) p in \<open>auto simp: took_def\<close>)
qed

lemma tries_or_took_after:
  assumes "tries i net net2 \<or> took N i cls net net2" "prog_same (net_nd net2 ! i) (net_nd net' ! i)"
    "node_op net' i = node_op net2 i" "get_sel COP2_MSG_DATA (net_nd net' ! i) = get_sel COP2_MSG_DATA (net_nd net2 ! i)"
  shows "tries i net net' \<or> took N i cls net net'"
  using assms(1)
proof
  assume "tries i net net2"
  then show ?thesis using assms(2,3) by (auto simp: tries_def intro: prog_same_trans)
next
  assume "took N i cls net net2"
  then have "took N i cls net net'" unfolding took_def assms(3,4) using prog_same_trans [OF _ assms(2)] by blast
  then show ?thesis ..
qed

lemma Net_execute_chooses:
  assumes "net_ok X Y net" "commands_ok (X * Y) net" "rendezvous (X * Y) net"
    "i < X * Y" "node_op net i = op_val COP2_MSG_OP_ALT" "clauses_of net i = Some cls"
    "Net_execute al net = Some (r, net')"
  shows "tries i net net' \<or> took (X * Y) i cls net net'"
proof (rule Net_execute_phases [OF assms(1,2), of al])
  fix net1 q net2
  assume 1: "net_moves (X * Y) net net1" and 2: "operate_all [0..<X * Y] al net1 = Some (q, net2)" "net_steps (X * Y) net1 net2"
    and 3: "q = -1 \<Longrightarrow> Net_execute al net = Some (-1, net2)"
      "q \<noteq> -1 \<Longrightarrow> \<exists>net3. mfold (\<lambda>i. hop (of_nat i)) [0..<X * Y] net2 = Some net3 \<and> net_moves (X * Y) net2 net3 \<and>
       Net_execute al net = Some (0, net3)"
  note s1 = net_moves_steps [OF 1] and n1 = net_moves_node [OF 1 assms(1), where j = i]
  note ok1 = net_steps_ok(1) [OF s1 assms(1)] net_steps_ok(2) [OF s1 assms(1,2)] net_steps_rendezvous [OF s1 assms(1,3)]
  have op1: "node_op net1 i = op_val COP2_MSG_OP_ALT" using n1(2) assms(5) by (simp add: node_op_def)
  have "clauses_of net1 i = Some cls"
    using clauses_of_same [OF net_steps_same_command [OF s1 assms(1,4)]] assms(6) by simp
  moreover have "set [0..<X * Y] \<subseteq> {..<X * Y}" by auto
  ultimately have "tries i net1 net2 \<or> chose (X * Y) i cls net1 net2"
    using operate_all_chooses [OF 2(1) distinct_upt _ ok1 assms(4) op1] by blast
  then have h: "tries i net net2 \<or> took (X * Y) i cls net net2"
    using chose_took [OF ok1(1,3) assms(4) _ _ net_moves_msgs(2) [OF 1 assms(1)] n1(1), of cls net2] op1
      prog_same_trans [OF n1(1)] by (auto simp: tries_def)
  show ?thesis
  proof (cases "q = -1")
    case True
    then show ?thesis using 3(1) h assms(7) by simp
  next
    case False
    then obtain net3 where "net_moves (X * Y) net2 net3" "net' = net3" using 3(2) assms(7) by auto
    then have "prog_same (net_nd net2 ! i) (net_nd net' ! i)" "node_op net' i = node_op net2 i"
      "get_sel COP2_MSG_DATA (net_nd net' ! i) = get_sel COP2_MSG_DATA (net_nd net2 ! i)"
      using net_moves_node [OF _ net_steps_ok(1) [OF 2(2) ok1(1)], where net' = net3 and j = i] by (simp_all add: node_op_def)
    with h show ?thesis by (rule tries_or_took_after)
  qed
qed

section \<open>Rounds\<close>

text \<open>Node \<open>i\<close> waits in an alternative with the clauses \<open>cls\<close>.\<close>

definition choosing :: "nat \<Rightarrow> nat \<Rightarrow> nat \<Rightarrow> u32 list \<Rightarrow> dstb \<Rightarrow> bool" where
  "choosing X Y i cls s \<longleftrightarrow> sound X Y s \<and> \<not> mc_shared (ds_ctl s) \<and> i < X * Y \<and>
     node_op (ds_net s) i = op_val COP2_MSG_OP_ALT \<and> clauses_of (ds_net s) i = Some cls"

text \<open>A round from \<open>s\<close> to \<open>s'\<close> has answered it: K1 says that there was a default clause, or names a
  node of the clauses that was in its output to \<open>i\<close>, with the datum that \<open>i\<close> now has.\<close>

definition partner :: "nat \<Rightarrow> nat \<Rightarrow> u32 list \<Rightarrow> Net \<Rightarrow> u32 \<Rightarrow> u32 \<Rightarrow> bool" where
  "partner N i cls net v w \<longleftrightarrow> v = -1 \<and> sint (last cls) < 0 \<or>
     (\<exists>k<N. k \<noteq> i \<and> v = of_nat k \<and> k \<in> unat ` set cls \<and> node_op net k = op_val COP2_MSG_OP_OUT \<and>
        node_corr net k = i \<and> get_sel COP2_MSG_DATA (net_nd net ! k) = w)"

definition answered :: "nat \<Rightarrow> nat \<Rightarrow> u32 list \<Rightarrow> dstb \<Rightarrow> dstb \<Rightarrow> bool" where
  "answered N i cls s s' \<longleftrightarrow> node_op (ds_net s') i = op_val COP2_MSG_OP_NONE \<and>
     (\<exists>v. regs (m_cpu (dstb_machine s' i)) = (regs (m_cpu (dstb_machine s i)))(27 := v) \<and>
       cpu_pc (m_cpu (dstb_machine s' i)) = cpu_pc (m_cpu (dstb_machine s i)) \<and>
       cpu_running (m_cpu (dstb_machine s' i)) = cpu_running (m_cpu (dstb_machine s i)) \<and>
       m_mem (dstb_machine s' i) = m_mem (dstb_machine s i) \<and>
       partner N i cls (ds_net s) v (get_sel COP2_MSG_DATA (net_nd (ds_net s') ! i)))"

lemma took_answers:
  assumes "sound X Y s" "i < X * Y" "took (X * Y) i cls net1 net2" "net_msgs net1 = net_msgs (ds_net s)"
    "wf_cpu (nd_cpu (net_nd net1 ! i))"
  obtains v where "regs (nd_cpu (net_nd net2 ! i)) = (regs (nd_cpu (net_nd net1 ! i)))(27 := v)"
    "cpu_pc (nd_cpu (net_nd net2 ! i)) = cpu_pc (nd_cpu (net_nd net1 ! i))"
    "cpu_running (nd_cpu (net_nd net2 ! i)) = cpu_running (nd_cpu (net_nd net1 ! i))" "nd_mem (net_nd net2 ! i) = nd_mem (net_nd net1 ! i)"
    "partner (X * Y) i cls (ds_net s) v (get_sel COP2_MSG_DATA (net_nd net2 ! i))"
proof -
  have s: "net_ok X Y (ds_net s)" "rendezvous (X * Y) (ds_net s)" "payload (ds_net s)" using assms(1) by (simp_all add: sound_def)
  obtain v where v: "prog_same (set_K1 v (net_nd net1 ! i)) (net_nd net2 ! i)"
    "v = -1 \<and> sint (last cls) < 0 \<or>
        (\<exists>k<X * Y. \<exists>m. k \<noteq> i \<and> v = of_nat k \<and> k \<in> unat ` set cls \<and> strip m \<in># net_msgs net1 \<and> \<not> msg_ack m \<and>
           unat (msg_from m) = k \<and> unat (msg_to m) = i \<and> get_sel COP2_MSG_DATA (net_nd net2 ! i) = msg_data m)"
    using assms(3) unfolding took_def by blast
  have "partner (X * Y) i cls (ds_net s) v (get_sel COP2_MSG_DATA (net_nd net2 ! i))" using v(2)
  proof (elim disjE exE conjE)
    fix k m assume k: "k < X * Y" "k \<noteq> i" "v = of_nat k" "k \<in> unat ` set cls" "strip m \<in># net_msgs net1" "\<not> msg_ack m"
      "unat (msg_from m) = k" "unat (msg_to m) = i" "get_sel COP2_MSG_DATA (net_nd net2 ! i) = msg_data m"
    note m = k(5) [unfolded assms(4)]
    have "concerns k i (strip m)" unfolding concerns_strip using k(6-8) by (simp add: concerns_def)
    from in_flight_sending [OF s(2) m this k(1) assms(2) k(2)] payloadD [OF s(3) m k(6)]
    show ?thesis using k by (auto simp: partner_def sending_def)
  qed (simp add: partner_def)
  moreover have "length (cpu_gpr (nd_cpu (net_nd net1 ! i))) = 32" using wf_cpuD(1) [OF assms(5)] by simp
  then have "regs (nd_cpu (net_nd net2 ! i)) = (regs (nd_cpu (net_nd net1 ! i)))(27 := v)"
    using v(1) by (auto simp: prog_same_def set_K1_def regs_def fun_eq_iff nth_list_update word_unat_eq_iff unat_reg_less)
  ultimately show thesis using v(1) by (intro that) (simp_all add: prog_same_def set_K1_def)
qed

lemma round_chooses:
  assumes "choosing X Y i cls s" "obedient X Y s" "dstb_round al s = Some (0, s')"
  shows "sound X Y s' \<and> \<not> mc_shared (ds_ctl s') \<and>
    (same_view (dstb_machine s i) (dstb_machine s' i) \<and> choosing X Y i cls s' \<or> answered (X * Y) i cls s s')"
proof -
  have s: "sound X Y s" "i < X * Y" "node_op (ds_net s) i = op_val COP2_MSG_OP_ALT" "clauses_of (ds_net s) i = Some cls"
    "\<not> mc_shared (ds_ctl s)"
    using assms(1) by (simp_all add: choosing_def)
  show ?thesis
  proof (rule round_parts [OF s(1) assms(2,3)])
    fix s1 :: dstb and nrun net
    let ?net1 = "(ds_net s1)\<lparr>net_nrun := nrun\<rparr>"
    assume n: "net_msgs ?net1 = net_msgs (ds_net s)" "net_ok X Y ?net1" "commands_ok (X * Y) ?net1" "rendezvous (X * Y) ?net1"
      "Net_execute (al (net_cycle (ds_net s1))) ?net1 = Some (0, net)" "net_steps (X * Y) ?net1 net"
      "s' = set_net (net\<lparr>net_cycle := net_cycle net + 1\<rparr>) s1" "sound X Y s'"
      "\<not> mc_shared (ds_ctl s) \<Longrightarrow> \<not> mc_shared (ds_ctl s')"
      and turn: "\<And>i. i < X * Y \<Longrightarrow> node_op (ds_net s) i \<noteq> 0 \<Longrightarrow> same_view (dstb_machine s i) (dstb_machine s1 i) \<and>
        (\<forall>t. get_sel t (net_nd (ds_net s1) ! i) = get_sel t (net_nd (ds_net s) ! i))"
    have t: "same_view (dstb_machine s i) (dstb_machine s1 i)"
      "get_sel t (net_nd (ds_net s1) ! i) = get_sel t (net_nd (ds_net s) ! i)" for t
      using turn [OF s(2)] s(3) by simp_all
    have mem: "nd_mem (net_nd (ds_net s1) ! i) = nd_mem (net_nd (ds_net s) ! i)"
      using t(1) by (simp add: same_view_def dstb_machine_def)
    have "same_command (net_nd (ds_net s) ! i) (net_nd ?net1 ! i)" using t(2) mem by (simp add: same_command_def)
    then have a1: "clauses_of ?net1 i = Some cls" "node_op ?net1 i = op_val COP2_MSG_OP_ALT"
      using s(3,4) clauses_of_same t(2) by (auto simp: node_op_def)
    show ?thesis
      using Net_execute_chooses [OF n(2-4) s(2) a1(2,1) n(5)]
    proof
      assume go: "tries i ?net1 net"
      have "same_view (dstb_machine s1 i) (dstb_machine s' i)"
        using go by (intro prog_same_view) (simp add: tries_def n(7) set_net_def)
      moreover have "clauses_of (ds_net s') i = Some cls"
        using clauses_of_same [OF net_steps_same_command [OF n(6,2) s(2)]] a1(1) by (simp add: n(7) set_net_def clauses_of_count)
      moreover have "node_op (ds_net s') i = op_val COP2_MSG_OP_ALT"
        using go by (simp add: n(7) set_net_def tries_def net_counts_sel)
      ultimately show ?thesis using same_view_trans [OF t(1)] n(8,9) s(2,5) by (auto simp: choosing_def)
    next
      assume took: "took (X * Y) i cls ?net1 net"
      have "wf_cpu (nd_cpu (net_nd ?net1 ! i))" by (rule mesh_node(1) [OF net_okD(1) [OF n(2)] s(2)])
      from took_answers [OF s(1,2) took n(1) this] obtain v where
        v: "regs (nd_cpu (net_nd net ! i)) = (regs (nd_cpu (net_nd ?net1 ! i)))(27 := v)"
        "cpu_pc (nd_cpu (net_nd net ! i)) = cpu_pc (nd_cpu (net_nd ?net1 ! i))"
        "cpu_running (nd_cpu (net_nd net ! i)) = cpu_running (nd_cpu (net_nd ?net1 ! i))" "nd_mem (net_nd net ! i) = nd_mem (net_nd ?net1 ! i)"
        "partner (X * Y) i cls (ds_net s) v (get_sel COP2_MSG_DATA (net_nd net ! i))" by blast
      have "node_op net i = op_val COP2_MSG_OP_NONE" using took by (simp add: took_def)
      then have "answered (X * Y) i cls s s'" unfolding answered_def
        using v t(1) by (intro conjI exI [where x = v]) (simp_all add: n(7) set_net_def net_counts_sel dstb_machine_def same_view_def)
      then show ?thesis using n(8,9) s(5) by simp
    qed
  qed
qed

text \<open>The rounds of an alternative from \<open>s\<close>, the last of them from \<open>t\<close> to \<open>s'\<close>.\<close>

inductive alternates :: "nat \<Rightarrow> nat \<Rightarrow> (u64 \<Rightarrow> nat \<Rightarrow> u32 option) \<Rightarrow> nat \<Rightarrow> dstb \<Rightarrow> dstb \<Rightarrow> dstb \<Rightarrow> bool" for X Y al i where
  final: "\<lbrakk>obedient X Y s; dstb_round al s = Some (0, s'); node_op (ds_net s') i \<noteq> op_val COP2_MSG_OP_ALT\<rbrakk>
    \<Longrightarrow> alternates X Y al i s s s'"
| again: "\<lbrakk>obedient X Y s; dstb_round al s = Some (0, s1); node_op (ds_net s1) i = op_val COP2_MSG_OP_ALT;
     alternates X Y al i s1 t s'\<rbrakk> \<Longrightarrow> alternates X Y al i s t s'"

lemma alternates_answered:
  assumes "alternates X Y al i s t s'" "choosing X Y i cls s"
  shows "same_view (dstb_machine s i) (dstb_machine t i) \<and> sound X Y s' \<and> \<not> mc_shared (ds_ctl s') \<and> answered (X * Y) i cls t s'"
  using assms
proof (induction rule: alternates.induct)
  case (final s s')
  then show ?case using round_chooses [OF final.prems final.hyps(1,2)] by (auto simp: choosing_def)
next
  case (again s s1 t s')
  then show ?case using round_chooses [OF again.prems again.hyps(1,2)]
    by (auto simp: answered_def intro: same_view_trans)
qed

end
