(* ===== verification/CommAltRun.thy ===== *)
theory CommAltRun
  imports CommAlt CommRun Isa_Mem
begin

text \<open>
  The routine \<open>C2_alt\<close> of the communication library (libcomm/C2_alt.s) end to end: from the call over
  the rounds of the alternative to the return.
\<close>

section \<open>The return of C2_alt\<close>

text \<open>A store to a memory that is not shared.\<close>

lemma step_sw:
  assumes "at_instr m (iSW rt base off)" "ea m base off \<noteq> IO_ADDR" "\<not> mc_shared (m_ctl m)"
    "store_word (m_mem m) (ucast (ea m base off)) (regs (m_cpu m) rt) = Some mem"
  shows "\<exists>m'. cycles 1 m = Some m' \<and> wf_machine m' \<and> cpu_running (m_cpu m') \<and> next_with m (regs (m_cpu m)) m' \<and>
    cpu_cop2 (m_cpu m') ! 0 = cpu_cop2 (m_cpu m) ! 0 \<and> m_mem m' = mem"
proof -
  have wf: "wf_machine m" "cpu_running (m_cpu m)" using assms(1) by (simp_all add: at_instr_def)
  have bus: "ask_bus m = (0, m_ctl m)" using assms(3) by (simp add: ask_bus_def Mem_busacc_def)
  let ?L = "loaded (start_cycle m) (encode (iSW rt base off))"
  have "Mem_sw (m_mem m) (m_ctl m) (ucast (ea m base off)) (regs (m_cpu m) rt) = Some (OK, mem, m_ctl m)"
    using assms(3,4) by (auto simp: store_word_eq Mem_sw_ok split: if_splits)
  then have "exec_SW ?L = Some (OK, (perf_inc pf_st_update ?L)\<lparr>m_mem := mem, m_ctl := m_ctl m\<rparr>)"
    using assms(2) wf(1) bus by (simp add: exec_SW_def with_bus_loaded mem_operands Let_def)
  then obtain m' where e: "Datapath_execute m = Some (0, m')"
    and m': "m' = inc_cycle (advance ((perf_inc pf_st_update ?L)\<lparr>m_mem := mem, m_ctl := m_ctl m\<rparr>))"
    using cycle_at [OF assms(1)] by simp
  have "wf_machine m'" using Datapath_wf [OF wf(1) e] by simp
  moreover have nj: "\<not> dec_isjump (m_dec ?L)"
    using isjump_loaded [of "start_cycle m" "iSW rt base off"] by simp
  then have "cpu_gpr (m_cpu m') = (cpu_gpr (m_cpu m))[0 := 0]" "cpu_pc (m_cpu m') = cpu_pc (m_cpu m) + 4"
    "cpu_running (m_cpu m')" "cpu_cop2 (m_cpu m') = cpu_cop2 (m_cpu m)" "m_mem m' = mem"
    unfolding m' using wf(2) by (simp_all add: advance_def)
  ultimately show ?thesis using e regs_after(1) [OF wf(1)] by (simp add: next_with_def)
qed

text \<open>From the end of the wait to the caller: the datum is stored where \<open>A2\<close> says, and \<open>V0\<close> gets \<open>K1\<close>.
  The word at \<open>A2\<close> must not be that of the two instructions that follow the store.\<close>

definition may_store :: "machine \<Rightarrow> u64 \<Rightarrow> bool" where
  "may_store m pc \<longleftrightarrow> word_ok (m_mem m) (ucast (regs (m_cpu m) 6)) \<and> regs (m_cpu m) 6 \<noteq> IO_ADDR \<and>
     ucast (regs (m_cpu m) 6) \<notin> {pc + 20, pc + 24}"

lemma r_distinct: "(6 :: reg) \<noteq> 8" "(31 :: reg) \<noteq> 8" "(8 :: reg) \<noteq> 0" "(31 :: reg) \<noteq> 2" "(27 :: reg) \<noteq> 8" "(2 :: reg) \<noteq> 0"
  by code_simp+

lemma upd_r:
  "(R(8 := v)) (6 :: reg) = R 6" "(R(8 := v)) (31 :: reg) = R 31" "(R(2 := v)) (31 :: reg) = R 31" "(R(8 := v)) (27 :: reg) = R 27"
  by (rule fun_upd_other, rule r_distinct)+

lemma C2_alt_returns:
  fixes m :: machine
  assumes "code_at (m_mem m) pc C2_alt" "cpu_pc (m_cpu m) = pc + 12"
    "wf_machine m" "cpu_running (m_cpu m)" "link_op m = 0" "\<not> mc_shared (m_ctl m)" "may_store m pc"
  defines "R \<equiv> regs (m_cpu m)" and "d \<equiv> link_reg (m_cpu m) COP2_MSG_DATA"
  shows "\<exists>m'. cycles 4 m = Some m' \<and> wf_machine m' \<and> cpu_running (m_cpu m') \<and> regs (m_cpu m') = R(8 := d, 2 := R 27) \<and>
    cpu_pc (m_cpu m') = ucast (R 31) \<and> store_word (m_mem m) (ucast (R 6)) d = Some (m_mem m')"
proof -
  let ?l = "cpu_cop2 (m_cpu m) ! 0" and ?a = "ucast (R 6) :: u64"
  have e: "COP2_MSG_ST_OP (?l ! 2) = 0" "Mem_lw (m_mem m) (pc + 12) = Some (Inr (encode (iMFC2 8 0 1)))"
    "Mem_lw (m_mem m) (pc + 16) = Some (Inr (encode (iSW 8 6 0)))" "Mem_lw (m_mem m) (pc + 20) = Some (Inr (encode (iADDIU 2 27 0)))"
    "Mem_lw (m_mem m) (pc + 24) = Some (Inr (encode (iJR 31)))"
    using assms(1,5) by (simp_all add: C2_alt_def link_op_def add.assoc)
  have ww: "whole_words (m_mem m)" using assms(3) by (simp add: wf_machine_def)
  have ok: "word_ok (m_mem m) ?a" "R 6 \<noteq> IO_ADDR" "?a \<noteq> pc + 20" "?a \<noteq> pc + 24"
    using assms(7) by (simp_all add: may_store_def R_def)
  have "\<exists>m1. goes m (0 + 1) (R(8 := d)) (pc + 16) ?l m1" unfolding R_def d_def
    by (rule goes_next [OF goes_refl [OF assms(3,4)] e(1), unfolded assms(2), OF e(2)])
      (use step_mfc2 [where sel = 1 and rt = 8] r_distinct in \<open>force simp: add.assoc\<close>)
  then obtain m1 where 1: "goes m 1 (R(8 := d)) (pc + 16) ?l m1" by auto
  have "m_ctl m1 = m_ctl m" using 1 by (simp add: goes_def)
  obtain mem where mem: "store_word (m_mem m) ?a d = Some mem" using words.store_defined [OF ww] ok(1) by blast
  have zero: "scast (0 :: u16) = (0 :: u32)" by simp
  have "ea m1 6 0 = R 6" unfolding ea_def goesD(4) [OF 1] upd_r zero by simp
  moreover have "(R(8 := d)) 8 = d" by (rule fun_upd_same)
  ultimately obtain m2 where 2: "cycles 1 m1 = Some m2" "wf_machine m2" "cpu_running (m_cpu m2)"
    "next_with m1 (R(8 := d)) m2" "cpu_cop2 (m_cpu m2) ! 0 = ?l" "m_mem m2 = mem"
    using step_sw [OF ready_at [OF 1 e(1,3)]] goesD(4,6,7) [OF 1] ok(2) assms(6) mem \<open>m_ctl m1 = m_ctl m\<close> by metis
  have pc2: "cpu_pc (m_cpu m2) = pc + 20" using 2(4) goesD(5) [OF 1] by (simp add: next_with_def add.assoc)
  have stays: "Mem_lw mem b = Mem_lw (m_mem m) b" if "Mem_lw (m_mem m) b = Some (Inr w)" "b \<noteq> ?a" for b w
  proof -
    have "load_word mem b = Some w" using words.load_store [OF ww mem] that by (simp add: load_word_def)
    then show ?thesis using that(1) by (auto simp: load_word_def split: option.splits sum.splits)
  qed
  have c: "Mem_lw (m_mem m2) (pc + 20) = Some (Inr (encode (iADDIU 2 27 0)))" "Mem_lw (m_mem m2) (pc + 24) = Some (Inr (encode (iJR 31)))"
    using stays [OF e(4)] stays [OF e(5)] ok(3,4) e(4,5) 2(6) by auto
  note refl2 = goes_refl [OF 2(2,3), unfolded pc2 2(5)] and R2 = 2(4) [unfolded next_with_def, THEN conjunct1]
  have "isa_regs (iADDIU 2 27 0) (R(8 := d)) hl p = R(8 := d, 2 := R 27)" for hl p
    by (simp only: isa_regs_def isa_reg.simps option.case prod.case r_distinct if_False upd_r zero add_0_right)
  then obtain m3 where 3: "goes m2 1 (R(8 := d, 2 := R 27)) (pc + 24) ?l m3"
    using goes_isa [OF refl2 [unfolded R2] e(1) c(1), where k = 1] by (force simp: add.assoc simp del: fun_upd_apply)
  have "isa_target (iJR 31) (R(8 := d, 2 := R 27)) p = Some (R 31)" for p by (simp only: isa_target.simps upd_r)
  then obtain m4 where 4: "goes m2 2 (R(8 := d, 2 := R 27)) (ucast (R 31)) ?l m4"
    using goes_isa [OF 3 e(1) c(2), where k = 2] by (force simp: isa_regs_def simp del: fun_upd_apply)
  have "cycles (1 + (1 + 2)) m = Some m4" using goesD(1) [OF 1] 2(1) goesD(1) [OF 4] unfolding cycles_add by simp
  then show ?thesis using goesD [OF 4] mem 2(6) by (simp add: numeral_eq_Suc)
qed

section \<open>End to end\<close>

text \<open>The clauses of a caller of \<open>C2_alt\<close>: the \<open>A1\<close> words from \<open>A0\<close> on.\<close>

definition caller_clauses :: "machine \<Rightarrow> u32 list option" where
  "caller_clauses m = (case Mem_getptr (m_mem m) (regs (m_cpu m) 4) of Inl e \<Rightarrow> None
   | Inr base \<Rightarrow> read_clauses (\<lambda>j. get_word (mem_b (m_mem m)) (base + j)) (unat (regs (m_cpu m) 5)))"

lemma clauses_of_machine:
  assumes "link_reg (m_cpu (dstb_machine s i)) COP2_MSG_CORR = regs (m_cpu m) 4"
    "link_reg (m_cpu (dstb_machine s i)) COP2_MSG_NCL = regs (m_cpu m) 5" "m_mem (dstb_machine s i) = m_mem m"
    "caller_clauses m = Some cls"
  shows "clauses_of (ds_net s) i = Some cls"
  using assms by (auto simp: clauses_of_def ready_clauses_def caller_clauses_def clause_def [abs_def] get_sel_link dstb_machine_def
      split: sum.splits)

lemma alt_request:
  assumes "enters m C2_alt" "cycles 3 m = Some m'" "still_waits m' (dstb_machine s i)" "caller_clauses m = Some cls"
  shows "node_op (ds_net s) i = op_val COP2_MSG_OP_ALT" "clauses_of (ds_net s) i = Some cls"
    "regs (m_cpu (dstb_machine s i)) = regs (m_cpu m)" "cpu_pc (m_cpu (dstb_machine s i)) = cpu_pc (m_cpu m) + 12"
    "cpu_running (m_cpu (dstb_machine s i))" "m_mem (dstb_machine s i) = m_mem m"
proof -
  obtain m1 where "goes m 3 (regs (m_cpu m)) (cpu_pc (m_cpu m) + 12)
    ((cpu_cop2 (m_cpu m) ! 0)[0 := regs (m_cpu m) 4, 5 := regs (m_cpu m) 5, 2 := op_val COP2_MSG_OP_ALT]) m1"
    using C2_alt_asks [OF assms(1)] by blast
  note g = goesD [OF this]
  have m1: "m1 = m'" using g(1) assms(2) by simp
  then have req: "link_op m' = op_val COP2_MSG_OP_ALT" "link_reg (m_cpu m') COP2_MSG_CORR = regs (m_cpu m) 4"
    "link_reg (m_cpu m') COP2_MSG_NCL = regs (m_cpu m) 5"
    using g(6,8) op_val_st [of COP2_MSG_OP_ALT] by (simp_all add: link_op_def)
  then show "node_op (ds_net s) i = op_val COP2_MSG_OP_ALT"
    using assms(3) by (simp add: still_waits_def node_link_op)
  show v: "regs (m_cpu (dstb_machine s i)) = regs (m_cpu m)" "cpu_pc (m_cpu (dstb_machine s i)) = cpu_pc (m_cpu m) + 12"
    "cpu_running (m_cpu (dstb_machine s i))" "m_mem (dstb_machine s i) = m_mem m"
    using assms(3) g(3-5,7) m1 by (simp_all add: still_waits_def same_view_def)
  show "clauses_of (ds_net s) i = Some cls"
    by (rule clauses_of_machine [OF _ _ v(4) assms(4)]) (use assms(3) req in \<open>simp_all add: still_waits_def\<close>)
qed

lemma upd_K1: "(R(27 := v)) (6 :: reg) = R 6" "(R(27 := v)) (31 :: reg) = R 31" "(R(27 := v)) (27 :: reg) = v"
proof -
  have "(6 :: reg) \<noteq> 27" "(31 :: reg) \<noteq> 27" by code_simp+
  then show "(R(27 := v)) (6 :: reg) = R 6" "(R(27 := v)) (31 :: reg) = R 31" "(R(27 := v)) (27 :: reg) = v"
    by (simp_all only: fun_upd_apply if_False simp_thms if_True)
qed

text \<open>C8:
  The alternative end to end: a program calls \<open>C2_alt\<close> with the clauses at \<open>A0\<close>. When the alternative has
  ended, after any number of rounds in which the other nodes do what they like within the protocol, four more
  cycles return to the caller with the chosen clause in \<open>V0\<close>: -1, which only happens with a default
  clause, or the number of a node among the clauses that was in its output to the caller when the last round
  began; the datum of that output is then the word at \<open>A2\<close>, and the rest of the memory is as it was.\<close>

theorem C2_alt_returns_a_partner:
  assumes "sound X Y s" and "\<not> mc_shared (ds_ctl s)" and "i < X * Y"
    and "enters mi C2_alt" "cycles 3 mi = Some mi'" "still_waits mi' (dstb_machine s i)"
    and "caller_clauses mi = Some cls" and "may_store mi (cpu_pc (m_cpu mi))"
    and "alternates X Y al i s t s'"
  shows "\<exists>v w m'. partner (X * Y) i cls (ds_net t) v w \<and> cycles 4 (dstb_machine s' i) = Some m' \<and>
    regs (m_cpu m') = (regs (m_cpu mi))(27 := v, 8 := w, 2 := v) \<and> cpu_pc (m_cpu m') = ucast (regs (m_cpu mi) 31) \<and>
    store_word (m_mem mi) (ucast (regs (m_cpu mi) 6)) w = Some (m_mem m')"
proof -
  let ?M = "dstb_machine s' i" and ?R = "regs (m_cpu mi)"
  note req = alt_request [OF assms(4-7)]
  have "choosing X Y i cls s" using assms(1-3) req(1,2) by (simp add: choosing_def)
  note a = alternates_answered [OF assms(9) this]
  then obtain v where op: "node_op (ds_net s') i = 0" and v: "regs (m_cpu ?M) = ?R(27 := v)"
    "cpu_pc (m_cpu ?M) = cpu_pc (m_cpu mi) + 12" "cpu_running (m_cpu ?M)" "m_mem ?M = m_mem mi"
    and p: "partner (X * Y) i cls (ds_net t) v (link_reg (m_cpu ?M) COP2_MSG_DATA)"
    using req(3-6) by (auto simp: answered_def same_view_def get_sel_link dstb_machine_def)
  have "dstb_wf s'" "i < length (net_nd (ds_net s'))"
    using a assms(3) meshD(7) [OF net_okD(1)] by (fastforce simp: sound_def)+
  then have wf: "wf_machine ?M" by (rule dstb_wf_machine)
  have code: "code_at (m_mem ?M) (cpu_pc (m_cpu mi)) C2_alt" using assms(4) v(4) by (simp add: enters_def)
  have st: "may_store ?M (cpu_pc (m_cpu mi))" using assms(8) unfolding may_store_def v upd_K1 .
  have "link_op ?M = 0" "\<not> mc_shared (m_ctl ?M)" using op a by (simp_all add: node_link_op) (simp add: dstb_machine_def)
  from C2_alt_returns [OF code v(2) wf v(3) this st] p show ?thesis unfolding v upd_K1 by blast
qed

text \<open>In the system of Letter the second node has called \<open>C2_alt\<close> with the clause 0.\<close>

lemma alt_words: "map encode C2_alt = [0x48840000, 0x48850005, 0x4A000004, 0x48080001, 0xACC80000, 0x27620000, 0x03E00008, 0]"
  by code_simp

definition caller :: machine where
  "caller = boot_regs ((replicate 32 0)[4 := 32, 5 := 1, 6 := 36])
     [0x48840000, 0x48850005, 0x4A000004, 0x48080001, 0xACC80000, 0x27620000, 0x03E00008, 0, 0, -1]"

definition chooser :: machine where
  "chooser = caller\<lparr>m_cpu := cpu_zero\<lparr>cpu_running := True, cpu_pc := 12, cpu_gpr := (replicate 32 0)[4 := 32, 5 := 1, 6 := 36],
     cpu_dec := decoded_c2 4, cpu_cop2 := [[32, 0, 3, 0, 0, 1]],
     cpu_perfct := perfct0\<lparr>pf_cycle := 3, pf_nalt := 1, pf_waitalt := 1\<rparr>\<rparr>\<rparr>"

lemma cycles_caller: "cycles 3 caller = Some chooser"
  by code_simp

lemma chooser_round:
  "map_option (\<lambda>(r, t). (r, node_op (ds_net t) 1)) (dstb_round (\<lambda>_ _. Some 5) (letter_with chooser)) = Some (0, 0)"
  by code_simp

lemma enters_caller: "enters caller C2_alt"
  using enters_boot [of C2_alt "[0, -1]" "(replicate 32 0)[4 := 32, 5 := 1, 6 := 36]"]
  unfolding alt_words by (simp add: caller_def)

lemma caller_facts:
  "caller_clauses caller = Some [0]" "may_store caller (cpu_pc (m_cpu caller))" "\<not> mc_shared (m_ctl chooser)"
  "ready_clauses (ds_net (letter_with chooser)) (Mem_getptr (m_mem chooser) (link_reg (m_cpu chooser) COP2_MSG_CORR)) 1 = Some [0]"
  by code_simp+

lemma wf_chooser: "wf_machine chooser"
proof -
  have "whole_words (m_mem caller)" using enters_caller by (simp add: enters_def wf_machine_def)
  then show ?thesis
    by (simp add: wf_machine_def chooser_def wf_cpu_def cpu_zero_def perfct0_def COP2_NREG_def COP2_NSEL_def NCOUNTERS_def N_GPR_def)
      (simp add: caller_def boot_regs_def boot_def ctl_ok_def memctl0_def)
qed

lemma chooser_parts:
  "link_op chooser = op_val COP2_MSG_OP_ALT" "COP2_MSG_ST_SENT (link_reg (m_cpu chooser) COP2_MSG_ST) = 0"
  by (simp_all add: chooser_def link_op_def COP2_MSG_ST_OP_def COP2_MSG_ST_SENT_def)

theorem C2_alt_returns_a_partner_witness:
  "\<exists>s' m'. cycles 4 (dstb_machine s' 1) = Some m' \<and> regs (m_cpu m') 2 = 0 \<and> store_word (m_mem caller) 36 7 = Some (m_mem m')"
proof -
  let ?s = "letter_with chooser"
  have sound: "sound 1 2 ?s" by (rule letter_sound(1) [OF wf_chooser]) (use chooser_parts in simp_all)
  have "obedient 1 2 ?s" by (rule letter_obedient [OF sound]) (use chooser_parts(1) caller_facts(4) in simp_all)
  moreover obtain s' where s': "dstb_round (\<lambda>_ _. Some 5) ?s = Some (0, s')" "node_op (ds_net s') 1 = 0"
    using chooser_round by auto
  ultimately have alt: "alternates 1 2 (\<lambda>_ _. Some 5) 1 ?s ?s s'" by (intro alternates.final) simp_all
  have self: "still_waits chooser (dstb_machine ?s 1)" by (simp only: letter_machine) (simp add: still_waits_def)
  have "\<not> mc_shared (ds_ctl ?s)" using caller_facts(3) by (simp add: letter_with_def)
  from C2_alt_returns_a_partner [OF sound this _ enters_caller cycles_caller self caller_facts(1,2) alt]
  obtain v w m' where m': "partner (1 * 2) 1 [0] (ds_net ?s) v w" "cycles 4 (dstb_machine s' 1) = Some m'"
    "regs (m_cpu m') = (regs (m_cpu caller))(27 := v, 8 := w, 2 := v)"
    "store_word (m_mem caller) (ucast (regs (m_cpu caller) 6)) w = Some (m_mem m')" by auto
  have "get_sel COP2_MSG_DATA (net_nd (ds_net ?s) ! 0) = 7"
    by (simp add: get_sel_link letter_nodes put_cpu_def) (simp add: written_def)
  then have vw: "v = 0" "w = 7" using m'(1) by (auto simp: partner_def)
  have a2: "(ucast (regs (m_cpu caller) 6) :: u64) = 36" by (simp add: caller_def)
  have "regs (m_cpu m') 2 = v" unfolding m'(3) by (rule fun_upd_same)
  then show ?thesis using m'(2,4) unfolding a2 vw by blast
qed

end
