(* ===== verification/Support.thy ===== *)
theory Support
  imports Comm
begin

text \<open>
  The rest of the support code of the example programs, as machine code run by the processor:
  the start-up code (start.s) and the helpers of libcommon (busywait.s, rem.s, processor_id.s and the
  arithmetic of xorshift32.s).
\<close>

section \<open>Running straight-line code\<close>

lemma reg_distinct: "(31 :: reg) \<noteq> 2" "(31 :: reg) \<noteq> 4" "(4 :: reg) \<noteq> 0" "(2 :: reg) \<noteq> 0"
  by code_simp+

lemma upd_reg [simp]: "(R(2 := v)) (31 :: reg) = R 31" "(R(4 := v)) (31 :: reg) = R 31"
  by (rule fun_upd_other, rule reg_distinct)+

text \<open>The state a routine starts from, in the form in which cycles are added to it.\<close>

lemma enters_goes:
  assumes "enters m prog"
  shows "goes m 0 (regs (m_cpu m)) (cpu_pc (m_cpu m)) (cpu_cop2 (m_cpu m) ! 0) m"
    "COP2_MSG_ST_OP (cpu_cop2 (m_cpu m) ! 0 ! 2) = 0" "code_at (m_mem m) (cpu_pc (m_cpu m)) prog"
  using assms goes_refl by (simp_all add: enters_def link_op_def)

section \<open>processor_id\<close>

definition get_id :: "asm list" where
  "get_id = [iORI 2 26 0, iJR 31, NOP]"

lemma get_id_returns:
  assumes "enters m get_id"
  shows "\<exists>m'. goes m 2 ((regs (m_cpu m))(2 := regs (m_cpu m) 26)) (ucast (regs (m_cpu m) 31)) (cpu_cop2 (m_cpu m) ! 0) m'"
proof -
  let ?R = "regs (m_cpu m)" and ?pc = "cpu_pc (m_cpu m)" and ?l = "cpu_cop2 (m_cpu m) ! 0"
  note e = enters_goes [OF assms]
  have c: "Mem_lw (m_mem m) ?pc = Some (Inr (encode (iORI 2 26 0)))" "Mem_lw (m_mem m) (?pc + 4) = Some (Inr (encode (iJR 31)))"
    using e(3) by (simp_all add: get_id_def)
  obtain m1 where 1: "goes m 1 (?R(2 := ?R 26)) (?pc + 4) ?l m1"
    using goes_isa [OF e(1,2) c(1), where k = 1 and R' = "?R(2 := ?R 26)"] by (auto simp: isa_regs_def)
  show ?thesis
    using goes_isa [OF 1 e(2) c(2), where k = 2 and R' = "?R(2 := ?R 26)"]
    by (simp add: isa_regs_def del: fun_upd_apply)
qed

section \<open>rem\<close>

definition rem_code :: "asm list" where
  "rem_code = [iDIV 4 5, iMFHI 2, iJR 31, NOP]"

lemma hi_of: "ucast (drop_bit 32 (hilo_of hi lo)) = hi"
  by (rule bit_word_eqI) (auto simp: hilo_of_def bit_simps dest: bit_word_le)

lemma rem_returns:
  assumes "enters m rem_code" "\<not> div_undefined (regs (m_cpu m) 4) (regs (m_cpu m) 5)"
  shows "\<exists>m'. goes m 3 ((regs (m_cpu m))(2 := word_of_int (sint (regs (m_cpu m) 4) smod sint (regs (m_cpu m) 5))))
    (ucast (regs (m_cpu m) 31)) (cpu_cop2 (m_cpu m) ! 0) m'"
proof -
  let ?R = "regs (m_cpu m)" and ?pc = "cpu_pc (m_cpu m)" and ?l = "cpu_cop2 (m_cpu m) ! 0"
  let ?v = "word_of_int (sint (?R 4) smod sint (?R 5)) :: u32"
  note e = enters_goes [OF assms(1)]
  have c: "Mem_lw (m_mem m) ?pc = Some (Inr (encode (iDIV 4 5)))" "Mem_lw (m_mem m) (?pc + 4) = Some (Inr (encode (iMFHI 2)))"
    "Mem_lw (m_mem m) (?pc + 8) = Some (Inr (encode (iJR 31)))"
    using e(3) by (simp_all add: rem_code_def add.assoc)
  have "conforms (iDIV 4 5) ?R (ucast ?pc)" "computes (iDIV 4 5)" using assms(2) by simp_all
  from step_isa [OF ready_at [OF e(1,2) c(1)] this(2,1)]
  obtain m1 where 1: "goes m 1 ?R (?pc + 4) ?l m1"
    "cpu_hilo (m_cpu m1) = hilo_of ?v (word_of_int (sint (?R 4) sdiv sint (?R 5)))"
    by (auto simp: isa_regs_def)
  note g = goesD [OF 1(1)]
  from step_isa [OF ready_at [OF 1(1) e(2) c(2)]]
  obtain m2 where "goes m1 1 (?R(2 := ?v)) (?pc + 8) ?l m2"
    by (auto simp: isa_regs_def 1(2) hi_of g(4-6) add.assoc)
  from goes_isa [OF goes_trans [OF 1(1) this] e(2) c(3), where k = 3 and R' = "?R(2 := ?v)"] show ?thesis
    by (auto simp: isa_regs_def)
qed

lemma rem_undefined:
  assumes "enters m rem_code" "div_undefined (regs (m_cpu m) 4) (regs (m_cpu m) 5)"
  shows "Datapath_execute m = None"
proof -
  note e = enters_goes [OF assms(1)]
  have "Mem_lw (m_mem m) (cpu_pc (m_cpu m)) = Some (Inr (encode (iDIV 4 5)))"
    using e(3) by (simp add: rem_code_def)
  note at = ready_at [OF e(1,2) this]
  then have wf: "wf_machine m" by (simp add: at_instr_def)
  have "exec_DIV (loaded (start_cycle m) (encode (iDIV 4 5))) = None"
    using assms(2) by (simp add: exec_DIV_def operands_encR [OF wf] Let_def sint_eq_0 div_undefined_def)
  then show ?thesis using cycle_at [OF at] by simp
qed

section \<open>busywait\<close>

text \<open>The branch goes two instructions back.\<close>

definition busywait :: "asm list" where
  "busywait = [iADDIU 4 4 0xFFFF, iBGTZ 4 0xFFFE, NOP, iJR 31, NOP]"

lemma scast_back: "scast (0xFFFF :: u16) = (- 1 :: u32)" "push_bit 2 (scast (0xFFFE :: u16)) = (- 8 :: u32)"
  by code_simp+

lemma sint_of_nat: "n < 2 ^ 31 \<Longrightarrow> sint (of_nat n :: u32) = int n"
  by (simp add: signed_of_nat signed_take_bit_int_eq_self)

text \<open>One turn of the loop: a branch back, or the fall through to the return.\<close>

lemma busywait_turn:
  assumes "enters m busywait" "cpu_pc (m_cpu m) = ucast (p :: u32)"
  defines "x \<equiv> regs (m_cpu m) 4 - 1"
  shows "\<exists>m'. goes m 2 ((regs (m_cpu m))(4 := x)) (if 0 < sint x then ucast p else ucast p + 8) (cpu_cop2 (m_cpu m) ! 0) m'"
proof -
  let ?R = "regs (m_cpu m)" and ?l = "cpu_cop2 (m_cpu m) ! 0"
  note e = enters_goes [OF assms(1), unfolded assms(2)]
  have c: "Mem_lw (m_mem m) (ucast p) = Some (Inr (encode (iADDIU 4 4 0xFFFF)))"
    "Mem_lw (m_mem m) (ucast p + 4) = Some (Inr (encode (iBGTZ 4 0xFFFE)))"
    using e(3) by (simp_all add: busywait_def)
  obtain m1 where 1: "goes m 1 (?R(4 := x)) (ucast p + 4) ?l m1"
    using goes_isa [OF e(1,2) c(1), where k = 1 and R' = "?R(4 := x)"]
    by (auto simp: isa_regs_def scast_back x_def)
  have pc: "ucast (ucast p + 4 :: u64) = p + 4" by (simp only: ucast_add32 ucast_up32) simp
  have jb: "p + 4 + 4 + - 8 = p" by simp
  have "isa_target (iBGTZ 4 0xFFFE) (?R(4 := x)) (p + 4) = (if 0 < sint x then Some p else None)"
    by (simp only: isa_target.simps branch_to_def scast_back jb fun_upd_same)
  then have t: "(case isa_target (iBGTZ 4 0xFFFE) (?R(4 := x)) (ucast (ucast p + 4 :: u64)) of
      None \<Rightarrow> ucast p + 4 + 4 | Some t \<Rightarrow> ucast t) = (if 0 < sint x then ucast p else ucast p + (8 :: u64))"
    unfolding pc by simp
  show ?thesis
    using goes_isa [OF 1 e(2) c(2) _ _ _ t, where k = 2 and R' = "?R(4 := x)"] by (simp add: isa_regs_def)
qed

text \<open>The way out of the loop.\<close>

lemma busywait_exit:
  assumes "code_at (m_mem m0) pc busywait" "goes m0 n R (pc + 8) l m" "COP2_MSG_ST_OP (l ! 2) = 0"
  shows "\<exists>m'. goes m0 (n + 2) R (ucast (R 31)) l m'"
proof -
  have c: "Mem_lw (m_mem m0) (pc + 8) = Some (Inr (encode NOP))" "Mem_lw (m_mem m0) (pc + 12) = Some (Inr (encode (iJR 31)))"
    using assms(1) by (simp_all add: busywait_def add.assoc)
  have "isa_regs (iSLL 0 0 0) R hl (ucast (pc + 8)) = R" for hl by (simp add: isa_regs_def)
  then obtain m1 where "goes m0 (n + 1) R (pc + 12) l m1"
    using goes_isa [OF assms(2,3) c(1) [unfolded NOP_def], where k = "n + 1" and R' = R] by (auto simp: add.assoc)
  from goes_isa [OF this assms(3) c(2), where k = "n + 2" and R' = R] show ?thesis by (simp add: isa_regs_def)
qed

lemma busywait_loop:
  assumes "enters m busywait" "cpu_pc (m_cpu m) = ucast (p :: u32)"
    "regs (m_cpu m) 4 = of_nat (Suc n)" "Suc n < 2 ^ 31"
  shows "\<exists>m'. goes m (2 * Suc n + 2) ((regs (m_cpu m))(4 := 0)) (ucast (regs (m_cpu m) 31)) (cpu_cop2 (m_cpu m) ! 0) m'"
  using assms
proof (induction n arbitrary: m)
  case 0
  note e = enters_goes [OF 0(1), unfolded 0(2)]
  have "regs (m_cpu m) 4 - 1 = 0" using 0(3) by simp
  then obtain m1 where "goes m 2 ((regs (m_cpu m))(4 := 0)) (ucast p + 8) (cpu_cop2 (m_cpu m) ! 0) m1"
    using busywait_turn [OF 0(1,2)] by auto
  from busywait_exit [OF e(3) this e(2)] show ?case by (simp del: fun_upd_apply)
next
  case (Suc n)
  let ?R = "regs (m_cpu m)" and ?l = "cpu_cop2 (m_cpu m) ! 0"
  note e = enters_goes [OF Suc.prems(1), unfolded Suc.prems(2)]
  have x: "?R 4 - 1 = of_nat (Suc n)" using Suc.prems(3) by simp
  have "sint (of_nat (Suc n) :: u32) = int (Suc n)" using Suc.prems(4) by (intro sint_of_nat) simp
  then obtain m1 where 1: "goes m 2 (?R(4 := of_nat (Suc n))) (ucast p) ?l m1"
    using busywait_turn [OF Suc.prems(1,2)] x by auto
  note g = goesD [OF 1]
  have "enters m1 busywait" using g(2,3,5-7) e(2,3) by (simp add: enters_def link_op_def)
  from Suc.IH [OF this g(5)] obtain m2 where "goes m1 (2 * Suc n + 2) (?R(4 := 0)) (ucast (?R 31)) ?l m2"
    using Suc.prems(4) unfolding g(4,6) fun_upd_upd upd_reg by (auto simp del: fun_upd_apply simp: fun_upd_same)
  from goes_trans [OF 1 this] show ?case by (auto simp del: fun_upd_apply)
qed

section \<open>xorshift32\<close>

text \<open>The generator: three steps of shift and exclusive or.\<close>

definition xorshift32 :: "u32 \<Rightarrow> u32" where
  "xorshift32 x = (let x = x XOR push_bit 13 x; x = x XOR drop_bit 17 x in x XOR push_bit 5 x)"

text \<open>What the routine does between its LL and its SC.\<close>

definition xorshift_code :: "asm list" where
  "xorshift_code = [iSLL 10 9 13, iXOR 9 9 10, iSRA 10 9 17, iXOR 9 9 10, iSLL 10 9 5, iXOR 9 9 10]"

lemma step_sra:
  assumes "at_instr m (iSRA rd rt sa)"
  shows "\<exists>m'. goes m 1 (if rd = 0 then regs (m_cpu m) else (regs (m_cpu m))(rd := drop_bit (unat sa) (regs (m_cpu m) rt)))
    (cpu_pc (m_cpu m) + 4) (cpu_cop2 (m_cpu m) ! 0) m'"
proof -
  have wf: "wf_machine m" "cpu_running (m_cpu m)" using assms by (simp_all add: at_instr_def)
  let ?L = "loaded (start_cycle m) (encode (iSRA rd rt sa))" and ?v = "drop_bit (unat sa) (regs (m_cpu m) rt)"
  note nj = isjump_loaded [of "start_cycle m" "iSRA rd rt sa"]
  show ?thesis
  proof (rule goes_one [OF assms, where r = rd and v = ?v])
    show "handler_of (iSRA rd rt sa) ?L = Some (OK, set_gpr (unat rd) ?v ?L)"
      using wf(1) by (simp add: exec_SRA_def set_rd_def operands_encR)
  qed (use wf nj in \<open>auto simp: advance_def set_gpr_def\<close>)
qed

lemma xor_shift_left_zero: "x XOR push_bit n x = 0 \<Longrightarrow> 0 < n \<Longrightarrow> x = 0" for x :: u32
proof (rule ccontr)
  assume x: "x XOR push_bit n x = 0" and n: "0 < n" and "x \<noteq> 0"
  then obtain k where "bit x k" by (auto simp: bit_eq_iff)
  define j where "j = (LEAST k. bit x k)"
  have j: "bit x j" "\<And>i. i < j \<Longrightarrow> \<not> bit x i"
    unfolding j_def using \<open>bit x k\<close> by (auto intro: LeastI dest: not_less_Least)
  have "\<not> bit (push_bit n x) j" using j(2) n by (auto simp: bit_push_bit_iff)
  then have "bit (x XOR push_bit n x) j" using j(1) by (simp add: bit_xor_iff)
  then show False by (simp add: x)
qed

lemma xor_shift_right_zero: "x XOR drop_bit n x = 0 \<Longrightarrow> 0 < n \<Longrightarrow> x = 0" for x :: u32
proof (rule ccontr)
  assume x: "x XOR drop_bit n x = 0" and n: "0 < n" and "x \<noteq> 0"
  then obtain k where "bit x k" by (auto simp: bit_eq_iff)
  define j where "j = Max {k. bit x k}"
  have fin: "finite {k. bit x k}" by (rule finite_subset [of _ "{..<32}"]) (auto dest: bit_word_le)
  have j: "bit x j" using Max_in [OF fin] \<open>bit x k\<close> unfolding j_def by blast
  have "\<not> bit x (n + j)" using Max_ge [OF fin, of "n + j"] n unfolding j_def by auto
  then have "bit (x XOR drop_bit n x) j" using j by (simp add: bit_xor_iff bit_drop_bit_eq)
  then show False by (simp add: x)
qed

lemma xorshift32_xor: "xorshift32 (x XOR y) = xorshift32 x XOR xorshift32 y"
  by (simp add: xorshift32_def Let_def push_bit_xor drop_bit_xor xor.assoc xor.commute xor.left_commute)

lemma xorshift32_zero: "xorshift32 x = 0 \<longleftrightarrow> x = 0"
proof
  assume "xorshift32 x = 0"
  then show "x = 0" unfolding xorshift32_def Let_def
    by (blast dest: xor_shift_left_zero [of _ 5, simplified] xor_shift_right_zero [of _ 17, simplified]
        xor_shift_left_zero [of _ 13, simplified])
qed (simp add: xorshift32_def)

text \<open>The generator is a permutation of the words that leaves only 0 where it is.\<close>

lemma xorshift32_inj: "inj xorshift32"
proof (rule injI)
  fix x y assume "xorshift32 x = xorshift32 y"
  then have "xorshift32 (x XOR y) = 0" by (simp add: xorshift32_xor)
  then have "x XOR y = 0" by (simp add: xorshift32_zero)
  then have "(x XOR y) XOR y = y" by simp
  then show "x = y" by (simp add: xor.assoc)
qed

text \<open>The six instructions compute it, whatever the sign of the operand, since SRA shifts in zeros.\<close>

lemma goes_sra:
  assumes "goes m0 n R pc l m" "COP2_MSG_ST_OP (l ! 2) = 0" "Mem_lw (m_mem m0) pc = Some (Inr (encode (iSRA rd rt sa)))"
    and "rd \<noteq> 0" "k = n + 1"
  shows "\<exists>m'. goes m0 k (R(rd := drop_bit (unat sa) (R rt))) (pc + 4) l m'"
  unfolding assms(5) by (rule goes_next [OF assms(1-3)]) (use step_sra [of _ rd rt sa] assms(4) in force)

lemma t_distinct: "(9 :: reg) \<noteq> 10" "(10 :: reg) \<noteq> 9" "(9 :: reg) \<noteq> 0" "(10 :: reg) \<noteq> 0"
  by code_simp+

lemma upd_t:
  "(R(10 := v)) (9 :: reg) = R 9" "(R(9 := v)) (10 :: reg) = R 10"
  by (rule fun_upd_other, rule t_distinct)+

lemma two_goes:
  assumes "goes m0 n R pc l m" "COP2_MSG_ST_OP (l ! 2) = 0"
    "Mem_lw (m_mem m0) pc = Some (Inr (encode (iSLL 10 9 sa)))" "Mem_lw (m_mem m0) (pc + 4) = Some (Inr (encode (iXOR 9 9 10)))"
  shows "\<exists>m' v. goes m0 (n + 2) (R(10 := v, 9 := R 9 XOR push_bit (unat sa) (R 9))) (pc + 8) l m'"
proof -
  let ?v = "push_bit (unat sa) (R 9)"
  have "isa_regs (iSLL 10 9 sa) R hl (ucast pc) = R(10 := ?v)" for hl
    by (simp only: isa_regs_def isa_reg.simps option.case prod.case t_distinct if_False)
  then obtain m1 where 1: "goes m0 (n + 1) (R(10 := ?v)) (pc + 4) l m1"
    using goes_isa [OF assms(1-3), where k = "n + 1" and R' = "R(10 := ?v)"] by auto
  have "isa_regs (iXOR 9 9 10) (R(10 := ?v)) hl (ucast (pc + 4)) = R(10 := ?v, 9 := R 9 XOR ?v)" for hl
    by (simp only: isa_regs_def isa_reg.simps option.case prod.case t_distinct if_False upd_t fun_upd_same)
  then show ?thesis
    using goes_isa [OF 1 assms(2,4), where k = "n + 2" and R' = "R(10 := ?v, 9 := R 9 XOR ?v)"]
    by (auto simp: add.assoc simp del: fun_upd_apply)
qed

lemma sra_goes:
  assumes "goes m0 n R pc l m" "COP2_MSG_ST_OP (l ! 2) = 0"
    "Mem_lw (m_mem m0) pc = Some (Inr (encode (iSRA 10 9 sa)))" "Mem_lw (m_mem m0) (pc + 4) = Some (Inr (encode (iXOR 9 9 10)))"
  shows "\<exists>m' v. goes m0 (n + 2) (R(10 := v, 9 := R 9 XOR drop_bit (unat sa) (R 9))) (pc + 8) l m'"
proof -
  let ?v = "drop_bit (unat sa) (R 9)"
  obtain m1 where 1: "goes m0 (n + 1) (R(10 := ?v)) (pc + 4) l m1"
    using goes_sra [OF assms(1-3) t_distinct(4)] by auto
  have "isa_regs (iXOR 9 9 10) (R(10 := ?v)) hl (ucast (pc + 4)) = R(10 := ?v, 9 := R 9 XOR ?v)" for hl
    by (simp only: isa_regs_def isa_reg.simps option.case prod.case t_distinct if_False upd_t fun_upd_same)
  then show ?thesis
    using goes_isa [OF 1 assms(2,4), where k = "n + 2" and R' = "R(10 := ?v, 9 := R 9 XOR ?v)"]
    by (auto simp: add.assoc simp del: fun_upd_apply)
qed

lemma xorshift_runs:
  assumes "enters m xorshift_code"
  shows "\<exists>m' v. goes m 6 ((regs (m_cpu m))(10 := v, 9 := xorshift32 (regs (m_cpu m) 9)))
    (cpu_pc (m_cpu m) + 24) (cpu_cop2 (m_cpu m) ! 0) m'"
proof -
  let ?R = "regs (m_cpu m)" and ?pc = "cpu_pc (m_cpu m)" and ?l = "cpu_cop2 (m_cpu m) ! 0" and ?x = "regs (m_cpu m) 9"
  define y where "y = ?x XOR push_bit 13 ?x"
  define z where "z = y XOR drop_bit 17 y"
  note e = enters_goes [OF assms]
  have c: "Mem_lw (m_mem m) ?pc = Some (Inr (encode (iSLL 10 9 13)))" "Mem_lw (m_mem m) (?pc + 4) = Some (Inr (encode (iXOR 9 9 10)))"
    "Mem_lw (m_mem m) (?pc + 8) = Some (Inr (encode (iSRA 10 9 17)))" "Mem_lw (m_mem m) (?pc + 8 + 4) = Some (Inr (encode (iXOR 9 9 10)))"
    "Mem_lw (m_mem m) (?pc + 16) = Some (Inr (encode (iSLL 10 9 5)))" "Mem_lw (m_mem m) (?pc + 16 + 4) = Some (Inr (encode (iXOR 9 9 10)))"
    using e(3) by (simp_all add: xorshift_code_def add.assoc)
  have sh: "unat (13 :: 5 word) = 13" "unat (17 :: 5 word) = 17" "unat (5 :: 5 word) = 5" by code_simp+
  obtain m1 a where 1: "goes m 2 (?R(10 := a, 9 := y)) (?pc + 8) ?l m1"
    using two_goes [OF e(1,2) c(1,2), unfolded sh add_0, folded y_def] by blast
  obtain m2 b where 2: "goes m 4 (?R(10 := b, 9 := z)) (?pc + 16) ?l m2"
    using sra_goes [OF 1 e(2) c(3,4), unfolded sh]
    by (auto simp: z_def add.assoc fun_upd_twist [OF t_distinct(1)] fun_upd_same upd_t simp del: fun_upd_apply)
  have "xorshift32 ?x = z XOR push_bit 5 z" by (simp add: xorshift32_def Let_def y_def z_def)
  then show ?thesis
    using two_goes [OF 2 e(2) c(5,6), unfolded sh]
    by (auto simp: add.assoc fun_upd_twist [OF t_distinct(1)] fun_upd_same upd_t simp del: fun_upd_apply)
qed

section \<open>start.s\<close>

text \<open>Stacks of \<open>STKSZ\<close> = 8192 bytes from the end of the memory downwards, one for each processor, and
  the call of \<open>main\<close>.\<close>

definition start_code :: "26 word \<Rightarrow> asm list" where
  "start_code main = [iCOP2 MEMSZ, iADDIU 8 0 0x2000, iMUL 8 8 26, iSUBU 29 27 8, iADDIU 29 29 0xFFFC,
     iJAL main, NOP, iWAIT]"

lemma step_memsz:
  assumes "at_instr m (iCOP2 MEMSZ)"
  shows "\<exists>m'. goes m 1 ((regs (m_cpu m))(27 := ucast (mem_size (m_mem m)))) (cpu_pc (m_cpu m) + 4) (cpu_cop2 (m_cpu m) ! 0) m'"
proof -
  have wf: "wf_machine m" "cpu_running (m_cpu m)" using assms by (simp_all add: at_instr_def)
  let ?L = "loaded (start_cycle m) (encode (iCOP2 MEMSZ))" and ?v = "ucast (mem_size (m_mem m)) :: u32"
  note nj = isjump_loaded [of "start_cycle m" "iCOP2 MEMSZ"]
  have k1: "unat (27 :: reg) = regno K1" "(27 :: reg) \<noteq> 0" by code_simp+
  show ?thesis
  proof (rule goes_one [OF assms, where r = 27 and v = ?v])
    have "COFUN (dec_raw (m_dec ?L)) = cofun2_val MEMSZ" by (simp add: cofun_encoded del: encode.simps)
    then show "handler_of (iCOP2 MEMSZ) ?L = Some (OK, set_gpr (unat (27 :: reg)) ?v ?L)"
      unfolding handler_of.simps exec_COP2_def Let_def k1(1) by simp
  qed (use wf nj k1 in \<open>auto simp: advance_def set_gpr_def\<close>)
qed

lemma s_distinct: "(27 :: reg) \<noteq> 8" "(8 :: reg) \<noteq> 27" "(26 :: reg) \<noteq> 8" "(29 :: reg) \<noteq> 8" "(8 :: reg) \<noteq> 29" "(26 :: reg) \<noteq> 27"
  "(8 :: reg) \<noteq> 0" "(27 :: reg) \<noteq> 0" "(29 :: reg) \<noteq> 0" "(31 :: reg) \<noteq> 0" "(26 :: reg) \<noteq> 29" "(27 :: reg) \<noteq> 29"
  by code_simp+

lemma upd_s:
  "(R(8 := v)) (27 :: reg) = R 27" "(R(8 := v)) (26 :: reg) = R 26" "(R(27 := v)) (26 :: reg) = R 26"
  "(R(27 := v)) (8 :: reg) = R 8" "(R(29 := v)) (8 :: reg) = R 8"
  by (rule fun_upd_other, rule s_distinct)+

text \<open>The instructions of the start-up code before the call.\<close>

lemma start_stack_pointer:
  fixes m :: machine
  assumes "enters m (start_code main)"
  defines "R \<equiv> regs (m_cpu m)" and "sz \<equiv> ucast (mem_size (m_mem m)) :: u32"
  shows "\<exists>m'. goes m 5 (R(27 := sz, 8 := 0x2000 * R 26, 29 := sz - 0x2000 * R 26 - 4)) (cpu_pc (m_cpu m) + 20)
    (cpu_cop2 (m_cpu m) ! 0) m'"
proof -
  let ?l = "cpu_cop2 (m_cpu m) ! 0" and ?pc = "cpu_pc (m_cpu m)"
  note e = enters_goes [OF assms(1), folded R_def]
  have c: "Mem_lw (m_mem m) ?pc = Some (Inr (encode (iCOP2 MEMSZ)))" "Mem_lw (m_mem m) (?pc + 4) = Some (Inr (encode (iADDIU 8 0 0x2000)))"
    "Mem_lw (m_mem m) (?pc + 8) = Some (Inr (encode (iMUL 8 8 26)))" "Mem_lw (m_mem m) (?pc + 12) = Some (Inr (encode (iSUBU 29 27 8)))"
    "Mem_lw (m_mem m) (?pc + 16) = Some (Inr (encode (iADDIU 29 29 0xFFFC)))"
    using e(3) by (simp_all add: start_code_def add.assoc)
  have imm: "scast (0x2000 :: u16) = (0x2000 :: u32)" "scast (0xFFFC :: u16) = (- 4 :: u32)" by code_simp+
  have neg: "a + - 4 = a - 4" for a :: u32 by simp
  have zero: "R 0 = 0" by (simp add: R_def regs_def)
  note isa = isa_regs_def isa_reg.simps option.case prod.case s_distinct if_False upd_s fun_upd_same fun_upd_upd imm neg
  obtain m1 where 1: "goes m 1 (R(27 := sz)) (?pc + 4) ?l m1"
    using step_memsz [OF ready_at [OF e(1,2) c(1)]] by (auto simp: R_def sz_def)
  have "isa_regs (iADDIU 8 0 0x2000) (R(27 := sz)) hl pc = R(27 := sz, 8 := 0x2000)" for hl pc
    by (simp add: isa_regs_def imm zero s_distinct)
  then obtain m2 where 2: "goes m 2 (R(27 := sz, 8 := 0x2000)) (?pc + 8) ?l m2"
    using goes_isa [OF 1 e(2) c(2), where k = 2] by (force simp: add.assoc)
  have "isa_regs (iMUL 8 8 26) (R(27 := sz, 8 := 0x2000)) hl pc = R(27 := sz, 8 := 0x2000 * R 26)" for hl pc
    by (simp only: isa)
  then obtain m3 where 3: "goes m 3 (R(27 := sz, 8 := 0x2000 * R 26)) (?pc + 12) ?l m3"
    using goes_isa [OF 2 e(2) c(3), where k = 3] by (force simp: add.assoc simp del: fun_upd_apply)
  have "isa_regs (iSUBU 29 27 8) (R(27 := sz, 8 := 0x2000 * R 26)) hl pc =
      R(27 := sz, 8 := 0x2000 * R 26, 29 := sz - 0x2000 * R 26)" for hl pc
    by (simp only: isa)
  then obtain m4 where 4: "goes m 4 (R(27 := sz, 8 := 0x2000 * R 26, 29 := sz - 0x2000 * R 26)) (?pc + 16) ?l m4"
    using goes_isa [OF 3 e(2) c(4), where k = 4] by (force simp: add.assoc simp del: fun_upd_apply)
  have "isa_regs (iADDIU 29 29 0xFFFC) (R(27 := sz, 8 := 0x2000 * R 26, 29 := sz - 0x2000 * R 26)) hl pc =
      R(27 := sz, 8 := 0x2000 * R 26, 29 := sz - 0x2000 * R 26 - 4)" for hl pc
    by (simp only: isa)
  then show ?thesis
    using goes_isa [OF 4 e(2) c(5), where k = 5] by (force simp: add.assoc simp del: fun_upd_apply)
qed

lemma start_calls_main:
  fixes m :: machine and main :: "26 word"
  assumes "enters m (start_code main)"
  defines "R \<equiv> regs (m_cpu m)" and "pc \<equiv> cpu_pc (m_cpu m)"
  defines "sz \<equiv> ucast (mem_size (m_mem m)) :: u32"
  assumes "(ucast pc + 20) AND 0xF0000000 = (ucast pc + 24 :: u32) AND 0xF0000000"
  shows "\<exists>m'. goes m 6 (R(27 := sz, 8 := 0x2000 * R 26, 29 := sz - 0x2000 * R 26 - 4, 31 := ucast pc + 28))
    (ucast ((ucast pc + 24 :: u32) AND 0xF0000000 OR push_bit 2 (ucast main))) (cpu_cop2 (m_cpu m) ! 0) m'"
proof -
  let ?R = "R(27 := sz, 8 := 0x2000 * R 26, 29 := sz - 0x2000 * R 26 - 4)"
  note e = enters_goes [OF assms(1), folded R_def pc_def]
  have c: "Mem_lw (m_mem m) (pc + 20) = Some (Inr (encode (iJAL main)))"
    using e(3) by (simp add: start_code_def add.assoc)
  obtain m5 where 5: "goes m 5 ?R (pc + 20) (cpu_cop2 (m_cpu m) ! 0) m5"
    using start_stack_pointer [OF assms(1)] unfolding R_def pc_def sz_def by blast
  have up: "ucast (pc + 20) = (ucast pc + 20 :: u32)" by (simp add: ucast_add32)
  show ?thesis
  proof (rule goes_isa [OF 5 e(2) c])
    show "conforms (iJAL main) ?R (ucast (pc + 20))" using assms(5) by (simp add: up add.assoc)
    show "isa_regs (iJAL main) ?R hl (ucast (pc + 20)) = ?R(31 := ucast pc + 28)" for hl
      by (simp add: isa_regs_def up s_distinct add.assoc)
    show "(case isa_target (iJAL main) ?R (ucast (pc + 20)) of None \<Rightarrow> pc + 20 + 4 | Some t \<Rightarrow> ucast t) =
        (ucast ((ucast pc + 24 :: u32) AND 0xF0000000 OR push_bit 2 (ucast main)) :: u64)"
      by (simp add: up add.assoc)
  qed simp_all
qed

section \<open>Properties\<close>

text \<open>\<open>busywait(n)\<close> returns after 2 n + 2 cycles, and after 4 for n = 0, to its caller with all registers
  but \<open>A0\<close> as they were.\<close>

theorem busywait_returns:
  assumes "enters m busywait" "cpu_pc (m_cpu m) = ucast (p :: u32)" "regs (m_cpu m) 4 = of_nat n" "n < 2 ^ 31"
  shows "\<exists>m'. goes m (2 * max 1 n + 2) ((regs (m_cpu m))(4 := if n = 0 then - 1 else 0)) (ucast (regs (m_cpu m) 31))
    (cpu_cop2 (m_cpu m) ! 0) m'"
proof (cases n)
  case 0
  note e = enters_goes [OF assms(1), unfolded assms(2)]
  have "regs (m_cpu m) 4 - 1 = - 1" using assms(3) 0 by simp
  then obtain m1 where "goes m 2 ((regs (m_cpu m))(4 := - 1)) (ucast p + 8) (cpu_cop2 (m_cpu m) ! 0) m1"
    using busywait_turn [OF assms(1,2)] by auto
  from busywait_exit [OF e(3) this e(2)] show ?thesis using 0 by (simp del: fun_upd_apply)
next
  case (Suc k)
  then show ?thesis using busywait_loop [OF assms(1,2), of k] assms(3,4) by (simp del: fun_upd_apply add: max_def)
qed

theorem busywait_returns_witness:
  "\<exists>m R. goes (boot_regs ((replicate 32 0)[4 := 3, 31 := 64]) (map encode busywait)) 8 R 64 [0, 0, 0, 0, 0, 0] m \<and> R 4 = 0"
proof -
  let ?m = "boot_regs ((replicate 32 0)[4 := 3, 31 := 64]) (map encode busywait)"
  have "enters ?m busywait" using enters_boot [of busywait "[]"] by (simp add: busywait_def)
  from busywait_returns [OF this, of 0 3]
  obtain m' where g: "goes ?m 8 ((regs (m_cpu ?m))(4 := 0)) (ucast (regs (m_cpu ?m) 31)) (cpu_cop2 (m_cpu ?m) ! 0) m'"
    by (auto simp del: fun_upd_apply)
  have "(ucast (regs (m_cpu ?m) 31) :: u64) = 64" by (simp add: s_distinct)
  then show ?thesis using g by (intro exI conjI) (simp del: fun_upd_apply, simp)
qed

text \<open>C24:
  The start-up code gives every processor a stack of its own: with the number of the processor in \<open>K0\<close>
  and room for its stack in the memory, six cycles call \<open>main\<close> with a stack pointer to the last word of
  the 8192 bytes that are the processor's, counted from the end of the memory, and the return address of
  the WAIT that stops it.\<close>

theorem start_gives_stack:
  assumes "enters m (start_code main)" and "regs (m_cpu m) 26 = of_nat n"
    and "8192 * (n + 1) \<le> unat (mem_size (m_mem m))" and "unat (mem_size (m_mem m)) < 2 ^ 32"
    and "(ucast (cpu_pc (m_cpu m)) + 20) AND 0xF0000000 = (ucast (cpu_pc (m_cpu m)) + 24 :: u32) AND 0xF0000000"
  shows "\<exists>m' R l. goes m 6 R (ucast ((ucast (cpu_pc (m_cpu m)) + 24 :: u32) AND 0xF0000000 OR push_bit 2 (ucast main))) l m' \<and>
    unat (R 29) = unat (mem_size (m_mem m)) - 8192 * n - 4 \<and> R 31 = ucast (cpu_pc (m_cpu m)) + 28"
proof -
  let ?R = "regs (m_cpu m)" and ?sz = "ucast (mem_size (m_mem m)) :: u32"
  obtain m' where g: "goes m 6 (?R(27 := ?sz, 8 := 0x2000 * ?R 26, 29 := ?sz - 0x2000 * ?R 26 - 4, 31 := ucast (cpu_pc (m_cpu m)) + 28))
    (ucast ((ucast (cpu_pc (m_cpu m)) + 24 :: u32) AND 0xF0000000 OR push_bit 2 (ucast main))) (cpu_cop2 (m_cpu m) ! 0) m'"
    using start_calls_main [OF assms(1,5)] by blast
  have sz: "unat ?sz = unat (mem_size (m_mem m))"
    using assms(4) by (simp add: unsigned_ucast_eq take_bit_nat_eq_self)
  have "unat (of_nat (8192 * n) :: u32) = 8192 * n"
    using assms(3,4) by (simp only: unsigned_of_nat) (simp add: take_bit_nat_eq_self)
  then have st: "unat (0x2000 * ?R 26) = 8192 * n" by (simp add: assms(2))
  have "unat (?sz - 0x2000 * ?R 26) = unat ?sz - 8192 * n"
    using sz st assms(3) by (simp add: unat_sub word_le_nat_alt)
  then have "unat (?sz - 0x2000 * ?R 26 - 4) = unat (mem_size (m_mem m)) - 8192 * n - 4"
    using sz assms(3) by (simp add: unat_sub word_le_nat_alt)
  then show ?thesis using g fun_upd_other [OF s_distinct(10)]
    by (intro exI conjI) (assumption, simp_all add: s_distinct)
qed

theorem start_gives_stack_witness:
  "\<exists>m R l. goes (boot_regs (replicate 32 0) (map encode (start_code 1) @ replicate 2040 0)) 6 R 4 l m \<and> R 29 = 8188"
proof -
  let ?m = "boot_regs (replicate 32 0) (map encode (start_code 1) @ replicate 2040 0)"
  have "enters ?m (start_code 1)" using enters_boot [of "start_code 1" "replicate 2040 0"] by (simp add: start_code_def)
  moreover have sz: "unat (mem_size (m_mem ?m)) = 8192" by (simp add: start_code_def)
  ultimately obtain m' R l where g: "goes ?m 6 R (ucast ((24 :: u32) AND 0xF0000000 OR push_bit 2 (ucast (1 :: 26 word)))) l m'"
    "unat (R 29) = 8188"
    using start_gives_stack [of ?m 1 0] unat_reg_less by auto
  have "(ucast ((24 :: u32) AND 0xF0000000 OR push_bit 2 (ucast (1 :: 26 word))) :: u64) = 4" by code_simp
  moreover have "R 29 = 8188" using g(2) by (simp add: word_unat_eq_iff)
  ultimately show ?thesis using g(1) by auto
qed

end
