(* ===== verification/Spec2Isabelle.thy ===== *)
theory Spec2Isabelle
  imports Arbiter Bus Mem_Props LLSC Progld Instr Cpu Decode Execute Datapath Cycle Isa Isa_Refine
    Isa_Mem Bank ShrMem BusUse Link Net Routing NetFacts NetStep NetRefine NetAlt NetExample NetCycle NetServe
    Rendezvous NetRest DstbMem DstbNet Options Report Count Ring Sem Dining ProdCons ProdConsInv ProdCons2 ProdCons2Inv
    ProdCons2End DDining DDiningInv DDiningEnd DProdCons DProdConsInv Comm CommNet Letter
    CommRun CommAlt CommAltRun Support
begin

text \<open>
  A verification development of psim, a simulator of MIPS32 multiprocessors: either processors that
  share one memory over a bus, or a mesh of processors with private memories and a message network.

  \<^bold>\<open>Conventions\<close> (Prelude). An outcome of type \<open>'a option\<close> is \<open>None\<close> for undefined behaviour of the C
  code (an access outside an object, a division by zero, a signed overflow) and \<open>Some\<close> for a defined
  one; a function with an error number returns a \<open>retcode\<close>, one with a value or \<open>errno\<close> a sum. Machine
  integers are words of the width that the C type has on a 64-bit little-endian host. \<open>malloc\<close>,
  \<open>mmap\<close> and the contents of fresh memory are parameters of the definitions that use them.

  \<^bold>\<open>Memory and bus\<close> (Arbiter, Bus, Mem, Mem_Facts, Mem_Props, LLSC, Progld; mem.c, mem.h). \<open>Mem\<close> is the
  record of one memory, \<open>memctl\<close> the file's static state: the owner of the bus, the ring of waiting
  processors and the reservations. One definition per function, under its name. Bus: the ring refines a
  first-come first-served queue, each requester is served within as many cycles as there are processors,
  and one processor at most is granted in a cycle. LLSC: the atomicity of LL/SC under all
  interleavings without byte stores into the word, when SC fails, and the byte store that it does not see. Mem_Props: loads after stores
  and the one way to read past the block. Progld: the image in memory after loading an ELF file, and
  when loading fails or writes outside.

  \<^bold>\<open>Processor\<close> (Instr, Cpu, Decode, Execute, Datapath, Cycle; instr.h, cpu.c, cpu.h, datapath.c). Instr has
  the enumerations and field macros; Cpu the record \<open>CPU\<close> and its coprocessor registers; Decode and Execute
  one definition per case of the switches of \<open>decode\<close> and \<open>execute\<close>; Datapath the cycle. C is read as gcc,
  the compiler of config.mk, defines it: left shifts of negative numbers are defined. Cycle shows that every
  cycle keeps the sizes of the arrays (\<open>sized_machine\<close>) and indexes them within their bounds, exactly when its
  behaviour is undefined, the next program counter, and that an instruction which waits is executed again.
  \<open>wf_machine\<close> asks moreover for a memory of whole words, which nothing in the code guarantees. The processor's state is the record \<open>machine\<close>:
  a processor, the memory it works on, the shared bus state and the input and output of the program.

  \<^bold>\<open>Instruction set\<close> (Isa, Isa_Refine, Isa_Mem). An abstract syntax of the implemented instructions with its
  binary encoding and an architectural semantics, without delay slots, which the simulator does not have; for
  the instructions that compute or jump the datapath implements it for the operands that satisfy
  \<open>conforms\<close>, and deviates for the others; the memory instructions
  are characterised cycle by cycle with bus, errors and reservations.

  \<^bold>\<open>Shared-memory system\<close> (Bank, ShrMem, BusUse; shrmem.c). Bank is the loop over processors that both
  systems have, with a locale for a bank of processors: the counter of running processors is exact, and the
  loop ends exactly when all have stopped. \<open>loop_opt\<close> is a \<open>while\<close> loop that may diverge: \<open>None\<close> means that
  it never ends, so the theorems on termination need no fuel. ShrMem interprets the locale and
  shows two ways in which a simulation hangs; BusUse that the turn of one processor at most accesses the memory
  over the bus in a round.

  \<^bold>\<open>Network\<close> (Link, Net, Routing, NetFacts, NetStep, NetRefine, NetAlt, NetExample, NetCycle, NetServe,
  Rendezvous, NetRest; net.c, net.h). Link has the linked queue of messages on a heap of message
  objects and shows that it is a bounded queue; Net has the nodes, the commands and the phases that
  move messages and serve commands, with links as lists; Routing shows that each hop exists and comes nearer to
  the target, so that messages arrive in as many hops as the nodes are apart. NetStep is the
  abstract view of the network: a step relation with one rule for each thing that can happen to a message
  or a command (forward, deliver, transmit; send, accept, acknowledged), and the well-formedness
  \<open>net_ok\<close> that each rule keeps. NetRefine and NetCycle show that a call of \<open>Net_execute\<close> is a
  sequence of such steps, so that what holds of the rules holds of the code: no undefined behaviour, no
  message lost or doubled (NetCycle), the rendezvous protocol, what an input receives and what a report of deadlock
  means (Rendezvous), messages that come to rest (NetRest). NetFacts holds the lemmas on
  updates of nodes and mailboxes, NetAlt the search of the alternative command, given the number of nodes as its
  bound as it stops when it is back at its start, NetServe its fairness, NetExample networks for the
  concrete instances.

  \<^bold>\<open>Distributed-memory system\<close> (DstbMem, DstbNet; dstbmem.c). DstbMem has creation, loading, the loop over
  processors and network, and interprets the locale of Bank; the network never starts or stops a
  processor, so a run that returns 0 has stopped them all. DstbNet composes the two halves of a round:
  a processor with an operation under way stalls, so it leaves its coprocessor to the network, and
  the rendezvous protocol survives a round under any program that writes existing operations. The
  mailboxes that \<open>create\<close> does not clear are the content that \<open>malloc\<close> returned.

  \<^bold>\<open>Command line\<close> (Options; main.c, simutil.h). The options as \<open>getopt\<close> returns them, \<open>strtoul\<close> and \<open>strtok\<close> of
  the C library, the checks of the program file, and the exit status.

  \<^bold>\<open>Reports\<close> (Report; \<open>perfct\<close> of shrmem.c and dstbmem.c). The text of the tables of performance counters, as
  the calls of \<open>dprintf\<close> write it with the format strings of the code: read as comma-separated values, each
  column has the counter that its head names; and the name of the file, which can overflow its buffer.

  \<^bold>\<open>Example programs\<close> (Sem, Dining, ProdCons, ProdConsInv, ProdCons2, ProdCons2Inv, ProdCons2End, DDining,
  DDiningInv, DDiningEnd, DProdCons, DProdConsInv, with Count and Ring; examples/src). The guests of the simulator
  rest on what it provides, and so do their models. Sem has the semaphores of libsem as the LL/SC loops
  that they are, on the shared memory of Mem under every interleaving of the accesses, and shows that they
  count. On that ground the programs for shared memory take a call of \<open>Sem_P\<close> or \<open>Sem_V\<close>, or the code between two
  calls, as one step: dining-philosophers.c (Dining), producer-consumer.c (ProdCons) and
  producer-consumerv2.c (ProdCons2). The programs for distributed memory take an output together with the input or
  alternative that accepts it as one step, the rendezvous that Rendezvous shows of the network:
  d_dining-philosophers.c (DDining), d_producer-consumer.c and d_producer-consumerv2.c (DProdCons). A run is a list of
  processor numbers, or of messages, so the theorems hold for every schedule; a step that is not possible is
  \<open>None\<close>. Each program comes with an invariant that every step keeps and a measure that every step decreases:
  no deadlock, an end within a bound, and what is delivered. The dining philosophers by messages refine those with
  semaphores. The rings are bounded queues, the locale \<open>channel\<close> of Ring, which the producers and consumers use.
  Three programs do less than they mean to, and the theorems say what: in producer-consumerv2.c a
  producer that finds the ring full loses its item, d_producer-consumerv2.c reads an empty ring, and the check
  of \<open>MAXELEM\<close> lets sizes pass that are no power of two. The macros of the programs are parameters.

  \<^bold>\<open>Library of the examples\<close> (Comm, CommNet, CommRun, CommAlt, CommAltRun, Letter, Support; libcomm,
  libcommon, start.s, cop2.h). The routines are lists of instructions of Isa in the memory of a processor;
  \<open>cycles\<close> runs it, and \<open>goes\<close> says what a number of cycles makes of the part of the machine that a
  program sees. Comm has the enumerations of cop2.h and the three communication routines: up to the wait,
  the wait however long it takes, and the return. CommNet adds the network: a round taken apart, what it
  leaves of a node that waits, the offer of a sender until it is acknowledged, and that an input takes
  exactly the offered datum. CommRun composes them to the end-to-end property: what the caller of
  \<open>C2_output\<close> has in \<open>A1\<close> is what the partner's \<open>C2_input\<close> returns in \<open>V0\<close>, with processors, network
  and other nodes running. CommAlt and CommAltRun do the same for \<open>C2_alt\<close>: it returns -1 only with a default
  clause, or a clause whose node was in its output to the caller, and stores that node's datum where \<open>A2\<close>
  says, if this is a word of the memory other than the output device and the end of the routine. \<open>awaits\<close>
  and \<open>alternates\<close> relate the states before and after the rounds of an input or alternative, whose
  number is not bounded here. Letter has the system of two nodes on which both are shown to apply.
  Support has the start-up code, which gives every processor a stack of its own, the loop of busywait with
  its exact number of cycles, rem, processor_id, and the computation of xorshift32, a permutation that
  fixes only 0, which the routine computes only because the simulator's SRA shifts in zeros.

  \<^bold>\<open>Not modelled.\<close> The printed warnings, the opening and closing of the report files, the releases of
  memory, the INSTRDUMP build, the scripts, and of the examples hello.c, null.c, and the routines randu,
  putchar and printhex and the memory accesses of xorshift32: they use macros of the assembler (la, move,
  beqz, addresses beyond 15 bits) whose expansion is not in the repository.
\<close>

end
